(* ===== verification/Prelude.thy ===== *)
theory Prelude
  imports Main "HOL-Library.Word" "HOL-Library.Monad_Syntax"
begin

text \<open>
  Shared vocabulary of the development: the machine types of the C++ code, ASCII literals as
  UTF-16 code units, C strings, and the list lemmas the component theories share.

  \<^item> \<open>u8\<close>, \<open>u16\<close>, \<open>u32\<close>, \<open>u64\<close> are the C++ types \<open>uint8_t\<close>, \<open>char16_t\<close>, \<open>uint32_t\<close>, \<open>uint64_t\<close>;
    sizes and indices (\<open>size_t\<close>) are \<open>nat\<close>.
  \<^item> \<open>u16s\<close> turns an ASCII literal into the code units it denotes.
  \<^item> \<open>c_string\<close> is what \<open>strlen\<close>-based code sees of a byte block: the bytes before the first NUL.
  \<^item> A process that ends (\<open>abort()\<close>, an out-of-bounds read) is the value \<open>None\<close> of an option.
\<close>

unbundle bit_operations_syntax

type_synonym u8 = "8 word"
type_synonym u16 = "16 word"
type_synonym u32 = "32 word"
type_synonym u64 = "64 word"

named_theorems run_simps \<open>unfolding rules of state-passing operations\<close>
named_theorems frame_simps \<open>what an operation leaves unchanged\<close>

definition ascii_u16 :: "char \<Rightarrow> u16" where
  "ascii_u16 c = of_nat (of_char c)"

definition u16s :: "string \<Rightarrow> u16 list" where
  "u16s s = map ascii_u16 s"

definition ascii_u8 :: "char \<Rightarrow> u8" where
  "ascii_u8 c = of_nat (of_char c)"

definition u8s :: "string \<Rightarrow> u8 list" where
  "u8s s = map ascii_u8 s"

lemma u16s_simps [simp]:
  "u16s [] = []" "u16s (c # s) = ascii_u16 c # u16s s" "u16s (s @ t) = u16s s @ u16s t"
  by (simp_all add: u16s_def)

lemma length_u16s [simp]: "length (u16s s) = length s"
  by (simp add: u16s_def)

lemma u8s_simps [simp]: "u8s [] = []" "u8s (c # s) = ascii_u8 c # u8s s"
  by (simp_all add: u8s_def)

text \<open>The bytes before the terminating NUL: \<open>strlen\<close> is the length of this list.\<close>

definition c_string :: "u8 list \<Rightarrow> u8 list" where
  "c_string bs = takeWhile (\<lambda>b. b \<noteq> 0) bs"

definition strlen :: "u8 list \<Rightarrow> nat" where
  "strlen bs = length (c_string bs)"

lemma c_string_append_nul [simp]: "0 \<notin> set bs \<Longrightarrow> c_string (bs @ 0 # rest) = bs"
  unfolding c_string_def by (subst takeWhile_append2) auto

lemma c_string_cut: "c_string (bs @ 0 # rest) = c_string bs"
  by (induction bs) (auto simp: c_string_def)

lemma c_string_no_nul: "0 \<notin> set (c_string bs)"
  by (auto simp: c_string_def dest: set_takeWhileD)

text \<open>Reading and writing an array, with the bounds checked.\<close>

definition rd :: "'a list \<Rightarrow> nat \<Rightarrow> 'a option" where
  "rd xs i = (if i < length xs then Some (xs ! i) else None)"

definition wr :: "'a list \<Rightarrow> nat \<Rightarrow> 'a \<Rightarrow> 'a list option" where
  "wr xs i x = (if i < length xs then Some (xs[i := x]) else None)"

text \<open>Overwriting the front of a memory block.\<close>

definition overwrite :: "'a list \<Rightarrow> 'a list \<Rightarrow> 'a list" where
  "overwrite new old = new @ drop (length new) old"

lemma length_overwrite [simp]: "length new \<le> length old \<Longrightarrow> length (overwrite new old) = length old"
  by (simp add: overwrite_def)

lemma overwrite_exact:
  assumes "length old = Suc (length new)"
  shows "(overwrite new old)[length new := x] = new @ [x]"
proof -
  have "length (drop (length new) old) = Suc 0"
    using assms by simp
  then obtain y where "drop (length new) old = [y]"
    unfolding length_Suc_conv by blast
  then show ?thesis by (simp add: overwrite_def)
qed

text \<open>Splitting a list at the first element that fails a test.\<close>

lemma dropWhile_length_le: "length (dropWhile P xs) \<le> length xs"
  by (induction xs) auto

lemma dropWhile_Cons_length_less: "dropWhile P xs = y # ys \<Longrightarrow> length ys < length xs"
  using dropWhile_length_le [of P xs] by simp

lemma list_all_takeWhile_append:
  "list_all P xs \<Longrightarrow> takeWhile P (xs @ ys) = xs @ takeWhile P ys"
  by (induction xs) auto

lemma list_all_dropWhile_append: "list_all P xs \<Longrightarrow> dropWhile P (xs @ ys) = dropWhile P ys"
  by (induction xs) auto

lemma bind_eq_SomeE:
  assumes "Option.bind m f = Some y"
  obtains x where "m = Some x" and "f x = Some y"
  using assms by (auto simp: bind_eq_Some_conv)

text \<open>Words read as numbers: masks, fields, shifts and disjoint disjunctions.\<close>

lemma unat_and_mask: "unat (v AND mask n :: 'a::len word) = unat v mod 2 ^ n"
  by (simp only: take_bit_eq_mask [symmetric] unsigned_take_bit_eq take_bit_eq_mod [where 'a = nat])

lemma or_disjoint:
  assumes "unat x < 2 ^ n"
  shows "push_bit n y OR x = push_bit n y + (x :: 'a::len word)"
proof (rule disjunctive_add [symmetric])
  fix m
  have "\<not> bit x m" if "n \<le> m"
  proof -
    have "take_bit n x = x"
      using assms by (metis word_unat_eq_iff unsigned_take_bit_eq take_bit_nat_eq_self)
    then show ?thesis using that by (metis bit_take_bit_iff not_less)
  qed
  then show "\<not> bit (push_bit n y) m \<or> \<not> bit x m"
    by (auto simp: bit_push_bit_iff)
qed

lemma unat_push_or:
  assumes "unat y * 2 ^ n + unat x < 2 ^ LENGTH('a)" and "unat x < 2 ^ n"
  shows "unat (push_bit n y OR x :: 'a::len word) = unat y * 2 ^ n + unat x"
proof -
  have "unat (push_bit n y) = unat y * 2 ^ n"
    using assms(1) by (simp add: unsigned_push_bit_eq push_bit_eq_mult [where 'a = nat] take_bit_nat_eq_self)
  then show ?thesis
    using assms by (simp only: or_disjoint unat_word_ariths) simp
qed

lemma unat_drop: "unat (drop_bit n v) = unat v div 2 ^ n"
  by (simp only: unat_drop_bit_eq drop_bit_eq_div [where 'a = nat])


lemma unat_and_field:
  "unat (w AND push_bit k (mask m) :: 'a::len word) = unat w div 2 ^ k mod 2 ^ m * 2 ^ k"
proof -
  have eq: "w AND push_bit k (mask m) = push_bit k (drop_bit k w AND mask m)" (is "_ = push_bit k ?x")
    by (rule bit_word_eqI) (auto simp: bit_and_iff bit_push_bit_iff bit_drop_bit_eq)
  have x: "unat ?x = unat w div 2 ^ k mod 2 ^ m"
    by (simp only: unat_and_mask unat_drop)
  have "unat w div 2 ^ k mod 2 ^ m * 2 ^ k \<le> unat w"
    by (meson div_times_less_eq_dividend mod_less_eq_dividend mult_le_mono1 order_trans)
  then have "unat ?x * 2 ^ k < 2 ^ LENGTH('a)"
    unfolding x by (meson le_less_trans unsigned_less)
  then show ?thesis
    unfolding eq x [symmetric]
    by (simp only: unsigned_push_bit_eq push_bit_eq_mult [where 'a = nat] take_bit_nat_eq_self)
qed

lemma div_eq_range: "0 < n \<Longrightarrow> (x div n = k) = (k * n \<le> x \<and> x < Suc k * n)" for x :: nat
  by (metis div_less_iff_less_mult less_Suc_eq_le less_eq_div_iff_mult_less_eq order_antisym_conv order_refl)

text \<open>Decimal notation, most significant digit first.\<close>

fun dec_digits :: "nat \<Rightarrow> nat list" where
  "dec_digits n = (if n < 10 then [n] else dec_digits (n div 10) @ [n mod 10])"

declare dec_digits.simps [simp del]

definition dec_value :: "nat list \<Rightarrow> nat" where
  "dec_value ds = foldl (\<lambda>a d. 10 * a + d) 0 ds"

lemma dec_value_snoc [simp]: "dec_value (ds @ [d]) = 10 * dec_value ds + d"
  by (simp add: dec_value_def)

lemma dec_value_digits [simp]: "dec_value (dec_digits n) = n"
proof (induction n rule: dec_digits.induct)
  case (1 n)
  show ?case
  proof (cases "n < 10")
    case True
    then show ?thesis by (simp add: dec_digits.simps [of n] dec_value_def)
  next
    case False
    then show ?thesis using 1 by (simp add: dec_digits.simps [of n])
  qed
qed

lemma dec_value_Cons: "dec_value (d # ds) = d * 10 ^ length ds + dec_value ds"
proof (induction ds rule: rev_induct)
  case (snoc x ds)
  have "dec_value (d # ds @ [x]) = dec_value ((d # ds) @ [x])" by simp
  also have "\<dots> = 10 * dec_value (d # ds) + x" by (rule dec_value_snoc)
  finally show ?case using snoc by simp
qed (simp add: dec_value_def)

lemma dec_value_Nil [simp]: "dec_value [] = 0"
  by (simp add: dec_value_def)

lemma dec_value_less: "list_all (\<lambda>d. d < 10) ds \<Longrightarrow> dec_value ds < 10 ^ length ds"
proof (induction ds)
  case (Cons d ds)
  then have "d * 10 ^ length ds + dec_value ds < d * 10 ^ length ds + 10 ^ length ds" by simp
  also have "\<dots> = (d + 1) * 10 ^ length ds" by simp
  also have "\<dots> \<le> 10 * 10 ^ length ds" using Cons.prems by (intro mult_right_mono) auto
  finally show ?case by (simp add: dec_value_Cons)
qed simp

lemma dec_digits_range: "list_all (\<lambda>d. d < 10) (dec_digits n)"
  by (induction n rule: dec_digits.induct)
    (subst dec_digits.simps, auto)

lemma dec_digits_not_Nil [simp]: "dec_digits n \<noteq> []"
  by (subst dec_digits.simps) auto

lemma dec_digits_hd: "0 < n \<Longrightarrow> hd (dec_digits n) \<noteq> 0"
proof (induction n rule: dec_digits.induct)
  case (1 n)
  show ?case
  proof (cases "n < 10")
    case True
    then show ?thesis using 1 by (simp add: dec_digits.simps [of n])
  next
    case False
    then have "0 < n div 10" by simp
    then show ?thesis using 1 False by (simp add: dec_digits.simps [of n])
  qed
qed

lemma dec_digits_zero [simp]: "dec_digits 0 = [0]"
  by (simp add: dec_digits.simps)

text \<open>\<open>printf("%d", n)\<close>.\<close>

definition int_to_u8s :: "int \<Rightarrow> u8 list" where
  "int_to_u8s n = (if n < 0 then [0x2D] else []) @ map (\<lambda>d. 0x30 + of_nat d) (dec_digits (nat \<bar>n\<bar>))"

text \<open>Sequencing of fallible steps: the first error wins.\<close>

fun and_then :: "'e + 'a \<Rightarrow> ('a \<Rightarrow> 'e + 'b) \<Rightarrow> 'e + 'b" where
  "and_then (Inl e) f = Inl e"
| "and_then (Inr x) f = f x"

lemma and_then_Inr: "and_then r f = Inr y \<longleftrightarrow> (\<exists>x. r = Inr x \<and> f x = Inr y)"
  by (cases r) auto

lemma and_then_Inl: "and_then r f = Inl e \<longleftrightarrow> r = Inl e \<or> (\<exists>x. r = Inr x \<and> f x = Inl e)"
  by (cases r) auto

end
