(* ===== verification/CharacterEncoding.thy ===== *)
theory CharacterEncoding
  imports Prelude
begin

text \<open>
  The UTF-8 conversions of \<open>js/src/vm/CharacterEncoding.cpp\<close> and \<open>OneUcs4ToUtf8Char\<close> of
  \<open>js/src/jsstr.cpp\<close>: the bridge sends every JavaScript string to Java through them.
\<close>

section \<open>Encoding one code point\<close>

text \<open>\<open>while (a) { a >>= 5; utf8Length++; }\<close>\<close>

lemma unat_drop_bit_less:
  assumes "a \<noteq> 0" and "0 < n"
  shows "unat (drop_bit n a) < unat (a :: 'a::len word)"
proof -
  have "unat (drop_bit n a) = unat a div 2 ^ n"
    by (simp only: unat_drop_bit_eq drop_bit_eq_div [where 'a = nat])
  moreover have "0 < unat a" and "1 < (2::nat) ^ n"
    using assms one_less_power [of "2::nat" n] by (auto simp: unat_gt_0)
  ultimately show ?thesis by simp
qed

function utf8_length_loop :: "u32 \<Rightarrow> nat \<Rightarrow> nat" where
  "utf8_length_loop a n = (if a = 0 then n else utf8_length_loop (drop_bit 5 a) (Suc n))"
  by pat_completeness auto
termination
  by (relation "measure (\<lambda>(a, n). unat a)") (simp_all add: unat_drop_bit_less del: unat_drop_bit_eq)

declare utf8_length_loop.simps [simp del]

text \<open>\<open>while (--i) { utf8Buffer[i] = (ucs4Char & 0x3F) | 0x80; ucs4Char >>= 6; }\<close>\<close>

fun utf8_write_loop :: "nat \<Rightarrow> u32 \<Rightarrow> u8 list \<Rightarrow> u32 \<times> u8 list" where
  "utf8_write_loop 0 c buf = (c, buf)"
| "utf8_write_loop (Suc i) c buf =
     (if i = 0 then (c, buf)
      else utf8_write_loop i (drop_bit 6 c) (buf[i := ucast ((c AND 0x3F) OR 0x80)]))"

definition OneUcs4ToUtf8Char :: "u8 list \<Rightarrow> u32 \<Rightarrow> u8 list \<times> nat" where
  "OneUcs4ToUtf8Char utf8Buffer ucs4Char =
     (if ucs4Char < 0x80 then (utf8Buffer[0 := ucast ucs4Char], 1)
      else
        let utf8Length = utf8_length_loop (drop_bit 11 ucs4Char) 2;
            (c, buf) = utf8_write_loop utf8Length ucs4Char utf8Buffer
        in (buf[0 := ucast (0x100 - push_bit (8 - utf8Length) 1 + c)], utf8Length))"

section \<open>Deflating UTF-16 to UTF-8\<close>

definition UTF8_REPLACEMENT_CHAR :: u32 where
  "UTF8_REPLACEMENT_CHAR = 0xFFFD"

text \<open>\<open>((c - 0xD800) << 10) + (c2 - 0xDC00) + 0x10000\<close>\<close>

definition join_surrogates :: "u16 \<Rightarrow> u16 \<Rightarrow> u32" where
  "join_surrogates c c2 = push_bit 10 (ucast c - 0xD800) + (ucast c2 - 0xDC00) + 0x10000"

text \<open>The code point at the front of a UTF-16 sequence, and what is left of it.\<close>

fun read_code_point :: "u16 \<Rightarrow> u16 list \<Rightarrow> u32 \<times> u16 list" where
  "read_code_point c src =
     (if 0xDC00 \<le> c \<and> c \<le> 0xDFFF then (UTF8_REPLACEMENT_CHAR, src)
      else if c < 0xD800 \<or> 0xDBFF < c then (ucast c, src)
      else case src of
          [] \<Rightarrow> (UTF8_REPLACEMENT_CHAR, src)
        | c2 # src' \<Rightarrow>
            if c2 < 0xDC00 \<or> 0xDFFF < c2 then (UTF8_REPLACEMENT_CHAR, src)
            else (join_surrogates c c2, src'))"

declare read_code_point.simps [simp del]

text \<open>The bytes one code point contributes: the ASCII shortcut or the four-byte buffer.\<close>

definition code_point_bytes :: "u32 \<Rightarrow> u8 list" where
  "code_point_bytes v =
     (if v < 0x80 then [ucast v]
      else let (buf, n) = OneUcs4ToUtf8Char [0, 0, 0, 0] v in take n buf)"

text \<open>
  The loop of \<open>DeflateStringToUTF8Buffer\<close>. \<open>capacity\<close> is \<open>None\<close> when \<open>dstlenp\<close> is null. The result
  is the bytes written, the final \<open>*dstlenp\<close> and the final \<open>*numcharsp\<close>.
\<close>

lemma read_code_point_shrinks: "length (snd (read_code_point c src)) \<le> length src"
  by (auto simp: read_code_point.simps split: list.split)

function deflate_loop :: "nat option \<Rightarrow> u16 list \<Rightarrow> u8 list \<Rightarrow> nat \<Rightarrow> nat \<Rightarrow> u8 list \<times> nat \<times> nat" where
  "deflate_loop capacity [] dst dstlen numchars = (dst, dstlen, numchars)"
| "deflate_loop capacity (c # src) dst dstlen numchars =
     (let v = fst (read_code_point c src);
          src' = snd (read_code_point c src);
          bytes = code_point_bytes v
      in if capacity \<noteq> None \<and> the capacity < dstlen + length bytes then (dst, dstlen, numchars)
         else deflate_loop capacity src' (dst @ bytes) (dstlen + length bytes) (Suc numchars))"
  by pat_completeness auto
termination
  by (relation "measure (\<lambda>(cap, src, dst, n, k). length src)")
    (auto simp: read_code_point_shrinks le_imp_less_Suc)

definition DeflateStringToUTF8Buffer :: "u16 list \<Rightarrow> nat option \<Rightarrow> u8 list \<times> nat \<times> nat" where
  "DeflateStringToUTF8Buffer src capacity = deflate_loop capacity src [] 0 0"

text \<open>
  The length computation. \<open>nbytes\<close> starts at the number of code units, so every code unit
  only adds what it takes beyond one byte.
\<close>

fun utf8_length_from :: "u16 list \<Rightarrow> nat \<Rightarrow> nat" where
  "utf8_length_from [] nbytes = nbytes"
| "utf8_length_from (c # chars) nbytes =
     (if c < 0x80 then utf8_length_from chars nbytes
      else if 0xD800 \<le> c \<and> c \<le> 0xDFFF then
        (if 0xDC00 \<le> c then utf8_length_from chars (nbytes + 2)
         else case chars of
             [] \<Rightarrow> nbytes + 2
           | c2 # chars' \<Rightarrow>
               if c2 < 0xDC00 \<or> 0xDFFF < c2 then utf8_length_from chars (nbytes + 2)
               else utf8_length_from chars'
                      (utf8_length_loop (drop_bit 11 (join_surrogates c c2)) (nbytes - 1 + 1)))
      else utf8_length_from chars (utf8_length_loop (drop_bit 11 (ucast c)) (nbytes + 1)))"

definition GetDeflatedUTF8StringLength :: "u16 list \<Rightarrow> nat" where
  "GetDeflatedUTF8StringLength chars = utf8_length_from chars (length chars)"

text \<open>
  \<open>malloc\<close> gives a block of the requested size with unknown contents, or null: an argument of
  the model, as the allocator is.
\<close>

type_synonym malloc = "nat \<Rightarrow> u8 list option"

definition malloc_ok :: "malloc \<Rightarrow> bool" where
  "malloc_ok m \<longleftrightarrow> (\<forall>n. \<exists>block. m n = Some block \<and> length block = n)"

definition CharsToNewUTF8CharsZ :: "malloc \<Rightarrow> u16 list \<Rightarrow> u8 list option" where
  "CharsToNewUTF8CharsZ malloc chars =
     (let len = GetDeflatedUTF8StringLength chars in
      case malloc (len + 1) of
        None \<Rightarrow> None
      | Some utf8 \<Rightarrow>
          Some ((overwrite (fst (DeflateStringToUTF8Buffer chars None)) utf8)[len := 0]))"

section \<open>Reading one code point back\<close>

definition INVALID_UTF8 :: u32 where
  "INVALID_UTF8 = 0xFFFFFFFF"

definition minucs4Table :: "u32 list" where
  "minucs4Table = [0x80, 0x800, 0x10000]"

text \<open>\<open>while (--utf8Length) { ucs4Char = (ucs4Char << 6) | (*utf8Buffer++ & 0x3F); }\<close>: one turn per
  continuation byte.\<close>

fun utf8_read_loop :: "nat \<Rightarrow> u8 list \<Rightarrow> u32 \<Rightarrow> u32" where
  "utf8_read_loop (Suc n) (b # bs) ucs4Char =
     utf8_read_loop n bs (push_bit 6 ucs4Char OR (ucast b AND 0x3F))"
| "utf8_read_loop _ _ ucs4Char = ucs4Char"

definition Utf8ToOneUcs4Char :: "u8 list \<Rightarrow> nat \<Rightarrow> u32" where
  "Utf8ToOneUcs4Char utf8Buffer utf8Length =
     (if utf8Length = 1 then ucast (hd utf8Buffer)
      else
        let minucs4Char = minucs4Table ! (utf8Length - 2);
            ucs4Char = utf8_read_loop (utf8Length - 1) (tl utf8Buffer)
                         (ucast (hd utf8Buffer) AND (push_bit (7 - utf8Length) 1 - 1))
        in if ucs4Char < minucs4Char \<or> (0xD800 \<le> ucs4Char \<and> ucs4Char \<le> 0xDFFF) then INVALID_UTF8
           else ucs4Char)"

section \<open>Inflating UTF-8 to UTF-16 or Latin-1\<close>

datatype InflateUTF8Action =
  CountAndReportInvalids | CountAndIgnoreInvalids | AssertNoInvalids | Copy | FindEncoding

datatype SmallestEncoding = ASCII | Latin1 | UTF16

text \<open>The enum's order, which the code uses through \<open>std::max\<close>.\<close>

fun encoding_rank :: "SmallestEncoding \<Rightarrow> nat" where
  "encoding_rank ASCII = 0"
| "encoding_rank Latin1 = 1"
| "encoding_rank UTF16 = 2"

instantiation SmallestEncoding :: linorder
begin

definition less_eq_SmallestEncoding :: "SmallestEncoding \<Rightarrow> SmallestEncoding \<Rightarrow> bool" where
  "less_eq_SmallestEncoding a b \<longleftrightarrow> encoding_rank a \<le> encoding_rank b"

definition less_SmallestEncoding :: "SmallestEncoding \<Rightarrow> SmallestEncoding \<Rightarrow> bool" where
  "less_SmallestEncoding a b \<longleftrightarrow> encoding_rank a < encoding_rank b"

instance
proof
  fix a b c :: SmallestEncoding
  show "a \<le> b \<Longrightarrow> b \<le> a \<Longrightarrow> a = b"
    by (cases a; cases b) (simp_all add: less_eq_SmallestEncoding_def)
qed (auto simp: less_eq_SmallestEncoding_def less_SmallestEncoding_def)

end

definition RequireLatin1 :: "SmallestEncoding \<Rightarrow> SmallestEncoding" where
  "RequireLatin1 smallestEncoding = max Latin1 smallestEncoding"

definition RequireUTF16 :: "SmallestEncoding \<Rightarrow> SmallestEncoding" where
  "RequireUTF16 smallestEncoding = UTF16"

text \<open>The template argument \<open>CharT\<close> and the conversion \<open>CharT(v)\<close>, which keeps the low bits.\<close>

datatype char_type = Latin1Char | Char16

fun CharT :: "char_type \<Rightarrow> u32 \<Rightarrow> u16" where
  "CharT Latin1Char v = ucast v AND 0xFF"
| "CharT Char16 v = ucast v"

definition REPLACE_UTF8 :: u32 where
  "REPLACE_UTF8 = 0xFFFD"

text \<open>
  The unit \<open>INVALID\<close> stores when copying. The source tests
  \<open>std::is_same<decltype(dst[0]), Latin1Char>\<close>; \<open>decltype(dst[0])\<close> is the reference type
  \<open>Latin1Char&\<close>, so the test is false for both instances and \<open>REPLACE_UTF8\<close> is stored.
\<close>

definition invalid_replacement :: "char_type \<Rightarrow> u16" where
  "invalid_replacement ct = CharT ct REPLACE_UTF8"

datatype inflate_error =
  ReportInvalidCharacter nat | ReportBufferTooSmall | ReportTooBigCharacter u32 | InvalidUTF8Crash

text \<open>\<open>while (v & (0x80 >> n)) n++\<close>; the mask is zero from \<open>n = 8\<close> on.\<close>

function lead_ones :: "u32 \<Rightarrow> nat \<Rightarrow> nat" where
  "lead_ones v n = (if n < 8 \<and> v AND drop_bit n 0x80 \<noteq> 0 then lead_ones v (Suc n) else n)"
  by pat_completeness auto
termination
  by (relation "measure (\<lambda>(v, n). 8 - n)") auto

declare lead_ones.simps [simp del]

text \<open>The second-byte test of Table 3-7 of the Unicode standard.\<close>

definition bad_second_byte :: "u32 \<Rightarrow> u8 \<Rightarrow> bool" where
  "bad_second_byte v b \<longleftrightarrow>
     (v = 0xE0 \<and> b AND 0xE0 \<noteq> 0xA0) \<or> (v = 0xED \<and> b AND 0xE0 \<noteq> 0x80) \<or>
     (v = 0xF0 \<and> b AND 0xF0 = 0x80) \<or> (v = 0xF4 \<and> b AND 0xF0 \<noteq> 0x80)"

text \<open>
  One turn of the loop at a non-ASCII byte: the function returns (a report, or early under
  \<open>FindEncoding\<close>), or skips \<open>n\<close> bytes having produced some code units.
\<close>

datatype inflate_step = Fail inflate_error | Return SmallestEncoding | Advance nat "u16 list" SmallestEncoding

text \<open>The macro \<open>INVALID(report, arg, n2)\<close> and the code at its label.\<close>

definition INVALID ::
  "InflateUTF8Action \<Rightarrow> char_type \<Rightarrow> SmallestEncoding \<Rightarrow> inflate_error \<Rightarrow> nat \<Rightarrow> inflate_step" where
  "INVALID action ct enc report n2 =
     (if action = CountAndReportInvalids then Fail report
      else if action = AssertNoInvalids then Fail InvalidUTF8Crash
      else Advance n2 [invalid_replacement ct] (RequireUTF16 enc))"

text \<open>The code units of \<open>CharT\<close> a decoded value takes.\<close>

definition code_units_of :: "char_type \<Rightarrow> u32 \<Rightarrow> u16 list" where
  "code_units_of ct v =
     (if v < 0x10000 then [CharT ct v]
      else let w = v - 0x10000
           in [CharT ct (drop_bit 10 w + 0xD800), CharT ct ((w AND 0x3FF) + 0xDC00)])"

text \<open>\<open>rest\<close> is \<open>src\<close> from index \<open>i\<close> on.\<close>

definition inflate_multibyte ::
  "InflateUTF8Action \<Rightarrow> char_type \<Rightarrow> nat \<Rightarrow> u8 list \<Rightarrow> SmallestEncoding \<Rightarrow> inflate_step" where
  "inflate_multibyte action ct i rest enc =
     (let v = ucast (rest ! 0); n = lead_ones v 1 in
      if n < 2 \<or> 4 < n then INVALID action ct enc (ReportInvalidCharacter i) 1
      else if length rest < n then INVALID action ct enc ReportBufferTooSmall 1
      else if bad_second_byte v (rest ! 1) then INVALID action ct enc (ReportInvalidCharacter i) 1
      else case find (\<lambda>m. rest ! m AND 0xC0 \<noteq> 0x80) [1..<n] of
          Some m \<Rightarrow> INVALID action ct enc (ReportInvalidCharacter i) m
        | None \<Rightarrow>
            let c = Utf8ToOneUcs4Char rest n;
                enc' = (if action = AssertNoInvalids then enc
                        else if 0xFF < c then RequireUTF16 enc else RequireLatin1 enc)
            in if action = FindEncoding \<and> 0xFF < c then Return enc'
               else if 0x10000 \<le> c \<and> 0xFFFFF < c - 0x10000
                 then INVALID action ct enc' (ReportTooBigCharacter (c - 0x10000)) 1
               else Advance n (code_units_of ct c)
                      (if action = AssertNoInvalids then enc' else RequireUTF16 enc'))"

lemma find_upt_Some: "find P [Suc 0..<n] = Some m \<Longrightarrow> 0 < m \<and> m < n"
proof -
  assume "find P [Suc 0..<n] = Some m"
  then have "m \<in> set [Suc 0..<n]" by (metis find_Some_iff nth_mem)
  then show ?thesis by auto
qed

lemma inflate_multibyte_advances:
  "inflate_multibyte action ct i rest enc = Advance n units enc' \<Longrightarrow> 0 < n"
  by (auto simp: inflate_multibyte_def INVALID_def Let_def split: if_splits option.splits
      dest: find_upt_Some)

text \<open>
  The loop. \<open>dst\<close> is written under \<open>Copy\<close> only; \<open>j\<close> counts the code units under every action.
\<close>

function (sequential) inflate_loop ::
  "InflateUTF8Action \<Rightarrow> char_type \<Rightarrow> nat \<Rightarrow> u8 list \<Rightarrow> u16 list \<Rightarrow> nat \<Rightarrow> SmallestEncoding \<Rightarrow>
   inflate_error + (u16 list \<times> nat \<times> SmallestEncoding)" where
  "inflate_loop action ct i [] dst j enc = Inr (dst, j, enc)"
| "inflate_loop action ct i (b # rest) dst j enc =
     (if b AND 0x80 = 0 then
        inflate_loop action ct (Suc i) rest
          (if action = Copy then dst @ [CharT ct (ucast b)] else dst) (Suc j) enc
      else case inflate_multibyte action ct i (b # rest) enc of
          Fail e \<Rightarrow> Inl e
        | Return enc' \<Rightarrow> Inr (dst, j, enc')
        | Advance n units enc' \<Rightarrow>
            inflate_loop action ct (i + n) (drop (n - 1) rest)
              (if action = Copy then dst @ units else dst) (j + length units) enc')"
  by pat_completeness auto
termination
  by (relation "measure (\<lambda>(action, ct, i, rest, dst, j, enc). length rest)") auto

definition InflateUTF8StringToBuffer ::
  "InflateUTF8Action \<Rightarrow> char_type \<Rightarrow> u8 list \<Rightarrow> inflate_error + (u16 list \<times> nat \<times> SmallestEncoding)" where
  "InflateUTF8StringToBuffer action ct src = inflate_loop action ct 0 src [] 0 ASCII"

text \<open>
  \<open>InflateUTF8StringHelper\<close>: count, allocate (\<open>alloc\<close> says whether the allocation succeeds), then copy
  byte by byte when everything was ASCII, or run the loop again under \<open>Copy\<close>. The result is the
  NUL-terminated block, or the reason there is none.
\<close>

datatype helper_error = InflateFailed inflate_error | OutOfMemory

definition InflateUTF8StringHelper ::
  "InflateUTF8Action \<Rightarrow> char_type \<Rightarrow> bool \<Rightarrow> u8 list \<Rightarrow> helper_error + (u16 list \<times> nat)" where
  "InflateUTF8StringHelper action ct alloc src =
     (case InflateUTF8StringToBuffer action ct src of
        Inl e \<Rightarrow> Inl (InflateFailed e)
      | Inr (_, outlen, encoding) \<Rightarrow>
          if \<not> alloc then Inl OutOfMemory
          else if encoding = ASCII then Inr (map (\<lambda>b. CharT ct (ucast b)) src @ [0], outlen)
          else case InflateUTF8StringToBuffer Copy ct src of
              Inl e \<Rightarrow> Inl (InflateFailed e)
            | Inr (dst, outlen', _) \<Rightarrow> Inr (dst @ [0], outlen'))"

definition UTF8CharsToNewTwoByteCharsZ :: "bool \<Rightarrow> u8 list \<Rightarrow> helper_error + (u16 list \<times> nat)" where
  "UTF8CharsToNewTwoByteCharsZ alloc utf8 =
     InflateUTF8StringHelper CountAndReportInvalids Char16 alloc utf8"

definition LossyUTF8CharsToNewTwoByteCharsZ :: "bool \<Rightarrow> u8 list \<Rightarrow> helper_error + (u16 list \<times> nat)" where
  "LossyUTF8CharsToNewTwoByteCharsZ alloc utf8 =
     InflateUTF8StringHelper CountAndIgnoreInvalids Char16 alloc utf8"

definition UTF8CharsToNewLatin1CharsZ :: "bool \<Rightarrow> u8 list \<Rightarrow> helper_error + (u16 list \<times> nat)" where
  "UTF8CharsToNewLatin1CharsZ alloc utf8 =
     InflateUTF8StringHelper CountAndReportInvalids Latin1Char alloc utf8"

definition LossyUTF8CharsToNewLatin1CharsZ :: "bool \<Rightarrow> u8 list \<Rightarrow> helper_error + (u16 list \<times> nat)" where
  "LossyUTF8CharsToNewLatin1CharsZ alloc utf8 =
     InflateUTF8StringHelper CountAndIgnoreInvalids Latin1Char alloc utf8"

definition FindSmallestEncoding :: "u8 list \<Rightarrow> SmallestEncoding" where
  "FindSmallestEncoding utf8 =
     (case InflateUTF8StringToBuffer FindEncoding Char16 utf8 of
        Inl e \<Rightarrow> ASCII
      | Inr (_, _, encoding) \<Rightarrow> encoding)"

definition LossyTwoByteCharsToNewLatin1CharsZ :: "bool \<Rightarrow> u16 list \<Rightarrow> u8 list option" where
  "LossyTwoByteCharsToNewLatin1CharsZ alloc tbchars =
     (if \<not> alloc then None else Some (map ucast tbchars @ [0]))"

text \<open>\<open>StringIsASCII\<close> stops at the terminating NUL, so its argument is the string before it.\<close>

fun StringIsASCII :: "u8 list \<Rightarrow> bool" where
  "StringIsASCII [] = True"
| "StringIsASCII (c # s) = (if c = 0 then True else if c AND 0x80 \<noteq> 0 then False else StringIsASCII s)"

end
