(* ===== verification/CharacterEncodingCorrect.thy ===== *)
theory CharacterEncodingCorrect
  imports CharacterEncoding
begin

text \<open>
  What the UTF-8 conversions guarantee: the encoder computes the standard encoding, its length
  pass and its writing pass agree, the decoder accepts every output of the encoder and returns
  the text (lone surrogates replaced), and the second pass of the decoder fills exactly the
  buffer the first pass asked for.
\<close>

section \<open>The encoder\<close>


lemma unat_and_3F: "unat (v AND 0x3F :: u32) = unat v mod 64"
  using unat_and_mask [of v 6] by (simp add: mask_eq_exp_minus_1)

lemma unat_ucast_u8: "unat (ucast (v :: u32) :: u8) = unat v mod 256"
  by (simp add: unsigned_ucast_eq take_bit_eq_mod)

lemma unat_cont_byte: "unat (ucast ((v AND 0x3F) OR 0x80 :: u32) :: u8) = 128 + unat v mod 64"
proof -
  have m: "unat v mod 64 < 64" by simp
  have "(v AND 0x3F) OR 0x80 = push_bit 7 1 OR (v AND 0x3F)"
    by (simp add: or.commute)
  moreover have "unat (push_bit 7 1 OR (v AND 0x3F) :: u32) = unat (1::u32) * 2 ^ 7 + unat (v AND 0x3F :: u32)"
    by (rule unat_push_or) (use m in \<open>simp_all add: unat_and_3F del: push_bit_of_1\<close>)
  ultimately have "unat ((v AND 0x3F) OR 0x80 :: u32) = 128 + unat v mod 64"
    by (simp add: unat_and_3F)
  then show ?thesis
    using m by (simp add: unat_ucast_u8)
qed

fun utf8_spec :: "nat \<Rightarrow> nat list" where
  "utf8_spec v =
     (if v < 0x80 then [v]
      else if v < 0x800 then [0xC0 + v div 64, 0x80 + v mod 64]
      else if v < 0x10000 then [0xE0 + v div 4096, 0x80 + v div 64 mod 64, 0x80 + v mod 64]
      else [0xF0 + v div 262144, 0x80 + v div 4096 mod 64, 0x80 + v div 64 mod 64, 0x80 + v mod 64])"

lemma utf8_length_2: "unat v < 0x800 \<Longrightarrow> utf8_length_loop (drop_bit 11 v) n = n"
  by (subst utf8_length_loop.simps) (simp add: unat_eq_zero[symmetric] unat_drop)

lemma utf8_length_3:
  "unat v < 0x10000 \<Longrightarrow> 0x800 \<le> unat v \<Longrightarrow> utf8_length_loop (drop_bit 11 v) n = Suc n"
  by (subst utf8_length_loop.simps, subst utf8_length_loop.simps)
    (simp add: unat_eq_zero [symmetric] unat_drop div_eq_0_iff div_mult2_eq [symmetric])

lemma utf8_length_4:
  "unat v < 0x200000 \<Longrightarrow> 0x10000 \<le> unat v \<Longrightarrow> utf8_length_loop (drop_bit 11 v) n = Suc (Suc n)"
  by (subst utf8_length_loop.simps, subst utf8_length_loop.simps, subst utf8_length_loop.simps)
    (simp add: unat_eq_zero [symmetric] unat_drop div_eq_0_iff div_mult2_eq [symmetric])

lemma unat_lead_byte:
  assumes "k + unat w < 256" "k < 256"
  shows "unat (ucast (of_nat k + w :: u32) :: u8) = k + unat w"
proof -
  have "unat (of_nat k + w :: u32) = k + unat w"
    using assms by (simp add: unat_word_ariths unsigned_of_nat take_bit_nat_eq_self)
  then show ?thesis using assms by (simp add: unat_ucast_u8)
qed

lemma utf8_write_2:
  "utf8_write_loop 2 c buf = (drop_bit 6 c, buf[1 := ucast ((c AND 0x3F) OR 0x80)])"
  by (simp add: eval_nat_numeral)

lemma utf8_write_3:
  "utf8_write_loop 3 c buf =
     (drop_bit 12 c, buf[2 := ucast ((c AND 0x3F) OR 0x80), 1 := ucast ((drop_bit 6 c AND 0x3F) OR 0x80)])"
proof -
  have "(3::nat) = Suc 2" by simp
  then show ?thesis
    by (simp only: utf8_write_loop.simps utf8_write_2) simp
qed

lemma utf8_write_4:
  "utf8_write_loop 4 c buf =
     (drop_bit 18 c, buf[3 := ucast ((c AND 0x3F) OR 0x80), 2 := ucast ((drop_bit 6 c AND 0x3F) OR 0x80),
                         1 := ucast ((drop_bit 12 c AND 0x3F) OR 0x80)])"
proof -
  have "(4::nat) = Suc 3" by simp
  then show ?thesis
    by (simp only: utf8_write_loop.simps utf8_write_3) simp
qed

lemma code_point_bytes_spec:
  assumes "unat v < 0x110000"
  shows "map unat (code_point_bytes v) = utf8_spec (unat v)"
proof -
  have lt: "v < 0x80 \<longleftrightarrow> unat v < 0x80" by (simp add: word_less_nat_alt)
  note defs = code_point_bytes_def OneUcs4ToUtf8Char_def lt utf8_write_2 utf8_write_3 utf8_write_4 unat_cont_byte
  consider "unat v < 0x80" | "0x80 \<le> unat v" "unat v < 0x800" | "0x800 \<le> unat v" "unat v < 0x10000"
    | "0x10000 \<le> unat v" by linarith
  then show ?thesis
  proof cases
    case 1
    then show ?thesis by (simp add: defs unat_ucast_u8)
  next
    case 2
    then show ?thesis
      using unat_lead_byte [of "0xC0" "drop_bit 6 v"]
      by (simp add: defs utf8_length_2 unat_drop)
  next
    case 3
    then show ?thesis
      using unat_lead_byte [of "0xE0" "drop_bit 12 v"]
      by (simp add: defs utf8_length_3 unat_drop)
  next
    case 4
    then show ?thesis
      using unat_lead_byte [of "0xF0" "drop_bit 18 v"] assms
      by (simp add: defs utf8_length_4 unat_drop)
  qed
qed

lemma u8_less: "unat (b :: u8) < 256"
  using unsigned_less [of b] by simp

lemma u8_high_field:
  assumes "k + m = 8"
  shows "unat (b AND push_bit k (mask m) :: u8) = unat b div 2 ^ k * 2 ^ k"
proof -
  have "unat b < 2 ^ m * 2 ^ k"
    using u8_less [of b] assms by (simp add: power_add [symmetric] add.commute)
  then have "unat b div 2 ^ k < 2 ^ m"
    by (simp add: div_less_iff_less_mult)
  then show ?thesis by (simp add: unat_and_field)
qed

lemma byte_and_80: "(b AND 0x80 = 0) = (unat (b :: u8) < 128)"
  using u8_high_field [of 7 1 b] by (simp add: unat_eq_zero [symmetric] mask_eq_exp_minus_1 div_eq_0_iff)

lemma byte_and_C0: "(b AND 0xC0 = 0x80) = (128 \<le> unat (b :: u8) \<and> unat b < 192)"
  using u8_high_field [of 6 2 b] div_eq_range [of 64 "unat b" 2] by (simp add: word_unat_eq_iff mask_eq_exp_minus_1)

lemma byte_and_E0_A0: "(b AND 0xE0 = 0xA0) = (160 \<le> unat (b :: u8) \<and> unat b < 192)"
  using u8_high_field [of 5 3 b] div_eq_range [of 32 "unat b" 5] by (simp add: word_unat_eq_iff mask_eq_exp_minus_1)

lemma byte_and_E0_80: "(b AND 0xE0 = 0x80) = (128 \<le> unat (b :: u8) \<and> unat b < 160)"
  using u8_high_field [of 5 3 b] div_eq_range [of 32 "unat b" 4] by (simp add: word_unat_eq_iff mask_eq_exp_minus_1)

lemma byte_and_F0_80: "(b AND 0xF0 = 0x80) = (128 \<le> unat (b :: u8) \<and> unat b < 144)"
  using u8_high_field [of 4 4 b] div_eq_range [of 16 "unat b" 8] by (simp add: word_unat_eq_iff mask_eq_exp_minus_1)

lemma unat_ucast_u32: "unat (ucast (b :: u8) :: u32) = unat b"
  by (simp add: unsigned_ucast_eq take_bit_nat_eq_self order_less_trans [OF unsigned_less])

lemma lead_bit:
  assumes "n < 8"
  shows "lead_ones v n = (if unat v div 2 ^ (7 - n) mod 2 = 0 then n else lead_ones v (Suc n))"
proof -
  have "drop_bit n (0x80::u32) = push_bit (7 - n) (mask 1)"
  proof (rule word_unat_eq_iff [THEN iffD2])
    have "(2::nat) ^ 7 div 2 ^ n = 2 ^ (7 - n)"
      using assms by (simp add: power_diff)
    moreover have "(2::nat) ^ (7 - n) < 2 ^ 32"
      by (rule power_strict_increasing) simp_all
    ultimately show "unat (drop_bit n (0x80::u32)) = unat (push_bit (7 - n) (mask 1) :: u32)"
      by (simp add: unat_drop unsigned_push_bit_eq push_bit_eq_mult [where 'a = nat] take_bit_nat_eq_self
          del: push_bit_of_1)
  qed
  then show ?thesis
    using unat_and_field [of v "7 - n" 1] assms
    by (subst lead_ones.simps) (simp add: unat_eq_zero [symmetric])
qed
lemma lead_ones_byte:
  "192 \<le> unat (b :: u8) \<Longrightarrow> unat b < 224 \<Longrightarrow> lead_ones (ucast b) 1 = 2"
  "224 \<le> unat b \<Longrightarrow> unat b < 240 \<Longrightarrow> lead_ones (ucast b) 1 = 3"
  "240 \<le> unat b \<Longrightarrow> unat b < 248 \<Longrightarrow> lead_ones (ucast b) 1 = 4"
proof -
  assume "192 \<le> unat b" "unat b < 224"
  then have "unat b div 64 = 3" "unat b div 32 = 6"
    by (simp_all add: div_eq_range)
  then show "lead_ones (ucast b) 1 = 2"
    by (simp add: lead_bit unat_ucast_u32)
next
  assume "224 \<le> unat b" "unat b < 240"
  then have "unat b div 64 = 3" "unat b div 32 = 7" "unat b div 16 = 14"
    by (simp_all add: div_eq_range)
  then show "lead_ones (ucast b) 1 = 3"
    by (simp add: lead_bit unat_ucast_u32)
next
  assume "240 \<le> unat b" "unat b < 248"
  then have "unat b div 64 = 3" "unat b div 32 = 7" "unat b div 16 = 15" "unat b div 8 = 30"
    by (simp_all add: div_eq_range)
  then show "lead_ones (ucast b) 1 = 4"
    by (simp add: lead_bit unat_ucast_u32)
qed

lemma unat_read_step:
  assumes "unat acc < 2 ^ 20"
  shows "unat (push_bit 6 acc OR (ucast (b :: u8) AND 0x3F) :: u32) = unat acc * 64 + unat b mod 64"
proof -
  have m: "unat b mod 64 < 64" by simp
  then have "unat (push_bit 6 acc OR (ucast b AND 0x3F) :: u32) = unat acc * 2 ^ 6 + unat (ucast b AND 0x3F :: u32)"
    using assms by (intro unat_push_or) (simp_all add: unat_and_3F unat_ucast_u32)
  then show ?thesis by (simp add: unat_and_3F unat_ucast_u32)
qed

lemma unat_ucast_and:
  "unat (ucast (b :: u8) AND 0x1F :: u32) = unat b mod 32"
  "unat (ucast (b :: u8) AND 0xF :: u32) = unat b mod 16"
  "unat (ucast (b :: u8) AND 7 :: u32) = unat b mod 8"
  using unat_and_mask [of "ucast b :: u32" 5] unat_and_mask [of "ucast b :: u32" 4]
    unat_and_mask [of "ucast b :: u32" 3]
  by (simp_all add: mask_eq_exp_minus_1 unat_ucast_u32)

text \<open>What the decoder returns on two, three and four bytes.\<close>

definition ucs4_result :: "nat \<Rightarrow> nat \<Rightarrow> nat" where
  "ucs4_result least v = (if v < least \<or> (0xD800 \<le> v \<and> v \<le> 0xDFFF) then 0xFFFFFFFF else v)"

lemma utf8_read_loop_unat:
  assumes "unat acc < 64"
  shows "unat (utf8_read_loop 1 (b1 # bs) acc) = unat acc * 64 + unat b1 mod 64"
    and "unat (utf8_read_loop 2 (b1 # b2 # bs) acc) =
      unat acc * 4096 + unat b1 mod 64 * 64 + unat b2 mod 64"
    and "unat (utf8_read_loop 3 (b1 # b2 # b3 # bs) acc) =
      unat acc * 262144 + unat b1 mod 64 * 4096 + unat b2 mod 64 * 64 + unat b3 mod 64"
proof -
  have le: "unat b1 mod 64 < 64" "unat b2 mod 64 < 64" by simp_all
  let ?s = "\<lambda>acc b. push_bit 6 acc OR (ucast (b :: u8) AND 0x3F) :: u32"
  have 1: "unat (?s acc b1) = unat acc * 64 + unat b1 mod 64"
    using assms by (simp add: unat_read_step)
  then have 2: "unat (?s (?s acc b1) b2) = unat acc * 4096 + unat b1 mod 64 * 64 + unat b2 mod 64"
    using assms le unat_read_step [of "?s acc b1" b2] by simp
  then have 3: "unat (?s (?s (?s acc b1) b2) b3) =
      unat acc * 262144 + unat b1 mod 64 * 4096 + unat b2 mod 64 * 64 + unat b3 mod 64"
    using assms le unat_read_step [of "?s (?s acc b1) b2" b3] by simp
  have n: "(1::nat) = Suc 0" "(2::nat) = Suc (Suc 0)" "(3::nat) = Suc (Suc (Suc 0))" by simp_all
  show "unat (utf8_read_loop 1 (b1 # bs) acc) = unat acc * 64 + unat b1 mod 64"
    by (simp only: n(1) utf8_read_loop.simps 1)
  show "unat (utf8_read_loop 2 (b1 # b2 # bs) acc) =
      unat acc * 4096 + unat b1 mod 64 * 64 + unat b2 mod 64"
    unfolding n(2) utf8_read_loop.simps by (rule 2)
  show "unat (utf8_read_loop 3 (b1 # b2 # b3 # bs) acc) =
      unat acc * 262144 + unat b1 mod 64 * 4096 + unat b2 mod 64 * 64 + unat b3 mod 64"
    unfolding n(3) utf8_read_loop.simps by (rule 3)
qed

declare utf8_read_loop.simps [simp del]

lemma Utf8ToOneUcs4Char_unat:
  "unat (Utf8ToOneUcs4Char (b0 # b1 # bs) 2) = ucs4_result 0x80 (unat b0 mod 32 * 64 + unat b1 mod 64)"
  "unat (Utf8ToOneUcs4Char (b0 # b1 # b2 # bs) 3) =
     ucs4_result 0x800 (unat b0 mod 16 * 4096 + unat b1 mod 64 * 64 + unat b2 mod 64)"
  "unat (Utf8ToOneUcs4Char (b0 # b1 # b2 # b3 # bs) 4) =
     ucs4_result 0x10000
       (unat b0 mod 8 * 262144 + unat b1 mod 64 * 4096 + unat b2 mod 64 * 64 + unat b3 mod 64)"
proof -
  have le: "unat b0 mod 32 < 64" "unat b0 mod 16 < 64" "unat b0 mod 8 < 64"
    using mod_less_divisor [of 32 "unat b0"] mod_less_divisor [of 16 "unat b0"]
      mod_less_divisor [of 8 "unat b0"] by linarith+
  note defs = Utf8ToOneUcs4Char_def Let_def minucs4Table_def ucs4_result_def INVALID_UTF8_def
    word_less_nat_alt word_le_nat_alt unat_ucast_and
  show "unat (Utf8ToOneUcs4Char (b0 # b1 # bs) 2) = ucs4_result 0x80 (unat b0 mod 32 * 64 + unat b1 mod 64)"
    using le by (simp add: defs utf8_read_loop_unat(1) [unfolded One_nat_def])
  show "unat (Utf8ToOneUcs4Char (b0 # b1 # b2 # bs) 3) =
     ucs4_result 0x800 (unat b0 mod 16 * 4096 + unat b1 mod 64 * 64 + unat b2 mod 64)"
    using le by (simp add: defs utf8_read_loop_unat)
  show "unat (Utf8ToOneUcs4Char (b0 # b1 # b2 # b3 # bs) 4) =
     ucs4_result 0x10000
       (unat b0 mod 8 * 262144 + unat b1 mod 64 * 4096 + unat b2 mod 64 * 64 + unat b3 mod 64)"
    using le by (simp add: defs utf8_read_loop_unat)
qed

definition scalar :: "nat \<Rightarrow> bool" where
  "scalar v \<longleftrightarrow> v < 0x110000 \<and> \<not> (0xD800 \<le> v \<and> v \<le> 0xDFFF)"

lemma base64_2:
  fixes x :: nat
  obtains a b where "x div 64 = a" "x mod 64 = b" "b < 64" "x = a * 64 + b"
  by (rule that [OF refl refl]) simp_all

lemma base64_3:
  fixes x :: nat
  obtains a b c where "x div 4096 = a" "x div 64 mod 64 = b" "x mod 64 = c" "b < 64" "c < 64"
    "x = a * 4096 + b * 64 + c"
proof -
  have "x div 64 = x div 4096 * 64 + x div 64 mod 64"
    using div_mult_mod_eq [of "x div 64" 64] by (simp add: div_mult2_eq [symmetric])
  then have "x = x div 4096 * 4096 + x div 64 mod 64 * 64 + x mod 64"
    using div_mult_mod_eq [of x 64] by linarith
  then show ?thesis using that [OF refl refl refl] by simp
qed

lemma base64_4:
  fixes x :: nat
  obtains a b c d where "x div 262144 = a" "x div 4096 mod 64 = b" "x div 64 mod 64 = c" "x mod 64 = d"
    "b < 64" "c < 64" "d < 64" "x = a * 262144 + b * 4096 + c * 64 + d"
proof -
  have "x div 4096 = x div 262144 * 64 + x div 4096 mod 64"
    using div_mult_mod_eq [of "x div 4096" 64] by (simp add: div_mult2_eq [symmetric])
  moreover obtain c d where cd: "x div 64 mod 64 = c" "x mod 64 = d" "c < 64" "d < 64"
    "x = x div 4096 * 4096 + c * 64 + d"
    by (rule base64_3 [of x]) blast
  ultimately have "x = x div 262144 * 262144 + x div 4096 mod 64 * 4096 + c * 64 + d"
    by linarith
  then show ?thesis using that [OF refl refl cd(1,2)] cd(3,4) by simp
qed

lemma word_eq_ucast_u8: "(ucast (b :: u8) = (w :: u32)) = (unat b = unat w)"
  by (simp add: word_unat_eq_iff unat_ucast_u32)

lemma upt_values: "[1..<2] = [1]" "[1..<3] = [1, 2]" "[1..<4] = [1, 2, 3::nat]"
  by (simp_all add: upt_rec)

lemma continuation_ok:
  assumes "unat (b :: u8) = 128 + x" "x < 64"
  shows "b AND 0xC0 = 0x80" and "unat b mod 64 = x"
  using assms mod_mult_self3 [of 2 64 x] by (simp_all add: byte_and_C0)

lemma lead_byte_mod:
  "y < 32 \<Longrightarrow> (192 + y) mod 32 = (y :: nat)"
  "y < 16 \<Longrightarrow> (224 + y) mod 16 = y"
  "y < 8 \<Longrightarrow> (240 + y) mod 8 = y"
  using mod_mult_self3 [of 6 32 y] mod_mult_self3 [of 14 16 y] mod_mult_self3 [of 30 8 y] by simp_all

lemma inflate_multibyte_decoded:
  assumes "lead_ones (ucast (rest ! 0)) 1 = n" "2 \<le> n" "n \<le> 4" "n \<le> length rest"
    and "\<not> bad_second_byte (ucast (rest ! 0)) (rest ! 1)"
    and "\<forall>m \<in> set [1..<n]. rest ! m AND 0xC0 = 0x80"
    and "Utf8ToOneUcs4Char rest n = c" "\<not> (0x10000 \<le> c \<and> 0xFFFFF < c - 0x10000)"
  shows "inflate_multibyte action ct i rest enc =
    (if action = FindEncoding \<and> 0xFF < c then Return UTF16
     else Advance n (code_units_of ct c) (if action = AssertNoInvalids then enc else UTF16))"
proof -
  have "find (\<lambda>m. rest ! m AND 0xC0 \<noteq> 0x80) [1..<n] = None"
    using assms(6) by (auto simp: find_None_iff)
  then show ?thesis
    using assms(1-5,7,8)
    unfolding inflate_multibyte_def Let_def RequireUTF16_def One_nat_def
    by (cases action) auto
qed

text \<open>The three lengths, with the base-64 digits of the code point as variables.\<close>

lemma decode_2:
  assumes u: "unat (b0 :: u8) = 192 + p" "unat (b1 :: u8) = 128 + q"
    and pq: "2 \<le> p" "p < 32" "q < 64"
    and v: "unat v = p * 64 + q"
  shows "inflate_multibyte action ct i (b0 # b1 # rest) enc =
    (if action = FindEncoding \<and> 0xFF < v then Return UTF16
     else Advance 2 (code_units_of ct v) (if action = AssertNoInvalids then enc else UTF16))"
proof (rule inflate_multibyte_decoded)
  have c: "b1 AND 0xC0 = 0x80" "unat b1 mod 64 = q"
    using continuation_ok [OF u(2)] pq by auto
  show "lead_ones (ucast ((b0 # b1 # rest) ! 0)) 1 = 2"
    unfolding nth_Cons_0 using u pq by (intro lead_ones_byte) simp_all
  show "\<not> bad_second_byte (ucast ((b0 # b1 # rest) ! 0)) ((b0 # b1 # rest) ! 1)"
    using u pq by (simp add: bad_second_byte_def word_eq_ucast_u8)
  show "\<forall>m \<in> set [1..<2]. (b0 # b1 # rest) ! m AND 0xC0 = 0x80"
    unfolding upt_values by (simp add: c)
  show "Utf8ToOneUcs4Char (b0 # b1 # rest) 2 = v"
    unfolding word_unat_eq_iff Utf8ToOneUcs4Char_unat u(1) c lead_byte_mod(1) [OF pq(2)] v
    using pq by (simp add: ucs4_result_def)
  show "\<not> (0x10000 \<le> v \<and> 0xFFFFF < v - 0x10000)"
    using v pq by (simp add: word_le_nat_alt)
qed simp_all

lemma decode_3:
  assumes u: "unat (b0 :: u8) = 224 + p" "unat (b1 :: u8) = 128 + q" "unat (b2 :: u8) = 128 + r"
    and pq: "p < 16" "q < 64" "r < 64"
    and v: "unat v = p * 4096 + q * 64 + r" "scalar (unat v)" "0x800 \<le> unat v"
  shows "inflate_multibyte action ct i (b0 # b1 # b2 # rest) enc =
    (if action = FindEncoding \<and> 0xFF < v then Return UTF16
     else Advance 3 (code_units_of ct v) (if action = AssertNoInvalids then enc else UTF16))"
proof (rule inflate_multibyte_decoded)
  have c: "b1 AND 0xC0 = 0x80" "unat b1 mod 64 = q" "b2 AND 0xC0 = 0x80" "unat b2 mod 64 = r"
    using continuation_ok [OF u(2) pq(2)] continuation_ok [OF u(3) pq(3)] by auto
  show "lead_ones (ucast ((b0 # b1 # b2 # rest) ! 0)) 1 = 3"
    unfolding nth_Cons_0 using u pq by (intro lead_ones_byte) simp_all
  have "p = 0 \<Longrightarrow> 32 \<le> q" using v pq by simp
  moreover have "p = 13 \<Longrightarrow> q < 32" using v pq by (auto simp: scalar_def)
  ultimately show "\<not> bad_second_byte (ucast ((b0 # b1 # b2 # rest) ! 0)) ((b0 # b1 # b2 # rest) ! 1)"
    using u pq by (auto simp: bad_second_byte_def word_eq_ucast_u8 byte_and_E0_A0 byte_and_E0_80)
  show "\<forall>m \<in> set [1..<3]. (b0 # b1 # b2 # rest) ! m AND 0xC0 = 0x80"
    unfolding upt_values by (simp add: c)
  show "Utf8ToOneUcs4Char (b0 # b1 # b2 # rest) 3 = v"
    unfolding word_unat_eq_iff Utf8ToOneUcs4Char_unat u(1) c lead_byte_mod(2) [OF pq(1)]
      v(1) [symmetric]
    using v(2,3) by (auto simp: ucs4_result_def scalar_def)
  show "\<not> (0x10000 \<le> v \<and> 0xFFFFF < v - 0x10000)"
    using v(1) pq by (simp add: word_le_nat_alt)
qed simp_all

lemma scalar_not_too_big: "scalar (unat v) \<Longrightarrow> \<not> (0x10000 \<le> v \<and> 0xFFFFF < v - (0x10000 :: u32))"
proof -
  have "0x10000 \<le> v \<Longrightarrow> unat (v - 0x10000) = unat v - 0x10000"
    by (simp add: unat_sub)
  then show "scalar (unat v) \<Longrightarrow> ?thesis"
    by (auto simp: scalar_def word_less_nat_alt)
qed

lemma decode_4:
  assumes u: "unat (b0 :: u8) = 240 + p" "unat (b1 :: u8) = 128 + q" "unat (b2 :: u8) = 128 + r"
      "unat (b3 :: u8) = 128 + t"
    and pq: "q < 64" "r < 64" "t < 64"
    and v: "unat v = p * 262144 + q * 4096 + r * 64 + t" "scalar (unat v)" "0x10000 \<le> unat v"
  shows "inflate_multibyte action ct i (b0 # b1 # b2 # b3 # rest) enc =
    (if action = FindEncoding \<and> 0xFF < v then Return UTF16
     else Advance 4 (code_units_of ct v) (if action = AssertNoInvalids then enc else UTF16))"
proof (rule inflate_multibyte_decoded)
  have p: "p < 5" using v by (simp add: scalar_def)
  have c: "b1 AND 0xC0 = 0x80" "unat b1 mod 64 = q" "b2 AND 0xC0 = 0x80" "unat b2 mod 64 = r"
    "b3 AND 0xC0 = 0x80" "unat b3 mod 64 = t"
    using continuation_ok [OF u(2) pq(1)] continuation_ok [OF u(3) pq(2)] continuation_ok [OF u(4) pq(3)]
    by auto
  show "lead_ones (ucast ((b0 # b1 # b2 # b3 # rest) ! 0)) 1 = 4"
    unfolding nth_Cons_0 using u p by (intro lead_ones_byte) simp_all
  have "p = 0 \<Longrightarrow> 16 \<le> q" using v pq by simp
  moreover have "p = 4 \<Longrightarrow> q < 16" using v pq by (auto simp: scalar_def)
  ultimately show
    "\<not> bad_second_byte (ucast ((b0 # b1 # b2 # b3 # rest) ! 0)) ((b0 # b1 # b2 # b3 # rest) ! 1)"
    using u p pq by (auto simp: bad_second_byte_def word_eq_ucast_u8 byte_and_F0_80)
  show "\<forall>m \<in> set [1..<4]. (b0 # b1 # b2 # b3 # rest) ! m AND 0xC0 = 0x80"
    unfolding upt_values by (simp add: c)
  have p8: "p < 8" using p by simp
  show "Utf8ToOneUcs4Char (b0 # b1 # b2 # b3 # rest) 4 = v"
    unfolding word_unat_eq_iff Utf8ToOneUcs4Char_unat u(1) c lead_byte_mod(3) [OF p8]
      v(1) [symmetric]
    using v(2,3) by (auto simp: ucs4_result_def scalar_def)
  show "\<not> (0x10000 \<le> v \<and> 0xFFFFF < v - 0x10000)"
    by (rule scalar_not_too_big) (rule v(2))
qed simp_all

lemma inflate_multibyte_code_point:
  assumes v: "scalar (unat v)" "0x80 \<le> unat v"
  shows "inflate_multibyte action ct i (code_point_bytes v @ rest) enc =
    (if action = FindEncoding \<and> 0xFF < v then Return UTF16
     else Advance (length (code_point_bytes v)) (code_units_of ct v)
            (if action = AssertNoInvalids then enc else UTF16))"
proof -
  have spec: "map unat (code_point_bytes v) = utf8_spec (unat v)"
    using v by (intro code_point_bytes_spec) (simp add: scalar_def)
  consider (2) "unat v < 0x800" | (3) "0x800 \<le> unat v" "unat v < 0x10000" | (4) "0x10000 \<le> unat v"
    by linarith
  then show ?thesis
  proof cases
    case 2
    obtain p q where d: "unat v div 64 = p" "unat v mod 64 = q" "q < 64" "unat v = p * 64 + q"
      by (rule base64_2 [of "unat v"])
    obtain b0 b1 where bs: "code_point_bytes v = [b0, b1]" and u: "unat b0 = 192 + p" "unat b1 = 128 + q"
      using spec 2 v d(1,2) by (auto simp: map_eq_Cons_conv)
    have "2 \<le> p" "p < 32" using 2 v d(3,4) by linarith+
    then show ?thesis
      using decode_2 [OF u _ _ d(3,4)] by (simp add: bs)
  next
    case 3
    obtain p q r where d: "unat v div 4096 = p" "unat v div 64 mod 64 = q" "unat v mod 64 = r"
      "q < 64" "r < 64" "unat v = p * 4096 + q * 64 + r"
      by (rule base64_3 [of "unat v"])
    obtain b0 b1 b2 where bs: "code_point_bytes v = [b0, b1, b2]"
      and u: "unat b0 = 224 + p" "unat b1 = 128 + q" "unat b2 = 128 + r"
      using spec 3 d(1-3) by (auto simp: map_eq_Cons_conv)
    have "p < 16" using 3 d(4-6) by linarith
    then show ?thesis
      using decode_3 [OF u _ d(4-6) v(1) 3(1)] by (simp add: bs)
  next
    case 4
    obtain p q r t where d: "unat v div 262144 = p" "unat v div 4096 mod 64 = q"
      "unat v div 64 mod 64 = r" "unat v mod 64 = t"
      "q < 64" "r < 64" "t < 64" "unat v = p * 262144 + q * 4096 + r * 64 + t"
      by (rule base64_4 [of "unat v"])
    obtain b0 b1 b2 b3 where bs: "code_point_bytes v = [b0, b1, b2, b3]"
      and u: "unat b0 = 240 + p" "unat b1 = 128 + q" "unat b2 = 128 + r" "unat b3 = 128 + t"
      using spec 4 d(1-4) by (auto simp: map_eq_Cons_conv)
    show ?thesis
      using decode_4 [OF u d(5-8) v(1) 4] by (simp add: bs)
  qed
qed


text \<open>The code points of a UTF-16 sequence, lone surrogates read as U+FFFD.\<close>

function code_points :: "u16 list \<Rightarrow> u32 list" where
  "code_points [] = []"
| "code_points (c # src) = fst (read_code_point c src) # code_points (snd (read_code_point c src))"
  by pat_completeness auto
termination
  by (relation "measure length") (auto simp: read_code_point_shrinks le_imp_less_Suc)

lemma deflate_loop_code_points:
  "deflate_loop None src dst n k =
     (dst @ concat (map code_point_bytes (code_points src)),
      n + length (concat (map code_point_bytes (code_points src))), k + length (code_points src))"
proof (induction src arbitrary: dst n k rule: code_points.induct)
  case (2 c src)
  show ?case by (simp add: Let_def "2.IH")
qed simp

lemma DeflateStringToUTF8Buffer_unbounded:
  "DeflateStringToUTF8Buffer src None =
     (let bytes = concat (map code_point_bytes (code_points src))
      in (bytes, length bytes, length (code_points src)))"
  by (simp add: DeflateStringToUTF8Buffer_def deflate_loop_code_points Let_def)

lemma length_code_point_bytes:
  "unat v < 0x110000 \<Longrightarrow> length (code_point_bytes v) = length (utf8_spec (unat v))"
  by (metis code_point_bytes_spec length_map)

lemma unat_ucast_u16: "unat (ucast (c :: u16) :: u32) = unat c"
  by (simp add: unsigned_ucast_eq take_bit_nat_eq_self order_less_trans [OF unsigned_less])

lemma u16_less: "unat (c :: u16) < 65536"
  using unsigned_less [of c] by simp

lemma u16_nat: "(c \<le> d) = (unat (c :: u16) \<le> unat d)" "(c < d) = (unat c < unat d)"
  by (simp_all add: word_le_nat_alt word_less_nat_alt)

definition surrogate_pair :: "u16 \<Rightarrow> u16 \<Rightarrow> bool" where
  "surrogate_pair c d \<longleftrightarrow> 0xD800 \<le> unat c \<and> unat c \<le> 0xDBFF \<and> 0xDC00 \<le> unat d \<and> unat d \<le> 0xDFFF"

definition surrogate :: "u16 \<Rightarrow> bool" where
  "surrogate c \<longleftrightarrow> 0xD800 \<le> unat c \<and> unat c \<le> 0xDFFF"

lemma surrogate_pairE:
  assumes "surrogate_pair c d"
  obtains p q where "unat c = 0xD800 + p" "unat d = 0xDC00 + q" "p < 1024" "q < 1024"
proof (rule that [of "unat c - 0xD800" "unat d - 0xDC00"])
qed (use assms in \<open>auto simp: surrogate_pair_def\<close>)

lemma unat_join_surrogates:
  assumes "unat c = 0xD800 + p" "unat d = 0xDC00 + q" "p < 1024" "q < 1024"
  shows "unat (join_surrogates c d) = p * 1024 + q + 0x10000"
proof -
  have "ucast c - 0xD800 = (of_nat p :: u32)" "ucast d - 0xDC00 = (of_nat q :: u32)"
    using assms by (simp_all add: word_unat_eq_iff unat_sub word_le_nat_alt unat_ucast_u16
        unsigned_of_nat take_bit_nat_eq_self)
  moreover have "unat (push_bit 10 (of_nat p) :: u32) = p * 1024"
    using assms by (simp add: unsigned_push_bit_eq push_bit_eq_mult [where 'a = nat] unsigned_of_nat
        take_bit_nat_eq_self)
  ultimately show ?thesis
    unfolding join_surrogates_def unat_word_ariths
    using assms by (simp add: unsigned_of_nat take_bit_nat_eq_self)
qed

lemma read_code_point_eq:
  "read_code_point c [] = (if surrogate c then 0xFFFD else ucast c, [])"
  "read_code_point c (d # src) =
     (if surrogate_pair c d then (join_surrogates c d, src)
      else (if surrogate c then 0xFFFD else ucast c, d # src))"
  by (auto simp: read_code_point.simps surrogate_def surrogate_pair_def u16_nat UTF8_REPLACEMENT_CHAR_def)

lemma scalar_bmp: "\<not> surrogate c \<Longrightarrow> scalar (unat (ucast c :: u32))"
  using u16_less [of c] by (auto simp: scalar_def surrogate_def unat_ucast_u16)

lemma scalar_join: "surrogate_pair c d \<Longrightarrow> scalar (unat (join_surrogates c d))"
  by (erule surrogate_pairE) (simp add: unat_join_surrogates scalar_def)

lemma read_code_point_scalar: "scalar (unat (fst (read_code_point c src)))"
proof -
  have "scalar 0xFFFD" by (simp add: scalar_def)
  then show ?thesis
    by (cases src) (auto simp: read_code_point_eq scalar_bmp scalar_join)
qed

lemma code_points_scalar: "v \<in> set (code_points s) \<Longrightarrow> scalar (unat v)"
  by (induction s rule: code_points.induct) (auto simp: read_code_point_scalar)

lemma bytes_ascii: "unat v < 0x80 \<Longrightarrow> code_point_bytes v = [ucast v]"
  by (simp add: code_point_bytes_def word_less_nat_alt)

lemma CharT_ascii: "unat v < 0x80 \<Longrightarrow> code_units_of ct v = [CharT ct (ucast (ucast v :: u8))]"
proof -
  assume v: "unat v < 0x80"
  then have "ucast (ucast v :: u8) = v"
    by (simp add: word_unat_eq_iff unat_ucast_u32 unat_ucast_u8)
  then show ?thesis
    using v by (simp add: code_units_of_def word_less_nat_alt)
qed

lemma code_point_bytes_nonempty: "unat v < 0x110000 \<Longrightarrow> code_point_bytes v \<noteq> []"
  using length_code_point_bytes [of v] by (auto split: if_splits)

lemma code_point_bytes_lead:
  assumes "unat v < 0x110000" "code_point_bytes v = b # bs"
  shows "(b AND 0x80 = 0) = (unat v < 0x80)"
proof -
  have "unat b = hd (utf8_spec (unat v))"
    using code_point_bytes_spec [OF assms(1)] assms(2) by (metis list.sel(1) list.simps(9))
  then show ?thesis by (auto simp: byte_and_80)
qed

lemma inflate_loop_code_points:
  assumes "action \<noteq> FindEncoding" "\<forall>v \<in> set vs. scalar (unat v)"
  shows "inflate_loop action ct i (concat (map code_point_bytes vs)) dst j enc =
    Inr (if action = Copy then dst @ concat (map (code_units_of ct) vs) else dst,
         j + length (concat (map (code_units_of ct) vs)),
         if action = AssertNoInvalids \<or> (\<forall>v \<in> set vs. unat v < 0x80) then enc else UTF16)"
  using assms(2)
proof (induction vs arbitrary: i dst j enc)
  case (Cons v vs)
  let ?rest = "concat (map code_point_bytes vs)"
  have lt: "unat v < 0x110000" using Cons.prems by (simp add: scalar_def)
  obtain b bs where bs: "code_point_bytes v = b # bs"
    using code_point_bytes_nonempty [OF lt] by (meson neq_Nil_conv)
  show ?case
  proof (cases "unat v < 0x80")
    case True
    have a: "ucast v AND (0x80 :: u8) = 0"
      using code_point_bytes_lead [OF lt bytes_ascii [OF True]] True by simp
    show ?thesis
      using Cons True by (simp add: bytes_ascii CharT_ascii a)
  next
    case False
    then have b: "b AND 0x80 \<noteq> 0" using code_point_bytes_lead [OF lt bs] by simp
    have "inflate_multibyte action ct i (b # bs @ ?rest) enc =
        Advance (Suc (length bs)) (code_units_of ct v) (if action = AssertNoInvalids then enc else UTF16)"
      using inflate_multibyte_code_point [of v action ct i ?rest enc] assms(1) False Cons.prems
      by (simp add: bs)
    then show ?thesis
      using Cons False b by (auto simp: bs)
  qed
qed simp

text \<open>A UTF-16 sequence with every lone surrogate replaced by U+FFFD.\<close>

fun to_well_formed :: "u16 list \<Rightarrow> u16 list" where
  "to_well_formed [] = []"
| "to_well_formed [c] = [if surrogate c then 0xFFFD else c]"
| "to_well_formed (c # d # s) =
     (if surrogate_pair c d then c # d # to_well_formed s
      else (if surrogate c then 0xFFFD else c) # to_well_formed (d # s))"

lemma length_to_well_formed: "length (to_well_formed s) = length s"
  by (induction s rule: to_well_formed.induct) auto

lemma unat_ucast_u32_u16: "unat (ucast (v :: u32) :: u16) = unat v mod 65536"
  by (simp add: unsigned_ucast_eq take_bit_eq_mod)

lemma ucast_ucast_u16: "ucast (ucast (c :: u16) :: u32) = c"
  unfolding word_unat_eq_iff unat_ucast_u32_u16 unat_ucast_u16 using u16_less [of c] by simp

lemma code_units_bmp: "code_units_of Char16 (ucast (c :: u16)) = [c]"
  using u16_less [of c]
  by (simp add: code_units_of_def word_less_nat_alt unat_ucast_u16 ucast_ucast_u16)

lemma code_units_join:
  assumes "surrogate_pair c d"
  shows "code_units_of Char16 (join_surrogates c d) = [c, d]"
proof -
  obtain p q where pq: "unat c = 0xD800 + p" "unat d = 0xDC00 + q" "p < 1024" "q < 1024"
    using assms by (rule surrogate_pairE)
  let ?w = "join_surrogates c d - 0x10000"
  have u: "unat (join_surrogates c d) = p * 1024 + q + 0x10000"
    using pq by (rule unat_join_surrogates)
  then have w: "unat ?w = p * 1024 + q"
    by (simp add: unat_sub word_le_nat_alt)
  have hi: "unat (drop_bit 10 ?w) = p"
    using w pq by (simp add: unat_drop)
  have lo: "unat (?w AND 0x3FF) = q"
    using unat_and_mask [of ?w 10] w pq by (simp add: mask_eq_exp_minus_1)
  have "unat (drop_bit 10 ?w + 0xD800) = unat c" "unat ((?w AND 0x3FF) + 0xDC00) = unat d"
    unfolding unat_word_ariths hi lo using pq by simp_all
  then have "CharT Char16 (drop_bit 10 ?w + 0xD800) = c" "CharT Char16 ((?w AND 0x3FF) + 0xDC00) = d"
    using u16_less [of c] u16_less [of d] by (simp_all add: word_unat_eq_iff unat_ucast_u32_u16)
  moreover have "\<not> join_surrogates c d < 0x10000"
    using u by (simp add: word_less_nat_alt)
  ultimately show ?thesis
    by (simp add: code_units_of_def Let_def)
qed

lemma code_units_replacement: "code_units_of Char16 0xFFFD = [0xFFFD]"
  by (simp add: code_units_of_def)

lemma code_units_code_points: "concat (map (code_units_of Char16) (code_points s)) = to_well_formed s"
  by (induction s rule: to_well_formed.induct)
    (auto simp: read_code_point_eq code_units_bmp code_units_join code_units_replacement)

text \<open>The length the first pass computes is the number of bytes the second writes.\<close>

lemma utf8_length_loop_bytes:
  assumes "scalar (unat v)" "0x80 \<le> unat v"
  shows "utf8_length_loop (drop_bit 11 v) n + 2 = n + length (code_point_bytes v)"
proof -
  have "unat v < 0x110000" using assms by (simp add: scalar_def)
  then show ?thesis
    using assms(2) utf8_length_2 [of v n] utf8_length_3 [of v n] utf8_length_4 [of v n]
    by (auto simp: length_code_point_bytes)
qed

lemma length_replacement_bytes: "length (code_point_bytes 0xFFFD) = 3"
  by (simp add: length_code_point_bytes)

lemma join_not_ascii: "surrogate_pair c d \<Longrightarrow> 0x80 \<le> unat (join_surrogates c d)"
  by (erule surrogate_pairE) (simp add: unat_join_surrogates)

lemma length_join_bytes: "surrogate_pair c d \<Longrightarrow> length (code_point_bytes (join_surrogates c d)) = 4"
  by (erule surrogate_pairE) (simp add: length_code_point_bytes unat_join_surrogates)

lemma utf8_length_from_eq:
  "utf8_length_from [c] n =
     (if c < 0x80 then n else if surrogate c then n + 2
      else utf8_length_loop (drop_bit 11 (ucast c)) (n + 1))"
  "utf8_length_from (c # d # s) n =
     (if c < 0x80 then utf8_length_from (d # s) n
      else if surrogate_pair c d
        then utf8_length_from s (utf8_length_loop (drop_bit 11 (join_surrogates c d)) (n - 1 + 1))
      else if surrogate c then utf8_length_from (d # s) (n + 2)
      else utf8_length_from (d # s) (utf8_length_loop (drop_bit 11 (ucast c)) (n + 1)))"
  by (auto simp: surrogate_def surrogate_pair_def u16_nat)

lemma ascii_unit:
  "c < 0x80 \<Longrightarrow> \<not> surrogate c \<and> \<not> surrogate_pair c d \<and> length (code_point_bytes (ucast (c :: u16))) = 1"
  by (simp add: u16_nat surrogate_def surrogate_pair_def unat_ucast_u16 bytes_ascii)

lemma bmp_unit_length:
  "\<not> c < 0x80 \<Longrightarrow> \<not> surrogate c \<Longrightarrow>
   utf8_length_loop (drop_bit 11 (ucast c)) n + 2 = n + length (code_point_bytes (ucast (c :: u16)))"
  by (intro utf8_length_loop_bytes scalar_bmp) (simp_all add: u16_nat unat_ucast_u16)

lemma utf8_length_from_bytes:
  "length s \<le> n \<Longrightarrow>
   utf8_length_from s n + length s = n + length (concat (map code_point_bytes (code_points s)))"
proof (induction s arbitrary: n rule: to_well_formed.induct)
  case (2 c)
  show ?case
    using ascii_unit [of c] bmp_unit_length [of c "n + 1"]
    by (auto simp: utf8_length_from_eq(1) read_code_point_eq length_replacement_bytes
        simp del: utf8_length_from.simps)
next
  case (3 c d s)
  let ?len = "\<lambda>s. length (concat (map code_point_bytes (code_points s)))"
  consider (ascii) "c < 0x80" | (pair) "\<not> c < 0x80" "surrogate_pair c d"
    | (lone) "\<not> c < 0x80" "\<not> surrogate_pair c d" "surrogate c"
    | (bmp) "\<not> c < 0x80" "\<not> surrogate_pair c d" "\<not> surrogate c"
    by blast
  then show ?case
  proof cases
    case ascii
    then show ?thesis
      using ascii_unit [of c d] "3.IH"(2) [of n] "3.prems"
      by (simp add: utf8_length_from_eq(2) read_code_point_eq del: utf8_length_from.simps)
  next
    case pair
    have "utf8_length_loop (drop_bit 11 (join_surrogates c d)) n + 2 =
        n + length (code_point_bytes (join_surrogates c d))"
      using pair by (intro utf8_length_loop_bytes scalar_join join_not_ascii)
    then show ?thesis
      using "3.IH"(1) [OF pair(2), of "n + 2"] "3.prems" pair
      by (simp add: utf8_length_from_eq(2) read_code_point_eq length_join_bytes del: utf8_length_from.simps)
  next
    case lone
    then show ?thesis
      using "3.IH"(2) [of "n + 2"] "3.prems"
      by (simp add: utf8_length_from_eq(2) read_code_point_eq length_replacement_bytes
          del: utf8_length_from.simps)
  next
    case bmp
    then show ?thesis
      using "3.IH"(2) [of "utf8_length_loop (drop_bit 11 (ucast c)) (n + 1)"] "3.prems"
        bmp_unit_length [OF bmp(1,3), of "n + 1"]
      by (simp add: utf8_length_from_eq(2) read_code_point_eq del: utf8_length_from.simps)
  qed
qed simp

section \<open>The two passes of the decoder\<close>

definition counting :: "InflateUTF8Action \<Rightarrow> bool" where
  "counting action \<longleftrightarrow> action = CountAndReportInvalids \<or> action = CountAndIgnoreInvalids"

lemma inflate_multibyte_counting_copy:
  assumes "counting action"
  shows "case inflate_multibyte action ct i rest enc of
      Fail e \<Rightarrow> action = CountAndReportInvalids
    | Return enc' \<Rightarrow> False
    | Advance n units enc' \<Rightarrow> inflate_multibyte Copy ct i rest enc = Advance n units enc'"
  using assms by (auto simp: counting_def inflate_multibyte_def INVALID_def Let_def split: option.splits)

lemma inflate_loop_copy:
  assumes "counting action"
  shows "inflate_loop action ct i rest d j enc = Inr (d', j', enc') \<Longrightarrow>
    \<exists>units. inflate_loop Copy ct i rest dst j enc = Inr (dst @ units, j', enc') \<and> j' = j + length units"
proof (induction rest arbitrary: i d j enc dst rule: length_induct)
  case (1 rest)
  show ?case
  proof (cases rest)
    case Nil
    with "1.prems" show ?thesis by simp
  next
    case (Cons b bs)
    have le: "length (drop (n - 1) bs) < length rest" for n
      by (simp add: Cons)
    show ?thesis
    proof (cases "b AND 0x80 = 0")
      case True
      have "inflate_loop action ct (Suc i) bs d (Suc j) enc = Inr (d', j', enc')"
        using "1.prems" True Cons assms by (auto simp: counting_def)
      then obtain units where "inflate_loop Copy ct (Suc i) bs (dst @ [CharT ct (ucast b)]) (Suc j) enc =
          Inr ((dst @ [CharT ct (ucast b)]) @ units, j', enc')" "j' = Suc j + length units"
        using "1.IH" Cons by fastforce
      then show ?thesis using Cons True by (intro exI [of _ "CharT ct (ucast b) # units"]) simp
    next
      case False
      then obtain n us e where step: "inflate_multibyte action ct i (b # bs) enc = Advance n us e"
        and "inflate_loop action ct (i + n) (drop (n - 1) bs) d (j + length us) e = Inr (d', j', enc')"
        using "1.prems" Cons assms inflate_multibyte_counting_copy [OF assms, of ct i "b # bs" enc]
        by (auto simp: counting_def split: inflate_step.splits)
      then obtain units where
        "inflate_loop Copy ct (i + n) (drop (n - 1) bs) (dst @ us) (j + length us) e =
          Inr ((dst @ us) @ units, j', enc')" "j' = j + length us + length units"
        using "1.IH" le by blast
      moreover have "inflate_multibyte Copy ct i (b # bs) enc = Advance n us e"
        using inflate_multibyte_counting_copy [OF assms, of ct i "b # bs" enc] step by simp
      ultimately show ?thesis using Cons False by (intro exI [of _ "us @ units"]) simp
    qed
  qed
qed

lemma inflate_loop_ignore_total:
  "\<exists>d' j' enc'. inflate_loop CountAndIgnoreInvalids ct i rest d j enc = Inr (d', j', enc')"
proof (induction rest arbitrary: i d j enc rule: length_induct)
  case (1 rest)
  show ?case
  proof (cases rest)
    case (Cons b bs)
    have le: "length (drop (n - 1) bs) < length rest" "length bs < length rest" for n
      by (simp_all add: Cons)
    show ?thesis
      using "1.IH" le Cons inflate_multibyte_counting_copy [of CountAndIgnoreInvalids ct i "b # bs" enc]
      by (auto simp: counting_def split: inflate_step.splits)
  qed simp
qed

lemma inflate_multibyte_not_ascii:
  "inflate_multibyte action ct i rest enc = Advance n us enc' \<Longrightarrow> action \<noteq> AssertNoInvalids \<Longrightarrow> enc' = UTF16"
  by (auto simp: inflate_multibyte_def INVALID_def RequireUTF16_def Let_def split: if_splits option.splits)

lemma counting_stepE:
  assumes "counting action" "inflate_loop action ct i (b # bs) d j enc = Inr r" "b AND 0x80 \<noteq> 0"
  obtains n us where "inflate_multibyte action ct i (b # bs) enc = Advance n us UTF16"
    and "inflate_loop action ct (i + n) (drop (n - 1) bs) d (j + length us) UTF16 = Inr r"
proof -
  obtain n us e where step: "inflate_multibyte action ct i (b # bs) enc = Advance n us e"
    using assms inflate_multibyte_counting_copy [OF assms(1), of ct i "b # bs" enc]
    by (cases "inflate_multibyte action ct i (b # bs) enc") auto
  moreover have "e = UTF16" and "action \<noteq> Copy"
    using inflate_multibyte_not_ascii [OF step] assms(1) by (auto simp: counting_def)
  ultimately show ?thesis using assms(2,3) that by simp
qed

lemma inflate_loop_utf16_stays:
  "inflate_loop action ct i rest d j UTF16 = Inr (d', j', enc') \<Longrightarrow> counting action \<Longrightarrow> enc' = UTF16"
proof (induction rest arbitrary: i d j rule: length_induct)
  case (1 rest)
  show ?case
  proof (cases rest)
    case (Cons b bs)
    have IH: "inflate_loop action ct i' (drop n bs) d'' j'' UTF16 = Inr (d', j', enc') \<Longrightarrow> enc' = UTF16"
      for i' n d'' j''
      using "1.IH" [rule_format, of "drop n bs"] "1.prems" Cons by simp
    show ?thesis
    proof (cases "b AND 0x80 = 0")
      case True
      then show ?thesis using IH [of _ 0] "1.prems" Cons by (simp split: if_splits)
    next
      case False
      with "1.prems" Cons show ?thesis by (auto elim: counting_stepE intro: IH)
    qed
  qed (use 1 in simp)
qed

lemma inflate_loop_ascii:
  "inflate_loop action ct i rest d j ASCII = Inr (d', j', ASCII) \<Longrightarrow> counting action \<Longrightarrow>
   list_all (\<lambda>b. b AND 0x80 = 0) rest \<and> j' = j + length rest"
proof (induction rest arbitrary: i d j)
  case (Cons b bs)
  show ?case
  proof (cases "b AND 0x80 = 0")
    case True
    with Cons.prems Cons.IH show ?thesis by (fastforce simp: counting_def)
  next
    case False
    obtain n and us :: "u16 list" where
      "inflate_loop action ct (i + n) (drop (n - 1) bs) d (j + length us) UTF16 = Inr (d', j', ASCII)"
      by (rule counting_stepE [OF Cons.prems(2,1) False])
    from inflate_loop_utf16_stays [OF this Cons.prems(2)] show ?thesis by simp
  qed
qed simp

fun final_encoding :: "inflate_error + (u16 list \<times> nat \<times> SmallestEncoding) \<Rightarrow> SmallestEncoding option" where
  "final_encoding (Inl e) = None"
| "final_encoding (Inr (d, j, enc)) = Some enc"

lemma find_encoding_step:
  assumes "b AND 0x80 \<noteq> 0"
  shows "\<exists>i' n j'. final_encoding (inflate_loop FindEncoding ct i (b # bs) d j enc) = Some UTF16 \<or>
    inflate_loop FindEncoding ct i (b # bs) d j enc = inflate_loop FindEncoding ct i' (drop n bs) d j' UTF16"
proof (cases "inflate_multibyte FindEncoding ct i (b # bs) enc")
  case (Fail e)
  then show ?thesis
    by (auto simp: inflate_multibyte_def INVALID_def Let_def split: if_splits option.splits)
next
  case (Return e)
  then have "e = UTF16"
    by (auto simp: inflate_multibyte_def INVALID_def RequireUTF16_def Let_def split: if_splits option.splits)
  with Return assms show ?thesis by simp
next
  case (Advance n us e)
  with assms inflate_multibyte_not_ascii [OF Advance] show ?thesis
    by (intro exI [of _ "i + n"] exI [of _ "n - 1"] exI [of _ "j + length us"]) simp
qed

lemma inflate_find_encoding:
  "final_encoding (inflate_loop FindEncoding ct i rest d j enc) =
     Some (if list_all (\<lambda>b. b AND 0x80 = 0) rest then enc else UTF16)"
proof (induction rest arbitrary: i d j enc rule: length_induct)
  case (1 rest)
  show ?case
  proof (cases rest)
    case (Cons b bs)
    show ?thesis
    proof (cases "b AND 0x80 = 0")
      case True
      then show ?thesis using "1.IH" [rule_format, of bs] Cons by simp
    next
      case False
      have "final_encoding (inflate_loop FindEncoding ct i' (drop n bs) d j' UTF16) = Some UTF16" for i' n j'
        using "1.IH" [rule_format, of "drop n bs" i' d j' UTF16] Cons by simp
      then show ?thesis
        using find_encoding_step [OF False, of ct i bs d j enc] False Cons by auto
    qed
  qed simp
qed

section \<open>Properties\<close>

lemma deflated_length:
  "GetDeflatedUTF8StringLength s = length (fst (DeflateStringToUTF8Buffer s None))"
  using utf8_length_from_bytes [of s "length s"]
  by (simp add: GetDeflatedUTF8StringLength_def DeflateStringToUTF8Buffer_unbounded Let_def)

text \<open>
  C2. The allocation of \<open>CharsToNewUTF8CharsZ\<close> fits exactly: the length pass counts the bytes the
  writing pass produces, so the block holds those bytes and the terminating NUL and nothing else.
\<close>

theorem utf8_block_exact:
  assumes "malloc_ok malloc"
  shows "CharsToNewUTF8CharsZ malloc s = Some (fst (DeflateStringToUTF8Buffer s None) @ [0])"
proof -
  let ?bytes = "fst (DeflateStringToUTF8Buffer s None)"
  obtain block where "malloc (length ?bytes + 1) = Some block" "length block = Suc (length ?bytes)"
    using assms unfolding malloc_ok_def by (metis Suc_eq_plus1)
  then show ?thesis
    by (simp add: CharsToNewUTF8CharsZ_def deflated_length overwrite_exact)
qed

theorem utf8_block_exact_witness:
  "CharsToNewUTF8CharsZ (\<lambda>n. Some (replicate n 7)) [0x41, 0xD83D, 0xDE00] =
     Some (fst (DeflateStringToUTF8Buffer [0x41, 0xD83D, 0xDE00] None) @ [0])"
  by (rule utf8_block_exact) (simp add: malloc_ok_def)

text \<open>
  C1. Decoding undoes encoding: inflating the UTF-8 bytes of a UTF-16 text succeeds and gives the
  text back, unit for unit, each lone surrogate replaced by U+FFFD.
\<close>

theorem utf8_round_trip:
  "UTF8CharsToNewTwoByteCharsZ True (fst (DeflateStringToUTF8Buffer s None)) =
     Inr (to_well_formed s @ [0], length s)"
proof -
  let ?vs = "code_points s"
  let ?enc = "if \<forall>v \<in> set ?vs. unat v < 0x80 then ASCII else UTF16"
  have sc: "\<forall>v \<in> set ?vs. scalar (unat v)" by (simp add: code_points_scalar)
  note run = inflate_loop_code_points [OF _ sc, where ct = Char16, unfolded code_units_code_points]
  have "map (\<lambda>b. CharT Char16 (ucast b)) (concat (map code_point_bytes vs)) =
      concat (map (code_units_of Char16) vs)" if "\<forall>v \<in> set vs. unat v < 0x80" for vs
    using that by (induction vs) (simp_all add: bytes_ascii CharT_ascii)
  then have "map (\<lambda>b. CharT Char16 (ucast b)) (concat (map code_point_bytes ?vs)) = to_well_formed s"
    if "?enc = ASCII"
    using that by (simp add: code_units_code_points split: if_splits)
  then show ?thesis
    by (auto simp: UTF8CharsToNewTwoByteCharsZ_def InflateUTF8StringHelper_def
        InflateUTF8StringToBuffer_def DeflateStringToUTF8Buffer_unbounded Let_def run length_to_well_formed)
qed

text \<open>
  The second pass of the lossy decoders never fails and writes exactly as many code units as the
  first pass counted, so the block allocated between the passes is filled to its last unit.
\<close>

theorem lossy_inflate_fills_block:
  "\<exists>dst. InflateUTF8StringHelper CountAndIgnoreInvalids ct True src = Inr (dst @ [0], length dst)"
proof -
  obtain d j enc where first: "inflate_loop CountAndIgnoreInvalids ct 0 src [] 0 ASCII = Inr (d, j, enc)"
    using inflate_loop_ignore_total by metis
  have c: "counting CountAndIgnoreInvalids" by (simp add: counting_def)
  have "j = length src" if "enc = ASCII"
    using inflate_loop_ascii [OF first [unfolded that] c] by simp
  moreover obtain units where "inflate_loop Copy ct 0 src [] 0 ASCII = Inr (units, j, enc)" "j = length units"
    using inflate_loop_copy [OF c first, of "[]"] by auto
  ultimately show ?thesis
    by (simp add: InflateUTF8StringHelper_def InflateUTF8StringToBuffer_def first)
qed

text \<open>
  \<open>FindSmallestEncoding\<close> distinguishes ASCII from everything else only: the answer \<open>Latin1\<close>, which
  its declaration offers, is never given, because the code at the loop's label asks for UTF-16 after
  every non-ASCII sequence, valid or not.
\<close>

theorem smallest_encoding_never_latin1:
  "FindSmallestEncoding src = (if list_all (\<lambda>b. b AND 0x80 = 0) src then ASCII else UTF16)"
  using inflate_find_encoding [of Char16 0 src "[]" 0 ASCII]
  by (cases "inflate_loop FindEncoding Char16 0 src [] 0 ASCII" rule: final_encoding.cases)
    (simp_all add: FindSmallestEncoding_def InflateUTF8StringToBuffer_def)

text \<open>
  The Latin-1 decoder replaces an invalid sequence by the low byte of U+FFFD, never by the
  question mark its own constant names: here for a stray lead byte before an ASCII character.
\<close>

theorem lossy_latin1_replacement:
  "LossyUTF8CharsToNewLatin1CharsZ True [0xC3, 0x28] = Inr ([0xFD, 0x28, 0], 2) \<and>
   invalid_replacement Latin1Char = 0xFD \<and> invalid_replacement Latin1Char \<noteq> ascii_u16 CHR ''?''"
proof -
  have m: "inflate_multibyte action Latin1Char 0 [0xC3, 0x28] enc =
      INVALID action Latin1Char enc (ReportInvalidCharacter 0) 1" for action enc
    using lead_ones_byte(1) [of "0xC3"]
    by (simp add: inflate_multibyte_def bad_second_byte_def upt_values [unfolded One_nat_def])
  show ?thesis
    by (simp add: LossyUTF8CharsToNewLatin1CharsZ_def InflateUTF8StringHelper_def
        InflateUTF8StringToBuffer_def m INVALID_def RequireUTF16_def invalid_replacement_def
        REPLACE_UTF8_def ascii_u16_def)
qed

end
