(* ===== verification/JsValue.thy ===== *)
theory JsValue
  imports Prelude
begin

text \<open>
  The JavaScript values and objects the bridge and the JSON code handle, property lookup and
  enumeration, and the conversion of primitive values to strings.

  \<^item> \<open>dbl\<close> is a C++ \<open>double\<close>. \<open>DInt n\<close> is the integral value \<open>n\<close> with \<open>\<bar>n\<bar> < 2\<^sup>5\<^sup>3\<close>, which a double
    holds exactly; every other double, negative zero, fractions, large values, infinities and NaN,
    is its IEEE 754 pattern \<open>DBits b\<close>. Both int32 values and doubles of the engine are \<open>dbl\<close>.
  \<^item> The heap is the list of the objects allocated so far; \<open>Object n\<close> is the \<open>n\<close>-th.
  \<^item> A property is an own string-keyed data property, in the order of definition: \<open>props\<close> are the
    enumerable ones, \<open>hidden\<close> the others. A prototype that is \<open>None\<close> is a built-in one without
    \<open>toJSON\<close> and without enumerable properties.
\<close>

datatype dbl = DInt int | DBits u64

datatype jsval =
  Undefined | Null | Boolean bool | Number dbl | Str "u16 list" | Symbol nat | Object nat

datatype js_class =
  PlainC | ArrayC "jsval list" | CallableC | NumberC dbl | StringC "u16 list" | BooleanC bool | ErrorC "u8 list"

record jsobj =
  cls :: js_class
  props :: "(u16 list \<times> jsval) list"
  hidden :: "(u16 list \<times> jsval) list"
  proto :: "nat option"

type_synonym jsheap = "jsobj list"

definition plain :: "(u16 list \<times> jsval) list \<Rightarrow> jsobj" where
  "plain ps = \<lparr>cls = PlainC, props = ps, hidden = [], proto = None\<rparr>"

definition array :: "jsval list \<Rightarrow> jsobj" where
  "array vs = \<lparr>cls = ArrayC vs, props = [], hidden = [], proto = None\<rparr>"

section \<open>Doubles\<close>

definition sign_bit :: u64 where
  "sign_bit = 0x8000000000000000"

definition DOUBLE_INTEGRAL_PRECISION_LIMIT :: int where
  "DOUBLE_INTEGRAL_PRECISION_LIMIT = 2 ^ 53"

text \<open>The unary minus of C++ on doubles: it flips the sign bit, so zero and negative zero swap.\<close>

fun dbl_neg :: "dbl \<Rightarrow> dbl" where
  "dbl_neg (DInt n) = (if n = 0 then DBits sign_bit else DInt (- n))"
| "dbl_neg (DBits b) = (if b = sign_bit then DInt 0 else DBits (b XOR sign_bit))"

text \<open>\<open>mozilla::IsFinite\<close>: the exponent field is not all ones.\<close>

fun IsFinite :: "dbl \<Rightarrow> bool" where
  "IsFinite (DInt n) = True"
| "IsFinite (DBits b) = (b AND 0x7FF0000000000000 \<noteq> 0x7FF0000000000000)"

fun dbl_fits_int32 :: "dbl \<Rightarrow> bool" where
  "dbl_fits_int32 (DInt n) = (- (2 ^ 31) \<le> n \<and> n < 2 ^ 31)"
| "dbl_fits_int32 (DBits b) = False"

section \<open>Numbers as strings\<close>

definition digit_units :: "nat list \<Rightarrow> u16 list" where
  "digit_units ds = map (\<lambda>d. 0x30 + of_nat d) ds"

text \<open>\<open>Int32ToCString\<close> in base ten: the digits filled in from behind, then the sign.\<close>

definition Int32ToCString :: "int \<Rightarrow> u16 list" where
  "Int32ToCString i = (if i < 0 then u16s ''-'' else []) @ digit_units (dec_digits (nat \<bar>i\<bar>))"

text \<open>
  \<open>NumberToCString\<close>: int32 values take the integer path, everything else the shortest decimal form of
  the double-conversion library, the argument \<open>frac\<close>.
\<close>

fun NumberToCString :: "(dbl \<Rightarrow> u16 list) \<Rightarrow> dbl \<Rightarrow> u16 list" where
  "NumberToCString frac (DInt i) = (if dbl_fits_int32 (DInt i) then Int32ToCString i else frac (DInt i))"
| "NumberToCString frac (DBits b) = frac (DBits b)"

definition IndexToString :: "nat \<Rightarrow> u16 list" where
  "IndexToString index = digit_units (dec_digits index)"

text \<open>\<open>ToString\<close>. \<open>to_primitive\<close> runs the object's \<open>toString\<close> and \<open>valueOf\<close>; a symbol has no string.\<close>

fun primitive_to_string :: "(dbl \<Rightarrow> u16 list) \<Rightarrow> jsval \<Rightarrow> u16 list option" where
  "primitive_to_string frac (Str s) = Some s"
| "primitive_to_string frac (Number d) = Some (NumberToCString frac d)"
| "primitive_to_string frac (Boolean b) = Some (u16s (if b then ''true'' else ''false''))"
| "primitive_to_string frac Null = Some (u16s ''null'')"
| "primitive_to_string frac Undefined = Some (u16s ''undefined'')"
| "primitive_to_string frac (Symbol n) = None"
| "primitive_to_string frac (Object n) = None"

definition ToString ::
  "(dbl \<Rightarrow> u16 list) \<Rightarrow> (nat \<Rightarrow> jsval option) \<Rightarrow> jsval \<Rightarrow> u16 list option" where
  "ToString frac to_primitive v =
     (case v of
        Object n \<Rightarrow> Option.bind (to_primitive n) (primitive_to_string frac)
      | _ \<Rightarrow> primitive_to_string frac v)"

section \<open>Properties\<close>

definition IsCallable :: "jsheap \<Rightarrow> jsval \<Rightarrow> bool" where
  "IsCallable heap v = (case v of Object n \<Rightarrow> n < length heap \<and> cls (heap ! n) = CallableC | _ \<Rightarrow> False)"

text \<open>The value of an array index: a canonical decimal below \<open>2\<^sup>3\<^sup>2 - 1\<close>.\<close>

definition IdIsIndex :: "u16 list \<Rightarrow> nat option" where
  "IdIsIndex key =
     (let n = dec_value (map (\<lambda>c. unat c - 0x30) key) in
      if key \<noteq> [] \<and> list_all (\<lambda>c. 0x30 \<le> c \<and> c \<le> 0x39) key \<and> key = IndexToString n \<and> int n < 2 ^ 32 - 1
      then Some n else None)"

definition named_property :: "jsobj \<Rightarrow> u16 list \<Rightarrow> jsval option" where
  "named_property obj key =
     (case map_of (props obj) key of Some v \<Rightarrow> Some v | None \<Rightarrow> map_of (hidden obj) key)"

definition own_property :: "jsobj \<Rightarrow> u16 list \<Rightarrow> jsval option" where
  "own_property obj key =
     (case cls obj of
        ArrayC elems \<Rightarrow>
          (case IdIsIndex key of
             Some n \<Rightarrow> if n < length elems then Some (elems ! n) else named_property obj key
           | None \<Rightarrow> named_property obj key)
      | _ \<Rightarrow> named_property obj key)"

text \<open>The prototype chain has no cycle, so it is not longer than the heap: \<open>fuel\<close> bounds the walk.\<close>

fun get_from_chain :: "nat \<Rightarrow> jsheap \<Rightarrow> nat \<Rightarrow> u16 list \<Rightarrow> jsval" where
  "get_from_chain 0 heap n key = Undefined"
| "get_from_chain (Suc fuel) heap n key =
     (if n < length heap then
        (case own_property (heap ! n) key of
           Some v \<Rightarrow> v
         | None \<Rightarrow> (case proto (heap ! n) of
               Some p \<Rightarrow> get_from_chain fuel heap p key
             | None \<Rightarrow> Undefined))
      else Undefined)"

definition GetProperty :: "jsheap \<Rightarrow> nat \<Rightarrow> u16 list \<Rightarrow> jsval" where
  "GetProperty heap n key = get_from_chain (length heap) heap n key"

definition GetElement :: "jsheap \<Rightarrow> nat \<Rightarrow> nat \<Rightarrow> jsval" where
  "GetElement heap n i = GetProperty heap n (IndexToString i)"

text \<open>
  \<open>EnumerateNativeProperties\<close> for own enumerable strings: dense elements, then the keys that are
  array indices in increasing order, then the others as they were defined.
\<close>

definition EnumerateNativeProperties :: "jsobj \<Rightarrow> u16 list list" where
  "EnumerateNativeProperties obj =
     (let dense = (case cls obj of ArrayC elems \<Rightarrow> map IndexToString [0..<length elems] | _ \<Rightarrow> []);
          keys = map fst (props obj);
          indexed = filter (\<lambda>k. IdIsIndex k \<noteq> None) keys
      in dense @ sort_key (\<lambda>k. the (IdIsIndex k)) indexed @ filter (\<lambda>k. IdIsIndex k = None) keys)"

definition GetPropertyKeys :: "jsheap \<Rightarrow> nat \<Rightarrow> u16 list list" where
  "GetPropertyKeys heap n = (if n < length heap then EnumerateNativeProperties (heap ! n) else [])"

section \<open>Creating objects\<close>

text \<open>\<open>NativeDefineProperty\<close> on a plain object: an existing key keeps its place.\<close>

fun define_property :: "u16 list \<Rightarrow> jsval \<Rightarrow> (u16 list \<times> jsval) list \<Rightarrow> (u16 list \<times> jsval) list" where
  "define_property k v [] = [(k, v)]"
| "define_property k v ((k', v') # ps) =
     (if k' = k then (k, v) # ps else (k', v') # define_property k v ps)"

definition AddPlainObjectProperties ::
  "(u16 list \<times> jsval) list \<Rightarrow> (u16 list \<times> jsval) list \<Rightarrow> (u16 list \<times> jsval) list" where
  "AddPlainObjectProperties ps obj = fold (\<lambda>(k, v) obj. define_property k v obj) ps obj"

definition alloc :: "jsobj \<Rightarrow> jsheap \<Rightarrow> nat \<times> jsheap" where
  "alloc obj heap = (length heap, heap @ [obj])"

definition newPlainObject :: "(u16 list \<times> jsval) list \<Rightarrow> jsheap \<Rightarrow> nat \<times> jsheap" where
  "newPlainObject ps heap = alloc (plain (AddPlainObjectProperties ps [])) heap"

definition newArrayObject :: "jsval list \<Rightarrow> jsheap \<Rightarrow> nat \<times> jsheap" where
  "newArrayObject vs heap = alloc (array vs) heap"

end
