(* ===== verification/Doubles.thy ===== *)
theory Doubles
  imports JsValue "HOL-Library.Log_Nat"
begin

text \<open>What several components use of C++ doubles: NaN, the order, and the bit pattern of an integral double.\<close>

text \<open>\<open>IsNaN\<close>: all exponent bits set and some mantissa bit.\<close>

fun IsNaN :: "dbl \<Rightarrow> bool" where
  "IsNaN (DInt n) = False"
| "IsNaN (DBits b) = (b AND 0x7FF0000000000000 = 0x7FF0000000000000 \<and> b AND 0x000FFFFFFFFFFFFF \<noteq> 0)"

definition DoubleNaN :: dbl where
  "DoubleNaN = DBits 0x7FF8000000000000"

text \<open>The IEEE 754 pattern of a positive integer below \<open>2\<^sup>5\<^sup>3\<close>, as a number, and of an integral double.\<close>

definition positive_pattern :: "nat \<Rightarrow> int" where
  "positive_pattern m = (let e = floorlog 2 m - 1 in (1022 + int e) * 2 ^ 52 + int m * 2 ^ (52 - e))"

definition integral_bits :: "int \<Rightarrow> u64" where
  "integral_bits n =
     (if n = 0 then 0 else (if n < 0 then sign_bit else 0) OR word_of_int (positive_pattern (nat \<bar>n\<bar>)))"

text \<open>
  The place of a double in the order: the patterns of the positive ones are in the order of their values, the sign
  bit mirrors it, and the two zeros are equal.
\<close>

fun dbl_order :: "dbl \<Rightarrow> int" where
  "dbl_order (DInt n) = (if n = 0 then 0 else sgn n * positive_pattern (nat \<bar>n\<bar>))"
| "dbl_order (DBits b) = (if bit b 63 then - uint (b AND mask 63) else uint b)"

text \<open>The operator \<open><=\<close>: false when an operand is NaN.\<close>

definition dbl_le :: "dbl \<Rightarrow> dbl \<Rightarrow> bool" where
  "dbl_le d e \<longleftrightarrow> \<not> IsNaN d \<and> \<not> IsNaN e \<and> dbl_order d \<le> dbl_order e"

section \<open>The order of integers\<close>

lemma positive_pattern_bounds:
  assumes "0 < m" and "m < 2 ^ 53" and "e = floorlog 2 m - 1"
  shows "(1023 + int e) * 2 ^ 52 \<le> positive_pattern m" and "positive_pattern m < (1024 + int e) * 2 ^ 52"
proof -
  have "floorlog 2 m \<noteq> 0" using assms(1) by (simp add: floorlog_eq_zero_iff)
  then have "floorlog 2 m = Suc e" using assms(3) by simp
  then have b: "2 ^ e \<le> m" "m < 2 ^ Suc e" using floorlog_bounds [OF assms(1), of 2] by simp_all
  have "floorlog 2 m \<le> 53" using assms(2) by (intro floorlog_leI) auto
  then have e: "e \<le> 52" using assms(3) by simp
  have "(2::nat) ^ e * 2 ^ (52 - e) \<le> m * 2 ^ (52 - e)" using b(1) by simp
  then have lo: "(2::nat) ^ 52 \<le> m * 2 ^ (52 - e)" using e by (simp flip: power_add)
  have "m * 2 ^ (52 - e) < (2::nat) ^ Suc e * 2 ^ (52 - e)" using b(2) by (intro mult_strict_right_mono) auto
  also have "\<dots> = 2 ^ (Suc e + (52 - e))" by (simp only: power_add)
  also have "Suc e + (52 - e) = 53" using e by simp
  finally have hi: "m * 2 ^ (52 - e) < (2::nat) ^ 53" .
  have "int m * 2 ^ (52 - e) = int (m * 2 ^ (52 - e))" by simp
  then have "2 ^ 52 \<le> int m * 2 ^ (52 - e)" "int m * 2 ^ (52 - e) < 2 ^ 53"
    using lo hi by (simp_all only: of_nat_le_iff [where 'a = int, symmetric] of_nat_less_iff [where 'a = int, symmetric]) simp_all
  then show "(1023 + int e) * 2 ^ 52 \<le> positive_pattern m" "positive_pattern m < (1024 + int e) * 2 ^ 52"
    unfolding positive_pattern_def Let_def assms(3) [symmetric] by simp_all
qed

lemma positive_pattern_mono:
  assumes "0 < m" and "m < n" and "n < 2 ^ 53"
  shows "positive_pattern m < positive_pattern n"
proof -
  let ?e = "floorlog 2 m - 1" and ?d = "floorlog 2 n - 1"
  have "?e \<le> ?d" using floorlog_mono [of m n 2] assms(2) by simp
  show ?thesis
  proof (cases "?e = ?d")
    case True
    then show ?thesis using assms(2) by (simp add: positive_pattern_def Let_def)
  next
    case False
    then have "1024 + int ?e \<le> 1023 + int ?d" using \<open>?e \<le> ?d\<close> by simp
    then have "(1024 + int ?e) * 2 ^ 52 \<le> (1023 + int ?d) * 2 ^ 52" by (intro mult_right_mono) auto
    then show ?thesis
      using positive_pattern_bounds(2) [OF assms(1) _ refl] positive_pattern_bounds(1) [OF _ assms(3) refl] assms by simp
  qed
qed

lemma positive_pattern_pos: "0 < m \<Longrightarrow> m < 2 ^ 53 \<Longrightarrow> 0 < positive_pattern m"
  using positive_pattern_bounds(1) [of m "floorlog 2 m - 1"] by (simp add: order_less_le_trans [rotated])

text \<open>On integers that a double holds exactly the order is theirs.\<close>

lemma dbl_order_less:
  assumes "\<bar>m\<bar> < 2 ^ 53" and "\<bar>n\<bar> < 2 ^ 53" and "m < n"
  shows "dbl_order (DInt m) < dbl_order (DInt n)"
proof -
  have pos: "0 < positive_pattern (nat \<bar>k\<bar>)" if "k \<noteq> 0" "\<bar>k\<bar> < 2 ^ 53" for k :: int
    using that by (intro positive_pattern_pos) (auto simp: nat_less_iff)
  have mono: "positive_pattern (nat \<bar>k\<bar>) < positive_pattern (nat \<bar>l\<bar>)" if "k \<noteq> 0" "\<bar>k\<bar> < \<bar>l\<bar>" "\<bar>l\<bar> < 2 ^ 53" for k l :: int
    using that by (intro positive_pattern_mono) (auto simp: nat_less_iff)
  consider "0 < m" | "n < 0" | "m < 0" "0 < n" | "m = 0" | "n = 0" using assms(3) by linarith
  then show ?thesis
  proof cases
    case 1
    then show ?thesis using mono [of m n] assms by simp
  next
    case 2
    then show ?thesis using mono [of n m] assms by simp
  next
    case 3
    then show ?thesis using pos [of m] pos [of n] assms by simp
  next
    case 4
    then show ?thesis using pos [of n] assms by simp
  next
    case 5
    then show ?thesis using pos [of m] assms by simp
  qed
qed

lemma dbl_le_integers: "\<bar>m\<bar> < 2 ^ 53 \<Longrightarrow> \<bar>n\<bar> < 2 ^ 53 \<Longrightarrow> dbl_le (DInt m) (DInt n) \<longleftrightarrow> m \<le> n"
  using dbl_order_less [of m n] dbl_order_less [of n m] by (cases m n rule: linorder_cases) (auto simp: dbl_le_def)

end
