(* ===== verification/JsonStringify.thy ===== *)
theory JsonStringify
  imports JsValue
begin

text \<open>
  \<open>JSON.stringify\<close> as \<open>js/src/json.cpp\<close> writes it: the quoting of strings, the preprocessing of values,
  the detection of cycles and the mutually recursive \<open>Str\<close>, \<open>JO\<close>, \<open>JA\<close>, and the entry point
  \<open>JS_Stringify\<close> of \<open>jsapi.cpp\<close>. What runs JavaScript or prints fractions is a field of \<open>engine_fns\<close>.
  Running out of memory and interrupts are not modelled. \<open>JS_CHECK_RECURSION\<close> is the \<open>budget\<close>.
\<close>

section \<open>Quoting\<close>

definition IsQuoteSpecialCharacter :: "u16 \<Rightarrow> bool" where
  "IsQuoteSpecialCharacter c \<longleftrightarrow> c = 0x22 \<or> c = 0x5C \<or> c < 0x20"

definition quote_escape :: "u16 \<Rightarrow> u16 list" where
  "quote_escape c =
     (if c = 0x22 \<or> c = 0x5C then [0x5C, c]
      else if c = 0x08 then u16s [CHR 0x5C, CHR ''b'']
      else if c = 0x0C then u16s [CHR 0x5C, CHR ''f'']
      else if c = 0x0A then u16s [CHR 0x5C, CHR ''n'']
      else if c = 0x0D then u16s [CHR 0x5C, CHR ''r'']
      else if c = 0x09 then u16s [CHR 0x5C, CHR ''t'']
      else
        let x = drop_bit 4 c; y = c mod 16
        in u16s [CHR 0x5C, CHR ''u'', CHR ''0'', CHR ''0''] @
             [0x30 + x, if y < 10 then 0x30 + y else 0x61 + (y - 10)])"

text \<open>The loop of \<open>Quote\<close>: a maximal run without escapes, then one escaped character.\<close>

function Quote_loop :: "u16 list \<Rightarrow> u16 list \<Rightarrow> u16 list" where
  "Quote_loop buf sb =
     (let run = takeWhile (\<lambda>c. \<not> IsQuoteSpecialCharacter c) buf;
          rest = dropWhile (\<lambda>c. \<not> IsQuoteSpecialCharacter c) buf
      in case rest of
           [] \<Rightarrow> sb @ run
         | c # rest' \<Rightarrow> Quote_loop rest' (sb @ run @ quote_escape c))"
  by pat_completeness auto
termination
  by (relation "measure (\<lambda>(buf, sb). length buf)") (auto dest: dropWhile_Cons_length_less [OF sym])

declare Quote_loop.simps [simp del]

definition Quote :: "u16 list \<Rightarrow> u16 list \<Rightarrow> u16 list" where
  "Quote sb str = Quote_loop str (sb @ u16s [CHR 0x22]) @ u16s [CHR 0x22]"

section \<open>The context\<close>

record engine_fns =
  frac :: "dbl \<Rightarrow> u16 list"
  strtod :: "u16 list \<Rightarrow> dbl"
  to_primitive :: "jsheap \<Rightarrow> nat \<Rightarrow> jsval option"
  to_number :: "jsheap \<Rightarrow> nat \<Rightarrow> dbl option"
  call :: "jsval \<Rightarrow> jsval \<Rightarrow> jsval list \<Rightarrow> jsheap \<Rightarrow> jsval option \<times> jsheap"

datatype json_error = CyclicValue | TooMuchRecursion | UserException

record StringifyContext =
  gap :: "u16 list"
  replacer :: "nat option"
  propertyList :: "u16 list list"
  maybeSafely :: bool

text \<open>What changes while a value is written: the output, the objects being written, the heap.\<close>

record strstate =
  sb :: "u16 list"
  stack :: "nat set"
  heap :: jsheap

definition append_sb :: "u16 list \<Rightarrow> strstate \<Rightarrow> strstate" where
  "append_sb s st = st\<lparr>sb := sb st @ s\<rparr>"

definition WriteIndent :: "StringifyContext \<Rightarrow> nat \<Rightarrow> strstate \<Rightarrow> strstate" where
  "WriteIndent scx limit st =
     (if gap scx = [] then st
      else append_sb (0x0A # concat (replicate limit (gap scx))) st)"

section \<open>Preprocessing\<close>

definition replacer_callable :: "StringifyContext \<Rightarrow> jsheap \<Rightarrow> bool" where
  "replacer_callable scx h \<longleftrightarrow> (case replacer scx of Some r \<Rightarrow> IsCallable h (Object r) | None \<Rightarrow> False)"

text \<open>Step 2: \<open>toJSON\<close>.\<close>

definition apply_toJSON ::
  "engine_fns \<Rightarrow> u16 list \<Rightarrow> jsval \<Rightarrow> jsheap \<Rightarrow> json_error + (jsval \<times> jsheap)" where
  "apply_toJSON e key v h =
     (case v of
        Object n \<Rightarrow>
          (let toJSON = GetProperty h n (u16s ''toJSON'') in
           if IsCallable h toJSON then
             (case call e toJSON v [Str key] h of
                (Some v', h') \<Rightarrow> Inr (v', h')
              | (None, h') \<Rightarrow> Inl UserException)
           else Inr (v, h))
      | _ \<Rightarrow> Inr (v, h))"

text \<open>Step 3: a callable replacer.\<close>

definition apply_replacer ::
  "engine_fns \<Rightarrow> StringifyContext \<Rightarrow> nat \<Rightarrow> u16 list \<Rightarrow> jsval \<times> jsheap \<Rightarrow> json_error + (jsval \<times> jsheap)" where
  "apply_replacer e scx holder key vh =
     (if replacer_callable scx (snd vh) then
        (case call e (Object (the (replacer scx))) (Object holder) [Str key, fst vh] (snd vh) of
           (Some v', h') \<Rightarrow> Inr (v', h')
         | (None, h') \<Rightarrow> Inl UserException)
      else Inr vh)"

text \<open>Step 4: boxed primitives.\<close>

definition unbox :: "engine_fns \<Rightarrow> jsval \<times> jsheap \<Rightarrow> json_error + (jsval \<times> jsheap)" where
  "unbox e vh =
     (let (v, h) = vh in
      case v of
        Object n \<Rightarrow>
          (if \<not> n < length h then Inr vh
           else case cls (h ! n) of
               NumberC _ \<Rightarrow>
                 (case to_number e h n of Some d \<Rightarrow> Inr (Number d, h) | None \<Rightarrow> Inl UserException)
             | StringC _ \<Rightarrow>
                 (case ToString (frac e) (to_primitive e h) v of
                    Some s \<Rightarrow> Inr (Str s, h) | None \<Rightarrow> Inl UserException)
             | BooleanC b \<Rightarrow> Inr (Boolean b, h)
             | _ \<Rightarrow> Inr vh)
      | _ \<Rightarrow> Inr vh)"

definition PreprocessValue ::
  "engine_fns \<Rightarrow> StringifyContext \<Rightarrow> nat \<Rightarrow> u16 list \<Rightarrow> jsval \<Rightarrow> jsheap \<Rightarrow> json_error + (jsval \<times> jsheap)" where
  "PreprocessValue e scx holder key v h =
     (if maybeSafely scx then Inr (v, h)
      else and_then (apply_toJSON e key v h) (\<lambda>vh.
           and_then (apply_replacer e scx holder key vh) (unbox e)))"

definition IsFilteredValue :: "jsheap \<Rightarrow> jsval \<Rightarrow> bool" where
  "IsFilteredValue h v \<longleftrightarrow> v = Undefined \<or> (\<exists>n. v = Symbol n) \<or> IsCallable h v"

lemma IsFilteredValue_code [code]:
  "IsFilteredValue h v = (case v of Undefined \<Rightarrow> True | Symbol n \<Rightarrow> True | _ \<Rightarrow> IsCallable h v)"
  by (cases v) (auto simp: IsFilteredValue_def)

section \<open>Cycle detection\<close>

definition foundCycle :: "nat \<Rightarrow> strstate \<Rightarrow> json_error + strstate" where
  "foundCycle obj st =
     (if obj \<in> stack st then Inl CyclicValue else Inr (st\<lparr>stack := insert obj (stack st)\<rparr>))"

definition CycleDetector_destructor :: "nat \<Rightarrow> strstate \<Rightarrow> strstate" where
  "CycleDetector_destructor obj st = st\<lparr>stack := stack st - {obj}\<rparr>"

section \<open>Objects, arrays, values\<close>

text \<open>
  \<open>JO\<close> and \<open>JA\<close> take the recursive call \<open>Str\<close> as an argument: \<open>Str\<close> below passes itself with one unit
  less of the recursion budget.
\<close>

fun JO_members ::
  "engine_fns \<Rightarrow> StringifyContext \<Rightarrow> (jsval \<Rightarrow> strstate \<Rightarrow> json_error + strstate) \<Rightarrow> nat \<Rightarrow> nat \<Rightarrow>
   u16 list list \<Rightarrow> bool \<Rightarrow> strstate \<Rightarrow> json_error + (bool \<times> strstate)" where
  "JO_members e scx str obj depth [] wroteMember st = Inr (wroteMember, st)"
| "JO_members e scx str obj depth (key # ids) wroteMember st =
     and_then (PreprocessValue e scx obj key (GetProperty (heap st) obj key) (heap st)) (\<lambda>(v, h).
       let st = st\<lparr>heap := h\<rparr> in
       if IsFilteredValue h v then JO_members e scx str obj depth ids wroteMember st
       else
         let st = (if wroteMember then append_sb (u16s '','') st else st);
             st = WriteIndent scx depth st;
             st = st\<lparr>sb := Quote (sb st) key\<rparr>;
             st = append_sb (u16s '':'') st;
             st = (if gap scx = [] then st else append_sb (u16s '' '') st)
         in and_then (str v st) (JO_members e scx str obj depth ids True))"

definition JO ::
  "engine_fns \<Rightarrow> StringifyContext \<Rightarrow> (jsval \<Rightarrow> strstate \<Rightarrow> json_error + strstate) \<Rightarrow> nat \<Rightarrow> nat \<Rightarrow>
   strstate \<Rightarrow> json_error + strstate" where
  "JO e scx str obj depth st =
     and_then (foundCycle obj st) (\<lambda>st.
       let st = append_sb (u16s ''{'') st;
           ids = (if replacer scx \<noteq> None \<and> \<not> replacer_callable scx (heap st) then propertyList scx
                  else GetPropertyKeys (heap st) obj)
       in and_then (JO_members e scx str obj depth ids False st) (\<lambda>(wroteMember, st).
            let st = (if wroteMember then WriteIndent scx (depth - 1) st else st);
                st = append_sb (u16s ''}'') st
            in Inr (CycleDetector_destructor obj st)))"

fun JA_elements ::
  "engine_fns \<Rightarrow> StringifyContext \<Rightarrow> (jsval \<Rightarrow> strstate \<Rightarrow> json_error + strstate) \<Rightarrow> nat \<Rightarrow> nat \<Rightarrow> nat \<Rightarrow>
   nat list \<Rightarrow> strstate \<Rightarrow> json_error + strstate" where
  "JA_elements e scx str obj depth len [] st = Inr st"
| "JA_elements e scx str obj depth len (i # is) st =
     and_then (PreprocessValue e scx obj (IndexToString i) (GetElement (heap st) obj i) (heap st)) (\<lambda>(v, h).
       let st = st\<lparr>heap := h\<rparr> in
       and_then (if IsFilteredValue h v then Inr (append_sb (u16s ''null'') st) else str v st) (\<lambda>st.
         let st = (if i < len - 1 then WriteIndent scx depth (append_sb (u16s '','') st) else st)
         in JA_elements e scx str obj depth len is st))"

definition array_length :: "jsheap \<Rightarrow> nat \<Rightarrow> nat" where
  "array_length h obj =
     (if obj < length h then (case cls (h ! obj) of ArrayC elems \<Rightarrow> length elems | _ \<Rightarrow> 0) else 0)"

definition IsArray :: "jsheap \<Rightarrow> nat \<Rightarrow> bool" where
  "IsArray h obj = (obj < length h \<and> (case cls (h ! obj) of ArrayC _ \<Rightarrow> True | _ \<Rightarrow> False))"

definition JA ::
  "engine_fns \<Rightarrow> StringifyContext \<Rightarrow> (jsval \<Rightarrow> strstate \<Rightarrow> json_error + strstate) \<Rightarrow> nat \<Rightarrow> nat \<Rightarrow>
   strstate \<Rightarrow> json_error + strstate" where
  "JA e scx str obj depth st =
     and_then (foundCycle obj st) (\<lambda>st.
       let st = append_sb (u16s ''['') st;
           len = array_length (heap st) obj
       in and_then
            (if len \<noteq> 0 then
               and_then (JA_elements e scx str obj depth len [0..<len] (WriteIndent scx depth st))
                 (\<lambda>st. Inr (WriteIndent scx (depth - 1) st))
             else Inr st)
            (\<lambda>st. Inr (CycleDetector_destructor obj (append_sb (u16s '']'') st))))"

definition NumberValueToStringBuffer :: "engine_fns \<Rightarrow> dbl \<Rightarrow> strstate \<Rightarrow> strstate" where
  "NumberValueToStringBuffer e d st = append_sb (NumberToCString (frac e) d) st"

text \<open>\<open>depth\<close> is the value before the call; the scope guard restores it, so it is an argument.\<close>

primrec StrValue ::
  "engine_fns \<Rightarrow> StringifyContext \<Rightarrow> nat \<Rightarrow> nat \<Rightarrow> jsval \<Rightarrow> strstate \<Rightarrow> json_error + strstate" where
  "StrValue e scx 0 depth v st = Inl TooMuchRecursion"
| "StrValue e scx (Suc budget) depth v st =
     (case v of
        Str s \<Rightarrow> Inr (st\<lparr>sb := Quote (sb st) s\<rparr>)
      | Null \<Rightarrow> Inr (append_sb (u16s ''null'') st)
      | Boolean b \<Rightarrow> Inr (append_sb (u16s (if b then ''true'' else ''false'')) st)
      | Number d \<Rightarrow>
          (if IsFinite d then Inr (NumberValueToStringBuffer e d st)
           else Inr (append_sb (u16s ''null'') st))
      | Object obj \<Rightarrow>
          (if IsArray (heap st) obj
           then JA e scx (StrValue e scx budget (depth + 1)) obj (depth + 1) st
           else JO e scx (StrValue e scx budget (depth + 1)) obj (depth + 1) st)
      | Undefined \<Rightarrow> Inr st
      | Symbol n \<Rightarrow> Inr st)"

section \<open>The entry points\<close>

text \<open>\<open>ValueToId\<close> on the elements of an array replacer; \<open>None\<close> for an element that is skipped.\<close>

definition property_list_id :: "engine_fns \<Rightarrow> jsheap \<Rightarrow> jsval \<Rightarrow> json_error + u16 list option" where
  "property_list_id e h item =
     (let id = (case ToString (frac e) (to_primitive e h) item of
                  Some s \<Rightarrow> Inr (Some s) | None \<Rightarrow> Inl UserException)
      in case item of
           Number d \<Rightarrow> id
         | Str s \<Rightarrow> id
         | Object n \<Rightarrow>
             (if n < length h then
                (case cls (h ! n) of StringC _ \<Rightarrow> id | NumberC _ \<Rightarrow> id | _ \<Rightarrow> Inr None)
              else Inr None)
         | _ \<Rightarrow> Inr None)"

fun property_list :: "engine_fns \<Rightarrow> jsheap \<Rightarrow> nat \<Rightarrow> nat list \<Rightarrow> u16 list list \<Rightarrow> json_error + u16 list list" where
  "property_list e h r [] ids = Inr ids"
| "property_list e h r (k # ks) ids =
     and_then (property_list_id e h (GetElement h r k)) (\<lambda>id.
       case id of
         Some s \<Rightarrow> property_list e h r ks (if s \<in> set ids then ids else ids @ [s])
       | None \<Rightarrow> property_list e h r ks ids)"

text \<open>Steps 5 to 8: the indentation unit.\<close>

definition double_floor_capped :: "u64 \<Rightarrow> nat" where
  "double_floor_capped b =
     (let sign = b AND sign_bit; e = unat (drop_bit 52 b AND 0x7FF); m = uint (b AND mask 52) in
      if sign \<noteq> 0 \<or> (e = 2047 \<and> m \<noteq> 0) \<or> e < 1023 then 0
      else if 1027 \<le> e then 10
      else nat (min 10 ((2 ^ 52 + m) div 2 ^ (1075 - e))))"

definition to_integer_capped :: "dbl \<Rightarrow> nat" where
  "to_integer_capped d = (case d of DInt n \<Rightarrow> nat (min 10 n) | DBits b \<Rightarrow> double_floor_capped b)"

definition unbox_space :: "engine_fns \<Rightarrow> jsheap \<Rightarrow> jsval \<Rightarrow> json_error + jsval" where
  "unbox_space e h space =
     (case space of
        Object n \<Rightarrow>
          (if \<not> n < length h then Inr space
           else case cls (h ! n) of
               NumberC _ \<Rightarrow>
                 (case to_number e h n of Some d \<Rightarrow> Inr (Number d) | None \<Rightarrow> Inl UserException)
             | StringC _ \<Rightarrow>
                 (case ToString (frac e) (to_primitive e h) space of
                    Some s \<Rightarrow> Inr (Str s) | None \<Rightarrow> Inl UserException)
             | _ \<Rightarrow> Inr space)
      | _ \<Rightarrow> Inr space)"

definition stringify_gap :: "jsval \<Rightarrow> u16 list" where
  "stringify_gap space =
     (case space of
        Number d \<Rightarrow> replicate (to_integer_capped d) 0x20
      | Str s \<Rightarrow> take 10 s
      | _ \<Rightarrow> [])"

text \<open>
  \<open>js::Stringify\<close>. The replacer counts when it is callable or an array. The wrapper object holds the
  value under the empty key. The result is the final state; \<open>sb\<close> stays empty for a filtered value.
\<close>

definition Stringify ::
  "engine_fns \<Rightarrow> nat \<Rightarrow> bool \<Rightarrow> jsval \<Rightarrow> nat option \<Rightarrow> jsval \<Rightarrow> jsheap \<Rightarrow> json_error + strstate" where
  "Stringify e budget safely v rep space h =
     (let array_replacer = (case rep of
            Some r \<Rightarrow> \<not> IsCallable h (Object r) \<and> IsArray h r | None \<Rightarrow> False);
          callable_replacer = (case rep of Some r \<Rightarrow> IsCallable h (Object r) | None \<Rightarrow> False)
      in and_then
           (if array_replacer then property_list e h (the rep) [0..<array_length h (the rep)] []
            else Inr []) (\<lambda>ids.
         and_then (unbox_space e h space) (\<lambda>space.
           let scx = \<lparr>gap = stringify_gap space,
                      replacer = (if callable_replacer \<or> array_replacer then rep else None),
                      propertyList = ids, maybeSafely = safely\<rparr>;
               (wrapper, h) = alloc (plain [([], v)]) h
           in and_then (PreprocessValue e scx wrapper [] v h) (\<lambda>(v, h).
                let st = \<lparr>sb = [], stack = {}, heap = h\<rparr>
                in if IsFilteredValue h v then Inr st
                   else StrValue e scx budget 0 v st))))"

text \<open>\<open>JS_Stringify\<close>: an empty output becomes \<open>null\<close>. The callback receives the text; here it is returned.\<close>

definition JS_Stringify ::
  "engine_fns \<Rightarrow> nat \<Rightarrow> jsval \<Rightarrow> nat option \<Rightarrow> jsval \<Rightarrow> jsheap \<Rightarrow> json_error + (u16 list \<times> jsheap)" where
  "JS_Stringify e budget v rep space h =
     and_then (Stringify e budget False v rep space h) (\<lambda>st.
       Inr (if sb st = [] then u16s ''null'' else sb st, heap st))"

definition ToJSONMaybeSafely ::
  "engine_fns \<Rightarrow> nat \<Rightarrow> nat \<Rightarrow> jsheap \<Rightarrow> json_error + (u16 list \<times> jsheap)" where
  "ToJSONMaybeSafely e budget obj h =
     and_then (Stringify e budget True (Object obj) None Null h) (\<lambda>st.
       Inr (if sb st = [] then u16s ''null'' else sb st, heap st))"

end
