(* ===== verification/JsonParser.thy ===== *)
theory JsonParser
  imports JsonStringify
begin

text \<open>
  The JSON parser of \<open>js/src/vm/JSONParser.{h,cpp}\<close>, which reads every JSON argument Java passes to
  JavaScript. The pointer \<open>current\<close> is the list of code units from there to \<open>end\<close>; moving it back to
  report a position is naming an earlier such list. \<open>parse\<close> is a state machine with \<open>goto\<close>s: one
  constructor of \<open>control\<close> per place it jumps to, one \<open>parse_step\<close> from each. The allocation failures
  (token \<open>OOM\<close>) are not modelled.
\<close>

section \<open>Tokens\<close>

datatype Token =
  StringToken "u16 list" | NumberToken dbl | TrueToken | FalseToken | NullToken
  | ArrayOpen | ArrayClose | ObjectOpen | ObjectClose | Colon | Comma
  | Error string

definition JS7_ISDEC :: "u16 \<Rightarrow> bool" where
  "JS7_ISDEC c \<longleftrightarrow> 0x30 \<le> c \<and> c \<le> 0x39"

definition JS7_ISHEX :: "u16 \<Rightarrow> bool" where
  "JS7_ISHEX c \<longleftrightarrow> JS7_ISDEC c \<or> (0x41 \<le> c \<and> c \<le> 0x46) \<or> (0x61 \<le> c \<and> c \<le> 0x66)"

definition JS7_UNHEX :: "u16 \<Rightarrow> u16" where
  "JS7_UNHEX c = (if JS7_ISDEC c then c - 0x30 else if 0x61 \<le> c then c - 0x61 + 10 else c - 0x41 + 10)"

definition IsJSONWhitespace :: "u16 \<Rightarrow> bool" where
  "IsJSONWhitespace c \<longleftrightarrow> c = 0x09 \<or> c = 0x0D \<or> c = 0x0A \<or> c = 0x20"

section \<open>Strings\<close>

text \<open>The unit a one-letter escape stands for.\<close>

definition simple_escape :: "u16 \<Rightarrow> u16 option" where
  "simple_escape c =
     (if c = 0x22 \<or> c = 0x2F \<or> c = 0x5C then Some c
      else if c = ascii_u16 CHR ''b'' then Some 0x08
      else if c = ascii_u16 CHR ''f'' then Some 0x0C
      else if c = ascii_u16 CHR ''n'' then Some 0x0A
      else if c = ascii_u16 CHR ''r'' then Some 0x0D
      else if c = ascii_u16 CHR ''t'' then Some 0x09
      else None)"

definition hex4 :: "u16 \<Rightarrow> u16 \<Rightarrow> u16 \<Rightarrow> u16 \<Rightarrow> u16" where
  "hex4 a b c d =
     push_bit 12 (JS7_UNHEX a) OR push_bit 8 (JS7_UNHEX b) OR push_bit 4 (JS7_UNHEX c) OR JS7_UNHEX d"

text \<open>
  The escape after a backslash: \<open>current\<close> is just past it. An error names the place to report: the
  offending character of a \<open>\u\<close> escape is the first of the four that is missing or not hexadecimal.
\<close>

definition read_escape :: "u16 list \<Rightarrow> (string \<times> u16 list) + (u16 \<times> u16 list)" where
  "read_escape current =
     (case current of
        [] \<Rightarrow> Inl (''unterminated string'', [])
      | x # rest \<Rightarrow>
          (case simple_escape x of
             Some c \<Rightarrow> Inr (c, rest)
           | None \<Rightarrow>
               if x = ascii_u16 CHR ''u'' then
                 (case rest of
                    a # b # c # d # rest' \<Rightarrow>
                      if JS7_ISHEX a \<and> JS7_ISHEX b \<and> JS7_ISHEX c \<and> JS7_ISHEX d
                      then Inr (hex4 a b c d, rest')
                      else Inl (''bad Unicode escape'', dropWhile JS7_ISHEX rest)
                  | _ \<Rightarrow> Inl (''bad Unicode escape'', dropWhile JS7_ISHEX rest))
               else Inl (''bad escaped character'', current)))"

definition string_plain :: "u16 \<Rightarrow> bool" where
  "string_plain c \<longleftrightarrow> \<not> (c = 0x22 \<or> c = 0x5C \<or> c \<le> 0x1F)"

text \<open>The slow loop: \<open>buffer\<close> holds what is read, \<open>current\<close> the rest from a run of plain characters on.\<close>

lemma read_escape_shorter: "read_escape cur = Inr (c, rest) \<Longrightarrow> length rest < length cur"
  by (auto simp: read_escape_def split: list.splits option.splits if_splits)

function readString_slow :: "u16 list \<Rightarrow> u16 list \<Rightarrow> Token \<times> u16 list" where
  "readString_slow current buffer =
     (let buffer' = buffer @ takeWhile string_plain current in
      case dropWhile string_plain current of
        [] \<Rightarrow> (Error ''unterminated string'', [])
      | c # rest \<Rightarrow>
          if c = 0x22 then (StringToken buffer', rest)
          else if c \<noteq> 0x5C then (Error ''bad character in string literal'', c # rest)
          else case read_escape rest of
              Inl (msg, cur) \<Rightarrow> (Error msg, cur)
            | Inr (u, rest') \<Rightarrow> readString_slow rest' (buffer' @ [u]))"
  by pat_completeness auto
termination
  by (relation "measure (\<lambda>(current, buffer). length current)")
    (auto dest!: read_escape_shorter dropWhile_Cons_length_less dest: less_trans)

declare readString_slow.simps [simp del]

text \<open>\<open>readString\<close>: \<open>current\<close> is at the opening quote; the fast path ends at the first special character.\<close>

definition readString :: "u16 list \<Rightarrow> Token \<times> u16 list" where
  "readString current =
     (let start = tl current in
      if start = [] then (Error ''unterminated string literal'', [])
      else case dropWhile string_plain start of
          [] \<Rightarrow> readString_slow start []
        | c # rest \<Rightarrow>
            if c = 0x22 then (StringToken (takeWhile string_plain start), rest)
            else if c = 0x5C then readString_slow start []
            else (Error ''bad control character in string literal'', c # rest))"

section \<open>Numbers\<close>

definition unit_digits :: "u16 list \<Rightarrow> nat list" where
  "unit_digits chars = map (\<lambda>c. unat c - 0x30) chars"

text \<open>\<open>ParseDecimalNumber\<close>: at most fifteen digits, accumulated in a \<open>uint64_t\<close>.\<close>

definition ParseDecimalNumber :: "u16 list \<Rightarrow> dbl" where
  "ParseDecimalNumber chars =
     DInt (uint (foldl (\<lambda>dec c. dec * 10 + ucast (c - 0x30)) (0 :: u64) chars))"

text \<open>
  \<open>GetPrefixInteger\<close> in base ten on a range of digits: the sum in doubles is exact below \<open>2\<^sup>5\<^sup>3\<close> and never
  falls below it once past, so the test on it is the test on the exact value; past it \<open>strtod\<close> decides.
\<close>

definition GetPrefixInteger :: "engine_fns \<Rightarrow> u16 list \<Rightarrow> dbl" where
  "GetPrefixInteger e chars =
     (let n = dec_value (unit_digits chars) in
      if int n < DOUBLE_INTEGRAL_PRECISION_LIMIT then DInt (int n) else strtod e chars)"

definition signed :: "bool \<Rightarrow> dbl \<Rightarrow> dbl" where
  "signed negative d = (if negative then dbl_neg d else d)"

text \<open>The optional fraction and exponent: what follows them, or the error and where it is.\<close>

definition read_fraction :: "u16 list \<Rightarrow> (string \<times> u16 list) + u16 list" where
  "read_fraction current =
     (case current of
        [] \<Rightarrow> Inr []
      | c # rest \<Rightarrow>
          if c \<noteq> 0x2E then Inr current
          else if rest = [] then Inl (''missing digits after decimal point'', [])
          else if \<not> JS7_ISDEC (hd rest) then Inl (''unterminated fractional number'', rest)
          else Inr (dropWhile JS7_ISDEC rest))"

definition read_exponent :: "u16 list \<Rightarrow> (string \<times> u16 list) + u16 list" where
  "read_exponent current =
     (case current of
        [] \<Rightarrow> Inr []
      | c # rest \<Rightarrow>
          if c \<noteq> 0x65 \<and> c \<noteq> 0x45 then Inr current
          else if rest = [] then Inl (''missing digits after exponent indicator'', [])
          else
            let signed = hd rest = 0x2B \<or> hd rest = 0x2D;
                digits = (if signed then tl rest else rest)
            in if signed \<and> digits = [] then Inl (''missing digits after exponent sign'', [])
               else if \<not> JS7_ISDEC (hd digits) then Inl (''exponent part is missing a number'', digits)
               else Inr (dropWhile JS7_ISDEC digits))"

text \<open>\<open>0|[1-9][0-9]*\<close> at \<open>digitStart\<close>: the rest after the integer part.\<close>

definition skip_integer :: "u16 list \<Rightarrow> u16 list" where
  "skip_integer digitStart =
     (if hd digitStart = 0x30 then tl digitStart else dropWhile JS7_ISDEC (tl digitStart))"

definition chars_between :: "u16 list \<Rightarrow> u16 list \<Rightarrow> u16 list" where
  "chars_between start current = take (length start - length current) start"

text \<open>From \<open>digitStart\<close>, past the optional minus sign.\<close>

definition readUnsigned :: "engine_fns \<Rightarrow> bool \<Rightarrow> u16 list \<Rightarrow> Token \<times> u16 list" where
  "readUnsigned e negative digitStart =
     (if \<not> JS7_ISDEC (hd digitStart) then (Error ''unexpected non-digit'', digitStart)
      else
        let current = skip_integer digitStart in
        if current = [] \<or> hd current \<notin> {0x2E, 0x65, 0x45} then
          let chars = chars_between digitStart current in
          if length chars < length ''9007199254740992''
          then (NumberToken (signed negative (ParseDecimalNumber chars)), current)
          else (NumberToken (signed negative (GetPrefixInteger e chars)), current)
        else
          case and_then (read_fraction current) read_exponent of
            Inl (msg, at) \<Rightarrow> (Error msg, at)
          | Inr current \<Rightarrow>
              (NumberToken (signed negative (strtod e (chars_between digitStart current))), current))"

definition readNumber :: "engine_fns \<Rightarrow> u16 list \<Rightarrow> Token \<times> u16 list" where
  "readNumber e current =
     (if hd current = 0x2D then
        if tl current = [] then (Error ''no number after minus sign'', [])
        else readUnsigned e True (tl current)
      else readUnsigned e False current)"

section \<open>The token readers\<close>

definition skip_ws :: "u16 list \<Rightarrow> u16 list" where
  "skip_ws current = dropWhile IsJSONWhitespace current"

definition keyword :: "string \<Rightarrow> Token \<Rightarrow> u16 list \<Rightarrow> Token \<times> u16 list" where
  "keyword word t current =
     (if take (length word) current = u16s word then (t, drop (length word) current)
      else (Error ''unexpected keyword'', current))"

definition punctuator :: "u16 \<Rightarrow> Token option" where
  "punctuator c =
     (if c = 0x5B then Some ArrayOpen else if c = 0x5D then Some ArrayClose
      else if c = 0x7B then Some ObjectOpen else if c = 0x7D then Some ObjectClose
      else if c = 0x2C then Some Comma else if c = 0x3A then Some Colon else None)"

definition advance :: "engine_fns \<Rightarrow> u16 list \<Rightarrow> Token \<times> u16 list" where
  "advance e current =
     (case skip_ws current of
        [] \<Rightarrow> (Error ''unexpected end of data'', [])
      | c # rest \<Rightarrow>
          if c = 0x22 then readString (c # rest)
          else if c = 0x2D \<or> JS7_ISDEC c then readNumber e (c # rest)
          else if c = 0x74 then keyword ''true'' TrueToken (c # rest)
          else if c = 0x66 then keyword ''false'' FalseToken (c # rest)
          else if c = 0x6E then keyword ''null'' NullToken (c # rest)
          else case punctuator c of
              Some t \<Rightarrow> (t, rest)
            | None \<Rightarrow> (Error ''unexpected character'', c # rest))"

text \<open>The messages that quote a character.\<close>

definition quoted :: "string \<Rightarrow> string" where
  "quoted s = CHR 0x27 # s @ [CHR 0x27]"

definition advanceAfterObjectOpen :: "u16 list \<Rightarrow> Token \<times> u16 list" where
  "advanceAfterObjectOpen current =
     (case skip_ws current of
        [] \<Rightarrow> (Error ''end of data while reading object contents'', [])
      | c # rest \<Rightarrow>
          if c = 0x22 then readString (c # rest)
          else if c = 0x7D then (ObjectClose, rest)
          else (Error (''expected property name or '' @ quoted ''}''), c # rest))"

definition advanceAfterArrayElement :: "u16 list \<Rightarrow> Token \<times> u16 list" where
  "advanceAfterArrayElement current =
     (case skip_ws current of
        [] \<Rightarrow> (Error (''end of data when '' @ quoted '','' @ '' or '' @ quoted '']'' @ '' was expected''), [])
      | c # rest \<Rightarrow>
          if c = 0x2C then (Comma, rest)
          else if c = 0x5D then (ArrayClose, rest)
          else (Error (''expected '' @ quoted '','' @ '' or '' @ quoted '']'' @ '' after array element''), c # rest))"

definition advancePropertyName :: "u16 list \<Rightarrow> Token \<times> u16 list" where
  "advancePropertyName current =
     (case skip_ws current of
        [] \<Rightarrow> (Error ''end of data when property name was expected'', [])
      | c # rest \<Rightarrow>
          if c = 0x22 then readString (c # rest)
          else (Error ''expected double-quoted property name'', c # rest))"

definition advancePropertyColon :: "u16 list \<Rightarrow> Token \<times> u16 list" where
  "advancePropertyColon current =
     (case skip_ws current of
        [] \<Rightarrow> (Error (''end of data after property name when '' @ quoted '':'' @ '' was expected''), [])
      | c # rest \<Rightarrow>
          if c = 0x3A then (Colon, rest)
          else (Error (''expected '' @ quoted '':'' @ '' after property name in object''), c # rest))"

definition advanceAfterProperty :: "u16 list \<Rightarrow> Token \<times> u16 list" where
  "advanceAfterProperty current =
     (case skip_ws current of
        [] \<Rightarrow> (Error ''end of data after property value in object'', [])
      | c # rest \<Rightarrow>
          if c = 0x2C then (Comma, rest)
          else if c = 0x7D then (ObjectClose, rest)
          else (Error (''expected '' @ quoted '','' @ '' or '' @ quoted ''}'' @ '' after property value in object''),
                c # rest))"

section \<open>The machine\<close>

datatype StackEntry =
  Elements "jsval list" | Properties "(u16 list \<times> jsval) list"

text \<open>
  The labels of \<open>parse\<close>: the three states, the \<open>goto\<close> targets \<open>JSONValueSwitch\<close> and \<open>JSONMember\<close>, the
  bottom of the outer loop, and the loop over the trailing white space.
\<close>

datatype control =
  JSONValue | JSONValueSwitch Token | JSONMember Token | FinishObjectMember | FinishArrayElement
  | LoopEnd | Trailing

record parser =
  control :: control
  current :: "u16 list"
  pvalue :: jsval
  pstack :: "StackEntry list"
  pheap :: jsheap

text \<open>The parse fails with a message and the place it is reported at, or ends with a value.\<close>

datatype outcome = Failed string "u16 list" | Parsed jsval jsheap

definition finishObject :: "(u16 list \<times> jsval) list \<Rightarrow> parser \<Rightarrow> parser" where
  "finishObject properties p =
     (let (n, h) = newPlainObject properties (pheap p)
      in p\<lparr>pvalue := Object n, pheap := h, pstack := tl (pstack p), control := LoopEnd\<rparr>)"

definition finishArray :: "jsval list \<Rightarrow> parser \<Rightarrow> parser" where
  "finishArray elements p =
     (let (n, h) = newArrayObject elements (pheap p)
      in p\<lparr>pvalue := Object n, pheap := h, pstack := tl (pstack p), control := LoopEnd\<rparr>)"

definition set_last_value :: "jsval \<Rightarrow> (u16 list \<times> jsval) list \<Rightarrow> (u16 list \<times> jsval) list" where
  "set_last_value v ps = butlast ps @ [(fst (last ps), v)]"

definition step_FinishObjectMember :: "parser \<Rightarrow> parser + outcome" where
  "step_FinishObjectMember p =
     (case pstack p of
        Properties ps # stk \<Rightarrow>
          (let ps = set_last_value (pvalue p) ps;
               p = p\<lparr>pstack := Properties ps # stk\<rparr>;
               (token, cur) = advanceAfterProperty (current p)
           in case token of
                ObjectClose \<Rightarrow> Inl (finishObject ps (p\<lparr>current := cur\<rparr>))
              | Comma \<Rightarrow>
                  (let (token, cur) = advancePropertyName cur
                   in Inl (p\<lparr>current := cur, control := JSONMember token\<rparr>))
              | Error msg \<Rightarrow> Inr (Failed msg cur)
              | _ \<Rightarrow> Inr (Failed (''expected '' @ quoted '','' @ '' or '' @ quoted ''}'' @
                           '' after property-value pair in object literal'') cur))
      | _ \<Rightarrow> Inr (Failed ''no object on the stack'' (current p)))"

definition step_JSONMember :: "Token \<Rightarrow> parser \<Rightarrow> parser + outcome" where
  "step_JSONMember token p =
     (case token of
        StringToken name \<Rightarrow>
          (case pstack p of
             Properties ps # stk \<Rightarrow>
               (let p = p\<lparr>pstack := Properties (ps @ [(name, Undefined)]) # stk\<rparr>;
                    (token, cur) = advancePropertyColon (current p)
                in case token of
                     Colon \<Rightarrow> Inl (p\<lparr>current := cur, control := JSONValue\<rparr>)
                   | Error msg \<Rightarrow> Inr (Failed msg cur)
                   | _ \<Rightarrow> Inr (Failed [] cur))
           | _ \<Rightarrow> Inr (Failed ''no object on the stack'' (current p)))
      | Error msg \<Rightarrow> Inr (Failed msg (current p))
      | _ \<Rightarrow> Inr (Failed ''property names must be double-quoted strings'' (current p)))"

definition step_FinishArrayElement :: "parser \<Rightarrow> parser + outcome" where
  "step_FinishArrayElement p =
     (case pstack p of
        Elements es # stk \<Rightarrow>
          (let es = es @ [pvalue p];
               p = p\<lparr>pstack := Elements es # stk\<rparr>;
               (token, cur) = advanceAfterArrayElement (current p)
           in case token of
                Comma \<Rightarrow> Inl (p\<lparr>current := cur, control := JSONValue\<rparr>)
              | ArrayClose \<Rightarrow> Inl (finishArray es (p\<lparr>current := cur\<rparr>))
              | Error msg \<Rightarrow> Inr (Failed msg cur)
              | _ \<Rightarrow> Inr (Failed [] cur))
      | _ \<Rightarrow> Inr (Failed ''no array on the stack'' (current p)))"

text \<open>The character a closing or separating token was read from: the pointer moved back over it.\<close>

definition unread :: "Token \<Rightarrow> u16 list \<Rightarrow> u16 list" where
  "unread token cur =
     (case token of
        ArrayClose \<Rightarrow> 0x5D # cur | ObjectClose \<Rightarrow> 0x7D # cur | Colon \<Rightarrow> 0x3A # cur | Comma \<Rightarrow> 0x2C # cur
      | _ \<Rightarrow> cur)"

definition got_value :: "jsval \<Rightarrow> parser \<Rightarrow> parser + outcome" where
  "got_value v p = Inl (p\<lparr>pvalue := v, control := LoopEnd\<rparr>)"

definition step_JSONValueSwitch :: "engine_fns \<Rightarrow> Token \<Rightarrow> parser \<Rightarrow> parser + outcome" where
  "step_JSONValueSwitch e token p =
     (case token of
        StringToken s \<Rightarrow> got_value (Str s) p
      | NumberToken d \<Rightarrow> got_value (Number d) p
      | TrueToken \<Rightarrow> got_value (Boolean True) p
      | FalseToken \<Rightarrow> got_value (Boolean False) p
      | NullToken \<Rightarrow> got_value Null p
      | ArrayOpen \<Rightarrow>
          (let p = p\<lparr>pstack := Elements [] # pstack p\<rparr>;
               (token, cur) = advance e (current p);
               p = p\<lparr>current := cur\<rparr>
           in if token = ArrayClose then Inl (finishArray [] p)
              else Inl (p\<lparr>control := JSONValueSwitch token\<rparr>))
      | ObjectOpen \<Rightarrow>
          (let p = p\<lparr>pstack := Properties [] # pstack p\<rparr>;
               (token, cur) = advanceAfterObjectOpen (current p);
               p = p\<lparr>current := cur\<rparr>
           in if token = ObjectClose then Inl (finishObject [] p)
              else Inl (p\<lparr>control := JSONMember token\<rparr>))
      | Error msg \<Rightarrow> Inr (Failed msg (current p))
      | _ \<Rightarrow> Inr (Failed ''unexpected character'' (unread token (current p))))"

definition step_LoopEnd :: "parser \<Rightarrow> parser + outcome" where
  "step_LoopEnd p =
     (case pstack p of
        [] \<Rightarrow> Inl (p\<lparr>control := Trailing\<rparr>)
      | Elements _ # _ \<Rightarrow> Inl (p\<lparr>control := FinishArrayElement\<rparr>)
      | Properties _ # _ \<Rightarrow> Inl (p\<lparr>control := FinishObjectMember\<rparr>))"

definition step_Trailing :: "parser \<Rightarrow> parser + outcome" where
  "step_Trailing p =
     (case skip_ws (current p) of
        [] \<Rightarrow> Inr (Parsed (pvalue p) (pheap p))
      | c # rest \<Rightarrow> Inr (Failed ''unexpected non-whitespace character after JSON data'' (c # rest)))"

definition parse_step :: "engine_fns \<Rightarrow> parser \<Rightarrow> parser + outcome" where
  "parse_step e p =
     (case control p of
        FinishObjectMember \<Rightarrow> step_FinishObjectMember p
      | JSONMember token \<Rightarrow> step_JSONMember token p
      | FinishArrayElement \<Rightarrow> step_FinishArrayElement p
      | JSONValue \<Rightarrow>
          (let (token, cur) = advance e (current p)
           in Inl (p\<lparr>current := cur, control := JSONValueSwitch token\<rparr>))
      | JSONValueSwitch token \<Rightarrow> step_JSONValueSwitch e token p
      | LoopEnd \<Rightarrow> step_LoopEnd p
      | Trailing \<Rightarrow> step_Trailing p)"

section \<open>Every step makes progress\<close>

text \<open>
  A token is an error or takes at least one code unit, so the machine stops: the measure is what is
  left to read, then the distance to the next read.
\<close>

definition is_error :: "Token \<Rightarrow> bool" where
  "is_error t = (case t of Error _ \<Rightarrow> True | _ \<Rightarrow> False)"

lemma is_error_simps [simp]:
  "is_error (Error m)" "\<not> is_error (StringToken s)" "\<not> is_error (NumberToken d)"
  "\<not> is_error TrueToken" "\<not> is_error FalseToken" "\<not> is_error NullToken"
  "\<not> is_error ArrayOpen" "\<not> is_error ArrayClose" "\<not> is_error ObjectOpen" "\<not> is_error ObjectClose"
  "\<not> is_error Colon" "\<not> is_error Comma"
  by (simp_all add: is_error_def)

text \<open>What a reader leaves: no more than it had, and less when the token is not an error.\<close>

definition takes :: "u16 list \<Rightarrow> Token \<times> u16 list \<Rightarrow> bool" where
  "takes cur r \<longleftrightarrow> length (snd r) \<le> length cur \<and> (\<not> is_error (fst r) \<longrightarrow> length (snd r) < length cur)"

lemma skip_ws_le: "length (skip_ws cur) \<le> length cur"
  by (simp add: skip_ws_def dropWhile_length_le)

lemma skip_ws_Cons: "skip_ws cur = c # rest \<Longrightarrow> length rest < length cur"
  unfolding skip_ws_def by (rule dropWhile_Cons_length_less)

lemma read_escape_error_le: "read_escape cur = Inl (m, at) \<Longrightarrow> length at \<le> length cur"
  using dropWhile_length_le [of JS7_ISHEX "tl cur"]
  by (auto simp: read_escape_def split: list.splits option.splits if_splits)

lemma readString_slow_end:
  "dropWhile string_plain cur = [] \<Longrightarrow> readString_slow cur buf = (Error ''unterminated string'', [])"
  by (simp only: readString_slow.simps [of cur] Let_def list.case)

lemma readString_slow_at:
  "dropWhile string_plain cur = c # rest \<Longrightarrow> readString_slow cur buf =
     (if c = 0x22 then (StringToken (buf @ takeWhile string_plain cur), rest)
      else if c \<noteq> 0x5C then (Error ''bad character in string literal'', c # rest)
      else case read_escape rest of
          Inl (msg, cur) \<Rightarrow> (Error msg, cur)
        | Inr (u, rest') \<Rightarrow> readString_slow rest' ((buf @ takeWhile string_plain cur) @ [u]))"
  by (simp only: readString_slow.simps [of cur] Let_def list.case)

lemma readString_slow_takes: "takes cur (readString_slow cur buf)"
proof (induction cur buf rule: readString_slow.induct)
  case (1 cur buf)
  show ?case
  proof (cases "dropWhile string_plain cur")
    case Nil
    then show ?thesis by (simp only: readString_slow_end) (simp add: takes_def)
  next
    case (Cons c rest)
    note less = dropWhile_Cons_length_less [OF Cons]
    show ?thesis
    proof (cases "read_escape rest")
      case (Inl x)
      then show ?thesis
        using less read_escape_error_le [of rest "fst x" "snd x"]
        by (cases x) (auto simp: readString_slow_at [OF Cons] takes_def)
    next
      case (Inr x)
      show ?thesis
      proof (cases "c = 0x5C")
        case True
        have "takes (snd x) (readString_slow (snd x) ((buf @ takeWhile string_plain cur) @ [fst x]))"
          using 1 [OF refl Cons] Inr True by (cases x) simp
        then show ?thesis
          using less True Inr read_escape_shorter [of rest "fst x" "snd x"]
          by (cases x) (auto simp: readString_slow_at [OF Cons] takes_def)
      next
        case False
        then show ?thesis using less by (simp add: readString_slow_at [OF Cons] takes_def)
      qed
    qed
  qed
qed

lemma readString_takes: "cur \<noteq> [] \<Longrightarrow> takes cur (readString cur)"
proof (cases "dropWhile string_plain (tl cur)")
  case Nil
  then show "cur \<noteq> [] \<Longrightarrow> takes cur (readString cur)"
    by (auto simp only: readString_def readString_slow_end Let_def list.case) (auto simp: takes_def)
next
  case (Cons c rest)
  then show "cur \<noteq> [] \<Longrightarrow> takes cur (readString cur)"
    using readString_slow_takes [of "tl cur" "[]"] dropWhile_length_le [of string_plain "tl cur"]
    by (cases cur) (auto simp: readString_def Let_def takes_def)
qed

lemma skip_integer_le: "ds \<noteq> [] \<Longrightarrow> length (skip_integer ds) < length ds"
  using dropWhile_length_le [of JS7_ISDEC "tl ds"]
  by (cases ds) (auto simp: skip_integer_def)

lemma read_fraction_le:
  "read_fraction cur = Inr rest \<Longrightarrow> length rest \<le> length cur"
  "read_fraction cur = Inl (m, rest) \<Longrightarrow> length rest \<le> length cur"
  using dropWhile_length_le [of JS7_ISDEC "tl cur"]
  by (auto simp: read_fraction_def split: list.splits if_splits)

lemma read_exponent_le:
  "read_exponent cur = Inr rest \<Longrightarrow> length rest \<le> length cur"
  "read_exponent cur = Inl (m, rest) \<Longrightarrow> length rest \<le> length cur"
  using dropWhile_length_le [of JS7_ISDEC "tl cur"] dropWhile_length_le [of JS7_ISDEC "tl (tl cur)"]
  by (auto simp: read_exponent_def Let_def split: list.splits if_splits)

lemma takes_pair [simp]:
  "takes cur (t, r) \<longleftrightarrow> length r \<le> length cur \<and> (\<not> is_error t \<longrightarrow> length r < length cur)"
  by (simp add: takes_def)

lemma readUnsigned_takes:
  assumes "ds \<noteq> []"
  shows "takes ds (readUnsigned e negative ds)"
proof (cases "and_then (read_fraction (skip_integer ds)) read_exponent")
  case (Inl x)
  then have "length (snd x) \<le> length (skip_integer ds)"
    using read_fraction_le read_exponent_le
    by (cases x) (fastforce simp: and_then_Inl dest: order_trans)
  then show ?thesis
    using skip_integer_le [OF assms] Inl by (cases x) (auto simp: readUnsigned_def Let_def)
next
  case (Inr x)
  then have "length x \<le> length (skip_integer ds)"
    using read_fraction_le read_exponent_le by (fastforce simp: and_then_Inr dest: order_trans)
  then show ?thesis
    using skip_integer_le [OF assms] Inr by (auto simp: readUnsigned_def Let_def)
qed

lemma takes_mono: "takes cur' r \<Longrightarrow> length cur' \<le> length cur \<Longrightarrow> takes cur r"
  by (auto simp: takes_def)

lemma readNumber_takes [simp]: "takes (c # rest) (readNumber e (c # rest))"
  by (auto simp: readNumber_def intro: readUnsigned_takes takes_mono)

lemma keyword_takes: "word \<noteq> [] \<Longrightarrow> takes cur (keyword word t cur)"
  by (cases cur; cases word) (auto simp: keyword_def)

lemma takes_after_ws:
  assumes "skip_ws cur = [] \<Longrightarrow> takes cur r"
    and "\<And>c rest. skip_ws cur = c # rest \<Longrightarrow> takes (c # rest) r"
  shows "takes cur r"
proof (cases "skip_ws cur")
  case Nil
  then show ?thesis by (rule assms)
next
  case (Cons c rest)
  then have "length (c # rest) \<le> length cur" using skip_ws_le [of cur] by simp
  then show ?thesis using assms(2) [OF Cons] by (auto simp: takes_def)
qed

lemma readString_takes_Cons [simp]: "takes (c # rest) (readString (c # rest))"
  by (simp add: readString_takes)

lemma advance_takes: "takes cur (advance e cur)"
  by (rule takes_after_ws)
    (auto simp: advance_def keyword_takes split: option.splits)

lemma reader_takes:
  "takes cur (advanceAfterObjectOpen cur)" "takes cur (advanceAfterArrayElement cur)"
  "takes cur (advancePropertyName cur)" "takes cur (advancePropertyColon cur)"
  "takes cur (advanceAfterProperty cur)"
  by (rule takes_after_ws, simp_all add: advanceAfterObjectOpen_def advanceAfterArrayElement_def
      advancePropertyName_def advancePropertyColon_def advanceAfterProperty_def)+

lemmas token_readers_take = advance_takes reader_takes

text \<open>The distance to the next read, and the order in which every step goes down.\<close>

definition control_rank :: "control \<Rightarrow> nat" where
  "control_rank c =
     (case c of
        JSONValue \<Rightarrow> 6
      | JSONValueSwitch t \<Rightarrow> (if is_error t then 0 else 5)
      | JSONMember t \<Rightarrow> (if is_error t then 0 else 5)
      | LoopEnd \<Rightarrow> 4
      | FinishObjectMember \<Rightarrow> 2
      | FinishArrayElement \<Rightarrow> 2
      | Trailing \<Rightarrow> 1)"

definition parser_order :: "(parser \<times> parser) set" where
  "parser_order = measures [\<lambda>p. length (current p), \<lambda>p. control_rank (control p)]"

lemma takes_cases:
  assumes "takes cur r"
  obtains t cur' where "r = (t, cur')" and "length cur' < length cur"
  | t cur' where "r = (t, cur')" and "length cur' = length cur" and "is_error t"
  using assms by (cases r) (auto simp: le_less)

lemma parser_order_simps:
  "length (current p') < length (current p) \<Longrightarrow> (p', p) \<in> parser_order"
  "length (current p') = length (current p) \<Longrightarrow>
     ((p', p) \<in> parser_order) = (control_rank (control p') < control_rank (control p))"
  by (simp_all add: parser_order_def)

lemmas control_rank_simps [simp] = control_rank_def

lemma step_JSONValueSwitch_decreases:
  assumes "step_JSONValueSwitch e token p = Inl p'" and "control p = JSONValueSwitch token"
  shows "(p', p) \<in> parser_order"
proof -
  have got: "(p', p) \<in> parser_order"
    if "p' = p\<lparr>pvalue := v, control := LoopEnd\<rparr>" and "\<not> is_error token" for v
    using that assms(2) by (simp add: parser_order_simps)
  show ?thesis
  proof (cases token)
    case ArrayOpen
    from advance_takes [of "current p" e] show ?thesis
      using assms ArrayOpen
      by (cases rule: takes_cases)
        (auto simp: step_JSONValueSwitch_def finishArray_def newArrayObject_def alloc_def
          Let_def parser_order_simps split: if_splits)
  next
    case ObjectOpen
    from reader_takes(1) [of "current p"] show ?thesis
      using assms ObjectOpen
      by (cases rule: takes_cases)
        (auto simp: step_JSONValueSwitch_def finishObject_def newPlainObject_def alloc_def
          Let_def parser_order_simps split: if_splits)
  qed (use assms got in \<open>auto simp: step_JSONValueSwitch_def got_value_def\<close>)
qed

lemma step_JSONMember_decreases:
  assumes "step_JSONMember token p = Inl p'" and "control p = JSONMember token"
  shows "(p', p) \<in> parser_order"
  using assms reader_takes(4) [of "current p"]
  by (auto simp: step_JSONMember_def parser_order_simps
      split: prod.splits Token.splits list.splits StackEntry.splits)

lemma step_FinishObjectMember_decreases:
  assumes "step_FinishObjectMember p = Inl p'" and "control p = FinishObjectMember"
  shows "(p', p) \<in> parser_order"
proof -
  obtain ps stk where stack: "pstack p = Properties ps # stk"
    using assms(1) by (auto simp: step_FinishObjectMember_def split: list.splits StackEntry.splits)
  obtain t cur where t: "advanceAfterProperty (current p) = (t, cur)" by fastforce
  obtain t' cur' where t': "advancePropertyName cur = (t', cur')" by fastforce
  show ?thesis
    using assms reader_takes(5) [of "current p"] reader_takes(3) [of cur]
    by (cases t) (auto simp: step_FinishObjectMember_def stack t t' Let_def finishObject_def
        newPlainObject_def alloc_def parser_order_simps)
qed

lemma step_FinishArrayElement_decreases:
  assumes "step_FinishArrayElement p = Inl p'" and "control p = FinishArrayElement"
  shows "(p', p) \<in> parser_order"
proof -
  obtain es stk where stack: "pstack p = Elements es # stk"
    using assms(1) by (auto simp: step_FinishArrayElement_def split: list.splits StackEntry.splits)
  obtain t cur where t: "advanceAfterArrayElement (current p) = (t, cur)" by fastforce
  show ?thesis
    using assms reader_takes(2) [of "current p"]
    by (cases t) (auto simp: step_FinishArrayElement_def stack t Let_def finishArray_def
        newArrayObject_def alloc_def parser_order_simps)
qed

lemma parse_step_decreases:
  assumes "parse_step e p = Inl p'"
  shows "(p', p) \<in> parser_order"
proof (cases "control p")
  case JSONValue
  from advance_takes [of "current p" e] show ?thesis
    using assms JSONValue
    by (cases rule: takes_cases) (auto simp: parse_step_def parser_order_simps)
next
  case LoopEnd
  then show ?thesis
    using assms
    by (auto simp: parse_step_def step_LoopEnd_def parser_order_simps split: list.splits StackEntry.splits)
next
  case Trailing
  then show ?thesis
    using assms by (auto simp: parse_step_def step_Trailing_def split: list.splits)
qed (use assms in \<open>simp_all add: parse_step_def step_JSONValueSwitch_decreases
    step_JSONMember_decreases step_FinishObjectMember_decreases step_FinishArrayElement_decreases\<close>)

section \<open>Running the machine\<close>

function parse_loop :: "engine_fns \<Rightarrow> parser \<Rightarrow> outcome" where
  "parse_loop e p = (case parse_step e p of Inl p' \<Rightarrow> parse_loop e p' | Inr r \<Rightarrow> r)"
  by pat_completeness auto
termination
proof (relation "inv_image parser_order snd")
  show "wf (inv_image parser_order snd)"
    unfolding parser_order_def by (rule wf_inv_image) (rule wf_measures)
qed (auto dest: parse_step_decreases)

declare parse_loop.simps [simp del]

text \<open>\<open>getTextPosition\<close>: the line and the column of the code units consumed so far.\<close>

fun getTextPosition :: "u16 list \<Rightarrow> nat \<Rightarrow> nat \<Rightarrow> nat \<times> nat" where
  "getTextPosition [] col row = (col, row)"
| "getTextPosition (c # cs) col row =
     (if c = 0x0A \<or> c = 0x0D then
        (case cs of
           c2 # cs' \<Rightarrow> if c = 0x0D \<and> c2 = 0x0A then getTextPosition cs' 1 (Suc row)
                        else getTextPosition cs 1 (Suc row)
         | [] \<Rightarrow> getTextPosition cs 1 (Suc row))
      else getTextPosition cs (Suc col) row)"

datatype ErrorHandling = RaiseError | NoError

text \<open>
  The result of \<open>parse\<close>: \<open>SyntaxError message line column\<close> is the pending exception when it returns false.
  Under \<open>NoError\<close> invalid text parses as \<open>undefined\<close>.
\<close>

datatype parse_result = SyntaxError string nat nat | ParseOk jsval jsheap

definition parse_init :: "u16 list \<Rightarrow> jsheap \<Rightarrow> parser" where
  "parse_init chars h = \<lparr>control = JSONValue, current = chars, pvalue = Undefined, pstack = [], pheap = h\<rparr>"

definition parse :: "engine_fns \<Rightarrow> ErrorHandling \<Rightarrow> u16 list \<Rightarrow> jsheap \<Rightarrow> parse_result" where
  "parse e errorHandling chars h =
     (case parse_loop e (parse_init chars h) of
        Parsed v h' \<Rightarrow> ParseOk v h'
      | Failed msg at \<Rightarrow>
          (if errorHandling = NoError then ParseOk Undefined h
           else let (column, line) = getTextPosition (chars_between chars at) 1 1
                in SyntaxError msg line column))"

text \<open>\<open>JS_ParseJSON\<close>: no reviver, and errors are raised.\<close>

definition JS_ParseJSON :: "engine_fns \<Rightarrow> u16 list \<Rightarrow> jsheap \<Rightarrow> parse_result" where
  "JS_ParseJSON e chars h = parse e RaiseError chars h"

end
