(* ===== verification/JsonText.thy ===== *)
theory JsonText
  imports Doubles JsonParser
begin

text \<open>
  JSON texts as trees: the printed form of a tree, what it means for a value on the heap to represent
  one, and the scanning of printed strings and numbers back into the tokens they were printed from.
\<close>

section \<open>Quoted strings\<close>

definition quote_unit :: "u16 \<Rightarrow> u16 list" where
  "quote_unit c = (if IsQuoteSpecialCharacter c then quote_escape c else [c])"

definition quote_body :: "u16 list \<Rightarrow> u16 list" where
  "quote_body s = concat (map quote_unit s)"

definition quote_text :: "u16 list \<Rightarrow> u16 list" where
  "quote_text s = 0x22 # quote_body s @ [0x22]"

lemma quote_body_simps [simp]:
  "quote_body [] = []" "quote_body (c # s) = quote_unit c @ quote_body s"
  "quote_body (s @ t) = quote_body s @ quote_body t"
  by (simp_all add: quote_body_def)

lemma quote_body_plain:
  "list_all (\<lambda>c. \<not> IsQuoteSpecialCharacter c) s \<Longrightarrow> quote_body s = s"
  by (induction s) (simp_all add: quote_unit_def)

lemma Quote_loop_body: "Quote_loop s out = out @ quote_body s"
proof (induction s out rule: Quote_loop.induct)
  case (1 s out)
  let ?run = "takeWhile (\<lambda>c. \<not> IsQuoteSpecialCharacter c) s"
  have run: "quote_body ?run = ?run"
    by (rule quote_body_plain) (auto simp: list_all_iff dest: set_takeWhileD)
  show ?case
  proof (cases "dropWhile (\<lambda>c. \<not> IsQuoteSpecialCharacter c) s")
    case Nil
    have "s = ?run"
      using Nil by (metis append_Nil2 takeWhile_dropWhile_id)
    then have "quote_body s = ?run" using run by simp
    then show ?thesis
      by (simp only: Quote_loop.simps [of s] Nil Let_def list.case)
  next
    case (Cons c rest)
    have "s = ?run @ c # rest"
      using takeWhile_dropWhile_id [of "\<lambda>c. \<not> IsQuoteSpecialCharacter c" s] Cons by simp
    then have "quote_body s = ?run @ quote_unit c @ quote_body rest"
      using run by (metis quote_body_simps(2,3))
    moreover have "quote_unit c = quote_escape c"
      using Cons by (metis dropWhile_eq_Cons_conv quote_unit_def)
    ultimately show ?thesis
      using 1 [OF refl refl Cons]
      by (simp only: Quote_loop.simps [of s] Cons Let_def list.case append_assoc)
  qed
qed

lemma Quote_text: "Quote out s = out @ quote_text s"
  by (simp add: Quote_def Quote_loop_body quote_text_def ascii_u16_def)

section \<open>Scanning a printed string\<close>

lemma slow_plain:
  assumes "string_plain c"
  shows "readString_slow (c # cur) buf = readString_slow cur (buf @ [c])"
proof (cases "dropWhile string_plain cur")
  case Nil
  then have "dropWhile string_plain (c # cur) = []" using assms by simp
  then show ?thesis using Nil by (simp only: readString_slow_end)
next
  case (Cons d rest)
  then have "dropWhile string_plain (c # cur) = d # rest" using assms by simp
  then show ?thesis
    using assms by (simp add: readString_slow_at [OF Cons] readString_slow_at split: sum.split)
qed

lemma slow_escape:
  assumes "read_escape esc = Inr (c, cur)"
  shows "readString_slow (0x5C # esc) buf = readString_slow cur (buf @ [c])"
proof -
  have "dropWhile string_plain (0x5C # esc) = 0x5C # esc" by (simp add: string_plain_def)
  from readString_slow_at [OF this] show ?thesis using assms by (simp add: string_plain_def)
qed

lemma u16_below_32: "c < 0x20 \<Longrightarrow> c \<in> of_nat ` {..<32}" for c :: u16
proof
  assume "c < 0x20"
  then show "unat c \<in> {..<32}" by (simp add: word_less_nat_alt)
qed simp

lemma read_escape_control:
  assumes "c < 0x20"
  shows "read_escape (tl (quote_escape c) @ cur) = Inr (c, cur) \<and> hd (quote_escape c) = 0x5C"
proof -
  have "list_all (\<lambda>n. read_escape (tl (quote_escape (of_nat n)) @ cur) = Inr (of_nat n, cur) \<and>
      hd (quote_escape (of_nat n)) = 0x5C) [0..<32]"
    by (simp add: upt_rec quote_escape_def read_escape_def simple_escape_def ascii_u16_def
        JS7_ISHEX_def JS7_ISDEC_def JS7_UNHEX_def hex4_def Let_def)
  then show ?thesis
    using u16_below_32 [OF assms] by (auto simp: list_all_iff)
qed

lemma quote_escape_special:
  assumes "IsQuoteSpecialCharacter c"
  shows "quote_escape c = 0x5C # tl (quote_escape c)"
    and "read_escape (tl (quote_escape c) @ cur) = Inr (c, cur)"
proof -
  have ne: "quote_escape c \<noteq> []" by (simp add: quote_escape_def Let_def)
  consider "c = 0x22" | "c = 0x5C" | "c < 0x20"
    using assms by (auto simp: IsQuoteSpecialCharacter_def)
  then have "read_escape (tl (quote_escape c) @ cur) = Inr (c, cur) \<and> hd (quote_escape c) = 0x5C"
    by cases (simp_all add: read_escape_control, simp_all add: quote_escape_def read_escape_def simple_escape_def)
  then show "quote_escape c = 0x5C # tl (quote_escape c)"
    and "read_escape (tl (quote_escape c) @ cur) = Inr (c, cur)"
    using ne by (metis list.collapse, simp)
qed

lemma slow_quote_unit:
  "readString_slow (quote_unit c @ cur) buf = readString_slow cur (buf @ [c])"
proof (cases "IsQuoteSpecialCharacter c")
  case True
  show ?thesis
    using slow_escape [OF quote_escape_special(2) [OF True]] quote_escape_special(1) [OF True]
    by (metis True append_Cons quote_unit_def)
next
  case False
  then have "string_plain c"
    by (auto simp: IsQuoteSpecialCharacter_def string_plain_def word_le_nat_alt word_less_nat_alt)
  then show ?thesis using False by (simp add: quote_unit_def slow_plain)
qed

lemma slow_quote_body:
  "readString_slow (quote_body s @ 0x22 # cur) buf = (StringToken (buf @ s), cur)"
proof (induction s arbitrary: buf)
  case Nil
  have "dropWhile string_plain (0x22 # cur) = 0x22 # cur" by (simp add: string_plain_def)
  from readString_slow_at [OF this] show ?case by (simp add: string_plain_def)
qed (simp add: slow_quote_unit)

lemma readString_slow_only:
  assumes "readString_slow start [] = (StringToken s, cur)"
  shows "readString (q # start) = (StringToken s, cur)"
proof (cases "dropWhile string_plain start")
  case Nil
  then show ?thesis using assms by (simp only: readString_slow_end) simp
next
  case (Cons c rest)
  then have "start \<noteq> []" by auto
  then show ?thesis
    using assms Cons by (auto simp: readString_def readString_slow_at [OF Cons] split: if_splits)
qed

lemma readString_quote_text: "readString (quote_text s @ cur) = (StringToken s, cur)"
  using readString_slow_only [OF slow_quote_body [of s cur "[]"]]
  by (simp add: quote_text_def)

section \<open>Scanning a printed integer\<close>

lemma unat_digit_unit: "d < 10 \<Longrightarrow> unat (0x30 + of_nat d :: u16) = 0x30 + d"
  by (simp add: unat_word_ariths unsigned_of_nat take_bit_nat_eq_self)

lemma digit_unit_ISDEC: "d < 10 \<Longrightarrow> JS7_ISDEC (0x30 + of_nat d)"
  using unat_digit_unit [of d] by (simp add: JS7_ISDEC_def word_le_nat_alt)

lemma digit_units_ISDEC: "list_all (\<lambda>d. d < 10) ds \<Longrightarrow> list_all JS7_ISDEC (digit_units ds)"
  by (auto simp: digit_units_def list_all_iff digit_unit_ISDEC)

lemma unit_digits_units: "list_all (\<lambda>d. d < 10) ds \<Longrightarrow> unit_digits (digit_units ds) = ds"
  by (induction ds) (simp_all add: digit_units_def unit_digits_def unat_digit_unit)

lemma length_digit_units [simp]: "length (digit_units ds) = length ds"
  by (simp add: digit_units_def)

lemma length_dec_digits: "0 < k \<Longrightarrow> n < 10 ^ k \<Longrightarrow> length (dec_digits n) \<le> k"
proof (induction n arbitrary: k rule: dec_digits.induct)
  case (1 n)
  show ?case
  proof (cases "n < 10")
    case True
    then show ?thesis using 1 by (simp add: dec_digits.simps [of n])
  next
    case False
    then obtain j where "k = Suc j" and "0 < j" 
      using 1 by (cases k; cases "k = Suc 0") auto
    then have "n div 10 < 10 ^ j" using 1 by (simp add: div_less_iff_less_mult mult.commute)
    then show ?thesis using 1(1) [OF False \<open>0 < j\<close>] False \<open>k = Suc j\<close> by (simp add: dec_digits.simps [of n])
  qed
qed

lemma ParseDecimalNumber_digits:
  assumes "list_all (\<lambda>d. d < 10) ds" and "dec_value ds < 2 ^ 64"
  shows "ParseDecimalNumber (digit_units ds) = DInt (int (dec_value ds))"
proof -
  have "unat (foldl (\<lambda>dec c. dec * 10 + ucast (c - 0x30)) (0 :: u64) (digit_units ds)) = dec_value ds"
    using assms
  proof (induction ds rule: rev_induct)
    case Nil
    then show ?case by (simp add: digit_units_def dec_value_def)
  next
    case (snoc d ds)
    let ?a = "foldl (\<lambda>dec c. dec * 10 + ucast (c - 0x30)) (0 :: u64) (digit_units ds)"
    have d: "(0x30 + of_nat d :: u16) - 0x30 = of_nat d" by simp
    have u: "unat (ucast (of_nat d :: u16) :: u64) = d"
      using snoc.prems by (simp add: unsigned_ucast_eq unsigned_of_nat take_bit_nat_eq_self)
    have "unat ?a = dec_value ds" using snoc by simp
    then have "unat (?a * 10 + ucast (of_nat d :: u16)) = dec_value ds * 10 + d"
      using snoc.prems u by (simp add: unat_word_ariths)
    then show ?case by (simp add: digit_units_def d)
  qed
  then show ?thesis unfolding ParseDecimalNumber_def by (metis uint_nat)
qed

definition ends_number :: "u16 list \<Rightarrow> bool" where
  "ends_number cur \<longleftrightarrow> cur = [] \<or> (\<not> JS7_ISDEC (hd cur) \<and> hd cur \<notin> {0x2E, 0x65, 0x45})"

lemma ends_number_dropWhile: "ends_number cur \<Longrightarrow> dropWhile JS7_ISDEC cur = cur"
  by (cases cur) (auto simp: ends_number_def)

lemma skip_integer_digits:
  assumes "dropWhile JS7_ISDEC cur = cur"
  shows "skip_integer (digit_units (dec_digits n) @ cur) = cur"
proof (cases "n = 0")
  case True
  then show ?thesis by (simp add: skip_integer_def digit_units_def)
next
  case False
  obtain d ds where ds: "dec_digits n = d # ds" by (meson dec_digits_not_Nil neq_Nil_conv)
  have "d \<noteq> 0" "d < 10" "list_all (\<lambda>d. d < 10) ds"
    using False dec_digits_hd [of n] dec_digits_range [of n] by (simp_all add: ds)
  then have "unat (0x30 + of_nat d :: u16) \<noteq> 0x30" by (simp add: unat_digit_unit)
  then have "(0x30 + of_nat d :: u16) \<noteq> 0x30" by auto
  then have "skip_integer (digit_units (dec_digits n) @ cur) = dropWhile JS7_ISDEC (digit_units ds @ cur)"
    by (simp add: skip_integer_def ds digit_units_def)
  also have "\<dots> = cur"
    using digit_units_ISDEC [OF \<open>list_all _ ds\<close>] assms
    by (simp add: list_all_dropWhile_append)
  finally show ?thesis .
qed

text \<open>
  An integer, read by \<open>ParseDecimalNumber\<close> or by \<open>GetPrefixInteger\<close>: what \<open>strtod\<close> reads, when it reads the
  integers below \<open>2\<^sup>5\<^sup>3\<close> as they are.
\<close>

definition strtod_integers :: "engine_fns \<Rightarrow> bool" where
  "strtod_integers e \<longleftrightarrow> (\<forall>n. int n < 2 ^ 53 \<longrightarrow> strtod e (digit_units (dec_digits n)) = DInt (int n))"

lemma hd_digit_units: "JS7_ISDEC (hd (digit_units (dec_digits n) @ cur))"
  using digit_units_ISDEC [OF dec_digits_range, of n] by (cases "dec_digits n") (auto simp: digit_units_def)

lemma readUnsigned_integer:
  assumes "ends_number cur" and "n < 10 ^ 15 \<or> strtod_integers e"
  shows "readUnsigned e negative (digit_units (dec_digits n) @ cur) =
    (NumberToken (signed negative (if n < 10 ^ 15 then DInt (int n) else strtod e (digit_units (dec_digits n)))), cur)"
proof -
  let ?ds = "dec_digits n"
  have range: "list_all (\<lambda>d. d < 10) ?ds" by (rule dec_digits_range)
  have skip: "skip_integer (digit_units ?ds @ cur) = cur"
    by (rule skip_integer_digits [OF ends_number_dropWhile [OF assms(1)]])
  have chars: "chars_between (digit_units ?ds @ cur) cur = digit_units ?ds"
    by (simp add: chars_between_def)
  have stop: "cur = [] \<or> hd cur \<notin> {0x2E, 0x65, 0x45}" using assms(1) by (auto simp: ends_number_def)
  have len: "length ?ds \<le> 15 \<longleftrightarrow> n < 10 ^ 15"
  proof
    assume "length ?ds \<le> 15"
    then have "(10::nat) ^ length ?ds \<le> 10 ^ 15" by (intro power_increasing) simp_all
    then show "n < 10 ^ 15" using dec_value_less [OF range] by (simp only: dec_value_digits)
  qed (simp add: length_dec_digits)
  have parse: "ParseDecimalNumber (digit_units ?ds) = DInt (int n)" if "n < 10 ^ 15"
    using ParseDecimalNumber_digits [OF range] that by simp
  have prefix: "GetPrefixInteger e (digit_units ?ds) = strtod e (digit_units ?ds)" if "strtod_integers e"
    using that unit_digits_units [OF range]
    by (simp add: GetPrefixInteger_def strtod_integers_def DOUBLE_INTEGRAL_PRECISION_LIMIT_def)
  show ?thesis
  proof (cases "n < 10 ^ 15")
    case True
    then have "length ?ds < 16" using len by simp
    then show ?thesis using True parse stop by (simp add: readUnsigned_def hd_digit_units skip chars)
  next
    case False
    then have "\<not> length ?ds < 16" "strtod_integers e" using len assms(2) by auto
    then show ?thesis using False prefix stop by (simp add: readUnsigned_def hd_digit_units skip chars)
  qed
qed

lemma advance_unsigned:
  assumes "\<And>negative. readUnsigned e negative (u @ cur) = (NumberToken (signed negative d), cur)"
    and "u = c # cs" and "JS7_ISDEC c"
  shows "advance e ((if negative then 0x2D # u else u) @ cur) = (NumberToken (signed negative d), cur)"
proof -
  have c: "c \<noteq> 0x2D" "\<not> IsJSONWhitespace c" "c \<noteq> 0x22"
    using assms(3) by (auto simp: JS7_ISDEC_def IsJSONWhitespace_def word_le_nat_alt)
  show ?thesis
    using assms(1) [of negative] assms(3) c
    by (cases negative) (simp_all add: assms(2) advance_def skip_ws_def readNumber_def IsJSONWhitespace_def)
qed

lemma digit_units_Cons: "\<exists>c cs. digit_units (dec_digits n) = c # cs \<and> JS7_ISDEC c"
  using dec_digits_range [of n] dec_digits_not_Nil [of n]
  by (cases "dec_digits n") (auto simp: digit_units_def digit_unit_ISDEC)

lemma advance_integer:
  assumes "ends_number cur" and "\<bar>i\<bar> < 10 ^ 15"
  shows "advance e (Int32ToCString i @ cur) = (NumberToken (DInt i), cur)"
proof -
  have n: "nat \<bar>i\<bar> < 10 ^ 15" using assms(2) by simp
  have read: "readUnsigned e negative (digit_units (dec_digits (nat \<bar>i\<bar>)) @ cur) =
      (NumberToken (signed negative (DInt \<bar>i\<bar>)), cur)" for negative
    using readUnsigned_integer [OF assms(1), of "nat \<bar>i\<bar>" e negative] n by simp
  obtain c cs where c: "digit_units (dec_digits (nat \<bar>i\<bar>)) = c # cs" "JS7_ISDEC c" using digit_units_Cons by blast
  have "Int32ToCString i = (if i < 0 then 0x2D # digit_units (dec_digits (nat \<bar>i\<bar>)) else digit_units (dec_digits (nat \<bar>i\<bar>)))"
    by (simp add: Int32ToCString_def ascii_u16_def)
  moreover have "signed (i < 0) (DInt \<bar>i\<bar>) = DInt i" by (simp add: signed_def)
  ultimately show ?thesis using advance_unsigned [OF read c, of "i < 0"] by simp
qed

section \<open>Scanning a printed fraction\<close>

text \<open>What the library prints without the sign: an integer part, a fraction, an exponent.\<close>

definition fraction_text :: "u16 list \<Rightarrow> bool" where
  "fraction_text fr \<longleftrightarrow> fr = [] \<or> (\<exists>ds. fr = 0x2E # ds \<and> ds \<noteq> [] \<and> list_all JS7_ISDEC ds)"

definition exponent_text :: "u16 list \<Rightarrow> bool" where
  "exponent_text ex \<longleftrightarrow>
     ex = [] \<or> (\<exists>s ds. ex = 0x65 # s @ ds \<and> s \<in> {[], [0x2B], [0x2D]} \<and> ds \<noteq> [] \<and> list_all JS7_ISDEC ds)"

definition decimal_text :: "u16 list \<Rightarrow> bool" where
  "decimal_text u \<longleftrightarrow>
     (\<exists>n fr ex. u = digit_units (dec_digits n) @ fr @ ex \<and> fraction_text fr \<and> exponent_text ex)"

lemma dropWhile_digits:
  "list_all JS7_ISDEC ds \<Longrightarrow> dropWhile JS7_ISDEC rest = rest \<Longrightarrow> dropWhile JS7_ISDEC (ds @ rest) = rest"
  by (induction ds) simp_all

lemma not_ISDEC [simp]: "\<not> JS7_ISDEC 0x2E" "\<not> JS7_ISDEC 0x65" "\<not> JS7_ISDEC 0x2B" "\<not> JS7_ISDEC 0x2D"
  by (simp_all add: JS7_ISDEC_def)

lemma exponent_dropWhile:
  "exponent_text ex \<Longrightarrow> ends_number cur \<Longrightarrow> dropWhile JS7_ISDEC (ex @ cur) = ex @ cur"
  by (auto simp: exponent_text_def ends_number_dropWhile)

lemma read_fraction_text:
  assumes "fraction_text fr" and "exponent_text ex" and "ends_number cur"
  shows "read_fraction (fr @ ex @ cur) = Inr (ex @ cur)"
proof (cases fr)
  case Nil
  then show ?thesis
    using assms(2,3) by (cases cur) (auto simp: read_fraction_def exponent_text_def ends_number_def split: list.split)
next
  case (Cons c ds)
  then have ds: "c = 0x2E" "ds \<noteq> []" "list_all JS7_ISDEC ds" using assms(1) by (auto simp: fraction_text_def)
  then have "JS7_ISDEC (hd (ds @ ex @ cur))" by (cases ds) simp_all
  then show ?thesis
    using ds dropWhile_digits [OF ds(3) exponent_dropWhile [OF assms(2,3)]]
    by (simp add: Cons read_fraction_def)
qed

lemma read_exponent_text:
  assumes "exponent_text ex" and "ends_number cur"
  shows "read_exponent (ex @ cur) = Inr cur"
proof (cases "ex = []")
  case True
  then show ?thesis using assms(2) by (cases cur) (auto simp: read_exponent_def ends_number_def)
next
  case False
  then obtain s d ds where ex: "ex = 0x65 # s @ d # ds" "s \<in> {[], [0x2B], [0x2D]}" and ds: "JS7_ISDEC d" "list_all JS7_ISDEC ds"
    using assms(1) unfolding exponent_text_def by (metis list.pred_inject(2) neq_Nil_conv)
  have d: "d \<noteq> 0x2B" "d \<noteq> 0x2D" using ds(1) by auto
  have "dropWhile JS7_ISDEC (ds @ cur) = cur" by (rule dropWhile_digits [OF ds(2) ends_number_dropWhile [OF assms(2)]])
  then show ?thesis using ex(2) ds(1) d by (auto simp: ex(1) read_exponent_def)
qed

lemma readUnsigned_decimal:
  assumes "decimal_text u" and "strtod_integers e" and "ends_number cur"
  shows "readUnsigned e negative (u @ cur) = (NumberToken (signed negative (strtod e u)), cur)"
proof -
  obtain n fr ex where u: "u = digit_units (dec_digits n) @ fr @ ex" and fr: "fraction_text fr" and ex: "exponent_text ex"
    using assms(1) unfolding decimal_text_def by blast
  show ?thesis
  proof (cases "fr @ ex = []")
    case True
    moreover have "int n < 2 ^ 53" if "n < 10 ^ 15" using that by simp
    ultimately show ?thesis
      using readUnsigned_integer [OF assms(3), of n e negative] assms(2) by (auto simp: u strtod_integers_def)
  next
    case False
    let ?rest = "fr @ ex @ cur"
    have rest: "?rest \<noteq> []" "hd ?rest = 0x2E \<or> hd ?rest = 0x65"
      using False fr ex by (auto simp: fraction_text_def exponent_text_def)
    then have "dropWhile JS7_ISDEC ?rest = ?rest" by (cases ?rest) auto
    then have skip: "skip_integer (digit_units (dec_digits n) @ ?rest) = ?rest" by (rule skip_integer_digits)
    have "chars_between (digit_units (dec_digits n) @ ?rest) cur = u" by (simp add: chars_between_def u)
    then show ?thesis
      using rest read_fraction_text [OF fr ex assms(3)] read_exponent_text [OF ex assms(3)]
      by (auto simp: u readUnsigned_def hd_digit_units skip)
  qed
qed

section \<open>Numbers\<close>

text \<open>
  A double is represented once: \<open>DInt\<close> is an integer below \<open>2\<^sup>5\<^sup>3\<close> in absolute value, \<open>DBits\<close> the pattern of
  something else.
\<close>

fun dbl_proper :: "dbl \<Rightarrow> bool" where
  "dbl_proper (DInt n) \<longleftrightarrow> \<bar>n\<bar> < 2 ^ 53"
| "dbl_proper (DBits b) \<longleftrightarrow> (\<forall>n. \<bar>n\<bar> < 2 ^ 53 \<longrightarrow> b \<noteq> integral_bits n)"

fun dbl_negative :: "dbl \<Rightarrow> bool" where
  "dbl_negative (DInt n) \<longleftrightarrow> n < 0"
| "dbl_negative (DBits b) \<longleftrightarrow> bit b 63"

fun dbl_abs :: "dbl \<Rightarrow> dbl" where
  "dbl_abs (DInt n) = DInt \<bar>n\<bar>"
| "dbl_abs (DBits b) = DBits (b AND NOT sign_bit)"

definition neg_zero :: dbl where
  "neg_zero = DBits sign_bit"

text \<open>
  What the code relies on in the third-party code that prints and reads doubles (double-conversion and
  \<open>js_strtod\<close>): negative zero prints as 0; any other finite double that is not a 32-bit integer prints as a
  decimal, after a minus sign when it is negative, that \<open>strtod\<close> reads as its absolute value; \<open>strtod\<close> reads
  integers below \<open>2\<^sup>5\<^sup>3\<close> exactly. Scanning the text, choosing how to read it and the sign are the parser's.
\<close>

definition decimal_libraries :: "engine_fns \<Rightarrow> bool" where
  "decimal_libraries e \<longleftrightarrow> strtod_integers e \<and> frac e neg_zero = u16s ''0'' \<and>
     (\<forall>d. IsFinite d \<and> dbl_proper d \<and> \<not> dbl_fits_int32 d \<and> d \<noteq> neg_zero \<longrightarrow>
        (\<exists>u. frac e d = (if dbl_negative d then 0x2D # u else u) \<and> decimal_text u \<and> strtod e u = dbl_abs d))"

lemma bit_sign_bit: "bit sign_bit n \<longleftrightarrow> n = 63"
proof -
  have "sign_bit = push_bit 63 1" by (simp add: sign_bit_def push_bit_eq_mult)
  then have "bit sign_bit n \<longleftrightarrow> bit (push_bit 63 (1 :: u64)) n" by (simp only:)
  then show ?thesis by (auto simp: bit_push_bit_iff bit_1_iff simp del: push_bit_of_1)
qed

lemma signed_dbl_abs:
  assumes "d \<noteq> neg_zero"
  shows "signed (dbl_negative d) (dbl_abs d) = d"
proof (cases d)
  case (DBits b)
  have "(b AND NOT sign_bit) XOR sign_bit = b" if "bit b 63"
    using that by (intro bit_word_eqI) (auto simp: bit_and_iff bit_xor_iff bit_not_iff bit_sign_bit)
  moreover have "b AND NOT sign_bit = b" if "\<not> bit b 63"
    using that by (intro bit_word_eqI) (auto simp: bit_and_iff bit_not_iff bit_sign_bit)
  moreover have "b AND NOT sign_bit \<noteq> sign_bit"
    using bit_sign_bit [of 63] by (metis bit_and_iff bit_not_iff)
  ultimately show ?thesis by (simp add: DBits signed_def)
qed (simp add: signed_def)

lemma advance_number:
  assumes "decimal_libraries e" and "IsFinite d" and "dbl_proper d" and "d \<noteq> neg_zero" and "ends_number cur"
  shows "advance e (NumberToCString (frac e) d @ cur) = (NumberToken d, cur)"
proof (cases "dbl_fits_int32 d")
  case True
  then obtain i where i: "d = DInt i" "- (2 ^ 31) \<le> i" "i < 2 ^ 31" by (cases d) simp_all
  have "\<bar>i\<bar> < 10 ^ 15" using i(2,3) by simp
  from advance_integer [OF assms(5) this, of e] show ?thesis using i by simp
next
  case False
  obtain u where u: "frac e d = (if dbl_negative d then 0x2D # u else u)" "decimal_text u" "strtod e u = dbl_abs d"
    using assms(1-4) False unfolding decimal_libraries_def by blast
  have "strtod_integers e" using assms(1) by (simp add: decimal_libraries_def)
  from readUnsigned_decimal [OF u(2) this assms(5)]
  have read: "readUnsigned e negative (u @ cur) = (NumberToken (signed negative (dbl_abs d)), cur)" for negative
    by (simp add: u(3))
  obtain c cs where "u = c # cs" "JS7_ISDEC c"
    using u(2) digit_units_Cons unfolding decimal_text_def by (metis append_Cons)
  from advance_unsigned [OF read this, of "dbl_negative d"]
  have "advance e (frac e d @ cur) = (NumberToken d, cur)"
    using u(1) by (simp add: signed_dbl_abs [OF assms(4)] split: if_splits)
  moreover have "NumberToCString (frac e) d = frac e d" using False by (cases d) auto
  ultimately show ?thesis by simp
qed

section \<open>Trees\<close>

text \<open>
  The JSON texts without white space: a number is any double, printed as \<open>NumberToCString\<close> prints it.
\<close>

datatype json =
  JNull | JBool bool | JNum dbl | JStr "u16 list" | JArr "json list" | JObj "(u16 list \<times> json) list"

fun separate :: "u16 list list \<Rightarrow> u16 list" where
  "separate [] = []"
| "separate [x] = x"
| "separate (x # y # ys) = x @ 0x2C # separate (y # ys)"

fun json_text :: "engine_fns \<Rightarrow> json \<Rightarrow> u16 list" where
  "json_text e JNull = u16s ''null''"
| "json_text e (JBool b) = u16s (if b then ''true'' else ''false'')"
| "json_text e (JNum d) = NumberToCString (frac e) d"
| "json_text e (JStr s) = quote_text s"
| "json_text e (JArr ts) = 0x5B # separate (map (json_text e) ts) @ [0x5D]"
| "json_text e (JObj kts) =
     0x7B # separate (map (\<lambda>(k, t). quote_text k @ 0x3A # json_text e t) kts) @ [0x7D]"

text \<open>Trees whose numbers are finite doubles and whose objects have distinct keys.\<close>

fun json_ok :: "json \<Rightarrow> bool" where
  "json_ok (JNum d) \<longleftrightarrow> IsFinite d \<and> dbl_proper d"
| "json_ok (JArr ts) \<longleftrightarrow> list_all json_ok ts"
| "json_ok (JObj kts) \<longleftrightarrow> distinct (map fst kts) \<and> list_all (\<lambda>(k, t). json_ok t) kts"
| "json_ok _ \<longleftrightarrow> True"

text \<open>The tree with every negative zero made zero: JSON text has no negative zero.\<close>

fun plus_zero :: "json \<Rightarrow> json" where
  "plus_zero (JNum d) = JNum (if d = neg_zero then DInt 0 else d)"
| "plus_zero (JArr ts) = JArr (map plus_zero ts)"
| "plus_zero (JObj kts) = JObj (map (\<lambda>(k, t). (k, plus_zero t)) kts)"
| "plus_zero t = t"

lemma plus_zero_text: "decimal_libraries e \<Longrightarrow> json_text e (plus_zero t) = json_text e t"
proof (induction t)
  case (JNum d)
  then show ?case by (simp add: decimal_libraries_def neg_zero_def Int32ToCString_def digit_units_def ascii_u16_def)
next
  case (JArr ts)
  then show ?case by (simp add: comp_def cong: map_cong)
next
  case (JObj kts)
  then have "map (\<lambda>x. case (case x of (k, t) \<Rightarrow> (k, plus_zero t)) of (k, t) \<Rightarrow> quote_text k @ 0x3A # json_text e t) kts =
      map (\<lambda>(k, t). quote_text k @ 0x3A # json_text e t) kts"
    by (intro map_cong) (auto simp: snds.simps)
  then show ?case unfolding plus_zero.simps json_text.simps map_map comp_def by (rule arg_cong)
qed simp_all

text \<open>Represented by a value on a heap: arrays and plain objects without a prototype of their own.\<close>

fun rep :: "jsheap \<Rightarrow> json \<Rightarrow> jsval \<Rightarrow> bool" where
  "rep h JNull v = (v = Null)"
| "rep h (JBool b) v = (v = Boolean b)"
| "rep h (JNum d) v = (v = Number d)"
| "rep h (JStr s) v = (v = Str s)"
| "rep h (JArr ts) v =
     (\<exists>n vs. v = Object n \<and> n < length h \<and> h ! n = array vs \<and> list_all2 (rep h) ts vs)"
| "rep h (JObj kts) v =
     (\<exists>n ps. v = Object n \<and> n < length h \<and> h ! n = plain ps \<and>
        list_all2 (\<lambda>(k, t) (k', v'). k' = k \<and> rep h t v') kts ps)"

lemma array_eq [simp]: "array vs = array vs' \<longleftrightarrow> vs = vs'"
  by (simp add: array_def)

lemma plain_eq [simp]: "plain ps = plain ps' \<longleftrightarrow> ps = ps'"
  by (simp add: plain_def)

lemma array_not_plain [simp]: "array vs \<noteq> plain ps" "plain ps \<noteq> array vs"
  by (simp_all add: array_def plain_def)

lemma rep_mono: "rep h t v \<Longrightarrow> rep (h @ h') t v"
proof (induction t arbitrary: v)
  case (JArr ts)
  then obtain n vs where "v = Object n" "n < length h" "h ! n = array vs" "list_all2 (rep h) ts vs"
    by auto
  moreover from this have "list_all2 (rep (h @ h')) ts vs"
    using JArr.IH by (auto elim!: list.rel_mono_strong)
  ultimately show ?case by (auto simp: nth_append)
next
  case (JObj kts)
  have "rep (h @ h') t v" if "(k, t) \<in> set kts" "rep h t v" for k t v
    using JObj.IH [OF that(1), of t v] that(2) by simp
  moreover obtain n ps where "v = Object n" "n < length h" "h ! n = plain ps"
    and "list_all2 (\<lambda>(k, t) (k', v'). k' = k \<and> rep h t v') kts ps"
    using JObj.prems by auto
  ultimately have "list_all2 (\<lambda>(k, t) (k', v'). k' = k \<and> rep (h @ h') t v') kts ps"
    by (auto elim!: list.rel_mono_strong)
  with \<open>v = _\<close> \<open>n < _\<close> \<open>h ! n = _\<close> show ?case by (auto simp: nth_append)
qed auto

end
