(* ===== verification/JsonRoundTrip.thy ===== *)
theory JsonRoundTrip
  imports JsonText
begin

text \<open>
  Reading back what was printed: the parser's machine on the text of a tree ends with a value that
  represents the tree.
\<close>

section \<open>Runs of the machine\<close>

definition reaches :: "engine_fns \<Rightarrow> parser \<Rightarrow> parser \<Rightarrow> bool" where
  "reaches e = (\<lambda>p p'. parse_step e p = Inl p')\<^sup>*\<^sup>*"

lemma reaches_refl [intro]: "reaches e p p"
  by (simp add: reaches_def)

lemma reaches_step: "parse_step e p = Inl q \<Longrightarrow> reaches e q r \<Longrightarrow> reaches e p r"
  by (simp add: reaches_def converse_rtranclp_into_rtranclp)

lemma reaches_unfold:
  "(case parse_step e p of Inl q \<Rightarrow> reaches e q r | Inr out \<Rightarrow> False) \<Longrightarrow> reaches e p r"
  by (auto intro: reaches_step split: sum.splits)

lemma reaches_eq: "p = q \<Longrightarrow> reaches e p q"
  by (simp add: reaches_refl)

lemma reaches_trans: "reaches e p q \<Longrightarrow> reaches e q r \<Longrightarrow> reaches e p r"
  unfolding reaches_def by (rule rtranclp_trans)

lemma parse_loop_reaches: "reaches e p q \<Longrightarrow> parse_loop e p = parse_loop e q"
  unfolding reaches_def
  by (induction rule: rtranclp_induct) (simp_all add: parse_loop.simps)

section \<open>Readers on printed text\<close>

lemma skip_ws_keep [simp]: "\<not> IsJSONWhitespace c \<Longrightarrow> skip_ws (c # cur) = c # cur"
  by (simp add: skip_ws_def)

lemma IsJSONWhitespace_punct [simp]:
  "\<not> IsJSONWhitespace 0x22" "\<not> IsJSONWhitespace 0x2C" "\<not> IsJSONWhitespace 0x3A"
  "\<not> IsJSONWhitespace 0x5B" "\<not> IsJSONWhitespace 0x5D" "\<not> IsJSONWhitespace 0x7B" "\<not> IsJSONWhitespace 0x7D"
  "\<not> IsJSONWhitespace 0x74" "\<not> IsJSONWhitespace 0x66" "\<not> IsJSONWhitespace 0x6E"
  by (simp_all add: IsJSONWhitespace_def)

lemma reader_punct [simp]:
  "advanceAfterArrayElement (0x2C # cur) = (Comma, cur)"
  "advanceAfterArrayElement (0x5D # cur) = (ArrayClose, cur)"
  "advanceAfterProperty (0x2C # cur) = (Comma, cur)"
  "advanceAfterProperty (0x7D # cur) = (ObjectClose, cur)"
  "advancePropertyColon (0x3A # cur) = (Colon, cur)"
  "advanceAfterObjectOpen (0x7D # cur) = (ObjectClose, cur)"
  by (simp_all add: advanceAfterArrayElement_def advanceAfterProperty_def advancePropertyColon_def
      advanceAfterObjectOpen_def)

lemma reader_name [simp]:
  "advancePropertyName (quote_text k @ cur) = (StringToken k, cur)"
  "advanceAfterObjectOpen (quote_text k @ cur) = (StringToken k, cur)"
  using readString_quote_text [of k cur]
  by (simp_all add: advancePropertyName_def advanceAfterObjectOpen_def quote_text_def)

lemma advance_punct [simp]:
  "advance e (0x5B # cur) = (ArrayOpen, cur)" "advance e (0x5D # cur) = (ArrayClose, cur)"
  "advance e (0x7B # cur) = (ObjectOpen, cur)"
  by (simp_all add: advance_def punctuator_def JS7_ISDEC_def)

lemma advance_words [simp]:
  "advance e (u16s ''null'' @ cur) = (NullToken, cur)"
  "advance e (u16s ''true'' @ cur) = (TrueToken, cur)"
  "advance e (u16s ''false'' @ cur) = (FalseToken, cur)"
  by (simp_all add: advance_def keyword_def JS7_ISDEC_def ascii_u16_def)

lemma advance_string [simp]: "advance e (quote_text s @ cur) = (StringToken s, cur)"
  using readString_quote_text [of s cur] by (simp add: advance_def quote_text_def)

lemma ends_number_punct [simp]:
  "ends_number (0x2C # cur)" "ends_number (0x5D # cur)" "ends_number (0x7D # cur)" "ends_number []"
  by (simp_all add: ends_number_def JS7_ISDEC_def)

section \<open>Reading a value\<close>

abbreviation mk :: "control \<Rightarrow> u16 list \<Rightarrow> jsval \<Rightarrow> StackEntry list \<Rightarrow> jsheap \<Rightarrow> parser" where
  "mk c cur v stk h \<equiv> \<lparr>control = c, current = cur, pvalue = v, pstack = stk, pheap = h\<rparr>"

text \<open>
  From the token a value starts with, the machine reaches the end of the loop with a value that
  represents the tree, the rest of the text, the same stack and a heap that has only grown.
\<close>

definition reads :: "engine_fns \<Rightarrow> json \<Rightarrow> bool" where
  "reads e t \<longleftrightarrow> (\<forall>cur. ends_number cur \<longrightarrow>
     (\<exists>tok cur'. advance e (json_text e t @ cur) = (tok, cur') \<and> tok \<noteq> ArrayClose \<and>
        (\<forall>v0 stk h. \<exists>v h'. reaches e (mk (JSONValueSwitch tok) cur' v0 stk h) (mk LoopEnd cur v stk (h @ h')) \<and>
                     rep (h @ h') t v)))"

lemma reads_from_JSONValue:
  assumes "reads e t" and "ends_number cur"
  obtains v h' where
    "reaches e (mk JSONValue (json_text e t @ cur) v0 stk h) (mk LoopEnd cur v stk (h @ h'))"
    and "rep (h @ h') t v"
proof -
  obtain tok cur' where tok: "advance e (json_text e t @ cur) = (tok, cur')"
    and run: "\<forall>v0 stk h. \<exists>v h'.
        reaches e (mk (JSONValueSwitch tok) cur' v0 stk h) (mk LoopEnd cur v stk (h @ h')) \<and>
        rep (h @ h') t v"
    using assms unfolding reads_def by blast
  obtain v h' where *: "reaches e (mk (JSONValueSwitch tok) cur' v0 stk h) (mk LoopEnd cur v stk (h @ h'))"
    and v: "rep (h @ h') t v"
    using run by blast
  have "reaches e (mk JSONValue (json_text e t @ cur) v0 stk h) (mk LoopEnd cur v stk (h @ h'))"
    by (rule reaches_unfold) (simp add: parse_step_def tok *)
  then show ?thesis using v by (rule that)
qed

definition more :: "u16 list list \<Rightarrow> u16 list" where
  "more xs = concat (map (\<lambda>x. 0x2C # x) xs)"

lemma more_simps [simp]: "more [] = []" "more (x # xs) = 0x2C # x @ more xs"
  by (simp_all add: more_def)

lemma separate_more: "separate (x # xs) = x @ more xs"
  by (induction xs arbitrary: x) simp_all

lemma list_all2_rep_mono: "list_all2 (rep h) ts vs \<Longrightarrow> list_all2 (rep (h @ h')) ts vs"
  by (erule list_all2_mono) (rule rep_mono)

text \<open>The elements after one that has just been read.\<close>

lemma read_elements:
  assumes "list_all (reads e) ts" and "list_all2 (rep h) ts0 (es @ [v])"
  shows "\<exists>h' n vs. reaches e
      (mk LoopEnd (more (map (json_text e) ts) @ 0x5D # cur) v (Elements es # stk) h)
      (mk LoopEnd cur (Object n) stk (h @ h')) \<and>
    n < length (h @ h') \<and> (h @ h') ! n = array vs \<and> list_all2 (rep (h @ h')) (ts0 @ ts) vs"
  using assms
proof (induction ts arbitrary: h ts0 es v)
  case Nil
  have "reaches e (mk LoopEnd (0x5D # cur) v (Elements es # stk) h)
      (mk LoopEnd cur (Object (length h)) stk (h @ [array (es @ [v])]))"
    by (rule reaches_unfold, simp add: parse_step_def step_LoopEnd_def, rule reaches_unfold,
        simp add: parse_step_def step_FinishArrayElement_def finishArray_def newArrayObject_def
          alloc_def reaches_refl)
  then show ?case
    using Nil.prems(2) by (fastforce intro: list_all2_rep_mono)
next
  case (Cons t ts)
  let ?cur = "more (map (json_text e) ts) @ 0x5D # cur"
  have "reads e t" using Cons.prems by simp
  moreover have "ends_number ?cur" by (cases ts) simp_all
  ultimately obtain v' h' where
    run: "reaches e (mk JSONValue (json_text e t @ ?cur) v (Elements (es @ [v]) # stk) h)
       (mk LoopEnd ?cur v' (Elements (es @ [v]) # stk) (h @ h'))"
    and v': "rep (h @ h') t v'"
    by (rule reads_from_JSONValue)
  have "list_all2 (rep (h @ h')) (ts0 @ [t]) ((es @ [v]) @ [v'])"
    by (rule list_all2_appendI) (use Cons.prems(2) v' list_all2_rep_mono in simp_all)
  moreover have "list_all (reads e) ts" using Cons.prems(1) by simp
  ultimately obtain h'' n vs where
    rest: "reaches e (mk LoopEnd ?cur v' (Elements (es @ [v]) # stk) (h @ h'))
      (mk LoopEnd cur (Object n) stk ((h @ h') @ h''))"
    and n: "n < length ((h @ h') @ h'')" "((h @ h') @ h'') ! n = array vs"
    and vs: "list_all2 (rep ((h @ h') @ h'')) ((ts0 @ [t]) @ ts) vs"
    using Cons.IH by metis
  have "reaches e (mk LoopEnd (0x2C # json_text e t @ ?cur) v (Elements es # stk) h)
      (mk LoopEnd cur (Object n) stk ((h @ h') @ h''))"
    by (rule reaches_unfold, simp add: parse_step_def step_LoopEnd_def, rule reaches_unfold,
        simp add: parse_step_def step_FinishArrayElement_def)
      (use reaches_trans [OF run rest] in simp)
  then show ?case
    using n vs by (intro exI [of _ "h' @ h''"] exI [of _ n] exI [of _ vs]) simp
qed

lemma set_last_value_snoc [simp]: "set_last_value v (ps @ [(k, u)]) = ps @ [(k, v)]"
  by (simp add: set_last_value_def)

definition rep_member :: "jsheap \<Rightarrow> u16 list \<times> json \<Rightarrow> u16 list \<times> jsval \<Rightarrow> bool" where
  "rep_member h = (\<lambda>(k, t) (k', v). k' = k \<and> rep h t v)"

lemma list_all2_rep_member_mono: "list_all2 (rep_member h) kts ps \<Longrightarrow> list_all2 (rep_member (h @ h')) kts ps"
  by (erule list_all2_mono) (auto simp: rep_member_def intro: rep_mono)

lemma list_all2_rep_member_keys: "list_all2 (rep_member h) kts ps \<Longrightarrow> map fst ps = map fst kts"
  by (induction rule: list_all2_induct) (auto simp: rep_member_def)

lemma define_property_new: "k \<notin> fst ` set obj \<Longrightarrow> define_property k v obj = obj @ [(k, v)]"
  by (induction obj) auto

lemma AddPlainObjectProperties_distinct:
  "distinct (map fst (obj @ ps)) \<Longrightarrow> AddPlainObjectProperties ps obj = obj @ ps"
  by (induction ps arbitrary: obj)
    (auto simp: AddPlainObjectProperties_def define_property_new)

abbreviation member_text :: "engine_fns \<Rightarrow> u16 list \<times> json \<Rightarrow> u16 list" where
  "member_text e \<equiv> \<lambda>(k, t). quote_text k @ 0x3A # json_text e t"

text \<open>The members after one whose value has just been read.\<close>

lemma read_members:
  assumes "list_all (\<lambda>(k, t). reads e t) kts"
    and "list_all2 (rep_member h) kts0 (ps @ [(k, v)])"
    and "distinct (map fst (kts0 @ kts))"
  shows "\<exists>h' n ps'. reaches e
      (mk LoopEnd (more (map (member_text e) kts) @ 0x7D # cur) v (Properties (ps @ [(k, Undefined)]) # stk) h)
      (mk LoopEnd cur (Object n) stk (h @ h')) \<and>
    n < length (h @ h') \<and> (h @ h') ! n = plain ps' \<and>
    list_all2 (rep_member (h @ h')) (kts0 @ kts) ps'"
  using assms
proof (induction kts arbitrary: h kts0 ps k v)
  case Nil
  have "distinct (map fst (ps @ [(k, v)]))"
    using list_all2_rep_member_keys [OF Nil.prems(2)] Nil.prems(3) by simp
  then have "AddPlainObjectProperties (ps @ [(k, v)]) [] = ps @ [(k, v)]"
    using AddPlainObjectProperties_distinct [of "[]"] by simp
  then have "reaches e
      (mk LoopEnd (0x7D # cur) v (Properties (ps @ [(k, Undefined)]) # stk) h)
      (mk LoopEnd cur (Object (length h)) stk (h @ [plain (ps @ [(k, v)])]))"
    by - (rule reaches_unfold, simp add: parse_step_def step_LoopEnd_def, rule reaches_unfold,
        simp add: parse_step_def step_FinishObjectMember_def finishObject_def newPlainObject_def
          alloc_def reaches_refl)
  then show ?case
    using Nil.prems(2) by (fastforce intro: list_all2_rep_member_mono)
next
  case (Cons kt kts)
  obtain k2 t where kt: "kt = (k2, t)" by fastforce
  let ?cur = "more (map (member_text e) kts) @ 0x7D # cur"
  let ?ps = "Properties ((ps @ [(k, v)]) @ [(k2, Undefined)])"
  have "reads e t" using Cons.prems by (simp add: kt)
  moreover have "ends_number ?cur" by (cases kts) simp_all
  ultimately obtain v' h' where
    run: "reaches e (mk JSONValue (json_text e t @ ?cur) v (?ps # stk) h)
       (mk LoopEnd ?cur v' (?ps # stk) (h @ h'))"
    and v': "rep (h @ h') t v'"
    by (rule reads_from_JSONValue)
  have "list_all2 (rep_member (h @ h')) (kts0 @ [kt]) ((ps @ [(k, v)]) @ [(k2, v')])"
    by (rule list_all2_appendI)
      (use Cons.prems(2) v' list_all2_rep_member_mono in \<open>simp_all add: kt rep_member_def\<close>)
  moreover have "list_all (\<lambda>(k, t). reads e t) kts" "distinct (map fst ((kts0 @ [kt]) @ kts))"
    using Cons.prems by simp_all
  ultimately obtain h'' n ps' where
    rest: "reaches e (mk LoopEnd ?cur v' (?ps # stk) (h @ h')) (mk LoopEnd cur (Object n) stk ((h @ h') @ h''))"
    and n: "n < length ((h @ h') @ h'')" "((h @ h') @ h'') ! n = plain ps'"
    and ps': "list_all2 (rep_member ((h @ h') @ h'')) ((kts0 @ [kt]) @ kts) ps'"
    using Cons.IH by metis
  have "reaches e
      (mk LoopEnd (0x2C # quote_text k2 @ 0x3A # json_text e t @ ?cur) v
         (Properties (ps @ [(k, Undefined)]) # stk) h)
      (mk LoopEnd cur (Object n) stk ((h @ h') @ h''))"
    by (rule reaches_unfold, simp add: parse_step_def step_LoopEnd_def, rule reaches_unfold,
        simp add: parse_step_def step_FinishObjectMember_def, rule reaches_unfold,
        simp add: parse_step_def step_JSONMember_def)
      (use reaches_trans [OF run rest] in simp)
  then show ?case
    using n ps' by (intro exI [of _ "h' @ h''"] exI [of _ n] exI [of _ ps']) (simp add: kt)
qed

text \<open>Every tree is read.\<close>

lemma reads_literal:
  assumes "\<And>cur. ends_number cur \<Longrightarrow> advance e (json_text e t @ cur) = (tok, cur)"
    and "\<And>p. step_JSONValueSwitch e tok p = got_value v p" and "tok \<noteq> ArrayClose" and "\<And>h. rep h t v"
  shows "reads e t"
  unfolding reads_def
proof (intro allI impI)
  fix cur
  assume "ends_number cur"
  have "reaches e (mk (JSONValueSwitch tok) cur v0 stk h) (mk LoopEnd cur v stk (h @ []))" for v0 stk h
    by (rule reaches_unfold, simp add: parse_step_def assms(2) got_value_def reaches_refl)
  with assms(1) [OF \<open>ends_number cur\<close>] assms(3,4)
  show "\<exists>tok cur'. advance e (json_text e t @ cur) = (tok, cur') \<and> tok \<noteq> ArrayClose \<and>
      (\<forall>v0 stk h. \<exists>v h'. reaches e (mk (JSONValueSwitch tok) cur' v0 stk h) (mk LoopEnd cur v stk (h @ h')) \<and>
         rep (h @ h') t v)"
    by blast
qed

lemma readsI:
  assumes "\<And>cur. advance e (json_text e t @ cur) = (tok, rest cur)" and "tok \<noteq> ArrayClose"
    and "\<And>cur v0 stk h. ends_number cur \<Longrightarrow> \<exists>v h'.
      reaches e (mk (JSONValueSwitch tok) (rest cur) v0 stk h) (mk LoopEnd cur v stk (h @ h')) \<and> rep (h @ h') t v"
  shows "reads e t"
  unfolding reads_def using assms by blast

lemma reads_JArr:
  assumes "list_all (reads e) ts"
  shows "reads e (JArr ts)"
proof (rule readsI)
  show "advance e (json_text e (JArr ts) @ cur) =
      (ArrayOpen, separate (map (json_text e) ts) @ 0x5D # cur)" for cur
    by simp
  fix cur v0 stk h
  show "\<exists>v h'. reaches e
      (mk (JSONValueSwitch ArrayOpen) (separate (map (json_text e) ts) @ 0x5D # cur) v0 stk h)
      (mk LoopEnd cur v stk (h @ h')) \<and> rep (h @ h') (JArr ts) v"
  proof (cases ts)
    case Nil
    have "reaches e (mk (JSONValueSwitch ArrayOpen) (0x5D # cur) v0 stk h)
        (mk LoopEnd cur (Object (length h)) stk (h @ [array []]))"
      by (rule reaches_unfold, simp add: parse_step_def step_JSONValueSwitch_def finishArray_def
          newArrayObject_def alloc_def reaches_refl)
    then show ?thesis by (fastforce simp: Nil)
  next
    case (Cons t ts')
    let ?cur = "more (map (json_text e) ts') @ 0x5D # cur"
    have t: "reads e t" and "list_all (reads e) ts'" using assms by (simp_all add: Cons)
    have "ends_number ?cur" by (cases ts') simp_all
    from t [unfolded reads_def, rule_format, OF this]
    obtain tok cur' where tok: "advance e (json_text e t @ ?cur) = (tok, cur')" "tok \<noteq> ArrayClose"
      and run: "\<forall>v0 stk h. \<exists>v h'. reaches e (mk (JSONValueSwitch tok) cur' v0 stk h)
          (mk LoopEnd ?cur v stk (h @ h')) \<and> rep (h @ h') t v"
      by blast
    obtain v h' where first: "reaches e (mk (JSONValueSwitch tok) cur' v0 (Elements [] # stk) h)
        (mk LoopEnd ?cur v (Elements [] # stk) (h @ h'))" and v: "rep (h @ h') t v"
      using run by blast
    obtain h'' n vs where rest: "reaches e (mk LoopEnd ?cur v (Elements [] # stk) (h @ h'))
        (mk LoopEnd cur (Object n) stk ((h @ h') @ h''))"
      and n: "n < length ((h @ h') @ h'')" "((h @ h') @ h'') ! n = array vs"
      "list_all2 (rep ((h @ h') @ h'')) ([t] @ ts') vs"
      using read_elements [OF \<open>list_all _ ts'\<close>, of "h @ h'" "[t]" "[]" v cur stk] v by auto
    have "reaches e (mk (JSONValueSwitch ArrayOpen) (json_text e t @ ?cur) v0 stk h)
        (mk LoopEnd cur (Object n) stk ((h @ h') @ h''))"
      by (rule reaches_unfold, simp add: parse_step_def step_JSONValueSwitch_def tok)
        (use reaches_trans [OF first rest] in simp)
    moreover have "separate (map (json_text e) ts) @ 0x5D # cur = json_text e t @ ?cur"
      by (simp add: Cons separate_more)
    moreover have "rep ((h @ h') @ h'') (JArr ts) (Object n)"
      using n by (simp add: Cons)
    ultimately show ?thesis by (metis append_assoc)
  qed
qed simp

lemma reads_JObj:
  assumes "list_all (\<lambda>(k, t). reads e t) kts" and "distinct (map fst kts)"
  shows "reads e (JObj kts)"
proof (rule readsI)
  show "advance e (json_text e (JObj kts) @ cur) =
      (ObjectOpen, separate (map (member_text e) kts) @ 0x7D # cur)" for cur
    by simp
  fix cur v0 stk h
  show "\<exists>v h'. reaches e
      (mk (JSONValueSwitch ObjectOpen) (separate (map (member_text e) kts) @ 0x7D # cur) v0 stk h)
      (mk LoopEnd cur v stk (h @ h')) \<and> rep (h @ h') (JObj kts) v"
  proof (cases kts)
    case Nil
    have "reaches e (mk (JSONValueSwitch ObjectOpen) (0x7D # cur) v0 stk h)
        (mk LoopEnd cur (Object (length h)) stk (h @ [plain []]))"
      by (rule reaches_unfold, simp add: parse_step_def step_JSONValueSwitch_def finishObject_def
          newPlainObject_def AddPlainObjectProperties_def alloc_def reaches_refl)
    then show ?thesis by (fastforce simp: Nil)
  next
    case (Cons kt kts')
    obtain k t where kt: "kt = (k, t)" by fastforce
    let ?cur = "more (map (member_text e) kts') @ 0x7D # cur"
    have kts': "list_all (\<lambda>(k, t). reads e t) kts'" using assms by (simp_all add: Cons kt)
    have "reads e t" using assms by (simp add: Cons kt)
    moreover have "ends_number ?cur" by (cases kts') simp_all
    ultimately obtain v h' where
      first: "reaches e (mk JSONValue (json_text e t @ ?cur) v0 (Properties [(k, Undefined)] # stk) h)
        (mk LoopEnd ?cur v (Properties [(k, Undefined)] # stk) (h @ h'))" and v: "rep (h @ h') t v"
      by (rule reads_from_JSONValue)
    obtain h'' n ps where
      rest: "reaches e (mk LoopEnd ?cur v (Properties [(k, Undefined)] # stk) (h @ h'))
        (mk LoopEnd cur (Object n) stk ((h @ h') @ h''))"
      and n: "n < length ((h @ h') @ h'')" "((h @ h') @ h'') ! n = plain ps"
      "list_all2 (rep_member ((h @ h') @ h'')) ([kt] @ kts') ps"
      using read_members [OF kts', of "h @ h'" "[kt]" "[]" k v cur stk] v assms(2)
      by (auto simp: Cons kt rep_member_def)
    have "reaches e (mk (JSONValueSwitch ObjectOpen) (quote_text k @ 0x3A # json_text e t @ ?cur) v0 stk h)
        (mk LoopEnd cur (Object n) stk ((h @ h') @ h''))"
      by (rule reaches_unfold, simp add: parse_step_def step_JSONValueSwitch_def, rule reaches_unfold,
          simp add: parse_step_def step_JSONMember_def)
        (use reaches_trans [OF first rest] in simp)
    moreover have "separate (map (member_text e) kts) @ 0x7D # cur = quote_text k @ 0x3A # json_text e t @ ?cur"
      by (simp add: Cons kt separate_more)
    moreover have "rep ((h @ h') @ h'') (JObj kts) (Object n)"
      using n by (simp add: Cons rep_member_def)
    ultimately show ?thesis by (metis append_assoc)
  qed
qed simp

text \<open>Every tree of finite numbers and distinct keys is read, with zero for negative zero.\<close>

lemma reads_plus_zero:
  assumes "decimal_libraries e"
  shows "json_ok t \<Longrightarrow> reads e (plus_zero t)"
proof (induction t)
  case (JArr ts)
  then show ?case unfolding plus_zero.simps by (intro reads_JArr) (auto simp: list_all_iff)
next
  case (JObj kts)
  have keys: "map fst (map (\<lambda>(k, t). (k, plus_zero t)) kts) = map fst kts" by (simp add: case_prod_unfold comp_def)
  have "distinct (map fst (map (\<lambda>(k, t). (k, plus_zero t)) kts))" unfolding keys using JObj.prems by simp
  then show ?case
    using JObj unfolding plus_zero.simps by (intro reads_JObj) (fastforce simp: list_all_iff snds.simps)+
next
  case (JBool b)
  then show ?case unfolding plus_zero.simps
    by (intro reads_literal [where tok = "if b then TrueToken else FalseToken" and v = "Boolean b"])
      (simp_all add: step_JSONValueSwitch_def del: u16s_simps)
next
  case (JNum d)
  let ?d = "if d = neg_zero then DInt 0 else d"
  have "IsFinite ?d" "dbl_proper ?d" "?d \<noteq> neg_zero" using JNum by (auto simp: neg_zero_def)
  then show ?case unfolding plus_zero.simps
    by (intro reads_literal [where tok = "NumberToken ?d" and v = "Number ?d"])
      (auto simp: step_JSONValueSwitch_def advance_number [OF assms] simp del: NumberToCString.simps)
next
  case (JStr s)
  then show ?case unfolding plus_zero.simps
    by (intro reads_literal [where tok = "StringToken s" and v = "Str s"])
      (simp_all add: step_JSONValueSwitch_def)
next
  case JNull
  then show ?case unfolding plus_zero.simps
    by (intro reads_literal [where tok = NullToken and v = Null])
      (simp_all add: step_JSONValueSwitch_def del: u16s_simps)
qed

lemma parse_text:
  assumes "decimal_libraries e" and "json_ok t"
  shows "\<exists>v h'. JS_ParseJSON e (json_text e t) h = ParseOk v (h @ h') \<and> rep (h @ h') (plus_zero t) v"
proof -
  obtain v h' where run: "reaches e (mk JSONValue (json_text e (plus_zero t) @ []) Undefined [] h)
      (mk LoopEnd [] v [] (h @ h'))" and v: "rep (h @ h') (plus_zero t) v"
    by (rule reads_from_JSONValue [OF reads_plus_zero [OF assms] ends_number_punct(4)])
  have "parse_loop e (mk LoopEnd [] v [] (h @ h')) = Parsed v (h @ h')"
    by (simp add: parse_loop.simps parse_step_def step_LoopEnd_def step_Trailing_def skip_ws_def)
  then have "parse_loop e (parse_init (json_text e t) h) = Parsed v (h @ h')"
    using parse_loop_reaches [OF run] by (simp add: parse_init_def plus_zero_text [OF assms(1)])
  then show ?thesis using v by (simp add: JS_ParseJSON_def parse_def)
qed

end
