(* ===== verification/JsonPrint.thy ===== *)
theory JsonPrint
  imports JsonRoundTrip
begin

text \<open>
  \<open>Stringify\<close> refines the printer of trees: on a value that represents a tree it appends the tree's text
  and leaves the heap and the stack of open objects as they were.
\<close>

section \<open>Heights and canonical trees\<close>

fun height :: "json \<Rightarrow> nat" where
  "height (JArr ts) = Suc (foldr max (map height ts) 0)"
| "height (JObj kts) = Suc (foldr max (map (\<lambda>(k, t). height t) kts) 0)"
| "height _ = 0"

lemma foldr_max_upper: "x \<in> set xs \<Longrightarrow> x \<le> foldr max xs (0 :: nat)"
  by (induction xs) auto

lemma height_element: "t \<in> set ts \<Longrightarrow> height t < height (JArr ts)"
  by (auto simp: less_Suc_eq_le intro!: foldr_max_upper)

lemma height_member: "(k, t) \<in> set kts \<Longrightarrow> height t < height (JObj kts)"
  by (force simp: less_Suc_eq_le intro!: foldr_max_upper)

text \<open>The order in which the keys of an object are enumerated.\<close>

definition key_order :: "u16 list list \<Rightarrow> u16 list list" where
  "key_order keys =
     sort_key (\<lambda>k. the (IdIsIndex k)) (filter (\<lambda>k. IdIsIndex k \<noteq> None) keys) @
     filter (\<lambda>k. IdIsIndex k = None) keys"

lemma EnumerateNativeProperties_plain [simp]:
  "EnumerateNativeProperties (plain ps) = key_order (map fst ps)"
  by (simp add: EnumerateNativeProperties_def plain_def key_order_def Let_def)

text \<open>Finite numbers, array lengths in range, distinct keys in the order of enumeration.\<close>

fun canonical :: "json \<Rightarrow> bool" where
  "canonical (JNum d) = IsFinite d"
| "canonical (JArr ts) = (length ts < 2 ^ 32 \<and> list_all canonical ts)"
| "canonical (JObj kts) =
     (distinct (map fst kts) \<and> key_order (map fst kts) = map fst kts \<and> list_all (\<lambda>(k, t). canonical t) kts)"
| "canonical _ = True"

section \<open>Values that represent a tree\<close>

lemma rep_unique: "rep h t v \<Longrightarrow> rep h t' v \<Longrightarrow> t = t'"
proof (induction t arbitrary: t' v)
  case (JArr ts)
  then obtain n vs where v: "v = Object n" "h ! n = array vs" "list_all2 (rep h) ts vs" by auto
  with JArr.prems(2) obtain ts' where t': "t' = JArr ts'" "list_all2 (rep h) ts' vs"
    by (cases t') auto
  have "ts = ts'"
    using v(3) t'(2) JArr.IH
    by (auto simp: list_all2_conv_all_nth intro!: nth_equalityI)
  then show ?case by (simp add: t')
next
  case (JObj kts)
  then obtain n ps where v: "v = Object n" "h ! n = plain ps"
    and ps: "list_all2 (\<lambda>(k, t) (k', v'). k' = k \<and> rep h t v') kts ps" by auto
  with JObj.prems(2) obtain kts' where t': "t' = JObj kts'"
    and ps': "list_all2 (\<lambda>(k, t) (k', v'). k' = k \<and> rep h t v') kts' ps"
    by (cases t') auto
  have "kts ! i = kts' ! i" if i: "i < length kts" for i
  proof -
    have "fst (ps ! i) = fst (kts ! i)" "rep h (snd (kts ! i)) (snd (ps ! i))"
      "fst (ps ! i) = fst (kts' ! i)" "rep h (snd (kts' ! i)) (snd (ps ! i))"
      using i ps ps' by (auto simp: list_all2_conv_all_nth split_beta)
    moreover have "snd (kts ! i) = snd (kts' ! i)"
      using JObj.IH [of "kts ! i" "snd (kts ! i)"] i calculation by (auto simp: snds.simps)
    ultimately show ?thesis by (simp add: prod_eq_iff)
  qed
  then have "kts = kts'"
    using ps ps' by (auto simp: list_all2_conv_all_nth intro!: nth_equalityI)
  then show ?case by (simp add: t')
qed (case_tac t'; auto)+

lemma rep_class:
  assumes "rep h t (Object n)"
  shows "n < length h \<and> (cls (h ! n) = PlainC \<or> (\<exists>vs. cls (h ! n) = ArrayC vs))"
  using assms by (cases t) (auto simp: array_def plain_def)

lemma rep_not_callable: "rep h t v \<Longrightarrow> \<not> IsCallable h v"
  by (cases v) (auto simp: IsCallable_def dest: rep_class)

lemma rep_not_filtered: "rep h t v \<Longrightarrow> \<not> IsFilteredValue h v"
  using rep_not_callable [of h t v] by (cases t) (auto simp: IsFilteredValue_def)

lemma get_chain_own:
  assumes "n < length h" and "proto (h ! n) = None"
  shows "GetProperty h n key = (case own_property (h ! n) key of Some v \<Rightarrow> v | None \<Rightarrow> Undefined)"
  using assms by (cases "length h") (auto simp: GetProperty_def split: option.splits)

lemma rep_toJSON_not_callable:
  assumes "rep h t (Object n)"
  shows "\<not> IsCallable h (GetProperty h n (u16s ''toJSON''))"
proof (cases t)
  case (JArr ts)
  then obtain vs where "n < length h" "h ! n = array vs" using assms by auto
  moreover have "IdIsIndex (u16s ''toJSON'') = None"
    by (simp add: IdIsIndex_def ascii_u16_def Let_def)
  ultimately show ?thesis
    by (simp add: get_chain_own own_property_def named_property_def array_def IsCallable_def)
next
  case (JObj kts)
  then obtain ps where n: "n < length h" "h ! n = plain ps"
    and ps: "list_all2 (\<lambda>(k, t) (k', v'). k' = k \<and> rep h t v') kts ps" using assms by auto
  have "\<not> IsCallable h v" if kv: "(k, v) \<in> set ps" for k v
  proof -
    obtain i where "i < length ps" "ps ! i = (k, v)" using kv unfolding in_set_conv_nth by blast
    then have "rep h (snd (kts ! i)) v"
      using list_all2_nthD2 [OF ps, of i] by (simp add: split_beta)
    then show ?thesis by (rule rep_not_callable)
  qed
  then show ?thesis
    using n by (cases "map_of ps (u16s ''toJSON'')")
      (auto simp: get_chain_own own_property_def named_property_def plain_def IsCallable_def [of h Undefined]
        simp del: u16s_simps dest: map_of_SomeD)
qed (use assms in auto)

lemma unbox_rep: "rep h t v \<Longrightarrow> unbox e (v, h) = Inr (v, h)"
  by (cases v) (auto simp: unbox_def split: js_class.splits dest: rep_class)

lemma PreprocessValue_rep:
  assumes "rep h t v" and "replacer scx = None"
  shows "PreprocessValue e scx holder key v h = Inr (v, h)"
  using assms rep_toJSON_not_callable [of h t] unbox_rep [OF assms(1), of e]
  by (cases v) (simp_all add: PreprocessValue_def apply_toJSON_def apply_replacer_def replacer_callable_def Let_def)

section \<open>Array indices\<close>

lemma IdIsIndex_IndexToString: "i < 2 ^ 32 - 1 \<Longrightarrow> IdIsIndex (IndexToString i) = Some i"
  using digit_units_ISDEC [OF dec_digits_range, of i] unit_digits_units [OF dec_digits_range, of i]
  by (simp add: IdIsIndex_def IndexToString_def Let_def unit_digits_def JS7_ISDEC_def [abs_def]
      digit_units_def [of "dec_digits i"] del: dec_digits_not_Nil)
    (simp add: digit_units_def)

lemma GetElement_array:
  assumes "n < length h" and "h ! n = array vs" and "i < length vs" and "length vs < 2 ^ 32"
  shows "GetElement h n i = vs ! i"
  using assms IdIsIndex_IndexToString [of i]
  by (simp add: GetElement_def get_chain_own own_property_def named_property_def array_def)

lemma GetProperty_plain:
  assumes "n < length h" and "h ! n = plain ps" and "distinct (map fst ps)" and "(k, v) \<in> set ps"
  shows "GetProperty h n k = v"
  using assms by (simp add: get_chain_own own_property_def named_property_def plain_def)

section \<open>Writing a tree\<close>

text \<open>The context of \<open>JS_Stringify\<close> without replacer and without indentation.\<close>

definition bare :: StringifyContext where
  "bare = \<lparr>gap = [], replacer = None, propertyList = [], maybeSafely = False\<rparr>"

lemma bare_simps [simp]:
  "gap bare = []" "replacer bare = None" "WriteIndent bare d st = st"
  by (simp_all add: bare_def WriteIndent_def)

text \<open>The writer of a member or element value: it appends the text and keeps everything else.\<close>

definition writes :: "(jsval \<Rightarrow> strstate \<Rightarrow> json_error + strstate) \<Rightarrow> strstate \<Rightarrow> jsval \<Rightarrow> u16 list \<Rightarrow> bool" where
  "writes str st v text \<longleftrightarrow> (\<forall>out. str v (st\<lparr>sb := out\<rparr>) = Inr (st\<lparr>sb := out @ text\<rparr>))"

lemma JA_elements_writes:
  assumes "list_all2 (rep (heap st)) ts vs" and "n < length (heap st)" and "heap st ! n = array vs"
    and "length vs < 2 ^ 32"
    and "\<And>i. i < length ts \<Longrightarrow> writes str st (vs ! i) (json_text e (ts ! i))"
    and "i \<le> length ts"
  shows "JA_elements e bare str n d (length ts) [i..<length ts] (st\<lparr>sb := out\<rparr>) =
    Inr (st\<lparr>sb := out @ separate (map (json_text e) (drop i ts))\<rparr>)"
  using assms(6)
proof (induction "length ts - i" arbitrary: i out)
  case 0
  then show ?case by simp
next
  case (Suc k)
  then have i: "i < length ts" by simp
  have len: "length vs = length ts" using assms(1) by (simp add: list_all2_lengthD)
  have v: "rep (heap st) (ts ! i) (vs ! i)" using assms(1) i by (simp add: list_all2_nthD)
  have elem: "GetElement (heap st) n i = vs ! i"
    using GetElement_array [OF assms(2,3) _ assms(4), of i] i len by simp
  have w: "str (vs ! i) (st\<lparr>sb := out\<rparr>) = Inr (st\<lparr>sb := out @ json_text e (ts ! i)\<rparr>)"
    using assms(5) [OF i] by (simp add: writes_def)
  have st: "st\<lparr>sb := out, heap := heap st\<rparr> = st\<lparr>sb := out\<rparr>" by simp
  note step = upt_conv_Cons [OF i] elem PreprocessValue_rep [OF v] rep_not_filtered [OF v] w st
  show ?case
  proof (cases "Suc i < length ts")
    case True
    then have "drop i ts = ts ! i # ts ! Suc i # drop (Suc (Suc i)) ts"
      by (metis Cons_nth_drop_Suc i)
    moreover have "drop (Suc i) ts = ts ! Suc i # drop (Suc (Suc i)) ts"
      using True by (simp add: Cons_nth_drop_Suc)
    ultimately show ?thesis
      using Suc.hyps(1) [of "Suc i" "out @ json_text e (ts ! i) @ [0x2C]"] Suc.hyps(2) True
      by (simp add: step append_sb_def ascii_u16_def del: upt_Suc)
  next
    case False
    then have "drop i ts = [ts ! i]" and "Suc i = length ts" using i by (simp_all add: Cons_nth_drop_Suc [symmetric])
    then show ?thesis by (simp add: step append_sb_def del: upt_Suc)
  qed
qed

lemma JO_members_writes:
  assumes "n < length (heap st)" and "heap st ! n = plain ps" and "distinct (map fst ps)"
    and "list_all2 (rep_member (heap st)) kts qs" and "set qs \<subseteq> set ps"
    and "\<And>i. i < length kts \<Longrightarrow> writes str st (snd (qs ! i)) (json_text e (snd (kts ! i)))"
  shows "JO_members e bare str n d (map fst kts) wrote (st\<lparr>sb := out\<rparr>) =
    Inr (wrote \<or> kts \<noteq> [],
      st\<lparr>sb := out @ (if wrote then more (map (member_text e) kts) else separate (map (member_text e) kts))\<rparr>)"
  using assms(4-6)
proof (induction kts arbitrary: qs wrote out)
  case Nil
  then show ?case by simp
next
  case (Cons kt kts)
  obtain k t where kt: "kt = (k, t)" by fastforce
  obtain v qs' where qs: "qs = (k, v) # qs'" and v: "rep (heap st) t v"
    and qs': "list_all2 (rep_member (heap st)) kts qs'"
    using Cons.prems(1) by (auto simp: kt rep_member_def list_all2_Cons1)
  have get: "GetProperty (heap st) n k = v"
    using GetProperty_plain [OF assms(1-3)] Cons.prems(2) by (auto simp: qs)
  have w: "str v (st\<lparr>sb := out\<rparr>) = Inr (st\<lparr>sb := out @ json_text e t\<rparr>)" for out
    using Cons.prems(3) [of 0] by (simp add: writes_def qs kt)
  have rest: "\<And>i. i < length kts \<Longrightarrow> writes str st (snd (qs' ! i)) (json_text e (snd (kts ! i)))"
    using Cons.prems(3) [of "Suc i" for i] by (fastforce simp: qs)
  have st: "st\<lparr>sb := out, heap := heap st\<rparr> = st\<lparr>sb := out\<rparr>" for out by simp
  note IH = Cons.IH [OF qs' _ rest, of True]
  show ?case
    using IH Cons.prems(2)
    by (simp add: kt qs get PreprocessValue_rep [OF v] rep_not_filtered [OF v] w st append_sb_def
        ascii_u16_def Quote_text separate_more)
qed

text \<open>The objects being written enclose the value, so their trees are higher.\<close>

definition enclosed :: "jsheap \<Rightarrow> nat set \<Rightarrow> json \<Rightarrow> bool" where
  "enclosed h S t \<longleftrightarrow> (\<forall>n \<in> S. \<forall>t'. rep h t' (Object n) \<longrightarrow> height t < height t')"

lemma enclosed_self: "enclosed h S t \<Longrightarrow> rep h t (Object n) \<Longrightarrow> n \<notin> S"
  unfolding enclosed_def by blast

lemma enclosed_child:
  assumes "enclosed h S t" and "rep h t (Object n)" and "height t1 < height t"
  shows "enclosed h (insert n S) t1"
  using assms rep_unique unfolding enclosed_def by (metis insert_iff order.strict_trans)

lemma foundCycle_new:
  "n \<notin> stack st \<Longrightarrow> foundCycle n st = Inr (st\<lparr>stack := insert n (stack st)\<rparr>)"
  by (simp add: foundCycle_def)

lemma StrValue_writes:
  assumes "rep (heap st) t v" and "canonical t" and "height t < budget" and "enclosed (heap st) (stack st) t"
  shows "StrValue e bare budget d v st = Inr (st\<lparr>sb := sb st @ json_text e t\<rparr>)"
  using assms
proof (induction t arbitrary: v st budget d)
  case (JArr ts)
  obtain n vs where v: "v = Object n" "n < length (heap st)" "heap st ! n = array vs"
    and vs: "list_all2 (rep (heap st)) ts vs"
    using JArr.prems(1) by auto
  obtain b where b: "budget = Suc b" using JArr.prems(3) by (cases budget) auto
  have len: "length vs = length ts" using vs by (simp add: list_all2_lengthD)
  have fresh: "n \<notin> stack st" using enclosed_self JArr.prems(1,4) v(1) by blast
  define st1 where "st1 = st\<lparr>stack := insert n (stack st)\<rparr>"
  have w: "writes (StrValue e bare b (d + 1)) st1 (vs ! i) (json_text e (ts ! i))" if "i < length ts" for i
    unfolding writes_def
  proof
    fix out
    have mem: "ts ! i \<in> set ts" using that by simp
    have "height (ts ! i) < height (JArr ts)" by (rule height_element [OF mem])
    then have "enclosed (heap st) (insert n (stack st)) (ts ! i)" "height (ts ! i) < b"
      using enclosed_child JArr.prems(1,3,4) v(1) b by auto
    moreover have "rep (heap st) (ts ! i) (vs ! i)" using vs that by (simp add: list_all2_nthD)
    moreover have "canonical (ts ! i)" using JArr.prems(2) mem by (simp add: list_all_iff)
    ultimately show "StrValue e bare b (d + 1) (vs ! i) (st1\<lparr>sb := out\<rparr>) =
        Inr (st1\<lparr>sb := out @ json_text e (ts ! i)\<rparr>)"
      using JArr.IH [OF mem, of "st1\<lparr>sb := out\<rparr>" "vs ! i" b "d + 1"] by (simp add: st1_def)
  qed
  have elems: "JA_elements e bare (StrValue e bare b (d + 1)) n (d + 1) (length ts) [0..<length ts]
      (st1\<lparr>sb := sb st @ [0x5B]\<rparr>) = Inr (st1\<lparr>sb := (sb st @ [0x5B]) @ separate (map (json_text e) ts)\<rparr>)"
    using JA_elements_writes [of st1 ts vs n "StrValue e bare b (d + 1)" e 0 "d + 1" "sb st @ [0x5B]", OF _ _ _ _ w]
      vs v len JArr.prems(2) by (simp add: st1_def)
  have "array_length (heap st) n = length ts" "IsArray (heap st) n"
    using v len by (simp_all add: array_length_def IsArray_def array_def)
  moreover have "append_sb (u16s ''['') st1 = st1\<lparr>sb := sb st @ [0x5B]\<rparr>"
    by (simp add: append_sb_def st1_def ascii_u16_def)
  ultimately show ?case
    using elems fresh v(1)
    by (simp add: b JA_def foundCycle_new st1_def append_sb_def ascii_u16_def CycleDetector_destructor_def Let_def)
next
  case (JObj kts)
  obtain n ps where v: "v = Object n" "n < length (heap st)" "heap st ! n = plain ps"
    and ps: "list_all2 (rep_member (heap st)) kts ps"
    using JObj.prems(1) by (auto simp: rep_member_def)
  obtain b where b: "budget = Suc b" using JObj.prems(3) by (cases budget) auto
  have keys: "map fst ps = map fst kts" by (rule list_all2_rep_member_keys [OF ps])
  have len: "length ps = length kts" using ps by (simp add: list_all2_lengthD)
  have fresh: "n \<notin> stack st" using enclosed_self JObj.prems(1,4) v(1) by blast
  define st1 where "st1 = st\<lparr>stack := insert n (stack st)\<rparr>"
  have w: "writes (StrValue e bare b (d + 1)) st1 (snd (ps ! i)) (json_text e (snd (kts ! i)))"
    if "i < length kts" for i
    unfolding writes_def
  proof
    fix out
    have mem: "(fst (kts ! i), snd (kts ! i)) \<in> set kts" using that by simp
    have "height (snd (kts ! i)) < height (JObj kts)" by (rule height_member [OF mem])
    then have "enclosed (heap st) (insert n (stack st)) (snd (kts ! i))" "height (snd (kts ! i)) < b"
      using enclosed_child JObj.prems(1,3,4) v(1) b by auto
    moreover have "rep (heap st) (snd (kts ! i)) (snd (ps ! i))"
      using list_all2_nthD [OF ps that] by (simp add: rep_member_def split_beta)
    moreover have "canonical (snd (kts ! i))" using JObj.prems(2) mem by (auto simp: list_all_iff split_beta)
    ultimately show "StrValue e bare b (d + 1) (snd (ps ! i)) (st1\<lparr>sb := out\<rparr>) =
        Inr (st1\<lparr>sb := out @ json_text e (snd (kts ! i))\<rparr>)"
      using JObj.IH [of "kts ! i" "snd (kts ! i)" "st1\<lparr>sb := out\<rparr>" "snd (ps ! i)" b "d + 1"] that
      by (simp add: st1_def snds.simps)
  qed
  have members: "JO_members e bare (StrValue e bare b (d + 1)) n (d + 1) (map fst kts) False
      (st1\<lparr>sb := sb st @ [0x7B]\<rparr>) =
      Inr (kts \<noteq> [], st1\<lparr>sb := (sb st @ [0x7B]) @ separate (map (member_text e) kts)\<rparr>)"
    using JO_members_writes [of n st1 ps kts ps "StrValue e bare b (d + 1)" e "d + 1" False "sb st @ [0x7B]", OF _ _ _ _ _ w]
      ps v keys JObj.prems(2) by (simp add: st1_def)
  have "GetPropertyKeys (heap st) n = map fst kts" "\<not> IsArray (heap st) n"
    using v keys JObj.prems(2) by (simp_all add: GetPropertyKeys_def IsArray_def) (simp add: plain_def)
  moreover have "append_sb (u16s ''{'') st1 = st1\<lparr>sb := sb st @ [0x7B]\<rparr>"
    by (simp add: append_sb_def st1_def ascii_u16_def)
  ultimately show ?case
    using members fresh v(1)
    by (simp add: b JO_def foundCycle_new st1_def append_sb_def ascii_u16_def CycleDetector_destructor_def Let_def)
next
  case JNull
  then show ?case by (cases budget) (simp_all add: append_sb_def)
next
  case (JBool x)
  then show ?case by (cases budget) (simp_all add: append_sb_def)
next
  case (JNum d)
  then show ?case by (cases budget) (simp_all add: append_sb_def NumberValueToStringBuffer_def)
next
  case (JStr s)
  then show ?case by (cases budget) (simp_all add: Quote_text)
qed

lemma IsCallable_append: "rep h t v \<Longrightarrow> \<not> IsFilteredValue (h @ h') v"
  using rep_not_filtered rep_mono by blast

lemma JS_Stringify_text:
  assumes "rep h t (Object n)" and "canonical t" and "height t < budget"
  shows "JS_Stringify e budget (Object n) None Null h =
    Inr (json_text e t, h @ [plain [([], Object n)]])"
proof -
  let ?h = "h @ [plain [([], Object n)]]"
  let ?scx = "\<lparr>gap = stringify_gap Null, replacer = None, propertyList = [], maybeSafely = False\<rparr>"
  have r: "rep ?h t (Object n)" by (rule rep_mono [OF assms(1)])
  have scx: "?scx = bare" by (simp add: bare_def stringify_gap_def)
  have "StrValue e bare budget 0 (Object n) \<lparr>sb = [], stack = {}, heap = ?h\<rparr> =
      Inr \<lparr>sb = json_text e t, stack = {}, heap = ?h\<rparr>"
    using StrValue_writes [of "\<lparr>sb = [], stack = {}, heap = ?h\<rparr>" t "Object n" budget e 0] r assms(2,3)
    by (simp add: enclosed_def)
  moreover have "json_text e t \<noteq> []" using assms(1) by (cases t) auto
  ultimately show ?thesis
    using PreprocessValue_rep [OF r] rep_not_filtered [OF r]
    by (simp add: JS_Stringify_def Stringify_def unbox_space_def alloc_def scx)
qed

section \<open>Properties\<close>

text \<open>
  C3. Stringify refines the printer of trees: a value that represents a tree of finite numbers, with the
  keys of each object in enumeration order and the nesting within the recursion budget, is written
  as exactly the text of the tree, and nothing on the heap changes but the wrapper object.
\<close>

theorem stringify_refines_printer:
  assumes "rep h t (Object n)" and "canonical t" and "height t < budget"
  shows "JS_Stringify e budget (Object n) None Null h =
    Inr (json_text e t, h @ [plain [([], Object n)]])"
  by (rule JS_Stringify_text [OF assms])

text \<open>
  C4. Given printing and reading libraries for doubles that agree with each other, the parser reads the text of
  every tree whose numbers are finite and whose objects have distinct keys: it gives a value that represents
  the tree, with 0 for \<open>-0\<close>, on a heap that has only grown.
\<close>

theorem parser_reads_printed:
  assumes "decimal_libraries e" and "json_ok t"
  shows "\<exists>v h'. JS_ParseJSON e (json_text e t) h = ParseOk v (h @ h') \<and> rep (h @ h') (plus_zero t) v"
  by (rule parse_text [OF assms])

lemma height_plus_zero [simp]: "height (plus_zero t) = height t"
proof (induction t)
  case (JArr ts)
  then show ?case by (simp add: comp_def cong: map_cong)
next
  case (JObj kts)
  then have "map (\<lambda>x. case (case x of (k, t) \<Rightarrow> (k, plus_zero t)) of (k, t) \<Rightarrow> height t) kts = map (\<lambda>(k, t). height t) kts"
    by (intro map_cong) (auto simp: snds.simps)
  then show ?case unfolding plus_zero.simps height.simps map_map comp_def by (simp only:)
qed simp_all

lemma canonical_plus_zero: "canonical t \<Longrightarrow> canonical (plus_zero t)"
proof (induction t)
  case (JArr ts)
  then show ?case by (auto simp: list_all_iff)
next
  case (JObj kts)
  have keys: "map fst (map (\<lambda>(k, t). (k, plus_zero t)) kts) = map fst kts" by (simp add: case_prod_unfold comp_def)
  have "\<forall>(k, t) \<in> set kts. canonical (plus_zero t)" using JObj by (fastforce simp: list_all_iff snds.simps)
  then show ?case using JObj.prems unfolding plus_zero.simps canonical.simps keys by (auto simp: list_all_iff)
qed simp_all

lemma stringified_object:
  assumes "rep h t (Object n)" and "rep h' (plus_zero t) v"
  shows "\<exists>m. v = Object m"
  using assms by (cases t) auto

text \<open>
  C5. Stringifying an object and parsing the text, on any heap, gives a value that represents the same tree, with
  0 for \<open>-0\<close>, and stringifying that value gives the same text: what the bridge sends to Java as JSON and Java
  sends back unchanged is the same data, and JSON texts of the engine are a fixed point.
\<close>

theorem stringify_parse_round_trip:
  assumes "rep h t (Object n)" and "canonical t" and "json_ok t" and "height t < budget" and "decimal_libraries e"
  shows "\<exists>text h1 v h' h2. JS_Stringify e budget (Object n) None Null h = Inr (text, h1) \<and>
    JS_ParseJSON e text h0 = ParseOk v (h0 @ h') \<and> rep (h0 @ h') (plus_zero t) v \<and>
    JS_Stringify e budget v None Null (h0 @ h') = Inr (text, h2)"
proof -
  obtain v h' where v: "JS_ParseJSON e (json_text e t) h0 = ParseOk v (h0 @ h')" "rep (h0 @ h') (plus_zero t) v"
    using parse_text [OF assms(5,3)] by blast
  obtain m where m: "v = Object m" using stringified_object [OF assms(1) v(2)] by blast
  have "height (plus_zero t) < budget" using assms(4) by simp
  from JS_Stringify_text [OF v(2) [unfolded m] canonical_plus_zero [OF assms(2)] this, of e]
  show ?thesis
    using JS_Stringify_text [OF assms(1,2,4), of e] v by (simp add: m plus_zero_text [OF assms(5)])
qed

text \<open>
  Concrete libraries: a double that is no 32-bit integer prints as its pattern in decimal, an exponent of 0 marking
  those that are not integers. On them, the array \<open>[{"a": -7}, x, -0]\<close>, where \<open>x\<close> is -1/2.
\<close>

definition sample_frac :: "dbl \<Rightarrow> u16 list" where
  "sample_frac d =
     (if d = neg_zero then u16s ''0''
      else (if dbl_negative d then [0x2D] else []) @
        (case dbl_abs d of
           DInt n \<Rightarrow> digit_units (dec_digits (nat n))
         | DBits b \<Rightarrow> digit_units (dec_digits (unat b)) @ u16s ''e0''))"

definition sample_strtod :: "u16 list \<Rightarrow> dbl" where
  "sample_strtod s =
     (let n = dec_value (unit_digits (takeWhile JS7_ISDEC s)) in
      if dropWhile JS7_ISDEC s = [] then DInt (int n) else DBits (of_nat n))"

definition sample_engine :: engine_fns where
  "sample_engine = \<lparr>frac = sample_frac, strtod = sample_strtod, to_primitive = (\<lambda>h n. None),
     to_number = (\<lambda>h n. None), call = (\<lambda>f this args h. (None, h))\<rparr>"

lemma list_all_takeWhile: "list_all P xs \<Longrightarrow> takeWhile P xs = xs \<and> dropWhile P xs = []"
  by (induction xs) simp_all

lemma sample_strtod_digits:
  "sample_strtod (digit_units (dec_digits n)) = DInt (int n)"
  "sample_strtod (digit_units (dec_digits n) @ u16s ''e0'') = DBits (of_nat n)"
proof -
  have digits: "list_all JS7_ISDEC (digit_units (dec_digits n))" by (rule digit_units_ISDEC [OF dec_digits_range])
  have units: "unit_digits (digit_units (dec_digits n)) = dec_digits n" by (rule unit_digits_units [OF dec_digits_range])
  note run = list_all_takeWhile [OF digits] list_all_takeWhile_append [OF digits] list_all_dropWhile_append [OF digits]
  show "sample_strtod (digit_units (dec_digits n)) = DInt (int n)"
    unfolding sample_strtod_def by (simp add: run units)
  show "sample_strtod (digit_units (dec_digits n) @ u16s ''e0'') = DBits (of_nat n)"
    unfolding sample_strtod_def by (simp add: run units ascii_u16_def)
qed

lemma sample_libraries: "decimal_libraries sample_engine"
proof -
  have "\<exists>u. sample_frac d = (if dbl_negative d then 0x2D # u else u) \<and> decimal_text u \<and> sample_strtod u = dbl_abs d"
    if d: "d \<noteq> neg_zero" for d
  proof (cases "dbl_abs d")
    case (DInt n)
    then have "0 \<le> n" by (cases d) auto
    moreover have "decimal_text (digit_units (dec_digits (nat n)))"
      unfolding decimal_text_def fraction_text_def exponent_text_def by (metis append_Nil2)
    ultimately show ?thesis
      using d DInt by (intro exI [of _ "digit_units (dec_digits (nat n))"]) (simp add: sample_frac_def sample_strtod_digits)
  next
    case (DBits b)
    have "u16s ''e0'' = 0x65 # [] @ [0x30]" "list_all JS7_ISDEC [0x30]" by (simp_all add: ascii_u16_def JS7_ISDEC_def)
    then have "exponent_text (u16s ''e0'')" unfolding exponent_text_def by blast
    then have "decimal_text (digit_units (dec_digits (unat b)) @ u16s ''e0'')"
      unfolding decimal_text_def fraction_text_def by (metis append_Nil)
    then show ?thesis
      using d DBits sample_strtod_digits(2) [of "unat b"]
      by (intro exI [of _ "digit_units (dec_digits (unat b)) @ u16s ''e0''"]) (simp add: sample_frac_def del: u16s_simps)
  qed
  then show ?thesis
    by (auto simp: decimal_libraries_def strtod_integers_def sample_engine_def sample_strtod_digits)
      (simp add: sample_frac_def)
qed

definition sample_heap :: jsheap where
  "sample_heap = [plain [(u16s ''a'', Number (DInt (-7)))],
     array [Object 0, Number (DBits 0xBFE0000000000000), Number neg_zero]]"

definition sample_tree :: json where
  "sample_tree = JArr [JObj [(u16s ''a'', JNum (DInt (-7)))], JNum (DBits 0xBFE0000000000000), JNum neg_zero]"

lemma dbl_proper_below_one:
  assumes "uint (take_bit 63 b) < 1023 * 2 ^ 52" and "b \<noteq> 0"
  shows "dbl_proper (DBits b)"
proof -
  have "b \<noteq> integral_bits n" if n: "\<bar>n\<bar> < 2 ^ 53" for n
  proof
    assume b: "b = integral_bits n"
    let ?p = "positive_pattern (nat \<bar>n\<bar>)"
    have "n \<noteq> 0" using assms(2) b by (auto simp: integral_bits_def)
    then have m: "0 < nat \<bar>n\<bar>" "nat \<bar>n\<bar> < 2 ^ 53" using n by (auto simp: nat_less_iff)
    let ?e = "floorlog 2 (nat \<bar>n\<bar>) - 1"
    have "floorlog 2 (nat \<bar>n\<bar>) \<le> 53" using m(2) by (intro floorlog_leI) auto
    then have "int ?e \<le> 52" by simp
    moreover have "(1023 + int ?e) * 2 ^ 52 \<le> ?p" "?p < (1024 + int ?e) * 2 ^ 52"
      by (rule positive_pattern_bounds [OF m refl])+
    ultimately have p: "1023 * 2 ^ 52 \<le> ?p" "?p < 2 ^ 63" by simp_all
    have "take_bit 63 b = take_bit 63 (word_of_int ?p)"
      using \<open>n \<noteq> 0\<close> by (simp add: b integral_bits_def sign_bit_def)
    then have "uint (take_bit 63 b) = take_bit 63 (take_bit 64 ?p)"
      by (simp only: unsigned_take_bit_eq, simp add: uint_word_of_int take_bit_eq_mod)
    also have "\<dots> = ?p" using p by (simp add: take_bit_eq_mod)
    finally show False using assms(1) p(1) by simp
  qed
  then show ?thesis by simp
qed

lemma sample_proper: "dbl_proper (DBits 0xBFE0000000000000)" "dbl_proper neg_zero"
  unfolding neg_zero_def sign_bit_def by (rule dbl_proper_below_one; simp)+

lemma sample_facts:
  "rep sample_heap sample_tree (Object 1)" "canonical sample_tree" "json_ok sample_tree"
  "height sample_tree < 3"
  using sample_proper
  by (simp_all add: sample_heap_def sample_tree_def key_order_def IdIsIndex_def neg_zero_def sign_bit_def
      ascii_u16_def Let_def del: dbl_proper.simps(2))

theorem stringify_refines_printer_witness:
  "JS_Stringify sample_engine 3 (Object 1) None Null sample_heap =
     Inr (json_text sample_engine sample_tree, sample_heap @ [plain [([], Object 1)]])"
  by (rule stringify_refines_printer [OF sample_facts(1,2,4)])

theorem parser_reads_printed_witness:
  "\<exists>v h'. JS_ParseJSON sample_engine (json_text sample_engine sample_tree) [] = ParseOk v ([] @ h') \<and>
     rep ([] @ h') (plus_zero sample_tree) v"
  by (rule parser_reads_printed [OF sample_libraries sample_facts(3)])

theorem stringify_parse_round_trip_witness:
  "\<exists>text h1 v h' h2. JS_Stringify sample_engine 3 (Object 1) None Null sample_heap = Inr (text, h1) \<and>
     JS_ParseJSON sample_engine text [] = ParseOk v ([] @ h') \<and> rep ([] @ h') (plus_zero sample_tree) v \<and>
     JS_Stringify sample_engine 3 v None Null ([] @ h') = Inr (text, h2)"
  by (rule stringify_parse_round_trip [OF sample_facts sample_libraries])

end
