(* ===== verification/IdleNotification.thy ===== *)
theory IdleNotification
  imports Prelude
begin

text \<open>
  The decision when the engine collects garbage after a call from Java: the counters and
  \<open>needIdleNotification\<close>, \<open>markupStateInternally\<close> and \<open>resetIdleNotificationCount\<close> of
  \<open>weexion.cpp\<close>. The library is built for 32-bit ARM, where \<open>unsigned long\<close> has 32 bits and
  \<open>LONG_MAX\<close> is \<open>2\<^sup>3\<^sup>1 - 1\<close>; the counters are words of that width.
\<close>

section \<open>The counters\<close>

definition MIN_EXECJS_COUNT :: u32 where
  "MIN_EXECJS_COUNT = 100"

definition MAX_EXECJS_COUNT :: u32 where
  "MAX_EXECJS_COUNT = 0x7FFFFFFF"

definition samplingBegin :: u32 where
  "samplingBegin = 5"

definition denomValue :: u32 where
  "denomValue = 3"

definition samplingExecJSCountMax :: u32 where
  "samplingExecJSCountMax = 10"

record idle =
  execJSCount :: u32
  lastExecJSCount :: u32
  samplingExecJSCount :: u32
  idle_notification_FLAG :: bool

definition idle_init :: idle where
  "idle_init = \<lparr>execJSCount = 0, lastExecJSCount = 0, samplingExecJSCount = 0,
     idle_notification_FLAG = True\<rparr>"

section \<open>The operations\<close>

definition needIdleNotification :: "idle \<Rightarrow> bool \<times> idle" where
  "needIdleNotification s =
     (if \<not> idle_notification_FLAG s then (False, s)
      else
        let s = (if execJSCount s = MAX_EXECJS_COUNT then s\<lparr>execJSCount := MIN_EXECJS_COUNT\<rparr> else s);
            old = execJSCount s;
            s = s\<lparr>execJSCount := old + 1\<rparr>
        in
        if old < MIN_EXECJS_COUNT then (False, s)
        else
          let s = (if execJSCount s = MIN_EXECJS_COUNT
                   then s\<lparr>lastExecJSCount := execJSCount s\<rparr> else s)
          in
          if execJSCount s = lastExecJSCount s + samplingBegin then
            let s = s\<lparr>samplingExecJSCount := 0\<rparr>
            in (execJSCount s mod denomValue = 0, s)
          else if lastExecJSCount s + samplingBegin < execJSCount s then
            let s = (if samplingExecJSCount s = MAX_EXECJS_COUNT
                     then s\<lparr>samplingExecJSCount := 0\<rparr> else s);
                s = s\<lparr>samplingExecJSCount := samplingExecJSCount s + 1\<rparr>;
                s = (if samplingExecJSCountMax \<le> samplingExecJSCount s
                     then s\<lparr>idle_notification_FLAG := False\<rparr> else s)
            in (samplingExecJSCount s mod denomValue = 0, s)
          else (execJSCount s mod denomValue = 0, s))"

definition markupStateInternally :: "idle \<Rightarrow> idle" where
  "markupStateInternally s =
     (let s = (if execJSCount s + samplingBegin = MAX_EXECJS_COUNT
               then s\<lparr>execJSCount := MIN_EXECJS_COUNT\<rparr> else s)
      in s\<lparr>lastExecJSCount := execJSCount s, idle_notification_FLAG := True,
           samplingExecJSCount := 0\<rparr>)"

definition resetIdleNotificationCount :: "idle \<Rightarrow> idle" where
  "resetIdleNotificationCount s = s\<lparr>execJSCount := 0, idle_notification_FLAG := True\<rparr>"

lemmas idle_consts = MIN_EXECJS_COUNT_def MAX_EXECJS_COUNT_def samplingBegin_def denomValue_def
  samplingExecJSCountMax_def

section \<open>Runs of calls\<close>

text \<open>The answers of \<open>n\<close> successive calls, and the state after them.\<close>

fun idle_calls :: "nat \<Rightarrow> idle \<Rightarrow> bool list \<times> idle" where
  "idle_calls 0 s = ([], s)"
| "idle_calls (Suc n) s =
     (let (b, s') = needIdleNotification s; (bs, s'') = idle_calls n s' in (b # bs, s''))"

text \<open>The state after a call, when the flag is set, in terms of the counters.\<close>

definition at :: "u32 \<Rightarrow> u32 \<Rightarrow> u32 \<Rightarrow> idle" where
  "at c l k = \<lparr>execJSCount = c, lastExecJSCount = l, samplingExecJSCount = k,
     idle_notification_FLAG = True\<rparr>"

lemma idle_off: "\<not> idle_notification_FLAG s \<Longrightarrow> needIdleNotification s = (False, s)"
  by (simp add: needIdleNotification_def)

lemma idle_warm_up:
  "c < MIN_EXECJS_COUNT \<Longrightarrow> needIdleNotification (at c l k) = (False, at (c + 1) l k)"
  by (auto simp: needIdleNotification_def at_def idle_consts)

lemma above_min_neq: "MIN_EXECJS_COUNT \<le> c \<Longrightarrow> c + 1 \<noteq> MIN_EXECJS_COUNT"
proof
  assume "MIN_EXECJS_COUNT \<le> c" and "c + 1 = MIN_EXECJS_COUNT"
  then have "c = MIN_EXECJS_COUNT - 1" by (metis add_diff_cancel)
  with \<open>MIN_EXECJS_COUNT \<le> c\<close> show False by (simp add: idle_consts)
qed

lemma idle_before_sampling:
  assumes "MIN_EXECJS_COUNT \<le> c" and "c \<noteq> MAX_EXECJS_COUNT" and "c + 1 < l + samplingBegin"
  shows "needIdleNotification (at c l k) = ((c + 1) mod denomValue = 0, at (c + 1) l k)"
  using assms above_min_neq [of c]
  by (auto simp: needIdleNotification_def at_def Let_def)

lemma idle_sampling_starts:
  assumes "MIN_EXECJS_COUNT \<le> c" and "c \<noteq> MAX_EXECJS_COUNT" and "c + 1 = l + samplingBegin"
  shows "needIdleNotification (at c l k) = ((c + 1) mod denomValue = 0, at (c + 1) l 0)"
  using assms above_min_neq [of c]
  by (auto simp: needIdleNotification_def at_def Let_def)

lemma idle_sampling:
  assumes "MIN_EXECJS_COUNT \<le> c" and "c \<noteq> MAX_EXECJS_COUNT" and "l + samplingBegin < c + 1"
    and "k \<noteq> MAX_EXECJS_COUNT" and "k + 1 < samplingExecJSCountMax"
  shows "needIdleNotification (at c l k) = ((k + 1) mod denomValue = 0, at (c + 1) l (k + 1))"
  using assms above_min_neq [of c]
  by (auto simp: needIdleNotification_def at_def Let_def)

lemma idle_sampling_ends:
  assumes "MIN_EXECJS_COUNT \<le> c" and "c \<noteq> MAX_EXECJS_COUNT" and "l + samplingBegin < c + 1"
    and "k = 9"
  shows "needIdleNotification (at c l k) =
    (False, (at (c + 1) l 10)\<lparr>idle_notification_FLAG := False\<rparr>)"
  using assms above_min_neq [of c]
  by (auto simp: needIdleNotification_def at_def Let_def MAX_EXECJS_COUNT_def
      samplingExecJSCountMax_def denomValue_def)

section \<open>The schedule\<close>

text \<open>
  The states a run passes through, by the number of calls made: \<open>boot i\<close> since the library was
  loaded, \<open>marked m i\<close> since \<open>markupState\<close> was called at the count \<open>m\<close>.
\<close>

definition boot :: "nat \<Rightarrow> idle" where
  "boot i = (if i < 110 then at (of_nat i) 0 (of_nat (i - 100))
             else (at 110 0 10)\<lparr>idle_notification_FLAG := False\<rparr>)"

definition marked :: "nat \<Rightarrow> nat \<Rightarrow> idle" where
  "marked m i = (if i < 15 then at (of_nat (m + i)) (of_nat m) (of_nat (i - 5))
                 else (at (of_nat (m + 15)) (of_nat m) 10)\<lparr>idle_notification_FLAG := False\<rparr>)"

definition boot_answer :: "nat \<Rightarrow> bool" where
  "boot_answer i \<longleftrightarrow> i = 103 \<or> i = 106 \<or> i = 109"

definition marked_answer :: "nat \<Rightarrow> nat \<Rightarrow> bool" where
  "marked_answer m i \<longleftrightarrow> (if i \<le> 5 then (m + i) mod 3 = 0 else i = 8 \<or> i = 11 \<or> i = 14)"

lemma of_nat_u32_less: "m < 2 ^ 32 \<Longrightarrow> n < 2 ^ 32 \<Longrightarrow> ((of_nat m :: u32) < of_nat n) = (m < n)"
  by (simp add: of_nat_word_less_iff take_bit_nat_eq_self)

lemma of_nat_u32_eq: "m < 2 ^ 32 \<Longrightarrow> n < 2 ^ 32 \<Longrightarrow> ((of_nat m :: u32) = of_nat n) = (m = n)"
  by (simp add: word_of_nat_eq_iff take_bit_nat_eq_self)

lemma of_nat_u32_mod3: "n < 2 ^ 32 \<Longrightarrow> ((of_nat n :: u32) mod denomValue = 0) = (n mod 3 = 0)"
  by (simp add: denomValue_def word_unat_eq_iff unat_mod unsigned_of_nat take_bit_nat_eq_self)

lemma idle_calls_run:
  assumes "\<And>i. needIdleNotification (f i) = (g (Suc i), f (Suc i))"
  shows "idle_calls n (f i) = (map g [Suc i..<Suc i + n], f (i + n))"
proof (induction n arbitrary: i)
  case (Suc n)
  then show ?case
    using Suc [of "Suc i"] by (simp add: assms upt_conv_Cons del: upt_Suc)
qed simp

lemma mod3_window: "k < 9 \<Longrightarrow> (Suc k mod 3 = 0) = (k = 2 \<or> k = 5 \<or> k = 8)"
  by presburger

lemma sampling_window:
  assumes "MIN_EXECJS_COUNT \<le> c" and "c \<noteq> MAX_EXECJS_COUNT" and "l + samplingBegin < c + 1" and "k < 9"
  shows "needIdleNotification (at c l (of_nat k)) = (k = 2 \<or> k = 5 \<or> k = 8, at (c + 1) l (of_nat (Suc k)))"
proof -
  have "(of_nat k :: u32) \<noteq> MAX_EXECJS_COUNT" "of_nat (Suc k) < samplingExecJSCountMax"
    "(of_nat (Suc k) mod denomValue = 0) = (Suc k mod 3 = 0)"
    using assms(4) of_nat_u32_eq [of k "0x7FFFFFFF"] of_nat_u32_less [of "Suc k" 10] of_nat_u32_mod3 [of "Suc k"]
    by (simp_all add: MAX_EXECJS_COUNT_def samplingExecJSCountMax_def)
  then show ?thesis
    using idle_sampling [OF assms(1-3), of "of_nat k"] mod3_window [OF assms(4)] by (simp add: add.commute)
qed

lemma boot_step: "needIdleNotification (boot i) = (boot_answer (Suc i), boot (Suc i))"
proof -
  consider "i < 100" | "100 \<le> i" "i < 110" | "110 \<le> i" by linarith
  then show ?thesis
  proof cases
    case 1
    then have "of_nat i < MIN_EXECJS_COUNT"
      using of_nat_u32_less [of i 100] by (simp add: MIN_EXECJS_COUNT_def)
    then show ?thesis using 1 by (simp add: boot_def boot_answer_def idle_warm_up add.commute)
  next
    case 2
    then have c: "MIN_EXECJS_COUNT \<le> of_nat i" "of_nat i \<noteq> MAX_EXECJS_COUNT" "0 + samplingBegin < of_nat i + 1"
      using of_nat_u32_less [of i 100] of_nat_u32_eq [of i "0x7FFFFFFF"] of_nat_u32_less [of 5 "Suc i"]
      by (simp_all add: idle_consts not_less [symmetric] add.commute)
    show ?thesis
    proof (cases "i = 109")
      case True
      then show ?thesis
        using idle_sampling_ends [OF c, of 9] by (simp add: boot_def boot_answer_def)
    next
      case False
      with 2 have k: "i - 100 < 9" by simp
      have "(i - 100 = 2 \<or> i - 100 = 5 \<or> i - 100 = 8) = boot_answer (Suc i)"
        using 2 by (auto simp: boot_answer_def)
      then show ?thesis
        using sampling_window [OF c k] 2 False by (simp add: boot_def add.commute Suc_diff_le)
    qed
  next
    case 3
    then show ?thesis by (simp add: boot_def boot_answer_def idle_off)
  qed
qed

lemma marked_step:
  assumes "100 \<le> m" and "m + 15 < 0x7FFFFFFF"
  shows "needIdleNotification (marked m i) = (marked_answer m (Suc i), marked m (Suc i))"
proof (cases "15 \<le> i")
  case True
  then show ?thesis by (simp add: marked_def marked_answer_def idle_off)
next
  case False
  let ?c = "of_nat (m + i) :: u32" and ?l = "of_nat m :: u32"
  have c: "MIN_EXECJS_COUNT \<le> ?c" "?c \<noteq> MAX_EXECJS_COUNT"
    using assms False of_nat_u32_less [of "m + i" 100] of_nat_u32_eq [of "m + i" "0x7FFFFFFF"]
    by (simp_all add: MIN_EXECJS_COUNT_def MAX_EXECJS_COUNT_def not_less [symmetric])
  have next_c: "?c + 1 = of_nat (Suc (m + i))" by (simp add: add.commute)
  have start: "?l + samplingBegin = of_nat (m + 5)" by (simp add: samplingBegin_def)
  have mod3: "((of_nat (Suc (m + i)) :: u32) mod denomValue = 0) = (Suc (m + i) mod 3 = 0)"
    using assms False by (intro of_nat_u32_mod3) simp
  consider "i < 4" | "i = 4" | "5 \<le> i" "i < 14" | "i = 14" using False by linarith
  then show ?thesis
  proof cases
    case 1
    then show ?thesis
      using assms idle_before_sampling [OF c, of ?l 0] of_nat_u32_less [of "Suc (m + i)" "m + 5"]
      unfolding next_c start mod3
      by (simp add: marked_def marked_answer_def)
  next
    case 2
    then show ?thesis
      using assms idle_sampling_starts [OF c, of ?l 0]
      unfolding next_c start mod3
      by (simp add: marked_def marked_answer_def ac_simps)
  next
    case 3
    then have k: "i - 5 < 9" and l: "?l + samplingBegin < ?c + 1"
      using assms of_nat_u32_less [of "m + 5" "Suc (m + i)"] unfolding next_c start by simp_all
    have "(i - 5 = 2 \<or> i - 5 = 5 \<or> i - 5 = 8) = marked_answer m (Suc i)"
      using 3 by (auto simp: marked_answer_def)
    then show ?thesis
      using sampling_window [OF c l k] 3 unfolding next_c
      by (simp add: marked_def add.commute Suc_diff_le)
  next
    case 4
    then show ?thesis
      using assms idle_sampling_ends [OF c, of ?l] of_nat_u32_less [of "m + 5" "Suc (m + i)"]
      unfolding next_c start
      by (auto simp: marked_def marked_answer_def ac_simps)
  qed
qed

lemma boot_calls: "idle_calls n idle_init = (map boot_answer [1..<Suc n], boot n)"
  using idle_calls_run [of boot boot_answer n 0] boot_step
  by (simp add: boot_def at_def idle_init_def del: upt_Suc)

lemma marked_calls:
  assumes "100 \<le> unat (execJSCount s)" and "unat (execJSCount s) + 15 < 0x7FFFFFFF"
  shows "idle_calls n (markupStateInternally s) =
    (map (marked_answer (unat (execJSCount s))) [1..<Suc n], marked (unat (execJSCount s)) n)"
proof -
  let ?m = "unat (execJSCount s)"
  have "execJSCount s + samplingBegin \<noteq> MAX_EXECJS_COUNT"
    using assms of_nat_u32_eq [of "?m + 5" "0x7FFFFFFF"] by (simp add: idle_consts)
  then have "markupStateInternally s = marked ?m 0"
    by (simp add: markupStateInternally_def marked_def at_def)
  then show ?thesis
    using idle_calls_run [of "marked ?m" "marked_answer ?m" n 0] marked_step [OF assms]
    by (simp del: upt_Suc)
qed

section \<open>Properties\<close>

text \<open>
  C6. From the loading of the library on, exactly the calls 103, 106 and 109 collect garbage, however
  many calls are made: the warm-up lasts 100 calls, sampling starts at once, and after ten samples
  the flag goes off for good.
\<close>

theorem idle_schedule_after_load:
  "fst (idle_calls n idle_init) = map (\<lambda>i. i = 103 \<or> i = 106 \<or> i = 109) [1..<Suc n]"
  unfolding boot_calls by (simp add: boot_answer_def del: upt_Suc)

text \<open>
  After \<open>markupState\<close> at a count \<open>m\<close> past the warm-up, the first five calls collect when the count
  is a multiple of three, the ten sampled calls collect at the third, sixth and ninth, and no later
  call does.
\<close>

theorem idle_schedule_after_markup:
  assumes "100 \<le> unat (execJSCount s)" and "unat (execJSCount s) + 15 < 0x7FFFFFFF"
  shows "fst (idle_calls n (markupStateInternally s)) =
    map (\<lambda>i. if i \<le> 5 then (unat (execJSCount s) + i) mod 3 = 0 else i = 8 \<or> i = 11 \<or> i = 14)
      [1..<Suc n]"
  unfolding marked_calls [OF assms] by (simp add: marked_answer_def del: upt_Suc)

theorem idle_schedule_after_markup_witness:
  "fst (idle_calls 4 (markupStateInternally (idle_init\<lparr>execJSCount := 100\<rparr>))) =
     [False, True, False, False]"
  using idle_schedule_after_markup [of "idle_init\<lparr>execJSCount := 100\<rparr>" 4]
  by (simp add: upt_rec idle_init_def)

text \<open>
  The assignment \<open>lastExecJSCount = execJSCount\<close> inside \<open>needIdleNotification\<close> is dead code: in every
  state the call leaves \<open>lastExecJSCount\<close> as it was, since the count has passed 100 when it is compared
  with 100. Only \<open>markupState\<close> ever moves the start of sampling.
\<close>

theorem idle_base_never_moves:
  "lastExecJSCount (snd (needIdleNotification s)) = lastExecJSCount s"
proof -
  have "c + 1 \<noteq> MIN_EXECJS_COUNT" if "\<not> c < MIN_EXECJS_COUNT" for c
    using above_min_neq that by simp
  then show ?thesis
    by (auto simp: needIdleNotification_def Let_def)
qed

end
