(* ===== verification/JniEnv.thy ===== *)
theory JniEnv
  imports JsValue
begin

text \<open>
  The Java side as the bridge sees it: the JNI functions of \<open>JNIEnv\<close> that \<open>weexion.cpp\<close> and \<open>Trace.cpp\<close>
  call. Java itself is an argument, the record \<open>host\<close>: what classes and methods exist, what a call
  answers given all calls made so far, and how the virtual machine converts strings. The state is the
  table of local references, the global references, the character buffers that are pinned, and the
  log of the calls made into Java.

  A reference is a number, \<open>0\<close> for NULL. A JNI function applied to NULL or to an object of the wrong kind
  aborts the virtual machine: the operation has no result.
\<close>

type_synonym jref = nat

datatype jobj =
  JString "u16 list" | JBytes "u8 list" | JArray "jobj option list" | JClass string | JDouble dbl
  | JWXJSObject int "jobj option" | JInstance nat

text \<open>A call into Java: the method's name and signature, the receiver and the arguments.\<close>

datatype jcall = JCall string string "jobj option" "jobj option list"

type_synonym jmethodID = "string \<times> string"

record host =
  class_of :: "jobj \<Rightarrow> string"
  has_class :: "string \<Rightarrow> bool"
  has_method :: "jobj \<Rightarrow> jmethodID \<Rightarrow> bool"
  int_result :: "jcall list \<Rightarrow> int"
  object_result :: "jcall list \<Rightarrow> jobj option"
  boolean_result :: "jcall list \<Rightarrow> bool"
  register_ok :: bool
  get_env_ok :: bool
  from_mutf8 :: "u8 list \<Rightarrow> u16 list"
  to_mutf8 :: "u16 list \<Rightarrow> u8 list"

datatype pin = PinChars jref | PinUTF jref

record jni =
  locals :: "(jref \<times> jobj) list"
  globals :: "(jref \<times> jobj) list"
  next_ref :: jref
  pinned :: "pin list"
  calls :: "jcall list"

section \<open>References\<close>

definition new_local :: "jobj option \<Rightarrow> jni \<Rightarrow> jref \<times> jni" where
  "new_local obj j =
     (case obj of
        None \<Rightarrow> (0, j)
      | Some x \<Rightarrow> (next_ref j, j\<lparr>locals := (next_ref j, x) # locals j, next_ref := Suc (next_ref j)\<rparr>))"

definition deref :: "jref \<Rightarrow> jni \<Rightarrow> jobj option" where
  "deref r j = (if r = 0 then None else map_of (locals j @ globals j) r)"

definition DeleteLocalRef :: "jref \<Rightarrow> jni \<Rightarrow> jni" where
  "DeleteLocalRef r j = j\<lparr>locals := filter (\<lambda>(r', x). r' \<noteq> r) (locals j)\<rparr>"

definition NewGlobalRef :: "jref \<Rightarrow> jni \<Rightarrow> jref \<times> jni" where
  "NewGlobalRef r j =
     (case deref r j of
        None \<Rightarrow> (0, j)
      | Some x \<Rightarrow> (next_ref j, j\<lparr>globals := (next_ref j, x) # globals j, next_ref := Suc (next_ref j)\<rparr>))"

definition DeleteGlobalRef :: "jref \<Rightarrow> jni \<Rightarrow> jni" where
  "DeleteGlobalRef r j = j\<lparr>globals := filter (\<lambda>(r', x). r' \<noteq> r) (globals j)\<rparr>"

section \<open>Strings and arrays\<close>

text \<open>\<open>NewStringUTF\<close> reads a NUL-terminated block of modified UTF-8.\<close>

definition NewStringUTF :: "host \<Rightarrow> u8 list \<Rightarrow> jni \<Rightarrow> jref \<times> jni" where
  "NewStringUTF h block j = new_local (Some (JString (from_mutf8 h (c_string block)))) j"

definition GetStringChars :: "jref \<Rightarrow> jni \<Rightarrow> (u16 list \<times> jni) option" where
  "GetStringChars r j =
     (case deref r j of
        Some (JString s) \<Rightarrow> Some (s, j\<lparr>pinned := PinChars r # pinned j\<rparr>)
      | _ \<Rightarrow> None)"

definition GetStringLength :: "jref \<Rightarrow> jni \<Rightarrow> nat option" where
  "GetStringLength r j = (case deref r j of Some (JString s) \<Rightarrow> Some (length s) | _ \<Rightarrow> None)"

definition ReleaseStringChars :: "jref \<Rightarrow> jni \<Rightarrow> jni" where
  "ReleaseStringChars r j = j\<lparr>pinned := remove1 (PinChars r) (pinned j)\<rparr>"

definition GetStringUTFChars :: "host \<Rightarrow> jref \<Rightarrow> jni \<Rightarrow> (u8 list \<times> jni) option" where
  "GetStringUTFChars h r j =
     (case deref r j of
        Some (JString s) \<Rightarrow> Some (to_mutf8 h s, j\<lparr>pinned := PinUTF r # pinned j\<rparr>)
      | _ \<Rightarrow> None)"

definition ReleaseStringUTFChars :: "jref \<Rightarrow> jni \<Rightarrow> jni" where
  "ReleaseStringUTFChars r j = j\<lparr>pinned := remove1 (PinUTF r) (pinned j)\<rparr>"

definition NewByteArray :: "nat \<Rightarrow> jni \<Rightarrow> jref \<times> jni" where
  "NewByteArray n j = new_local (Some (JBytes (replicate n 0))) j"

definition set_local :: "jref \<Rightarrow> jobj \<Rightarrow> (jref \<times> jobj) list \<Rightarrow> (jref \<times> jobj) list" where
  "set_local r x tab = map (\<lambda>(r', y). (r', if r' = r then x else y)) tab"

definition SetByteArrayRegion :: "jref \<Rightarrow> u8 list \<Rightarrow> jni \<Rightarrow> jni option" where
  "SetByteArrayRegion r bytes j =
     (case deref r j of
        Some (JBytes old) \<Rightarrow>
          (if length bytes \<le> length old
           then Some (j\<lparr>locals := set_local r (JBytes (overwrite bytes old)) (locals j)\<rparr>) else None)
      | _ \<Rightarrow> None)"

definition GetArrayLength :: "jref \<Rightarrow> jni \<Rightarrow> nat option" where
  "GetArrayLength r j = (case deref r j of Some (JArray xs) \<Rightarrow> Some (length xs) | _ \<Rightarrow> None)"

definition GetObjectArrayElement :: "jref \<Rightarrow> nat \<Rightarrow> jni \<Rightarrow> (jref \<times> jni) option" where
  "GetObjectArrayElement r i j =
     (case deref r j of
        Some (JArray xs) \<Rightarrow> (if i < length xs then Some (new_local (xs ! i) j) else None)
      | _ \<Rightarrow> None)"

section \<open>Classes, fields and methods\<close>

definition FindClass :: "host \<Rightarrow> string \<Rightarrow> jni \<Rightarrow> jref \<times> jni" where
  "FindClass h name j = new_local (if has_class h name then Some (JClass name) else None) j"

definition GetObjectClass :: "host \<Rightarrow> jref \<Rightarrow> jni \<Rightarrow> (jref \<times> jni) option" where
  "GetObjectClass h r j =
     (case deref r j of Some x \<Rightarrow> Some (new_local (Some (JClass (class_of h x))) j) | None \<Rightarrow> None)"

text \<open>\<open>GetMethodID\<close> and \<open>GetStaticMethodID\<close>: the answer is NULL when the class has no such method.\<close>

definition GetMethodID :: "host \<Rightarrow> jref \<Rightarrow> string \<Rightarrow> string \<Rightarrow> jni \<Rightarrow> jmethodID option option" where
  "GetMethodID h clazz name sig j =
     (case deref clazz j of
        Some c \<Rightarrow> Some (if has_method h c (name, sig) then Some (name, sig) else None)
      | None \<Rightarrow> None)"

text \<open>The fields \<open>type\<close> and \<open>data\<close> of \<open>WXJSObject\<close>.\<close>

definition GetIntField_type :: "jref \<Rightarrow> jni \<Rightarrow> int option" where
  "GetIntField_type r j = (case deref r j of Some (JWXJSObject t d) \<Rightarrow> Some t | _ \<Rightarrow> None)"

definition GetObjectField_data :: "jref \<Rightarrow> jni \<Rightarrow> (jref \<times> jni) option" where
  "GetObjectField_data r j =
     (case deref r j of Some (JWXJSObject t d) \<Rightarrow> Some (new_local d j) | _ \<Rightarrow> None)"

text \<open>
  A call: the method ID must not be NULL and the receiver not NULL. The arguments are passed as the
  objects they refer to; the call is logged, and the host answers on the log.
\<close>

definition invoke :: "jmethodID option \<Rightarrow> jref \<Rightarrow> jref list \<Rightarrow> jni \<Rightarrow> jni option" where
  "invoke mid this args j =
     (case mid of
        None \<Rightarrow> None
      | Some (name, sig) \<Rightarrow>
          (if deref this j = None then None
           else Some (j\<lparr>calls := calls j @ [JCall name sig (deref this j) (map (\<lambda>r. deref r j) args)]\<rparr>)))"

definition CallIntMethod :: "host \<Rightarrow> jref \<Rightarrow> jmethodID option \<Rightarrow> jref list \<Rightarrow> jni \<Rightarrow> (int \<times> jni) option" where
  "CallIntMethod h this mid args j =
     do { j \<leftarrow> invoke mid this args j; Some (int_result h (calls j), j) }"

definition CallVoidMethod :: "jref \<Rightarrow> jmethodID option \<Rightarrow> jref list \<Rightarrow> jni \<Rightarrow> jni option" where
  "CallVoidMethod this mid args j = invoke mid this args j"

definition CallObjectMethod :: "host \<Rightarrow> jref \<Rightarrow> jmethodID option \<Rightarrow> jref list \<Rightarrow> jni \<Rightarrow> (jref \<times> jni) option" where
  "CallObjectMethod h this mid args j =
     do { j \<leftarrow> invoke mid this args j; Some (new_local (object_result h (calls j)) j) }"

definition CallBooleanMethod :: "host \<Rightarrow> jref \<Rightarrow> jmethodID option \<Rightarrow> jref list \<Rightarrow> jni \<Rightarrow> (bool \<times> jni) option" where
  "CallBooleanMethod h this mid args j =
     do { j \<leftarrow> invoke mid this args j; Some (boolean_result h (calls j), j) }"

definition CallDoubleMethod :: "jref \<Rightarrow> jmethodID option \<Rightarrow> jni \<Rightarrow> (dbl \<times> jni) option" where
  "CallDoubleMethod this mid j =
     do { j \<leftarrow> invoke mid this [] j;
          case deref this j of Some (JDouble d) \<Rightarrow> Some (d, j) | _ \<Rightarrow> None }"

section \<open>Well-formed tables\<close>

text \<open>References are handed out once: every live one is positive and below the next.\<close>

definition live :: "jni \<Rightarrow> jref set" where
  "live j = fst ` set (locals j)"

definition jni_wf :: "jni \<Rightarrow> bool" where
  "jni_wf j \<longleftrightarrow> 0 < next_ref j \<and>
     (\<forall>r \<in> live j \<union> fst ` set (globals j). 0 < r \<and> r < next_ref j) \<and>
     live j \<inter> fst ` set (globals j) = {}"

lemma jni_wf_next: "jni_wf j \<Longrightarrow> 0 < next_ref j"
  by (simp add: jni_wf_def)

lemma next_not_live: "jni_wf j \<Longrightarrow> next_ref j \<notin> live j"
  by (auto simp: jni_wf_def)

lemma live_new_local:
  "live (snd (new_local obj j)) = (if obj = None then live j else insert (next_ref j) (live j))"
  by (auto simp: live_def new_local_def split: option.split)

lemma jni_wf_new_local: "jni_wf j \<Longrightarrow> jni_wf (snd (new_local obj j))"
  by (cases obj) (auto simp: jni_wf_def new_local_def live_def less_Suc_eq)

lemma live_DeleteLocalRef [simp]: "live (DeleteLocalRef r j) = live j - {r}"
  by (auto simp: live_def DeleteLocalRef_def image_iff)

lemma jni_wf_delete: "jni_wf j \<Longrightarrow> jni_wf (DeleteLocalRef r j)"
  unfolding jni_wf_def live_DeleteLocalRef by (auto simp: DeleteLocalRef_def)

end
