(* ===== verification/Atrace.thy ===== *)
theory Atrace
  imports JniEnv
begin

text \<open>
  The systrace marker of \<open>Trace.cpp\<close> and \<open>Trace.h\<close>: formatting and writing an event, opening and
  closing the marker file, and the scope object that pairs a begin with an end.

  \<open>written\<close> lists the arguments of the \<open>write\<close> calls on \<open>g_atrace_fd\<close>. The operating system is the
  record \<open>os\<close>: the process id and what \<open>open\<close> returns.
\<close>

datatype Phase = TRACE_EVENT_PHASE_BEGIN | TRACE_EVENT_PHASE_END | TRACE_EVENT_PHASE_INSTANT

text \<open>The members are C strings, without their NUL; \<open>te_key\<close> and \<open>te_value\<close> may be null.\<close>

record TraceEvent =
  te_phase :: Phase
  te_category_group :: "u8 list"
  te_name :: "u8 list"
  te_key :: "u8 list option"
  te_value :: "u8 list option"

record os =
  getpid :: int
  open_marker :: int

record atrace =
  g_atrace_fd :: int
  jTraceClass :: jref
  written :: "u8 list list"

definition atrace_init :: atrace where
  "atrace_init = \<lparr>g_atrace_fd = -1, jTraceClass = 0, written = []\<rparr>"

section \<open>Formatting\<close>

text \<open>\<open>vsnprintf(buf, 256, ...)\<close>: the formatted bytes, cut after 255; \<open>std::string(buf)\<close> reads to the NUL.\<close>

definition StringPrintf :: "u8 list \<Rightarrow> u8 list" where
  "StringPrintf formatted = c_string (take 255 formatted @ [0])"

text \<open>\<open>%s\<close> of a null pointer prints \<open>(null)\<close> in bionic.\<close>

definition percent_s :: "u8 list option \<Rightarrow> u8 list" where
  "percent_s s = (case s of Some bs \<Rightarrow> c_string bs | None \<Rightarrow> u8s ''(null)'')"

definition WriteEvent ::
  "os \<Rightarrow> char \<Rightarrow> u8 list \<Rightarrow> u8 list \<Rightarrow> u8 list option \<Rightarrow> u8 list option \<Rightarrow> atrace \<Rightarrow> atrace" where
  "WriteEvent sys phase category_group name key val st =
     (let out = StringPrintf ([ascii_u8 phase] @ u8s ''|'' @ int_to_u8s (getpid sys) @ u8s ''|'' @ percent_s (Some name));
          out = out @ u8s ''|'';
          out = (case key of
                   Some k \<Rightarrow> out @ StringPrintf (percent_s (Some k) @ u8s ''='' @ percent_s val)
                 | None \<Rightarrow> out);
          out = out @ u8s ''|'';
          out = out @ c_string category_group
      in st\<lparr>written := written st @ [out]\<rparr>)"

definition SendToATrace :: "os \<Rightarrow> TraceEvent \<Rightarrow> atrace \<Rightarrow> atrace" where
  "SendToATrace sys te st =
     (if g_atrace_fd st = -1 then st
      else case te_phase te of
          TRACE_EVENT_PHASE_BEGIN \<Rightarrow>
            WriteEvent sys (CHR ''B'') (te_category_group te) (te_name te) (te_key te) (te_value te) st
        | TRACE_EVENT_PHASE_END \<Rightarrow>
            WriteEvent sys (CHR ''E'') (te_category_group te) (te_name te) None None st
        | TRACE_EVENT_PHASE_INSTANT \<Rightarrow>
            (let st = WriteEvent sys (CHR ''B'') (te_category_group te) (te_name te) None None st
             in st\<lparr>written := written st @ [u8s ''E'']\<rparr>))"

text \<open>The constructor of \<open>TraceEvent\<close>, \<open>SetArgs\<close>, and the macros.\<close>

definition new_TraceEvent :: "u8 list \<Rightarrow> u8 list \<Rightarrow> Phase \<Rightarrow> TraceEvent" where
  "new_TraceEvent category_group name phase =
     \<lparr>te_phase = phase, te_category_group = category_group, te_name = name, te_key = None, te_value = None\<rparr>"

definition SetArgs :: "u8 list option \<Rightarrow> u8 list option \<Rightarrow> TraceEvent \<Rightarrow> TraceEvent" where
  "SetArgs key val te = te\<lparr>te_key := key, te_value := val\<rparr>"

definition TRACE_EVENT_BEGIN0 :: "os \<Rightarrow> u8 list \<Rightarrow> u8 list \<Rightarrow> atrace \<Rightarrow> atrace" where
  "TRACE_EVENT_BEGIN0 sys category_group name =
     SendToATrace sys (new_TraceEvent category_group name TRACE_EVENT_PHASE_BEGIN)"

definition TRACE_EVENT_END0 :: "os \<Rightarrow> u8 list \<Rightarrow> u8 list \<Rightarrow> atrace \<Rightarrow> atrace" where
  "TRACE_EVENT_END0 sys category_group name =
     SendToATrace sys (new_TraceEvent category_group name TRACE_EVENT_PHASE_END)"

definition TRACE_EVENT_BEGIN1 ::
  "os \<Rightarrow> u8 list \<Rightarrow> u8 list \<Rightarrow> u8 list option \<Rightarrow> u8 list option \<Rightarrow> atrace \<Rightarrow> atrace" where
  "TRACE_EVENT_BEGIN1 sys category_group name key val =
     SendToATrace sys (SetArgs key val (new_TraceEvent category_group name TRACE_EVENT_PHASE_BEGIN))"

text \<open>\<open>TraceScope\<close>: its constructor and destructor.\<close>

definition TraceScope ::
  "os \<Rightarrow> u8 list \<Rightarrow> u8 list \<Rightarrow> u8 list option \<Rightarrow> u8 list option \<Rightarrow> atrace \<Rightarrow> atrace" where
  "TraceScope sys category_group name key val = TRACE_EVENT_BEGIN1 sys category_group name key val"

definition end_TraceScope :: "os \<Rightarrow> u8 list \<Rightarrow> u8 list \<Rightarrow> atrace \<Rightarrow> atrace" where
  "end_TraceScope sys category_group name = TRACE_EVENT_END0 sys category_group name"

section \<open>Opening and closing the marker\<close>

definition isTraceEnabled :: "host \<Rightarrow> atrace \<Rightarrow> jni \<Rightarrow> (bool \<times> atrace \<times> jni) option" where
  "isTraceEnabled h st j =
     do { let (r, j) = FindClass h ''com/taobao/weex/utils/Trace'' j;
          mid \<leftarrow> GetMethodID h r ''getTraceEnabled'' ''()Z'' j;
          (enabled, j) \<leftarrow> CallBooleanMethod h r mid [] j;
          Some (enabled, st\<lparr>jTraceClass := r\<rparr>, j) }"

definition StartATrace :: "host \<Rightarrow> os \<Rightarrow> atrace \<Rightarrow> jni \<Rightarrow> (atrace \<times> jni) option" where
  "StartATrace h sys st j =
     do { (enabled, st, j) \<leftarrow> isTraceEnabled h st j;
          Some (if \<not> enabled then (st, j)
                else if g_atrace_fd st \<noteq> -1 then (st, j)
                else (st\<lparr>g_atrace_fd := open_marker sys\<rparr>, j)) }"

definition StopATrace :: "atrace \<Rightarrow> jni \<Rightarrow> atrace \<times> jni" where
  "StopATrace st j =
     (let j = (if jTraceClass st \<noteq> 0 then DeleteLocalRef (jTraceClass st) j else j) in
      if g_atrace_fd st = -1 then (st, j) else (st\<lparr>g_atrace_fd := -1\<rparr>, j))"

section \<open>Balanced traces\<close>

text \<open>
  A well-nested log: nothing, a begin and the end of the same name and category around a well-nested
  log, or one after another. \<open>begin_line\<close> and \<open>end_line\<close> are what \<open>TraceScope\<close> writes.
\<close>

definition event_line :: "os \<Rightarrow> char \<Rightarrow> u8 list \<Rightarrow> u8 list \<Rightarrow> u8 list option \<Rightarrow> u8 list option \<Rightarrow> u8 list" where
  "event_line sys phase cat name key val =
     hd (written (WriteEvent sys phase cat name key val \<lparr>g_atrace_fd = 0, jTraceClass = 0, written = []\<rparr>))"

inductive nested :: "os \<Rightarrow> u8 list list \<Rightarrow> bool" for sys :: os where
  nested_nil: "nested sys []"
| nested_scope: "nested sys xs \<Longrightarrow>
     nested sys ([event_line sys (CHR ''B'') cat name key val] @ xs @ [event_line sys (CHR ''E'') cat name None None])"
| nested_append: "nested sys xs \<Longrightarrow> nested sys ys \<Longrightarrow> nested sys (xs @ ys)"

lemma WriteEvent_line:
  "WriteEvent sys phase cat name key val st = st\<lparr>written := written st @ [event_line sys phase cat name key val]\<rparr>"
  by (cases key) (simp_all add: WriteEvent_def event_line_def Let_def)

text \<open>What a piece of code may do to the trace: the descriptor stays, a well-nested log is appended.\<close>

definition trace_balanced :: "os \<Rightarrow> atrace \<Rightarrow> atrace \<Rightarrow> bool" where
  "trace_balanced sys st st' \<longleftrightarrow> g_atrace_fd st' = g_atrace_fd st \<and>
     (\<exists>xs. written st' = written st @ xs \<and> nested sys xs \<and> (g_atrace_fd st = -1 \<longrightarrow> xs = []))"

lemma trace_balanced_refl [simp]: "trace_balanced sys st st"
  using nested_nil by (auto simp: trace_balanced_def)

lemma trace_balanced_trans:
  assumes "trace_balanced sys st st1" and "trace_balanced sys st1 st2"
  shows "trace_balanced sys st st2"
proof -
  obtain xs where xs: "written st1 = written st @ xs" "nested sys xs" "g_atrace_fd st = -1 \<longrightarrow> xs = []"
    using assms(1) unfolding trace_balanced_def by blast
  obtain ys where ys: "written st2 = written st1 @ ys" "nested sys ys" "g_atrace_fd st1 = -1 \<longrightarrow> ys = []"
    using assms(2) unfolding trace_balanced_def by blast
  have "written st2 = written st @ (xs @ ys)" "nested sys (xs @ ys)"
    using xs ys by (auto intro: nested_append)
  then show ?thesis
    using assms xs(3) ys(3) unfolding trace_balanced_def by auto
qed

text \<open>A scope around balanced code is balanced.\<close>

lemma trace_balanced_scope:
  assumes "trace_balanced sys (TraceScope sys cat name key val st) st1"
  shows "trace_balanced sys st (end_TraceScope sys cat name st1)"
proof (cases "g_atrace_fd st = -1")
  case True
  then have "TraceScope sys cat name key val st = st"
    by (simp add: TraceScope_def TRACE_EVENT_BEGIN1_def SendToATrace_def)
  moreover have "g_atrace_fd st1 = -1" using assms True calculation by (simp add: trace_balanced_def)
  ultimately show ?thesis
    using assms by (simp add: end_TraceScope_def TRACE_EVENT_END0_def SendToATrace_def)
next
  case False
  let ?b = "event_line sys (CHR ''B'') cat name key val"
  let ?e = "event_line sys (CHR ''E'') cat name None None"
  have start: "TraceScope sys cat name key val st = st\<lparr>written := written st @ [?b]\<rparr>"
    using False by (simp add: TraceScope_def TRACE_EVENT_BEGIN1_def SendToATrace_def SetArgs_def
        new_TraceEvent_def WriteEvent_line)
  obtain xs where xs: "written st1 = written st @ [?b] @ xs" "nested sys xs" and fd: "g_atrace_fd st1 = g_atrace_fd st"
    using assms unfolding start trace_balanced_def by auto
  have "written (end_TraceScope sys cat name st1) = written st @ ([?b] @ xs @ [?e])"
    "g_atrace_fd (end_TraceScope sys cat name st1) = g_atrace_fd st"
    using False xs fd by (simp_all add: end_TraceScope_def TRACE_EVENT_END0_def SendToATrace_def
        new_TraceEvent_def WriteEvent_line)
  then show ?thesis
    using nested_scope [OF xs(2)] False unfolding trace_balanced_def by blast
qed

end
