(* ===== verification/World.thy ===== *)
theory World
  imports JsonParser CharacterEncoding IdleNotification Atrace
begin

text \<open>
  The state the bridge of \<open>weexion.cpp\<close> works on, JavaScript programs as seen by the bridge, and the
  small helpers of the bridge: the scoped string classes, the engine's exception state, the cached
  method IDs, the garbage collector.

  \<^item> \<open>world\<close> is everything that changes: the JNI tables, the trace, the idle counters, the file-level
    statics of \<open>weexion.cpp\<close>, the engine's heap and pending exception, the \<open>ShellContext\<close>.
  \<^item> \<open>platform\<close> is everything that does not: Java (\<open>host\<close>), the operating system, the engine.
  \<^item> An operation maps a world to an option: \<open>None\<close> when the process ends or its behaviour is undefined.
  \<^item> A script is the tree of what it does to the world: \<open>js_prog\<close>. The interpreter is not modelled, so
    which tree a source text, a function call or a job gives is a field of \<open>js_engine\<close>.
\<close>

section \<open>JavaScript programs\<close>

datatype native =
  NCallNative | NCallNativeModule | NCallNativeComponent | NCallAddElement | NSetTimeoutNative
  | NNativeLog | NNotifyTrimMemory | NMarkupState | NGCAndSweep

text \<open>
  A program returns or throws; before that it calls natives (with the callee, whose value a native
  returns unless it sets another), catches an exception of its own, reads and updates the heap,
  enqueues promise jobs and starts asynchronous tasks.
\<close>

datatype js_prog =
  Ret jsval
  | Throw jsval
  | Caught js_prog
  | Native native jsval "jsval list" "jsval \<Rightarrow> js_prog"
  | Read "jsheap \<Rightarrow> js_prog"
  | Update "jsheap \<Rightarrow> jsheap" js_prog
  | Enqueue nat js_prog
  | StartAsync nat js_prog

text \<open>
  What the engine does with source text (compilation included), with a call of a function value, with
  a job and with the \<open>finish\<close> of a task; the exception values it makes; its string and number code.
\<close>

record js_engine = engine_fns +
  eval_script :: "u16 list \<Rightarrow> js_prog"
  call_function :: "jsval \<Rightarrow> jsval \<Rightarrow> jsval list \<Rightarrow> js_prog"
  run_job :: "nat \<Rightarrow> js_prog"
  finish_task :: "nat \<Rightarrow> js_prog"
  json_exception :: "json_error \<Rightarrow> jsval"
  syntax_exception :: "string \<Rightarrow> nat \<Rightarrow> nat \<Rightarrow> jsval"
  type_error :: jsval

text \<open>Which steps of the initialisation succeed.\<close>

record boot =
  JS_Init_ok :: bool
  new_context_ok :: bool
  self_hosted_ok :: bool
  shell_alloc_ok :: bool
  new_global_ok :: bool
  standard_classes_ok :: bool
  immutable_proto_ok :: bool
  define_functions_ok :: bool

record platform =
  jhost :: host
  sys :: os
  engine :: js_engine
  boot :: boot
  alloc_mem :: malloc
  recursion_budget :: nat
  next_finished :: "nat list \<Rightarrow> nat"

section \<open>The state\<close>

datatype method_var =
  jCallAddElementMethodId | jDoubleValueMethodId | jSetTimeoutNativeMethodId | jCallNativeMethodId
  | jCallNativeModuleMethodId | jCallNativeComponentMethodId | jLogMethodId

text \<open>The engine's exception state, part of \<open>JSContext\<close>.\<close>

record exn =
  throwing :: bool
  unwrappedException :: jsval
  overRecursed :: bool
  propagatingForcedReturn :: bool

text \<open>
  \<open>ShellContext\<close>. A slot of the job queue that has been run is null. \<open>running\<close> holds the tasks the helper
  threads work on, which the code counts in \<open>outstanding\<close>.
\<close>

record ShellContext =
  jobQueue :: "nat option list"
  outstanding :: nat
  running :: "nat list"
  finished :: "nat list"
  drainingJobQueue :: bool

definition new_ShellContext :: ShellContext where
  "new_ShellContext = \<lparr>jobQueue = [], outstanding = 0, running = [], finished = [], drainingJobQueue = False\<rparr>"

record world =
  w_jni :: jni
  w_trace :: atrace
  w_idle :: idle
  method_ids :: "method_var \<Rightarrow> jmethodID option"
  jBridgeClazz :: jref
  jWXJSObject :: jref
  jWXLogUtils :: jref
  jThis :: jref
  sVm :: bool
  globalContext :: bool
  globalObject :: "nat option"
  context_private :: "ShellContext option"
  w_exn :: exn
  w_heap :: jsheap
  gc_runs :: nat

section \<open>JNI operations on the world\<close>

definition with_jni :: "(jni \<Rightarrow> 'a \<times> jni) \<Rightarrow> world \<Rightarrow> 'a \<times> world" where
  "with_jni f w = (let (x, j) = f (w_jni w) in (x, w\<lparr>w_jni := j\<rparr>))"

definition try_jni :: "(jni \<Rightarrow> ('a \<times> jni) option) \<Rightarrow> world \<Rightarrow> ('a \<times> world) option" where
  "try_jni f w = (case f (w_jni w) of None \<Rightarrow> None | Some (x, j) \<Rightarrow> Some (x, w\<lparr>w_jni := j\<rparr>))"

definition upd_jni :: "(jni \<Rightarrow> jni) \<Rightarrow> world \<Rightarrow> world" where
  "upd_jni f w = w\<lparr>w_jni := f (w_jni w)\<rparr>"

definition try_upd_jni :: "(jni \<Rightarrow> jni option) \<Rightarrow> world \<Rightarrow> world option" where
  "try_upd_jni f w = (case f (w_jni w) of None \<Rightarrow> None | Some j \<Rightarrow> Some (w\<lparr>w_jni := j\<rparr>))"

text \<open>\<open>getJNIEnv\<close>: a null environment is dereferenced by the next call.\<close>

definition getJNIEnv :: "platform \<Rightarrow> world \<Rightarrow> unit option" where
  "getJNIEnv pf w = (if sVm w \<and> get_env_ok (jhost pf) then Some () else None)"

text \<open>\<open>if (id == NULL) id = env->GetMethodID(clazz, name, signature);\<close>\<close>

definition cache_method ::
  "platform \<Rightarrow> method_var \<Rightarrow> jref \<Rightarrow> string \<Rightarrow> string \<Rightarrow> world \<Rightarrow> world option" where
  "cache_method pf var clazz name sig w =
     (if method_ids w var \<noteq> None then Some w
      else do { mid \<leftarrow> GetMethodID (jhost pf) clazz name sig (w_jni w);
                Some (w\<lparr>method_ids := (method_ids w)(var := mid)\<rparr>) })"

text \<open>The method each of the cached IDs stands for.\<close>

fun method_of :: "method_var \<Rightarrow> jmethodID" where
  "method_of jCallAddElementMethodId =
     (''callAddElement'', ''(Ljava/lang/String;Ljava/lang/String;[BLjava/lang/String;Ljava/lang/String;)I'')"
| "method_of jDoubleValueMethodId = (''doubleValue'', ''()D'')"
| "method_of jSetTimeoutNativeMethodId = (''setTimeoutNative'', ''(Ljava/lang/String;Ljava/lang/String;)V'')"
| "method_of jCallNativeMethodId = (''callNative'', ''(Ljava/lang/String;[BLjava/lang/String;)I'')"
| "method_of jCallNativeModuleMethodId =
     (''callNativeModule'', ''(Ljava/lang/String;Ljava/lang/String;Ljava/lang/String;[B[B)Ljava/lang/Object;'')"
| "method_of jCallNativeComponentMethodId =
     (''callNativeComponent'', ''(Ljava/lang/String;Ljava/lang/String;Ljava/lang/String;[B[B)V'')"
| "method_of jLogMethodId = (''d'', ''(Ljava/lang/String;Ljava/lang/String;)V'')"

section \<open>Scoped strings\<close>

text \<open>\<open>ScopedJStringUTF8\<close> and \<open>ScopedJString\<close>: the pointer is null until \<open>getChars\<close> pins the characters.\<close>

record ScopedJStringUTF8 =
  utf_jstring :: jref
  utf_chars :: "u8 list option"

definition new_ScopedJStringUTF8 :: "jref \<Rightarrow> ScopedJStringUTF8" where
  "new_ScopedJStringUTF8 r = \<lparr>utf_jstring = r, utf_chars = None\<rparr>"

definition ScopedJStringUTF8_getChars ::
  "platform \<Rightarrow> ScopedJStringUTF8 \<Rightarrow> world \<Rightarrow> (u8 list \<times> ScopedJStringUTF8 \<times> world) option" where
  "ScopedJStringUTF8_getChars pf s w =
     (case utf_chars s of
        Some chars \<Rightarrow> Some (chars, s, w)
      | None \<Rightarrow>
          do { (chars, w) \<leftarrow> try_jni (GetStringUTFChars (jhost pf) (utf_jstring s)) w;
               Some (chars, s\<lparr>utf_chars := Some chars\<rparr>, w) })"

definition delete_ScopedJStringUTF8 :: "ScopedJStringUTF8 \<Rightarrow> world \<Rightarrow> world" where
  "delete_ScopedJStringUTF8 s w =
     (if utf_chars s \<noteq> None then upd_jni (ReleaseStringUTFChars (utf_jstring s)) w else w)"

record ScopedJString =
  str_jstring :: jref
  str_chars :: "u16 list option"
  str_len :: nat

definition new_ScopedJString :: "jref \<Rightarrow> ScopedJString" where
  "new_ScopedJString r = \<lparr>str_jstring = r, str_chars = None, str_len = 0\<rparr>"

definition ScopedJString_getChars ::
  "ScopedJString \<Rightarrow> world \<Rightarrow> (u16 list \<times> ScopedJString \<times> world) option" where
  "ScopedJString_getChars s w =
     (case str_chars s of
        Some chars \<Rightarrow> Some (chars, s, w)
      | None \<Rightarrow>
          do { (chars, w) \<leftarrow> try_jni (GetStringChars (str_jstring s)) w;
               len \<leftarrow> GetStringLength (str_jstring s) (w_jni w);
               Some (chars, s\<lparr>str_chars := Some chars, str_len := len\<rparr>, w) })"

definition ScopedJString_getCharsLength ::
  "ScopedJString \<Rightarrow> world \<Rightarrow> (nat \<times> ScopedJString) option" where
  "ScopedJString_getCharsLength s w =
     (if str_chars s \<noteq> None then Some (str_len s, s)
      else do { len \<leftarrow> GetStringLength (str_jstring s) (w_jni w); Some (len, s\<lparr>str_len := len\<rparr>) })"

definition delete_ScopedJString :: "ScopedJString \<Rightarrow> world \<Rightarrow> world" where
  "delete_ScopedJString s w =
     (if str_chars s \<noteq> None then upd_jni (ReleaseStringChars (str_jstring s)) w else w)"

section \<open>The engine's exception state\<close>

definition no_exn :: exn where
  "no_exn = \<lparr>throwing = False, unwrappedException = Undefined, overRecursed = False,
     propagatingForcedReturn = False\<rparr>"

definition clearPendingException :: "exn \<Rightarrow> exn" where
  "clearPendingException x = x\<lparr>throwing := False, overRecursed := False, unwrappedException := Undefined\<rparr>"

definition setPendingException :: "jsval \<Rightarrow> exn \<Rightarrow> exn" where
  "setPendingException v x = x\<lparr>overRecursed := False, throwing := True, unwrappedException := v\<rparr>"

definition JS_IsExceptionPending :: "world \<Rightarrow> bool" where
  "JS_IsExceptionPending w = throwing (w_exn w)"

definition JS_GetPendingException :: "world \<Rightarrow> jsval" where
  "JS_GetPendingException w = (if throwing (w_exn w) then unwrappedException (w_exn w) else Undefined)"

definition JS_ClearPendingException :: "world \<Rightarrow> world" where
  "JS_ClearPendingException w = w\<lparr>w_exn := clearPendingException (w_exn w)\<rparr>"

definition throw_exception :: "jsval \<Rightarrow> world \<Rightarrow> world" where
  "throw_exception v w = w\<lparr>w_exn := setPendingException v (w_exn w)\<rparr>"

text \<open>The constructor of \<open>JS::AutoSaveExceptionState\<close> saves and clears; its destructor restores
  unless something is pending.\<close>

definition AutoSaveExceptionState :: "world \<Rightarrow> exn \<times> world" where
  "AutoSaveExceptionState w =
     (let saved = w_exn w;
          x = saved;
          x = (if propagatingForcedReturn saved then x\<lparr>propagatingForcedReturn := False\<rparr> else x);
          x = (if overRecursed saved then x\<lparr>overRecursed := False\<rparr> else x);
          x = (if throwing saved then clearPendingException x else x)
      in (saved, w\<lparr>w_exn := x\<rparr>))"

definition delete_AutoSaveExceptionState :: "exn \<Rightarrow> world \<Rightarrow> world" where
  "delete_AutoSaveExceptionState saved w =
     (if JS_IsExceptionPending w then w
      else
        let x = w_exn w;
            x = (if propagatingForcedReturn saved then x\<lparr>propagatingForcedReturn := True\<rparr> else x);
            x = (if throwing saved
                 then x\<lparr>overRecursed := overRecursed saved, throwing := True,
                        unwrappedException := unwrappedException saved\<rparr>
                 else x)
        in w\<lparr>w_exn := x\<rparr>)"

section \<open>Collection, tracing, parsing\<close>

definition JS_GC :: "world \<Rightarrow> world" where
  "JS_GC w = w\<lparr>gc_runs := Suc (gc_runs w)\<rparr>"

definition begin_scope :: "platform \<Rightarrow> string \<Rightarrow> world \<Rightarrow> world" where
  "begin_scope pf name w = w\<lparr>w_trace := TraceScope (sys pf) (u8s ''weex'') (u8s name) None None (w_trace w)\<rparr>"

definition end_scope :: "platform \<Rightarrow> string \<Rightarrow> world \<Rightarrow> world" where
  "end_scope pf name w = w\<lparr>w_trace := end_TraceScope (sys pf) (u8s ''weex'') (u8s name) (w_trace w)\<rparr>"

text \<open>\<open>jString2JSValue\<close>: a copy of the Java string's code units.\<close>

definition jString2JSValue :: "jref \<Rightarrow> world \<Rightarrow> (u16 list \<times> world) option" where
  "jString2JSValue str w =
     do { (chars, s, w) \<leftarrow> ScopedJString_getChars (new_ScopedJString str) w;
          (len, s) \<leftarrow> ScopedJString_getCharsLength s w;
          Some (take len chars, delete_ScopedJString s w) }"

text \<open>\<open>parseToObject\<close>: the value is set in any case, to \<open>undefined\<close> when the text is not JSON, which throws.\<close>

definition parseToObject :: "platform \<Rightarrow> jref \<Rightarrow> world \<Rightarrow> (bool \<times> jsval \<times> world) option" where
  "parseToObject pf from w =
     do { (str, s, w) \<leftarrow> ScopedJString_getChars (new_ScopedJString from) w;
          (strLen, s) \<leftarrow> ScopedJString_getCharsLength s w;
          let (ok, v, w) =
            (case JS_ParseJSON (engine_fns.truncate (engine pf)) (take strLen str) (w_heap w) of
               ParseOk v h \<Rightarrow> (True, v, w\<lparr>w_heap := h\<rparr>)
             | SyntaxError msg line column \<Rightarrow>
                 (False, Undefined, throw_exception (syntax_exception (engine pf) msg line column) w));
          Some (ok, v, delete_ScopedJString s w) }"

end
