(* ===== verification/Bindings.thy ===== *)
theory Bindings
  imports World
begin

text \<open>
  The functions JavaScript calls: the conversion of arguments to Java objects, the nine natives of
  \<open>weexion.cpp\<close>, and the table that binds them to their names. Each native is a function of the callee
  (the value it returns unless it sets another), the arguments and the world; all of them return true.
\<close>

section \<open>Arguments\<close>

definition JS_EncodeStringToUTF8 :: "platform \<Rightarrow> u16 list \<Rightarrow> u8 list option" where
  "JS_EncodeStringToUTF8 pf s = CharsToNewUTF8CharsZ (alloc_mem pf) s"

definition js_ToString :: "platform \<Rightarrow> world \<Rightarrow> jsval \<Rightarrow> u16 list option" where
  "js_ToString pf w v = ToString (frac (engine pf)) (to_primitive (engine pf) (w_heap w)) v"

text \<open>\<open>abort()\<close> when the conversion to a string throws.\<close>

definition getArgumentAsJString ::
  "platform \<Rightarrow> jsval list \<Rightarrow> nat \<Rightarrow> world \<Rightarrow> (jref \<times> world) option" where
  "getArgumentAsJString pf args argument w =
     (if length args \<le> argument then Some (0, w)
      else case js_ToString pf w (args ! argument) of
          None \<Rightarrow> None
        | Some s \<Rightarrow>
            (case JS_EncodeStringToUTF8 pf s of
               None \<Rightarrow> Some (0, w)
             | Some chars \<Rightarrow> Some (with_jni (NewStringUTF (jhost pf) chars) w)))"

text \<open>\<open>JSONCreator\<close> appends what the writer hands it to the vector.\<close>

definition JSONCreator :: "u16 list \<Rightarrow> nat \<Rightarrow> u16 list \<Rightarrow> bool \<times> u16 list" where
  "JSONCreator aBuf aLen result = (True, result @ take aLen aBuf)"

text \<open>The bytes before the first NUL, as a Java byte array.\<close>

definition bytes_to_jbyteArray :: "u8 list \<Rightarrow> world \<Rightarrow> (jref \<times> world) option" where
  "bytes_to_jbyteArray chars w =
     (let (ba, w) = with_jni (NewByteArray (strlen chars)) w
      in do { w \<leftarrow> try_upd_jni (SetByteArrayRegion ba (take (strlen chars) chars)) w; Some (ba, w) })"

text \<open>\<open>args[argument]\<close> has no bounds check: past the arguments the behaviour is undefined.\<close>

definition getArgumentAsJByteArrayJSON ::
  "platform \<Rightarrow> jsval list \<Rightarrow> nat \<Rightarrow> world \<Rightarrow> (jref \<times> world) option" where
  "getArgumentAsJByteArrayJSON pf args argument w =
     (if length args \<le> argument then None
      else case args ! argument of
          Object n \<Rightarrow>
            (case JS_Stringify (engine_fns.truncate (engine pf)) (recursion_budget pf) (Object n) None Null (w_heap w) of
               Inl err \<Rightarrow> Some (0, throw_exception (json_exception (engine pf) err) w)
             | Inr (text, h) \<Rightarrow>
                 (let w = w\<lparr>w_heap := h\<rparr>;
                      (ok, result) = JSONCreator text (length text) []
                  in do { utf8 \<leftarrow> CharsToNewUTF8CharsZ (alloc_mem pf) result;
                          bytes_to_jbyteArray utf8 w }))
        | _ \<Rightarrow> Some (0, w))"

definition getArgumentAsJByteArray ::
  "platform \<Rightarrow> jsval list \<Rightarrow> nat \<Rightarrow> world \<Rightarrow> (jref \<times> world) option" where
  "getArgumentAsJByteArray pf args argument w =
     (if length args \<le> argument then None
      else case args ! argument of
          Str s \<Rightarrow>
            (case JS_EncodeStringToUTF8 pf s of
               None \<Rightarrow> Some (0, w)
             | Some chars \<Rightarrow> bytes_to_jbyteArray chars w)
        | _ \<Rightarrow> getArgumentAsJByteArrayJSON pf args argument w)"

definition delete_refs :: "jref list \<Rightarrow> world \<Rightarrow> world" where
  "delete_refs rs w = upd_jni (fold DeleteLocalRef rs) w"

section \<open>The natives\<close>

definition GCAndSweep :: "jsval \<Rightarrow> jsval list \<Rightarrow> world \<Rightarrow> (jsval \<times> world) option" where
  "GCAndSweep callee args w = Some (callee, JS_GC w)"

definition CallNative :: "platform \<Rightarrow> jsval \<Rightarrow> jsval list \<Rightarrow> world \<Rightarrow> (jsval \<times> world) option" where
  "CallNative pf callee args w =
     do { let w = begin_scope pf ''callNative'' w;
          getJNIEnv pf w;
          (jInstanceId, w) \<leftarrow> getArgumentAsJString pf args 0 w;
          (jTaskString, w) \<leftarrow> getArgumentAsJByteArray pf args 1 w;
          (jCallback, w) \<leftarrow> getArgumentAsJString pf args 2 w;
          w \<leftarrow> cache_method pf jCallNativeMethodId (jBridgeClazz w)
                 ''callNative'' ''(Ljava/lang/String;[BLjava/lang/String;)I'' w;
          (flag, w) \<leftarrow> try_jni (CallIntMethod (jhost pf) (jThis w) (method_ids w jCallNativeMethodId)
                        [jInstanceId, jTaskString, jCallback]) w;
          let w = delete_refs [jTaskString, jInstanceId, jCallback] w;
          Some (Number (DInt flag), end_scope pf ''callNative'' w) }"

text \<open>The double in a \<open>java.lang.Double\<close>; the method ID is looked up once.\<close>

definition call_doubleValue :: "platform \<Rightarrow> jref \<Rightarrow> world \<Rightarrow> (dbl \<times> world) option" where
  "call_doubleValue pf r w =
     do { w \<leftarrow> (if method_ids w jDoubleValueMethodId \<noteq> None then Some w
                else
                  let (clazz, w) = with_jni (FindClass (jhost pf) ''java/lang/Double'') w
                  in do { w \<leftarrow> cache_method pf jDoubleValueMethodId clazz ''doubleValue'' ''()D'' w;
                          Some (delete_refs [clazz] w) });
          try_jni (CallDoubleMethod r (method_ids w jDoubleValueMethodId)) w }"

text \<open>The value a module returned, by the type it is tagged with.\<close>

definition module_result :: "platform \<Rightarrow> jsval \<Rightarrow> int \<Rightarrow> jref \<Rightarrow> world \<Rightarrow> (jsval \<times> world) option" where
  "module_result pf callee jTypeInt jDataObj w =
     (if jTypeInt = 1 then
        do { (d, w) \<leftarrow> call_doubleValue pf jDataObj w; Some (Number d, w) }
      else if jTypeInt = 2 then
        do { (s, w) \<leftarrow> jString2JSValue jDataObj w; Some (Str s, w) }
      else if jTypeInt = 3 then
        do { (ok, v, w) \<leftarrow> parseToObject pf jDataObj w; Some (v, w) }
      else Some (callee, w))"

definition CallNativeModule :: "platform \<Rightarrow> jsval \<Rightarrow> jsval list \<Rightarrow> world \<Rightarrow> (jsval \<times> world) option" where
  "CallNativeModule pf callee args w =
     do { let w = begin_scope pf ''callNativeModule'' w;
          getJNIEnv pf w;
          (jInstanceId, w) \<leftarrow> getArgumentAsJString pf args 0 w;
          (jmodule, w) \<leftarrow> getArgumentAsJString pf args 1 w;
          (jmethod, w) \<leftarrow> getArgumentAsJString pf args 2 w;
          (jArgString, w) \<leftarrow> getArgumentAsJByteArrayJSON pf args 3 w;
          (jOptString, w) \<leftarrow> getArgumentAsJByteArrayJSON pf args 4 w;
          w \<leftarrow> cache_method pf jCallNativeModuleMethodId (jBridgeClazz w) ''callNativeModule''
                 ''(Ljava/lang/String;Ljava/lang/String;Ljava/lang/String;[B[B)Ljava/lang/Object;'' w;
          (result, w) \<leftarrow> try_jni (CallObjectMethod (jhost pf) (jThis w) (method_ids w jCallNativeModuleMethodId)
                          [jInstanceId, jmodule, jmethod, jArgString, jOptString]) w;
          jTypeInt \<leftarrow> GetIntField_type result (w_jni w);
          (jDataObj, w) \<leftarrow> try_jni (GetObjectField_data result) w;
          (rval, w) \<leftarrow> module_result pf callee jTypeInt jDataObj w;
          let w = delete_refs [jDataObj, jInstanceId, jmodule, jmethod, jArgString, jOptString] w;
          Some (rval, end_scope pf ''callNativeModule'' w) }"

definition CallNativeComponent :: "platform \<Rightarrow> jsval \<Rightarrow> jsval list \<Rightarrow> world \<Rightarrow> (jsval \<times> world) option" where
  "CallNativeComponent pf callee args w =
     do { let w = begin_scope pf ''callNativeComponent'' w;
          getJNIEnv pf w;
          (jInstanceId, w) \<leftarrow> getArgumentAsJString pf args 0 w;
          (jcomponentRef, w) \<leftarrow> getArgumentAsJString pf args 1 w;
          (jmethod, w) \<leftarrow> getArgumentAsJString pf args 2 w;
          (jArgString, w) \<leftarrow> getArgumentAsJByteArrayJSON pf args 3 w;
          (jOptString, w) \<leftarrow> getArgumentAsJByteArrayJSON pf args 4 w;
          w \<leftarrow> cache_method pf jCallNativeComponentMethodId (jBridgeClazz w) ''callNativeComponent''
                 ''(Ljava/lang/String;Ljava/lang/String;Ljava/lang/String;[B[B)V'' w;
          w \<leftarrow> try_upd_jni (CallVoidMethod (jThis w) (method_ids w jCallNativeComponentMethodId)
                 [jInstanceId, jcomponentRef, jmethod, jArgString, jOptString]) w;
          let w = delete_refs [jInstanceId, jcomponentRef, jmethod, jArgString, jOptString] w;
          Some (Boolean True, end_scope pf ''callNativeComponent'' w) }"

definition CallAddElement :: "platform \<Rightarrow> jsval \<Rightarrow> jsval list \<Rightarrow> world \<Rightarrow> (jsval \<times> world) option" where
  "CallAddElement pf callee args w =
     do { let w = begin_scope pf ''callAddElement'' w;
          getJNIEnv pf w;
          (jInstanceId, w) \<leftarrow> getArgumentAsJString pf args 0 w;
          (jref, w) \<leftarrow> getArgumentAsJString pf args 1 w;
          (jdomString, w) \<leftarrow> getArgumentAsJByteArray pf args 2 w;
          (jindex, w) \<leftarrow> getArgumentAsJString pf args 3 w;
          (jCallback, w) \<leftarrow> getArgumentAsJString pf args 4 w;
          w \<leftarrow> cache_method pf jCallAddElementMethodId (jBridgeClazz w) ''callAddElement''
                 ''(Ljava/lang/String;Ljava/lang/String;[BLjava/lang/String;Ljava/lang/String;)I'' w;
          (flag, w) \<leftarrow> try_jni (CallIntMethod (jhost pf) (jThis w) (method_ids w jCallAddElementMethodId)
                        [jInstanceId, jref, jdomString, jindex, jCallback]) w;
          let w = delete_refs [jInstanceId, jref, jdomString, jindex, jCallback] w;
          Some (Number (DInt flag), end_scope pf ''callAddElement'' w) }"

definition SetTimeoutNative :: "platform \<Rightarrow> jsval \<Rightarrow> jsval list \<Rightarrow> world \<Rightarrow> (jsval \<times> world) option" where
  "SetTimeoutNative pf callee args w =
     do { let w = begin_scope pf ''setTimeoutNative'' w;
          getJNIEnv pf w;
          (jCallbackID, w) \<leftarrow> getArgumentAsJString pf args 0 w;
          (jTime, w) \<leftarrow> getArgumentAsJString pf args 1 w;
          w \<leftarrow> cache_method pf jSetTimeoutNativeMethodId (jBridgeClazz w) ''setTimeoutNative''
                 ''(Ljava/lang/String;Ljava/lang/String;)V'' w;
          w \<leftarrow> try_upd_jni (CallVoidMethod (jThis w) (method_ids w jSetTimeoutNativeMethodId)
                 [jCallbackID, jTime]) w;
          let w = delete_refs [jCallbackID, jTime] w;
          Some (Boolean True, end_scope pf ''setTimeoutNative'' w) }"

text \<open>
  The concatenation of the arguments' strings. A null result of \<open>ToString\<close> is dereferenced by the
  concatenation, and a lone null one by the encoder.
\<close>

fun concat_args :: "platform \<Rightarrow> world \<Rightarrow> jsval list \<Rightarrow> u16 list option" where
  "concat_args pf w [] = Some []"
| "concat_args pf w (v # vs) =
     do { s \<leftarrow> js_ToString pf w v; rest \<leftarrow> concat_args pf w vs; Some (s @ rest) }"

definition NativeLog :: "platform \<Rightarrow> jsval \<Rightarrow> jsval list \<Rightarrow> world \<Rightarrow> (jsval \<times> world) option" where
  "NativeLog pf callee args w =
     (if length args = 0 then Some (Boolean True, w)
      else
        do { sb \<leftarrow> concat_args pf w args;
             getJNIEnv pf w;
             case JS_EncodeStringToUTF8 pf sb of
               None \<Rightarrow> Some (Boolean True, w)
             | Some utf8 \<Rightarrow>
                 (let (str_msg, w) = with_jni (NewStringUTF (jhost pf) utf8) w in
                  if jWXLogUtils w = 0 then Some (Boolean True, w)
                  else
                    do { w \<leftarrow> cache_method pf jLogMethodId (jWXLogUtils w)
                                ''d'' ''(Ljava/lang/String;Ljava/lang/String;)V'' w;
                         if method_ids w jLogMethodId = None then Some (Boolean True, w)
                         else
                           let (str_tag, w) = with_jni (NewStringUTF (jhost pf) (u8s ''jsLog'' @ [0])) w
                           in do { w \<leftarrow> try_upd_jni (CallVoidMethod (jWXLogUtils w) (method_ids w jLogMethodId)
                                         [str_tag, str_msg]) w;
                                   Some (Boolean True, delete_refs [str_msg, str_tag] w) } }) })"

definition NotifyTrimMemory :: "jsval \<Rightarrow> jsval list \<Rightarrow> world \<Rightarrow> (jsval \<times> world) option" where
  "NotifyTrimMemory callee args w = Some (callee, JS_GC w)"

definition MarkupState :: "jsval \<Rightarrow> jsval list \<Rightarrow> world \<Rightarrow> (jsval \<times> world) option" where
  "MarkupState callee args w = Some (callee, w\<lparr>w_idle := markupStateInternally (w_idle w)\<rparr>)"

text \<open>The table \<open>global_functions\<close>: the names the natives have in JavaScript.\<close>

definition global_functions :: "(string \<times> native) list" where
  "global_functions =
     [(''callNative'', NCallNative), (''callNativeModule'', NCallNativeModule),
      (''callNativeComponent'', NCallNativeComponent), (''callAddElement'', NCallAddElement),
      (''setTimeoutNative'', NSetTimeoutNative), (''nativeLog'', NNativeLog),
      (''notifyTrimMemory'', NNotifyTrimMemory), (''markupState'', NMarkupState)]"

fun run_native :: "platform \<Rightarrow> native \<Rightarrow> jsval \<Rightarrow> jsval list \<Rightarrow> world \<Rightarrow> (jsval \<times> world) option" where
  "run_native pf NCallNative = CallNative pf"
| "run_native pf NCallNativeModule = CallNativeModule pf"
| "run_native pf NCallNativeComponent = CallNativeComponent pf"
| "run_native pf NCallAddElement = CallAddElement pf"
| "run_native pf NSetTimeoutNative = SetTimeoutNative pf"
| "run_native pf NNativeLog = NativeLog pf"
| "run_native pf NNotifyTrimMemory = NotifyTrimMemory"
| "run_native pf NMarkupState = MarkupState"
| "run_native pf NGCAndSweep = GCAndSweep"

end
