(* ===== verification/JobQueue.thy ===== *)
theory JobQueue
  imports Bindings
begin

text \<open>
  Running JavaScript programs, the promise callbacks of the shell context and the draining of the job
  queue (\<open>DrainJobQueue\<close> of \<open>weexion.cpp\<close>). The loop over the queue may run forever, since a job may
  enqueue jobs: \<open>drain_loop\<close> has no result then. \<open>DrainJobQueue_for\<close> tells that case from a crash.
\<close>

section \<open>The callbacks of the shell context\<close>

text \<open>\<open>GetShellContext\<close>: the private data must have been set.\<close>

definition GetShellContext :: "world \<Rightarrow> ShellContext option" where
  "GetShellContext w = context_private w"

definition set_sc :: "ShellContext \<Rightarrow> world \<Rightarrow> world" where
  "set_sc sc w = w\<lparr>context_private := Some sc\<rparr>"

definition ShellEnqueuePromiseJobCallback :: "nat \<Rightarrow> world \<Rightarrow> world option" where
  "ShellEnqueuePromiseJobCallback job w =
     do { sc \<leftarrow> GetShellContext w; Some (set_sc (sc\<lparr>jobQueue := jobQueue sc @ [Some job]\<rparr>) w) }"

definition ShellStartAsyncTaskCallback :: "nat \<Rightarrow> world \<Rightarrow> world option" where
  "ShellStartAsyncTaskCallback task w =
     do { sc \<leftarrow> GetShellContext w;
          Some (set_sc (sc\<lparr>running := running sc @ [task], outstanding := outstanding sc + 1\<rparr>) w) }"

text \<open>Called on a helper thread when its work on the task is done.\<close>

definition ShellFinishAsyncTaskCallback :: "nat \<Rightarrow> ShellContext \<Rightarrow> ShellContext" where
  "ShellFinishAsyncTaskCallback task sc =
     sc\<lparr>running := remove1 task (running sc), outstanding := outstanding sc - 1,
        finished := finished sc @ [task]\<rparr>"

section \<open>Running a program\<close>

primrec run_js :: "platform \<Rightarrow> js_prog \<Rightarrow> world \<Rightarrow> (jsval option \<times> world) option" where
  "run_js pf (Ret v) = (\<lambda>w. Some (Some v, w))"
| "run_js pf (Throw v) = (\<lambda>w. Some (None, throw_exception v w))"
| "run_js pf (Caught p) = (\<lambda>w. run_js pf p (JS_ClearPendingException w))"
| "run_js pf (Native n callee args k) =
     (\<lambda>w. do { (v, w) \<leftarrow> run_native pf n callee args w; run_js pf (k v) w })"
| "run_js pf (Read k) = (\<lambda>w. run_js pf (k (w_heap w)) w)"
| "run_js pf (Update f p) = (\<lambda>w. run_js pf p (w\<lparr>w_heap := f (w_heap w)\<rparr>))"
| "run_js pf (Enqueue job p) =
     (\<lambda>w. do { w \<leftarrow> ShellEnqueuePromiseJobCallback job w; run_js pf p w })"
| "run_js pf (StartAsync task p) =
     (\<lambda>w. do { w \<leftarrow> ShellStartAsyncTaskCallback task w; run_js pf p w })"

section \<open>Draining the queue\<close>

text \<open>
  Waiting until no task is outstanding: each turn, some running task finishes, the one \<open>pick\<close> names or
  the oldest. With tasks outstanding and none running the wait never ends.
\<close>

definition next_task :: "(nat list \<Rightarrow> nat) \<Rightarrow> nat list \<Rightarrow> nat" where
  "next_task pick tasks = (if pick tasks \<in> set tasks then pick tasks else hd tasks)"

lemma next_task_running: "tasks \<noteq> [] \<Longrightarrow> next_task pick tasks \<in> set tasks"
  by (simp add: next_task_def)

function wait_outstanding :: "(nat list \<Rightarrow> nat) \<Rightarrow> ShellContext \<Rightarrow> ShellContext option" where
  "wait_outstanding pick sc =
     (if outstanding sc = 0 then Some sc
      else if running sc = [] then None
      else wait_outstanding pick (ShellFinishAsyncTaskCallback (next_task pick (running sc)) sc))"
  by pat_completeness auto
termination
  by (relation "measure (\<lambda>(pick, sc). length (running sc))")
    (simp_all add: ShellFinishAsyncTaskCallback_def next_task_running length_remove1 less_imp_diff_less
      split: if_splits)

declare wait_outstanding.simps [simp del]

fun finish_tasks :: "platform \<Rightarrow> nat list \<Rightarrow> world \<Rightarrow> world option" where
  "finish_tasks pf [] w = Some w"
| "finish_tasks pf (task # tasks) w =
     do { (r, w) \<leftarrow> run_js pf (finish_task (engine pf) task) w; finish_tasks pf tasks w }"

text \<open>
  One turn: run the job in slot \<open>i\<close> with the exception state saved and cleared, then set the slot to
  null. A job that is null is dereferenced.
\<close>

definition drain_turn :: "platform \<Rightarrow> nat \<Rightarrow> world \<Rightarrow> world option" where
  "drain_turn pf i w =
     do { sc \<leftarrow> GetShellContext w;
          job \<leftarrow> jobQueue sc ! i;
          let (saved, w) = AutoSaveExceptionState w;
          (r, w) \<leftarrow> run_js pf (run_job (engine pf) job) w;
          let w = delete_AutoSaveExceptionState saved w;
          sc \<leftarrow> GetShellContext w;
          Some (set_sc (sc\<lparr>jobQueue := (jobQueue sc)[i := None]\<rparr>) w) }"

partial_function (option) drain_loop :: "platform \<Rightarrow> nat \<Rightarrow> world \<Rightarrow> world option" where
  "drain_loop pf i w =
     do { sc \<leftarrow> GetShellContext w;
          if i < length (jobQueue sc) then
            do { w \<leftarrow> drain_turn pf i w; drain_loop pf (i + 1) w }
          else Some w }"

declare drain_loop.simps [code]

definition DrainJobQueue :: "platform \<Rightarrow> world \<Rightarrow> world option" where
  "DrainJobQueue pf w =
     do { sc \<leftarrow> GetShellContext w;
          if drainingJobQueue sc then Some w
          else
            do { sc \<leftarrow> wait_outstanding (next_finished pf) sc;
                 let tasks = finished sc;
                 let w = set_sc (sc\<lparr>finished := []\<rparr>) w;
                 w \<leftarrow> finish_tasks pf tasks w;
                 sc \<leftarrow> GetShellContext w;
                 let w = set_sc (sc\<lparr>drainingJobQueue := True\<rparr>) w;
                 w \<leftarrow> drain_loop pf 0 w;
                 sc \<leftarrow> GetShellContext w;
                 Some (set_sc (sc\<lparr>jobQueue := [], drainingJobQueue := False\<rparr>) w) } }"

text \<open>
  The same function stopped before turn \<open>n\<close>: left when the loop wants another turn, right when it is over.
  Here no result means that the process ends, and only that.
\<close>

primrec drain_loop_for :: "nat \<Rightarrow> platform \<Rightarrow> nat \<Rightarrow> world \<Rightarrow> (world + world) option" where
  "drain_loop_for 0 pf i w =
     do { sc \<leftarrow> GetShellContext w; Some (if i < length (jobQueue sc) then Inl w else Inr w) }"
| "drain_loop_for (Suc n) pf i w =
     do { sc \<leftarrow> GetShellContext w;
          if i < length (jobQueue sc) then
            do { w \<leftarrow> drain_turn pf i w; drain_loop_for n pf (i + 1) w }
          else Some (Inr w) }"

definition DrainJobQueue_for :: "nat \<Rightarrow> platform \<Rightarrow> world \<Rightarrow> (world + world) option" where
  "DrainJobQueue_for n pf w =
     do { sc \<leftarrow> GetShellContext w;
          if drainingJobQueue sc then Some (Inr w)
          else
            do { sc \<leftarrow> wait_outstanding (next_finished pf) sc;
                 let tasks = finished sc;
                 let w = set_sc (sc\<lparr>finished := []\<rparr>) w;
                 w \<leftarrow> finish_tasks pf tasks w;
                 sc \<leftarrow> GetShellContext w;
                 let w = set_sc (sc\<lparr>drainingJobQueue := True\<rparr>) w;
                 r \<leftarrow> drain_loop_for n pf 0 w;
                 case r of
                   Inl w \<Rightarrow> Some (Inl w)
                 | Inr w \<Rightarrow>
                     do { sc \<leftarrow> GetShellContext w;
                          Some (Inr (set_sc (sc\<lparr>jobQueue := [], drainingJobQueue := False\<rparr>) w)) } } }"

end
