(* ===== verification/Framework.thy ===== *)
theory Framework
  imports JobQueue
begin

text \<open>
  The functions Java calls: \<open>initFramework\<close>, \<open>execJS\<close>, \<open>execJSService\<close>, \<open>takeHeapSnapshot\<close>, the loading and
  unloading of the library, and what they are built from: the reporting of exceptions, the
  environment object, the execution of a script, the idle notification. The lines printed to the log
  by \<open>LOGE\<close>, \<open>LOGA\<close> and \<open>LOGD\<close> are not modelled.
\<close>

section \<open>Reporting exceptions\<close>

text \<open>\<open>reportException\<close>: \<open>func\<close> and \<open>exception_string\<close> are C strings.\<close>

definition reportException :: "platform \<Rightarrow> jref \<Rightarrow> u8 list \<Rightarrow> u8 list \<Rightarrow> world \<Rightarrow> world option" where
  "reportException pf jInstanceId func exception_string w =
     do { getJNIEnv pf w;
          let (jExceptionString, w) = with_jni (NewStringUTF (jhost pf) exception_string) w;
          let (jFunc, w) = with_jni (NewStringUTF (jhost pf) func) w;
          mid \<leftarrow> GetMethodID (jhost pf) (jBridgeClazz w) ''reportJSException''
                   ''(Ljava/lang/String;Ljava/lang/String;Ljava/lang/String;)V'' (w_jni w);
          w \<leftarrow> try_upd_jni (CallVoidMethod (jThis w) mid [jInstanceId, jFunc, jExceptionString]) w;
          Some (delete_refs [jExceptionString, jFunc] w) }"

text \<open>
  \<open>JS_ErrorFromException\<close> gives a report for error objects only, and null for every other object; the
  message of a null report is dereferenced.
\<close>

definition JS_ErrorFromException :: "jsheap \<Rightarrow> nat \<Rightarrow> u8 list option" where
  "JS_ErrorFromException h n =
     (if n < length h then (case cls (h ! n) of ErrorC message \<Rightarrow> Some message | _ \<Rightarrow> None) else None)"

definition ReportException :: "platform \<Rightarrow> jsval \<Rightarrow> jref \<Rightarrow> u8 list \<Rightarrow> world \<Rightarrow> world option" where
  "ReportException pf exception jinstanceid func w =
     (case exception of
        Object n \<Rightarrow>
          do { message \<leftarrow> JS_ErrorFromException (w_heap w) n;
               reportException pf jinstanceid func message w }
      | _ \<Rightarrow> reportException pf jinstanceid func (u8s ''unknown'') w)"

section \<open>Scripts and calls\<close>

text \<open>Entering the compartment dereferences the context and the global object.\<close>

definition ExecuteJavaScript :: "platform \<Rightarrow> jref \<Rightarrow> bool \<Rightarrow> world \<Rightarrow> (bool \<times> world) option" where
  "ExecuteJavaScript pf source report_exceptions w =
     do { glob \<leftarrow> (if globalContext w then globalObject w else None);
          let (saved, w) = AutoSaveExceptionState w;
          (str, s, w) \<leftarrow> ScopedJString_getChars (new_ScopedJString source) w;
          (strLen, s) \<leftarrow> ScopedJString_getCharsLength s w;
          (r, w) \<leftarrow> run_js pf (eval_script (engine pf) (take strLen str)) w;
          w \<leftarrow> (if report_exceptions \<and> JS_IsExceptionPending w
                then ReportException pf (JS_GetPendingException w) 0 [] w else Some w);
          let w = delete_ScopedJString s w;
          Some (r \<noteq> None, delete_AutoSaveExceptionState saved w) }"

text \<open>The engine reads a \<open>const char*\<close> name as Latin-1.\<close>

definition latin1_units :: "u8 list \<Rightarrow> u16 list" where
  "latin1_units chars = map ucast (c_string chars)"

text \<open>\<open>JS_CallFunctionName\<close>: calling a property that is not callable is a \<open>TypeError\<close>.\<close>

definition JS_CallFunctionName ::
  "platform \<Rightarrow> nat \<Rightarrow> u8 list \<Rightarrow> jsval list \<Rightarrow> world \<Rightarrow> (jsval option \<times> world) option" where
  "JS_CallFunctionName pf obj name args w =
     (let fval = GetProperty (w_heap w) obj (latin1_units name) in
      if IsCallable (w_heap w) fval
      then run_js pf (call_function (engine pf) fval (Object obj) args) w
      else Some (None, throw_exception (type_error (engine pf)) w))"

section \<open>Setting up the global object\<close>

text \<open>With the attribute \<open>JSPROP_PERMANENT\<close> alone: writable, not enumerable.\<close>

definition JS_DefineProperty :: "nat \<Rightarrow> u16 list \<Rightarrow> jsval \<Rightarrow> jsheap \<Rightarrow> jsheap" where
  "JS_DefineProperty obj key v h = h[obj := (h ! obj)\<lparr>hidden := define_property key v (hidden (h ! obj))\<rparr>]"

definition DefineString :: "nat \<Rightarrow> u8 list \<Rightarrow> jref \<Rightarrow> world \<Rightarrow> world option" where
  "DefineString obj name str w =
     do { (ustr, s, w) \<leftarrow> ScopedJString_getChars (new_ScopedJString str) w;
          (strLen, s) \<leftarrow> ScopedJString_getCharsLength s w;
          let w = w\<lparr>w_heap := JS_DefineProperty obj (latin1_units name) (Str (take strLen ustr)) (w_heap w)\<rparr>;
          Some (delete_ScopedJString s w) }"

text \<open>One getter of the parameters: call it, define its result, delete the reference.\<close>

definition add_string :: "platform \<Rightarrow> jref \<Rightarrow> jref \<Rightarrow> nat \<Rightarrow> string \<times> string \<Rightarrow> world \<Rightarrow> world option" where
  "add_string pf params c_params obj getter w =
     do { mid \<leftarrow> GetMethodID (jhost pf) c_params (snd getter) ''()Ljava/lang/String;'' (w_jni w);
          (str, w) \<leftarrow> try_jni (CallObjectMethod (jhost pf) params mid []) w;
          w \<leftarrow> DefineString obj (u8s (fst getter)) str w;
          Some (delete_refs [str] w) }"

fun add_strings :: "platform \<Rightarrow> jref \<Rightarrow> jref \<Rightarrow> nat \<Rightarrow> (string \<times> string) list \<Rightarrow> world \<Rightarrow> world option" where
  "add_strings pf params c_params obj [] w = Some w"
| "add_strings pf params c_params obj (g # gs) w =
     do { w \<leftarrow> add_string pf params c_params obj g w; add_strings pf params c_params obj gs w }"

definition environment_getters :: "(string \<times> string) list" where
  "environment_getters =
     [(''platform'', ''getPlatform''), (''osVersion'', ''getOsVersion''), (''appVersion'', ''getAppVersion''),
      (''weexVersion'', ''getWeexVersion''), (''deviceModel'', ''getDeviceModel''), (''appName'', ''getAppName''),
      (''deviceWidth'', ''getDeviceWidth''), (''deviceHeight'', ''getDeviceHeight'')]"

text \<open>The options: for each key of the map, its value under the key's characters, which stay pinned.\<close>

fun add_options ::
  "platform \<Rightarrow> jref \<Rightarrow> jref \<Rightarrow> jmethodID option \<Rightarrow> nat \<Rightarrow> nat list \<Rightarrow> world \<Rightarrow> world option" where
  "add_options pf options jobjArray jgetmid obj [] w = Some w"
| "add_options pf options jobjArray jgetmid obj (i # is) w =
     do { (jkey, w) \<leftarrow> try_jni (GetObjectArrayElement jobjArray i) w;
          (jvalue, w) \<leftarrow> try_jni (CallObjectMethod (jhost pf) options jgetmid [jkey]) w;
          w \<leftarrow> (if jkey \<noteq> 0 then
                  do { (c_key, w) \<leftarrow> try_jni (GetStringUTFChars (jhost pf) jkey) w;
                       w \<leftarrow> DefineString obj c_key jvalue w;
                       let w = delete_refs [jkey] w;
                       Some (if jvalue \<noteq> 0 then delete_refs [jvalue] w else w) }
                else Some w);
          add_options pf options jobjArray jgetmid obj is w }"

definition initWXEnvironment :: "platform \<Rightarrow> jref \<Rightarrow> nat \<Rightarrow> world \<Rightarrow> world option" where
  "initWXEnvironment pf params globalObj w =
     do { let (WXEnvironment, h) = alloc (plain []) (w_heap w);
          let w = w\<lparr>w_heap := h\<rparr>;
          (c_params, w) \<leftarrow> try_jni (GetObjectClass (jhost pf) params) w;
          w \<leftarrow> add_strings pf params c_params WXEnvironment environment_getters w;
          m_options \<leftarrow> GetMethodID (jhost pf) c_params ''getOptions'' ''()Ljava/lang/Object;'' (w_jni w);
          (options, w) \<leftarrow> try_jni (CallObjectMethod (jhost pf) params m_options []) w;
          let (jmapclass, w) = with_jni (FindClass (jhost pf) ''java/util/HashMap'') w;
          jkeysetmid \<leftarrow> GetMethodID (jhost pf) jmapclass ''keySet'' ''()Ljava/util/Set;'' (w_jni w);
          jgetmid \<leftarrow> GetMethodID (jhost pf) jmapclass ''get'' ''(Ljava/lang/Object;)Ljava/lang/Object;'' (w_jni w);
          (jsetkey, w) \<leftarrow> try_jni (CallObjectMethod (jhost pf) options jkeysetmid []) w;
          let (jsetclass, w) = with_jni (FindClass (jhost pf) ''java/util/Set'') w;
          jtoArraymid \<leftarrow> GetMethodID (jhost pf) jsetclass ''toArray'' ''()[Ljava/lang/Object;'' (w_jni w);
          (jobjArray, w) \<leftarrow> try_jni (CallObjectMethod (jhost pf) jsetkey jtoArraymid []) w;
          let w = delete_refs [jsetkey] w;
          w \<leftarrow> (if jobjArray \<noteq> 0 then
                  do { arraysize \<leftarrow> GetArrayLength jobjArray (w_jni w);
                       w \<leftarrow> add_options pf options jobjArray jgetmid WXEnvironment [0..<arraysize] w;
                       Some (delete_refs [jobjArray] w) }
                else Some w);
          let w = delete_refs [options] w;
          Some (w\<lparr>w_heap := JS_DefineProperty globalObj (u16s ''WXEnvironment'') (Object WXEnvironment) (w_heap w)\<rparr>) }"

text \<open>\<open>initFunction\<close>: every native becomes a callable property of the global object.\<close>

definition callable_object :: jsobj where
  "callable_object = \<lparr>cls = CallableC, props = [], hidden = [], proto = None\<rparr>"

definition define_function :: "nat \<Rightarrow> string \<times> native \<Rightarrow> jsheap \<Rightarrow> jsheap" where
  "define_function obj f h =
     (let (n, h) = alloc callable_object h in JS_DefineProperty obj (u16s (fst f)) (Object n) h)"

definition initFunction :: "platform \<Rightarrow> nat \<Rightarrow> world \<Rightarrow> bool \<times> world" where
  "initFunction pf obj w =
     (if define_functions_ok (boot pf)
      then (True, w\<lparr>w_heap := fold (define_function obj) global_functions (w_heap w)\<rparr>)
      else (False, w))"

definition initGlobalObject :: "platform \<Rightarrow> jref \<Rightarrow> nat \<Rightarrow> world \<Rightarrow> (bool \<times> world) option" where
  "initGlobalObject pf params glob w =
     (if \<not> standard_classes_ok (boot pf) then Some (False, w)
      else if \<not> immutable_proto_ok (boot pf) then Some (False, w)
      else
        let (ok, w) = initFunction pf glob w in
        if \<not> ok then Some (False, w)
        else do { w \<leftarrow> initWXEnvironment pf params glob w; Some (True, w) })"

section \<open>The idle notification\<close>

definition makeIdleNotification :: "world \<Rightarrow> world" where
  "makeIdleNotification w =
     (let (need, s) = needIdleNotification (w_idle w); w = w\<lparr>w_idle := s\<rparr> in
      if need then JS_GC w else w)"

section \<open>The functions Java calls\<close>

definition setJSFVersion :: "platform \<Rightarrow> nat \<Rightarrow> world \<Rightarrow> world option" where
  "setJSFVersion pf glob w =
     do { (r, w) \<leftarrow> JS_CallFunctionName pf glob (u8s ''getJSFMVersion'') [] w;
          case r of
            None \<Rightarrow> Some w
          | Some version \<Rightarrow>
              (if JS_IsExceptionPending w then
                 do { w \<leftarrow> ReportException pf (JS_GetPendingException w) 0 [] w;
                      Some (JS_ClearPendingException w) }
               else case version of
                   Str info \<Rightarrow>
                     do { utf8 \<leftarrow> JS_EncodeStringToUTF8 pf info;
                          mid \<leftarrow> GetMethodID (jhost pf) (jBridgeClazz w) ''setJSFrmVersion''
                                   ''(Ljava/lang/String;)V'' (w_jni w);
                          let (jversion, w) = with_jni (NewStringUTF (jhost pf) utf8) w;
                          w \<leftarrow> try_upd_jni (CallVoidMethod (jThis w) mid [jversion]) w;
                          Some (delete_refs [jversion] w) }
                 | _ \<Rightarrow> Some w) }"

definition native_execJSService :: "platform \<Rightarrow> jref \<Rightarrow> world \<Rightarrow> (int \<times> world) option" where
  "native_execJSService pf script w =
     (if script \<noteq> 0 then
        do { (ok, w) \<leftarrow> ExecuteJavaScript pf script True w;
             if \<not> ok then Some (0, w)
             else do { w \<leftarrow> DrainJobQueue pf w; Some (1, w) } }
      else Some (0, w))"

definition native_takeHeapSnapshot :: "jref \<Rightarrow> world \<Rightarrow> world" where
  "native_takeHeapSnapshot name w = w"

text \<open>
  One argument of \<open>execJS\<close>: the new argument list, or \<open>None\<close> for the early return after a JSON text
  that does not parse. A type other than 1, 2 and 3 adds nothing.
\<close>

definition exec_arg ::
  "platform \<Rightarrow> jref \<Rightarrow> jref \<Rightarrow> nat \<Rightarrow> jsval list \<Rightarrow> world \<Rightarrow> (jsval list option \<times> world) option" where
  "exec_arg pf jinstanceid jargs i argv w =
     do { (jArg, w) \<leftarrow> try_jni (GetObjectArrayElement jargs i) w;
          jTypeInt \<leftarrow> GetIntField_type jArg (w_jni w);
          (jDataObj, w) \<leftarrow> try_jni (GetObjectField_data jArg) w;
          if jTypeInt = 1 then
            do { (d, w) \<leftarrow> call_doubleValue pf jDataObj w;
                 Some (Some (argv @ [Number d]), delete_refs [jDataObj, jArg] w) }
          else if jTypeInt = 2 then
            do { (s, w) \<leftarrow> jString2JSValue jDataObj w;
                 Some (Some (argv @ [Str s]), delete_refs [jDataObj, jArg] w) }
          else if jTypeInt = 3 then
            do { (okay, returnedValue, w) \<leftarrow> parseToObject pf jDataObj w;
                 if \<not> okay \<and> JS_IsExceptionPending w then
                   do { (chars, scopedStr, w) \<leftarrow> ScopedJStringUTF8_getChars pf (new_ScopedJStringUTF8 jDataObj) w;
                        w \<leftarrow> ReportException pf (JS_GetPendingException w) jinstanceid chars w;
                        let w = JS_ClearPendingException w;
                        let w = delete_refs [jDataObj, jArg] w;
                        Some (None, delete_ScopedJStringUTF8 scopedStr w) }
                 else
                   Some (Some (argv @ [if okay then returnedValue else Undefined]),
                         delete_refs [jDataObj, jArg] w) }
          else Some (Some argv, delete_refs [jDataObj, jArg] w) }"

fun exec_args ::
  "platform \<Rightarrow> jref \<Rightarrow> jref \<Rightarrow> nat list \<Rightarrow> jsval list \<Rightarrow> world \<Rightarrow> (jsval list option \<times> world) option" where
  "exec_args pf jinstanceid jargs [] argv w = Some (Some argv, w)"
| "exec_args pf jinstanceid jargs (i # is) argv w =
     do { (r, w) \<leftarrow> exec_arg pf jinstanceid jargs i argv w;
          case r of None \<Rightarrow> Some (None, w) | Some argv \<Rightarrow> exec_args pf jinstanceid jargs is argv w }"

text \<open>The call itself: a function of the global object, or of the object the namespace names.\<close>

definition exec_call ::
  "platform \<Rightarrow> nat \<Rightarrow> jref \<Rightarrow> u8 list \<Rightarrow> jsval list \<Rightarrow> world \<Rightarrow> world option" where
  "exec_call pf glob jnamespace func argv w =
     (if jnamespace = 0 then
        do { let w = begin_scope pf ''CallFunctionName normal'' w;
             (r, w) \<leftarrow> JS_CallFunctionName pf glob func argv w;
             Some (end_scope pf ''CallFunctionName normal'' w) }
      else
        do { let w = begin_scope pf ''CallFunctionName namespace'' w;
             (ns, scoped, w) \<leftarrow> ScopedJStringUTF8_getChars pf (new_ScopedJStringUTF8 jnamespace) w;
             case GetProperty (w_heap w) glob (latin1_units ns) of
               Object master \<Rightarrow>
                 do { (r, w) \<leftarrow> JS_CallFunctionName pf master func argv w;
                      Some (end_scope pf ''CallFunctionName namespace'' (delete_ScopedJStringUTF8 scoped w)) }
             | _ \<Rightarrow> None })"

definition begin_exec_scope :: "platform \<Rightarrow> u8 list \<Rightarrow> world \<Rightarrow> world" where
  "begin_exec_scope pf func w =
     w\<lparr>w_trace := TraceScope (sys pf) (u8s ''weex'') (u8s ''exeJS'') (Some (u8s ''function'')) (Some func) (w_trace w)\<rparr>"

text \<open>From the call to the end: report what is pending, drain the queue, notify.\<close>

definition exec_run ::
  "platform \<Rightarrow> nat \<Rightarrow> jref \<Rightarrow> jref \<Rightarrow> u8 list \<Rightarrow> jsval list \<Rightarrow> world \<Rightarrow> (int \<times> world) option" where
  "exec_run pf glob jinstanceid jnamespace func argv w =
     do { w \<leftarrow> exec_call pf glob jnamespace func argv w;
          (rval, w) \<leftarrow>
            (if JS_IsExceptionPending w then
               do { w \<leftarrow> ReportException pf (JS_GetPendingException w) jinstanceid func w;
                    Some (0, JS_ClearPendingException w) }
             else Some (1, w));
          let w = begin_scope pf ''DrainJobQueue'' w;
          w \<leftarrow> DrainJobQueue pf w;
          let w = end_scope pf ''DrainJobQueue'' w;
          let w = begin_scope pf ''makeIdleNotification'' w;
          let w = makeIdleNotification w;
          let w = end_scope pf ''makeIdleNotification'' w;
          Some (rval, w) }"

definition native_execJS ::
  "platform \<Rightarrow> jref \<Rightarrow> jref \<Rightarrow> jref \<Rightarrow> jref \<Rightarrow> world \<Rightarrow> (int \<times> world) option" where
  "native_execJS pf jinstanceid jnamespace jfunction jargs w =
     (if jfunction = 0 \<or> jinstanceid = 0 then Some (0, w)
      else
        do { len \<leftarrow> (if jargs \<noteq> 0 then GetArrayLength jargs (w_jni w) else Some 0);
             glob \<leftarrow> (if globalContext w then globalObject w else None);
             (r, w) \<leftarrow> exec_args pf jinstanceid jargs [0..<len] [] w;
             case r of
               None \<Rightarrow> Some (0, w)
             | Some argv \<Rightarrow>
                 do { (func, scoped, w) \<leftarrow> ScopedJStringUTF8_getChars pf (new_ScopedJStringUTF8 jfunction) w;
                      let w = begin_exec_scope pf func w;
                      (rval, w) \<leftarrow> exec_run pf glob jinstanceid jnamespace func argv w;
                      let w = end_scope pf ''exeJS'' w;
                      Some (rval, delete_ScopedJStringUTF8 scoped w) } })"

section \<open>Initialisation\<close>

text \<open>
  \<open>native_initFramework\<close> after the global object exists: the global reference to the bridge object, the
  trace, the counters, the script, the version, the queue.
\<close>

definition init_run :: "platform \<Rightarrow> jref \<Rightarrow> nat \<Rightarrow> world \<Rightarrow> (int \<times> world) option" where
  "init_run pf script glob w =
     do { let w = begin_scope pf ''initFramework'' w;
          let w = w\<lparr>w_idle := resetIdleNotificationCount (w_idle w)\<rparr>;
          (ok, w) \<leftarrow>
            (if script \<noteq> 0 then
               do { (ok, w) \<leftarrow> ExecuteJavaScript pf script True w;
                    if \<not> ok then Some (False, w)
                    else do { w \<leftarrow> setJSFVersion pf glob w; Some (True, w) } }
             else Some (True, w));
          if \<not> ok then Some (0, end_scope pf ''initFramework'' w)
          else do { w \<leftarrow> DrainJobQueue pf w; Some (1, end_scope pf ''initFramework'' w) } }"

definition native_initFramework ::
  "platform \<Rightarrow> jref \<Rightarrow> jref \<Rightarrow> jref \<Rightarrow> world \<Rightarrow> (int \<times> world) option" where
  "native_initFramework pf object script params w =
     (if globalContext w then Some (0, w)
      else if \<not> JS_Init_ok (boot pf) then Some (0, w)
      else if \<not> new_context_ok (boot pf) then Some (0, w)
      else
        let w = w\<lparr>globalContext := True, w_exn := no_exn, w_heap := [], context_private := None\<rparr> in
        if \<not> self_hosted_ok (boot pf) then Some (0, w)
        else if \<not> shell_alloc_ok (boot pf) then Some (1, w)
        else
          let w = w\<lparr>context_private := Some new_ShellContext\<rparr> in
          if \<not> new_global_ok (boot pf) then Some (0, w)
          else
            let (glob, h) = alloc (plain []) (w_heap w); w = w\<lparr>w_heap := h\<rparr> in
            do { (ok, w) \<leftarrow> initGlobalObject pf params glob w;
                 if \<not> ok then Some (0, w)
                 else
                   do { let (this, w) = with_jni (NewGlobalRef object) w;
                        let w = w\<lparr>jThis := this, globalObject := Some glob\<rparr>;
                        (tr, j) \<leftarrow> StartATrace (jhost pf) (sys pf) (w_trace w) (w_jni w);
                        init_run pf script glob (w\<lparr>w_trace := tr, w_jni := j\<rparr>) } })"

section \<open>Loading and unloading the library\<close>

definition gMethods :: "(string \<times> string) list" where
  "gMethods =
     [(''initFramework'', ''(Ljava/lang/String;Lcom/taobao/weex/bridge/WXParams;)I''),
      (''execJS'', ''(Ljava/lang/String;Ljava/lang/String;Ljava/lang/String;[Lcom/taobao/weex/bridge/WXJSObject;)I''),
      (''takeHeapSnapshot'', ''(Ljava/lang/String;)V''),
      (''execJSService'', ''(Ljava/lang/String;)I'')]"

definition registerNativeMethods :: "platform \<Rightarrow> world \<Rightarrow> bool" where
  "registerNativeMethods pf w =
     (if jBridgeClazz w = 0 then False else register_ok (jhost pf))"

definition registerNatives :: "platform \<Rightarrow> world \<Rightarrow> bool" where
  "registerNatives pf w = registerNativeMethods pf w"

definition JNI_VERSION_1_4 :: int where
  "JNI_VERSION_1_4 = 0x00010004"

definition JNI_OnLoad :: "platform \<Rightarrow> world \<Rightarrow> int \<times> world" where
  "JNI_OnLoad pf w =
     (if \<not> get_env_ok (jhost pf) then (0, w)
      else
        let w = w\<lparr>sVm := True\<rparr>;
            (tempClass, w) = with_jni (FindClass (jhost pf) ''com/taobao/weex/bridge/WXBridge'') w;
            (bridge, w) = with_jni (NewGlobalRef tempClass) w;
            w = w\<lparr>jBridgeClazz := bridge\<rparr>;
            (tempClass, w) = with_jni (FindClass (jhost pf) ''com/taobao/weex/bridge/WXJSObject'') w;
            (jsobject, w) = with_jni (NewGlobalRef tempClass) w;
            w = w\<lparr>jWXJSObject := jsobject\<rparr>;
            (tempClass, w) = with_jni (FindClass (jhost pf) ''com/taobao/weex/utils/WXLogUtils'') w;
            (logutils, w) = with_jni (NewGlobalRef tempClass) w;
            w = w\<lparr>jWXLogUtils := logutils\<rparr>;
            w = delete_refs [tempClass] w
        in (if registerNatives pf w then JNI_VERSION_1_4 else 0, w))"

definition delete_globals :: "jref list \<Rightarrow> world \<Rightarrow> world" where
  "delete_globals rs w = upd_jni (fold DeleteGlobalRef rs) w"

text \<open>\<open>delete GetShellContext\<close> frees the shell context, if there is one; the pointer stays.\<close>

definition JNI_OnUnload :: "platform \<Rightarrow> world \<Rightarrow> world" where
  "JNI_OnUnload pf w =
     (if \<not> get_env_ok (jhost pf) then w
      else
        let w = delete_globals [jBridgeClazz w, jWXJSObject w, jWXLogUtils w, jThis w] w;
            (tr, j) = StopATrace (w_trace w) (w_jni w)
        in w\<lparr>w_trace := tr, w_jni := j\<rparr>)"

end
