(* ===== verification/NativeContract.thy ===== *)
theory NativeContract
  imports Framework
begin

text \<open>
  What the natives, the programs that call them and the draining of the queue do to the world as a
  whole: a relation that every elementary change respects, and every traced scope, is respected by all
  of them. The locales state the elementary changes as their assumptions; the interpretations give the
  frame of the bridge (what no native touches), the growth of the job queue and of the log of calls,
  and the balance of the trace.
\<close>

section \<open>Elementary changes of the JNI state\<close>

inductive jni_step :: "jni \<Rightarrow> jni \<Rightarrow> bool" where
  step_new: "jni_step j (snd (new_local obj j))"
| step_delete: "jni_step j (DeleteLocalRef r j)"
| step_pins: "jni_step j (j\<lparr>pinned := ps\<rparr>)"
| step_call: "jni_step j (j\<lparr>calls := calls j @ [c]\<rparr>)"
| step_region: "jni_step j (j\<lparr>locals := set_local r x (locals j)\<rparr>)"

definition jni_steps :: "jni \<Rightarrow> jni \<Rightarrow> bool" where
  "jni_steps = jni_step\<^sup>*\<^sup>*"

lemma jni_steps_refl [simp, intro]: "jni_steps j j"
  by (simp add: jni_steps_def)

lemma jni_steps_trans: "jni_steps j j1 \<Longrightarrow> jni_steps j1 j2 \<Longrightarrow> jni_steps j j2"
  unfolding jni_steps_def by (rule rtranclp_trans)

lemma jni_steps_step: "jni_step j j1 \<Longrightarrow> jni_steps j j1"
  by (simp add: jni_steps_def)

lemmas jni_step_steps = jni_step.intros [THEN jni_steps_step]

lemma jni_steps_ops:
  "jni_steps j (snd (NewStringUTF h bs j))"
  "jni_steps j (snd (NewByteArray n j))"
  "jni_steps j (snd (FindClass h name j))"
  "GetStringChars r j = Some (s, j1) \<Longrightarrow> jni_steps j j1"
  "GetStringUTFChars h r j = Some (u, j1) \<Longrightarrow> jni_steps j j1"
  "jni_steps j (ReleaseStringChars r j)"
  "jni_steps j (ReleaseStringUTFChars r j)"
  "SetByteArrayRegion r bs j = Some j2 \<Longrightarrow> jni_steps j j2"
  "GetObjectArrayElement r i j = Some (q, j1) \<Longrightarrow> jni_steps j j1"
  "GetObjectClass h r j = Some (q, j1) \<Longrightarrow> jni_steps j j1"
  "GetObjectField_data r j = Some (q, j1) \<Longrightarrow> jni_steps j j1"
  using step_new [THEN jni_steps_step, of j] jni_step_steps
  by (auto simp: NewStringUTF_def NewByteArray_def FindClass_def GetStringChars_def
      GetStringUTFChars_def ReleaseStringChars_def ReleaseStringUTFChars_def SetByteArrayRegion_def
      GetObjectArrayElement_def GetObjectClass_def GetObjectField_data_def
      split: option.splits jobj.splits if_splits; metis snd_conv)+

lemma invoke_steps: "invoke mid this args j = Some j2 \<Longrightarrow> jni_steps j j2"
  using jni_step_steps(4) by (auto simp: invoke_def split: option.splits if_splits)

lemma jni_steps_calls:
  "CallIntMethod h this mid args j = Some (n, j1) \<Longrightarrow> jni_steps j j1"
  "CallVoidMethod this mid args j = Some j1 \<Longrightarrow> jni_steps j j1"
  "CallObjectMethod h this mid args j = Some (q, j1) \<Longrightarrow> jni_steps j j1"
  "CallBooleanMethod h this mid args j = Some (b, j1) \<Longrightarrow> jni_steps j j1"
  unfolding CallIntMethod_def CallVoidMethod_def CallObjectMethod_def CallBooleanMethod_def
  by (auto elim!: bind_eq_SomeE simp: invoke_steps)
    (metis invoke_steps jni_step_steps(1) jni_steps_trans snd_conv)

lemma jni_steps_CallDoubleMethod: "CallDoubleMethod this mid j = Some (d, j1) \<Longrightarrow> jni_steps j j1"
  unfolding CallDoubleMethod_def
  by (erule bind_eq_SomeE) (auto simp: invoke_steps split: option.splits jobj.splits)

lemma jni_steps_delete_refs: "jni_steps j (fold DeleteLocalRef rs j)"
proof (induction rs arbitrary: j)
  case (Cons r rs)
  show ?case using jni_steps_trans [OF jni_step_steps(2) Cons.IH] by simp
qed simp

section \<open>What holds of a result\<close>

definition post :: "(world \<Rightarrow> world \<Rightarrow> bool) \<Rightarrow> world \<Rightarrow> ('a \<times> world) option \<Rightarrow> bool" where
  "post S w m \<longleftrightarrow> (\<forall>x w'. m = Some (x, w') \<longrightarrow> S w w')"

definition post1 :: "(world \<Rightarrow> world \<Rightarrow> bool) \<Rightarrow> world \<Rightarrow> world option \<Rightarrow> bool" where
  "post1 S w m \<longleftrightarrow> (\<forall>w'. m = Some w' \<longrightarrow> S w w')"

definition post3 :: "(world \<Rightarrow> world \<Rightarrow> bool) \<Rightarrow> world \<Rightarrow> ('a \<times> 'b \<times> world) option \<Rightarrow> bool" where
  "post3 S w m \<longleftrightarrow> (\<forall>x y w'. m = Some (x, y, w') \<longrightarrow> S w w')"

lemma post_Some: "S w w' \<Longrightarrow> post S w (Some (x, w'))"
  by (simp add: post_def)

lemma post1_Some: "S w w' \<Longrightarrow> post1 S w (Some w')"
  by (simp add: post1_def)

lemma post3_Some: "S w w' \<Longrightarrow> post3 S w (Some (x, y, w'))"
  by (simp add: post3_def)

lemma post_None: "post S w None" "post1 S w None" "post3 S w None"
  by (simp_all add: post_def post1_def post3_def)

lemma post_if:
  "(c \<Longrightarrow> post S w a) \<Longrightarrow> (\<not> c \<Longrightarrow> post S w b) \<Longrightarrow> post S w (if c then a else b)"
  "(c \<Longrightarrow> post1 S w a1) \<Longrightarrow> (\<not> c \<Longrightarrow> post1 S w b1) \<Longrightarrow> post1 S w (if c then a1 else b1)"
  by simp_all

lemma post_pure:
  "(\<And>x. m = Some x \<Longrightarrow> post S w (f x)) \<Longrightarrow> post S w (Option.bind m f)"
  "(\<And>x. m = Some x \<Longrightarrow> post1 S w (f1 x)) \<Longrightarrow> post1 S w (Option.bind m f1)"
  "(\<And>x. m = Some x \<Longrightarrow> post3 S w (f3 x)) \<Longrightarrow> post3 S w (Option.bind m f3)"
  by (cases m; simp add: post_None)+

lemma post_case_option:
  "(m = None \<Longrightarrow> post S w a) \<Longrightarrow> (\<And>x. m = Some x \<Longrightarrow> post S w (f x)) \<Longrightarrow> post S w (case_option a f m)"
  "(m = None \<Longrightarrow> post1 S w a1) \<Longrightarrow> (\<And>x. m = Some x \<Longrightarrow> post1 S w (f1 x)) \<Longrightarrow> post1 S w (case_option a1 f1 m)"
  by (cases m; simp)+

locale world_relation =
  fixes pf :: platform
    and R :: "world \<Rightarrow> world \<Rightarrow> bool"
  assumes R_refl: "R w w"
    and R_trans: "R w w1 \<Longrightarrow> R w1 w2 \<Longrightarrow> R w w2"
    and R_jni: "jni_steps (w_jni w) j \<Longrightarrow> R w (w\<lparr>w_jni := j\<rparr>)"
    and R_method_ids: "mid = None \<or> mid = Some (method_of var) \<Longrightarrow>
      R w (w\<lparr>method_ids := (method_ids w)(var := mid)\<rparr>)"
    and R_heap: "R w (w\<lparr>w_heap := h\<rparr>)"
    and R_throw: "R w (throw_exception v w)"
    and R_idle: "R w (w\<lparr>w_idle := s\<rparr>)"
    and R_gc: "R w (w\<lparr>gc_runs := n\<rparr>)"
    and R_scope: "R (w\<lparr>w_trace := TraceScope (sys pf) cat name key val (w_trace w)\<rparr>) w' \<Longrightarrow>
      R w (w'\<lparr>w_trace := end_TraceScope (sys pf) cat name (w_trace w')\<rparr>)"
begin

definition closed :: "(world \<Rightarrow> world \<Rightarrow> bool) \<Rightarrow> bool" where
  "closed S \<longleftrightarrow> (\<forall>w w1 w2. R w w1 \<longrightarrow> S w1 w2 \<longrightarrow> S w w2)"

lemma closed_R: "closed R"
  using R_trans by (auto simp: closed_def)

text \<open>What the body of a traced function does: it ends with the end of the scope.\<close>

definition scoped :: "string \<Rightarrow> world \<Rightarrow> world \<Rightarrow> bool" where
  "scoped name w w' \<longleftrightarrow> (\<exists>w1. w' = end_scope pf name w1 \<and> R w w1)"

lemma closed_scoped: "closed (scoped name)"
  using R_trans by (auto simp: closed_def scoped_def)

lemma scopedI: "R w w1 \<Longrightarrow> scoped name w (end_scope pf name w1)"
  by (auto simp: scoped_def)

lemma post_scope:
  "post (scoped name) (begin_scope pf name w) m \<Longrightarrow> post R w m"
  "post1 (scoped name) (begin_scope pf name w) m1 \<Longrightarrow> post1 R w m1"
  using R_scope by (fastforce simp: post_def post1_def scoped_def begin_scope_def end_scope_def)+

lemma post_bind:
  assumes "closed S" and "post R w m" and "\<And>x w1. m = Some (x, w1) \<Longrightarrow> post S w1 (f x w1)"
  shows "post S w (Option.bind m (case_prod f))"
  using assms unfolding closed_def post_def by (cases m) auto

lemma post1_bind:
  assumes "closed S" and "post R w m" and "\<And>x w1. m = Some (x, w1) \<Longrightarrow> post1 S w1 (f x w1)"
  shows "post1 S w (Option.bind m (case_prod f))"
  using assms unfolding closed_def post_def post1_def by (cases m) auto

lemma post3_bind:
  assumes "closed S" and "post R w m" and "\<And>x w1. m = Some (x, w1) \<Longrightarrow> post3 S w1 (f x w1)"
  shows "post3 S w (Option.bind m (case_prod f))"
  using assms unfolding closed_def post_def post3_def by (cases m) auto

lemma post_bind1:
  assumes "closed S" and "post1 R w m" and "\<And>w1. m = Some w1 \<Longrightarrow> post S w1 (f w1)"
  shows "post S w (Option.bind m f)"
  using assms unfolding closed_def post_def post1_def by (cases m) auto

lemma post1_bind1:
  assumes "closed S" and "post1 R w m" and "\<And>w1. m = Some w1 \<Longrightarrow> post1 S w1 (f w1)"
  shows "post1 S w (Option.bind m f)"
  using assms unfolding closed_def post1_def by (cases m) auto

lemma post_bind3:
  assumes "closed S" and "post3 R w m" and "\<And>x y w1. m = Some (x, y, w1) \<Longrightarrow> post S w1 (f x y w1)"
  shows "post S w (Option.bind m (\<lambda>(x, y, w1). f x y w1))"
  using assms unfolding closed_def post_def post3_def by (cases m) auto

lemma post1_bind3:
  assumes "closed S" and "post3 R w m" and "\<And>x y w1. m = Some (x, y, w1) \<Longrightarrow> post1 S w1 (f x y w1)"
  shows "post1 S w (Option.bind m (\<lambda>(x, y, w1). f x y w1))"
  using assms unfolding closed_def post1_def post3_def by (cases m) auto

lemma post3_bind3:
  assumes "closed S" and "post3 R w m" and "\<And>x y w1. m = Some (x, y, w1) \<Longrightarrow> post3 S w1 (f x y w1)"
  shows "post3 S w (Option.bind m (\<lambda>(x, y, w1). f x y w1))"
  using assms unfolding closed_def post3_def by (cases m) auto

lemma post_let:
  assumes "closed S" and "R w v"
  shows "post S v (f v) \<Longrightarrow> post S w (Let v f)"
    and "post1 S v (f1 v) \<Longrightarrow> post1 S w (Let v f1)"
  using assms unfolding closed_def post_def post1_def by (auto simp: Let_def)

lemma post_let_pair:
  assumes "closed S" and "R w (snd v)"
  shows "(\<And>x w1. v = (x, w1) \<Longrightarrow> post S w1 (f x w1)) \<Longrightarrow> post S w (Let v (case_prod f))"
    and "(\<And>x w1. v = (x, w1) \<Longrightarrow> post1 S w1 (f1 x w1)) \<Longrightarrow> post1 S w (Let v (case_prod f1))"
  using assms unfolding closed_def post_def post1_def by (cases v; simp add: Let_def; blast)+

lemma post_done:
  "closed S \<Longrightarrow> R w w1 \<Longrightarrow> S w1 w2 \<Longrightarrow> post S w (Some (x, w2))"
  "closed S \<Longrightarrow> R w w1 \<Longrightarrow> S w1 w2 \<Longrightarrow> post1 S w (Some w2)"
  unfolding closed_def post_def post1_def by blast+

lemma post_after: "R w w1 \<Longrightarrow> post R w1 m \<Longrightarrow> post R w m"
  unfolding post_def using R_trans by blast

lemma R_with_jni: "jni_steps (w_jni w) (snd (f (w_jni w))) \<Longrightarrow> R w (snd (with_jni f w))"
  by (simp add: with_jni_def split_beta R_jni)

lemma post_try_jni:
  "(\<And>x j. f (w_jni w) = Some (x, j) \<Longrightarrow> jni_steps (w_jni w) j) \<Longrightarrow> post R w (try_jni f w)"
  by (auto simp: post_def try_jni_def R_jni split: option.splits)

lemma post1_try_upd_jni:
  "(\<And>j. f (w_jni w) = Some j \<Longrightarrow> jni_steps (w_jni w) j) \<Longrightarrow> post1 R w (try_upd_jni f w)"
  by (auto simp: post1_def try_upd_jni_def R_jni split: option.splits)

lemma R_upd_jni: "jni_steps (w_jni w) (f (w_jni w)) \<Longrightarrow> R w (upd_jni f w)"
  by (simp add: upd_jni_def R_jni)

lemma R_delete_refs: "R w (delete_refs rs w)"
  unfolding delete_refs_def by (rule R_upd_jni) (rule jni_steps_delete_refs)

lemma post1_cache_method:
  assumes "method_of var = (name, sig)"
  shows "post1 R w (cache_method pf var clazz name sig w)"
proof -
  have "R w (w\<lparr>method_ids := (method_ids w)(var := mid)\<rparr>)" if "GetMethodID h c name sig j = Some mid" for h c j mid
    using that assms by (intro R_method_ids) (auto simp: GetMethodID_def split: option.splits if_splits)
  then show ?thesis by (auto simp: post1_def cache_method_def R_refl elim!: bind_eq_SomeE split: if_splits)
qed

lemma post_NewStringUTF: "R w (snd (with_jni (NewStringUTF h bs) w))"
  by (rule R_with_jni) (rule jni_steps_ops(1))

lemma post_scoped_strings:
  "post3 R w (ScopedJString_getChars s w)" "post3 R w (ScopedJStringUTF8_getChars pf u w)"
  "R w (delete_ScopedJString s w)" "R w (delete_ScopedJStringUTF8 u w)"
proof -
  show "post3 R w (ScopedJString_getChars s w)"
    using jni_steps_ops(4)
    by (auto simp: post3_def ScopedJString_getChars_def R_refl R_jni try_jni_def
        split: option.splits elim!: bind_eq_SomeE)
  show "post3 R w (ScopedJStringUTF8_getChars pf u w)"
    using jni_steps_ops(5)
    by (auto simp: post3_def ScopedJStringUTF8_getChars_def R_refl R_jni try_jni_def
        split: option.splits elim!: bind_eq_SomeE)
qed (auto simp: delete_ScopedJString_def delete_ScopedJStringUTF8_def R_refl
    intro!: R_upd_jni jni_steps_ops(6,7))

lemma post_jString2JSValue: "post R w (jString2JSValue str w)"
  unfolding jString2JSValue_def
  by (rule post_bind3 [OF closed_R post_scoped_strings(1)], rule post_pure)
    (auto intro!: post_Some post_scoped_strings)

lemma post3_parseToObject: "post3 R w (parseToObject pf r w)"
  unfolding parseToObject_def
proof (rule post3_bind3 [OF closed_R post_scoped_strings(1)], rule post_pure(3))
  fix str s w1 n
  have "R w1 (delete_ScopedJString s' (w1\<lparr>w_heap := h\<rparr>))"
    and "R w1 (delete_ScopedJString s' (throw_exception v w1))" for h v s'
    by (rule R_trans [OF R_heap post_scoped_strings(3)], rule R_trans [OF R_throw post_scoped_strings(3)])
  then show "post3 R w1 (case n of (strLen, s) \<Rightarrow>
      let (ok, v, w) = (case JS_ParseJSON (engine_fns.truncate (engine pf)) (take strLen str) (w_heap w1) of
          SyntaxError msg line column \<Rightarrow>
            (False, Undefined, throw_exception (syntax_exception (engine pf) msg line column) w1)
        | ParseOk v h \<Rightarrow> (True, v, w1\<lparr>w_heap := h\<rparr>))
      in Some (ok, v, delete_ScopedJString s w))"
    by (cases n) (simp split: parse_result.split add: post3_def)
qed

lemma post_getArgumentAsJString: "post R w (getArgumentAsJString pf args i w)"
  using post_NewStringUTF R_refl
  by (auto simp: post_def getArgumentAsJString_def split: option.splits if_splits) (metis snd_conv)+

lemma post_bytes_to_jbyteArray: "post R w (bytes_to_jbyteArray chars w)"
  unfolding bytes_to_jbyteArray_def
  by (rule post_let_pair [OF closed_R], rule R_with_jni, rule jni_steps_ops(2), rule post_bind1 [OF closed_R],
      rule post1_try_upd_jni, erule jni_steps_ops(8), rule post_Some, rule R_refl)

lemma post_getArgumentAsJByteArrayJSON: "post R w (getArgumentAsJByteArrayJSON pf args i w)"
proof -
  have "R w w'" if "bytes_to_jbyteArray chars (w\<lparr>w_heap := h\<rparr>) = Some (x, w')" for chars h x w'
    using that post_bytes_to_jbyteArray [of "w\<lparr>w_heap := h\<rparr>" chars] R_trans [OF R_heap]
    by (auto simp: post_def)
  then show ?thesis
    using R_refl R_throw
    by (auto simp: post_def getArgumentAsJByteArrayJSON_def JSONCreator_def elim!: bind_eq_SomeE
        split: jsval.splits sum.splits if_splits)
qed

lemma post_getArgumentAsJByteArray: "post R w (getArgumentAsJByteArray pf args i w)"
  unfolding getArgumentAsJByteArray_def
  using post_getArgumentAsJByteArrayJSON [of w args i] post_bytes_to_jbyteArray [of w]
  by (auto simp: post_None post_Some R_refl split: jsval.splits option.splits)

text \<open>The calls into Java, and the step rules of a traced native.\<close>

lemma post_calls:
  "post R w (try_jni (CallIntMethod h this mid args) w)"
  "post R w (try_jni (CallObjectMethod h this mid args) w)"
  "post R w (try_jni (CallDoubleMethod this mid) w)"
  "post1 R w (try_upd_jni (CallVoidMethod this mid args) w)"
  "post R w (try_jni (GetObjectField_data r) w)"
  "post R w (try_jni (GetObjectArrayElement r i) w)"
  "post R w (try_jni (GetObjectClass h r) w)"
  "post R w (try_jni (GetStringUTFChars h r) w)"
  by (rule post_try_jni post1_try_upd_jni,
      erule jni_steps_calls jni_steps_CallDoubleMethod jni_steps_ops)+

lemma post_let_scope:
  "post (scoped name) (begin_scope pf name w) (f (begin_scope pf name w)) \<Longrightarrow>
     post R w (Let (begin_scope pf name w) f)"
  using post_scope(1) by (simp add: Let_def)

lemma post_end_scope: "post (scoped name) w (Some (x, end_scope pf name w))"
  by (rule post_Some, rule scopedI, rule R_refl)

lemma post_call_doubleValue: "post R w (call_doubleValue pf r w)"
  unfolding call_doubleValue_def
proof (rule post_bind1 [OF closed_R])
  show "post1 R w (if method_ids w jDoubleValueMethodId \<noteq> None then Some w
      else let (clazz, w) = with_jni (FindClass (jhost pf) ''java/lang/Double'') w
           in do { w \<leftarrow> cache_method pf jDoubleValueMethodId clazz ''doubleValue'' ''()D'' w;
                   Some (delete_refs [clazz] w) })"
    by (rule post_if, rule post1_Some, rule R_refl, rule post_let_pair(2) [OF closed_R],
        rule R_with_jni, rule jni_steps_ops(3), rule post1_bind1 [OF closed_R post1_cache_method],
        rule method_of.simps, rule post1_Some, rule R_delete_refs)
qed (rule post_calls)

lemmas native_steps =
  post_bind [OF closed_scoped post_getArgumentAsJString]
  post_bind [OF closed_scoped post_getArgumentAsJByteArray]
  post_bind [OF closed_scoped post_getArgumentAsJByteArrayJSON]
  post_bind1 [OF closed_scoped post1_cache_method]
  post_bind [OF closed_scoped post_calls(1)]
  post_bind [OF closed_scoped post_calls(2)]
  post_bind1 [OF closed_scoped post_calls(4)]
  post_bind [OF closed_scoped post_calls(5)]
  post_let(1) [OF closed_scoped R_delete_refs]
  post_pure(1) [where m = "getJNIEnv pf w" for w]
  post_pure(1) [where m = "GetIntField_type r j" for r j]
  post_let_scope post_end_scope method_of.simps

lemma post_CallNative: "post R w (CallNative pf callee args w)"
  unfolding CallNative_def by (rule native_steps)+

lemma post_CallNativeComponent: "post R w (CallNativeComponent pf callee args w)"
  unfolding CallNativeComponent_def by (rule native_steps)+

lemma post_CallAddElement: "post R w (CallAddElement pf callee args w)"
  unfolding CallAddElement_def by (rule native_steps)+

lemma post_SetTimeoutNative: "post R w (SetTimeoutNative pf callee args w)"
  unfolding SetTimeoutNative_def by (rule native_steps)+

lemma post_module_result: "post R w (module_result pf callee t r w)"
  unfolding module_result_def
  by (rule post_if post_bind [OF closed_R post_call_doubleValue] post_bind [OF closed_R post_jString2JSValue]
      post_bind3 [OF closed_R post3_parseToObject] post_Some R_refl)+

lemma post_CallNativeModule: "post R w (CallNativeModule pf callee args w)"
  unfolding CallNativeModule_def
  by (rule native_steps post_bind [OF closed_scoped post_module_result])+

lemma post_NativeLog: "post R w (NativeLog pf callee args w)"
  unfolding NativeLog_def
  by (rule post_if post_case_option post_let_pair [OF closed_R] R_with_jni jni_steps_ops(1)
      post_bind1 [OF closed_R post1_cache_method] post_bind1 [OF closed_R post_calls(4)]
      post_pure(1) post_Some R_refl R_delete_refs method_of.simps)+

lemma post_run_native: "post R w (run_native pf n callee args w)"
  by (cases n) (simp_all add: post_CallNative post_CallNativeModule post_CallNativeComponent
      post_CallAddElement post_SetTimeoutNative post_NativeLog NotifyTrimMemory_def MarkupState_def
      GCAndSweep_def JS_GC_def post_Some R_gc R_idle)

text \<open>The environment object of the initialisation.\<close>

lemma post1_DefineString: "post1 R w (DefineString obj name str w)"
  unfolding DefineString_def Let_def
  by (rule post1_bind3 [OF closed_R post_scoped_strings(1)], rule post_pure(2), simp only: split_beta)
    (rule post1_Some, rule R_trans [OF R_heap post_scoped_strings(3)])

lemma post1_add_string: "post1 R w (add_string pf params c_params obj g w)"
  unfolding add_string_def
  by (rule post_pure(2) post1_bind [OF closed_R post_calls(2)] post1_bind1 [OF closed_R post1_DefineString]
      post1_Some R_delete_refs)+

lemma post1_add_strings: "post1 R w (add_strings pf params c_params obj gs w)"
proof (induction gs arbitrary: w)
  case Nil
  show ?case by (simp add: post1_Some R_refl)
next
  case (Cons g gs)
  show ?case unfolding add_strings.simps by (rule post1_bind1 [OF closed_R post1_add_string]) (rule Cons)
qed

lemma post1_define_option: "post1 R w
    (if b then do { (c_key, w) \<leftarrow> try_jni (GetStringUTFChars (jhost pf) jkey) w;
                    w \<leftarrow> DefineString obj c_key jvalue w;
                    let w = delete_refs rs w;
                    Some (if c then delete_refs rs' w else w) }
     else Some w)"
proof (rule post_if(2))
  show "post1 R w (do { (c_key, w) \<leftarrow> try_jni (GetStringUTFChars (jhost pf) jkey) w;
                        w \<leftarrow> DefineString obj c_key jvalue w;
                        let w = delete_refs rs w;
                        Some (if c then delete_refs rs' w else w) })"
    unfolding Let_def
    by (rule post1_bind [OF closed_R post_calls(8)], rule post1_bind1 [OF closed_R post1_DefineString],
        rule post1_Some) (simp add: R_delete_refs R_trans [OF R_delete_refs R_delete_refs])
qed (rule post1_Some, rule R_refl)

lemma post1_add_options: "post1 R w (add_options pf options jobjArray jgetmid obj is w)"
proof (induction "is" arbitrary: w)
  case Nil
  show ?case by (simp add: post1_Some R_refl)
next
  case (Cons i "is")
  show ?case
    unfolding add_options.simps
    by (rule post1_bind [OF closed_R post_calls(6)] post1_bind [OF closed_R post_calls(2)]
        post1_bind1 [OF closed_R post1_define_option] Cons)+
qed

lemma post1_option_objects: "post1 R w
    (if b then do { arraysize \<leftarrow> GetArrayLength jobjArray (w_jni w);
                    w \<leftarrow> add_options pf options jobjArray jgetmid obj [0..<arraysize] w;
                    Some (delete_refs [jobjArray] w) }
     else Some w)"
proof (rule post_if(2))
  show "post1 R w (Some w)" by (rule post1_Some) (rule R_refl)
  show "post1 R w (do { arraysize \<leftarrow> GetArrayLength jobjArray (w_jni w);
                        w \<leftarrow> add_options pf options jobjArray jgetmid obj [0..<arraysize] w;
                        Some (delete_refs [jobjArray] w) })"
    by (rule post_pure(2), rule post1_bind1 [OF closed_R post1_add_options]) (rule post1_Some, rule R_delete_refs)
qed

lemma post1_initWXEnvironment: "post1 R w (initWXEnvironment pf params glob w)"
proof -
  have last: "post1 R w (let w = delete_refs rs w in Some (w\<lparr>w_heap := h w\<rparr>))" for rs w h
    unfolding Let_def by (rule post1_Some, rule R_trans [OF R_delete_refs R_heap])
  have heap: "post1 R w (let (n, h) = m; w = w\<lparr>w_heap := h\<rparr> in f n w)" if "\<And>n w. post1 R w (f n w)" for w m f
    using that R_trans [OF R_heap] by (cases m) (fastforce simp: post1_def Let_def)
  show ?thesis
    unfolding initWXEnvironment_def
    by (rule heap)
      (rule post1_bind [OF closed_R post_calls(7)] post1_bind1 [OF closed_R post1_add_strings]
        last post1_bind1 [OF closed_R post1_option_objects] post1_bind [OF closed_R post_calls(2)] post_pure(2) post_let_pair(2) [OF closed_R] R_with_jni
        jni_steps_ops(3) post_let(2) [OF closed_R R_delete_refs])+
qed

lemma post_initGlobalObject: "post R w (initGlobalObject pf params glob w)"
proof -
  have "post R w (do { w \<leftarrow> initWXEnvironment pf params glob w; Some (True, w) })" for w
    by (rule post_bind1 [OF closed_R post1_initWXEnvironment], rule post_Some, rule R_refl)
  then show ?thesis
    unfolding initGlobalObject_def initFunction_def
    by (auto simp: Let_def intro: post_after [OF R_heap] post_Some R_refl)
qed

end

section \<open>Programs\<close>

locale program_relation = world_relation +
  assumes R_exn: "R w (w\<lparr>w_exn := x\<rparr>)"
    and R_enqueue: "context_private w = Some sc \<Longrightarrow> R w (set_sc (sc\<lparr>jobQueue := jobQueue sc @ [Some job]\<rparr>) w)"
    and R_start: "context_private w = Some sc \<Longrightarrow>
      R w (set_sc (sc\<lparr>running := running sc @ [task], outstanding := outstanding sc + 1\<rparr>) w)"
begin

lemma post1_enqueue: "post1 R w (ShellEnqueuePromiseJobCallback job w)"
  by (auto simp: post1_def ShellEnqueuePromiseJobCallback_def GetShellContext_def R_enqueue elim!: bind_eq_SomeE)

lemma post1_start: "post1 R w (ShellStartAsyncTaskCallback task w)"
  using R_start by (auto simp: post1_def ShellStartAsyncTaskCallback_def GetShellContext_def elim!: bind_eq_SomeE)

lemma R_clear: "R w (JS_ClearPendingException w)"
  unfolding JS_ClearPendingException_def by (rule R_exn)

lemma post_after1: "R w w1 \<Longrightarrow> post1 R w1 m \<Longrightarrow> post1 R w m"
  unfolding post1_def using R_trans by blast

lemma post_run_js: "post R w (run_js pf p w)"
proof (induction p arbitrary: w)
  case (Native n callee args k)
  show ?case
    unfolding run_js.simps by (rule post_bind [OF closed_R post_run_native]) (simp add: Native)
next
  case (Enqueue job p)
  show ?case
    unfolding run_js.simps by (rule post_bind1 [OF closed_R post1_enqueue]) (rule Enqueue)
next
  case (StartAsync task p)
  show ?case
    unfolding run_js.simps by (rule post_bind1 [OF closed_R post1_start]) (rule StartAsync)
next
  case (Ret v)
  show ?case unfolding run_js.simps by (rule post_Some) (rule R_refl)
next
  case (Throw v)
  show ?case unfolding run_js.simps by (rule post_Some) (rule R_throw)
next
  case (Caught p)
  show ?case unfolding run_js.simps by (rule post_after [OF R_clear]) (rule Caught)
next
  case (Read k)
  show ?case unfolding run_js.simps by (rule Read) (rule rangeI)
next
  case (Update f p)
  show ?case unfolding run_js.simps by (rule post_after [OF R_heap]) (rule Update)
qed

lemma post_JS_CallFunctionName: "post R w (JS_CallFunctionName pf obj name args w)"
  unfolding JS_CallFunctionName_def Let_def by (rule post_if post_run_js post_Some R_throw)+

lemma R_save: "R w (snd (AutoSaveExceptionState w))"
  by (simp add: AutoSaveExceptionState_def Let_def R_exn)

lemma R_restore: "R w (delete_AutoSaveExceptionState saved w)"
  by (simp add: delete_AutoSaveExceptionState_def Let_def R_exn R_refl)

lemma post1_reportException: "post1 R w (reportException pf r f e w)"
  unfolding reportException_def
  by (rule post_pure(2) post_let_pair(2) [OF closed_R] R_with_jni jni_steps_ops(1)
      post1_bind1 [OF closed_R post_calls(4)] post1_Some R_delete_refs)+

lemma post1_ReportException: "post1 R w (ReportException pf v r f w)"
  unfolding ReportException_def
  by (cases v) (auto simp: post1_reportException intro: post_pure(2))

lemma post1_report: "post1 R w (if c then ReportException pf v r f w else Some w)"
  by (rule post_if post1_ReportException post1_Some R_refl)+

lemma post_ExecuteJavaScript: "post R w (ExecuteJavaScript pf source report w)"
  unfolding ExecuteJavaScript_def
  by (rule post_let_pair(1) [OF closed_R R_save] post_bind3 [OF closed_R post_scoped_strings(1)]
      post_pure(1) post_bind [OF closed_R post_run_js] post_bind1 [OF closed_R post1_report]
      post_let(1) [OF closed_R post_scoped_strings(3)] post_Some R_restore | simp only: split_paired_all prod.case)+

end

section \<open>Sessions\<close>

locale session_relation = program_relation +
  assumes R_context: "R w (w\<lparr>context_private := c\<rparr>)"
begin

lemma R_set_sc: "R w (set_sc sc w)"
  unfolding set_sc_def by (rule R_context)

lemma post1_finish_tasks: "post1 R w (finish_tasks pf tasks w)"
proof (induction tasks arbitrary: w)
  case Nil
  show ?case by (simp add: post1_Some R_refl)
next
  case (Cons task tasks)
  show ?case
    unfolding finish_tasks.simps by (rule post1_bind [OF closed_R post_run_js]) (rule Cons)
qed

lemma post1_drain_turn: "post1 R w (drain_turn pf i w)"
  unfolding drain_turn_def
  by (rule post_pure(2) post_let_pair(2) [OF closed_R R_save] post1_bind [OF closed_R post_run_js]
      post_let(2) [OF closed_R R_restore] post1_Some R_set_sc)+

lemma post1_drain_loop: "post1 R w (drain_loop pf i w)"
proof -
  have "pf' = pf \<longrightarrow> R w w'" if "drain_loop pf' i w = Some w'" for pf' w'
    using that
  proof (rule drain_loop.raw_induct [rotated, of pf' i w w' "\<lambda>pf' i w w'. pf' = pf \<longrightarrow> R w w'"], intro impI)
    fix loop i v v' pf'
    assume hyp: "\<And>pf' i v v'. loop pf' i v = Some v' \<Longrightarrow> pf' = pf \<longrightarrow> R v v'"
      and run': "do { sc \<leftarrow> GetShellContext v;
          if i < length (jobQueue sc) then do { v \<leftarrow> drain_turn pf' i v; loop pf' (i + 1) v } else Some v } = Some v'"
      and pf: "pf' = pf"
    have IH: "\<And>i v v'. loop pf i v = Some v' \<Longrightarrow> R v v'" using hyp by blast
    note run = run' [unfolded pf]
    have "post1 R v (do { sc \<leftarrow> GetShellContext v;
          if i < length (jobQueue sc) then do { v \<leftarrow> drain_turn pf i v; loop pf (i + 1) v } else Some v })"
    proof (rule post_pure(2), rule post_if(2))
      show "post1 R v (do { v \<leftarrow> drain_turn pf i v; loop pf (i + 1) v })"
        by (rule post1_bind1 [OF closed_R post1_drain_turn]) (simp add: post1_def IH)
    qed (rule post1_Some, rule R_refl)
    then show "R v v'" using run by (simp add: post1_def)
  qed
  then show ?thesis by (simp add: post1_def)
qed

lemma post1_DrainJobQueue: "post1 R w (DrainJobQueue pf w)"
  unfolding DrainJobQueue_def Let_def
  by (rule post_pure(2) post_if(2) post1_Some R_refl
      post_after1 [OF R_set_sc post1_bind1 [OF closed_R post1_finish_tasks]]
      post_after1 [OF R_set_sc post1_bind1 [OF closed_R post1_drain_loop]] R_set_sc)+

text \<open>The functions Java calls.\<close>

lemma post_jversion: "post1 R w
    (do { utf8 \<leftarrow> JS_EncodeStringToUTF8 pf info;
          mid \<leftarrow> GetMethodID (jhost pf) (jBridgeClazz w) name sig (w_jni w);
          let (jversion, w) = with_jni (NewStringUTF (jhost pf) utf8) w;
          w \<leftarrow> try_upd_jni (CallVoidMethod (jThis w) mid [jversion]) w;
          Some (delete_refs [jversion] w) })"
  by (rule post_pure(2) post_let_pair(2) [OF closed_R] R_with_jni jni_steps_ops(1)
      post1_bind1 [OF closed_R post_calls(4)] post1_Some R_delete_refs)+

lemma post1_report_clear:
  "post1 R w (do { w \<leftarrow> ReportException pf v r f w; Some (JS_ClearPendingException w) })"
  by (rule post1_bind1 [OF closed_R post1_ReportException]) (rule post1_Some, rule R_clear)

lemma post1_setJSFVersion: "post1 R w (setJSFVersion pf glob w)"
  unfolding setJSFVersion_def
proof (rule post1_bind [OF closed_R post_JS_CallFunctionName])
  fix r w1
  show "post1 R w1 (case r of None \<Rightarrow> Some w1
        | Some version \<Rightarrow>
            (if JS_IsExceptionPending w1 then
               do { w \<leftarrow> ReportException pf (JS_GetPendingException w1) 0 [] w1;
                    Some (JS_ClearPendingException w) }
             else case version of
                 Str info \<Rightarrow>
                   do { utf8 \<leftarrow> JS_EncodeStringToUTF8 pf info;
                        mid \<leftarrow> GetMethodID (jhost pf) (jBridgeClazz w1) ''setJSFrmVersion''
                                 ''(Ljava/lang/String;)V'' (w_jni w1);
                        let (jversion, w) = with_jni (NewStringUTF (jhost pf) utf8) w1;
                        w \<leftarrow> try_upd_jni (CallVoidMethod (jThis w) mid [jversion]) w;
                        Some (delete_refs [jversion] w) }
               | _ \<Rightarrow> Some w1))"
    using post_jversion [of w1] post1_report_clear [of w1]
    by (auto simp: post1_Some R_refl split: option.splits jsval.splits)
qed

lemma post_drain: "post R w (do { w \<leftarrow> DrainJobQueue pf w; Some (x, w) })"
  by (rule post_bind1 [OF closed_R post1_DrainJobQueue]) (rule post_Some, rule R_refl)

lemma post_native_execJSService: "post R w (native_execJSService pf script w)"
  unfolding native_execJSService_def
  by (rule post_if post_bind [OF closed_R post_ExecuteJavaScript] post_drain post_Some R_refl)+

lemma R_idle_notification: "R w (makeIdleNotification w)"
  using R_trans [OF R_idle R_gc]
  by (simp add: makeIdleNotification_def JS_GC_def R_idle Let_def split: prod.split)

lemma post_report_parse: "post R w
    (do { (chars, scopedStr, w) \<leftarrow> ScopedJStringUTF8_getChars pf u w;
          w \<leftarrow> ReportException pf (JS_GetPendingException w) r chars w;
          let w = JS_ClearPendingException w;
          let w = delete_refs rs w;
          Some (x, delete_ScopedJStringUTF8 scopedStr w) })"
  unfolding Let_def
  by (rule post_bind3 [OF closed_R post_scoped_strings(2)], rule post_bind1 [OF closed_R post1_ReportException],
      rule post_Some, rule R_trans [OF R_trans [OF R_clear R_delete_refs] post_scoped_strings(4)])

lemma post_exec_arg: "post R w (exec_arg pf jinstanceid jargs i argv w)"
  unfolding exec_arg_def
  by (rule post_bind [OF closed_R post_calls(6)] post_pure(1) post_bind [OF closed_R post_calls(5)]
      post_if post_bind [OF closed_R post_call_doubleValue] post_bind [OF closed_R post_jString2JSValue]
      post_bind3 [OF closed_R post3_parseToObject] post_report_parse post_Some R_delete_refs
      | simp only: prod.case)+

lemma post_exec_args: "post R w (exec_args pf jinstanceid jargs is argv w)"
proof (induction "is" arbitrary: argv w)
  case Nil
  show ?case by (simp add: post_Some R_refl)
next
  case (Cons i "is")
  show ?case
    unfolding exec_args.simps
    by (rule post_bind [OF closed_R post_exec_arg])
      (use Cons in \<open>auto simp: post_Some R_refl split: option.split\<close>)
qed

lemma post1_let_scope:
  "post1 (scoped name) (begin_scope pf name w) (f (begin_scope pf name w)) \<Longrightarrow>
     post1 R w (Let (begin_scope pf name w) f)"
  using post_scope(2) by (simp add: Let_def)

lemma post1_end_scope: "R w w1 \<Longrightarrow> post1 (scoped name) w (Some (end_scope pf name w1))"
  by (rule post1_Some, rule scopedI)

lemma post1_exec_call: "post1 R w (exec_call pf glob jnamespace func argv w)"
proof -
  have call: "post1 (scoped n) w1 (do { (r, w) \<leftarrow> JS_CallFunctionName pf g f a w1; Some (end_scope pf n (h w)) })"
    if "\<And>w. R w (h w)" for n w1 g f a h
    by (rule post1_bind [OF closed_scoped post_JS_CallFunctionName]) (rule post1_end_scope, rule that)
  have object: "post1 (scoped n) w1 (case v of
        Object master \<Rightarrow> do { (r, w) \<leftarrow> JS_CallFunctionName pf master f a w1; Some (end_scope pf n (h w)) }
      | _ \<Rightarrow> None)" if "\<And>w. R w (h w)" for n w1 v f a h
    using call [OF that] by (cases v) (simp_all add: post_None)
  show ?thesis
    unfolding exec_call_def
    by (rule post_if(2) post1_let_scope call [where h = "\<lambda>w. w"] R_refl
        post1_bind3 [OF closed_scoped post_scoped_strings(2)] object post_scoped_strings(4))+
qed

lemma post_report_rval: "post R w
    (if JS_IsExceptionPending w then
       do { w \<leftarrow> ReportException pf (JS_GetPendingException w) jinstanceid func w;
            Some (0, JS_ClearPendingException w) }
     else Some (1, w))"
  by (rule post_if post_bind1 [OF closed_R post1_ReportException] post_Some R_clear R_refl)+

text \<open>The notification and its scope.\<close>

lemma R_scoped_notification:
  "R w (end_scope pf n (makeIdleNotification (begin_scope pf n w)))"
  using R_scope [OF R_idle_notification] unfolding begin_scope_def end_scope_def .

lemma post_exec_run: "post R w (exec_run pf glob jinstanceid jnamespace func argv w)"
proof -
  have drain: "post R w (do { w \<leftarrow> DrainJobQueue pf (begin_scope pf n w);
      Some (x, end_scope pf n' (makeIdleNotification (begin_scope pf n' (end_scope pf n w)))) })" for n n' x w
  proof (unfold post_def, intro allI impI)
    fix x' w'
    assume "do { w \<leftarrow> DrainJobQueue pf (begin_scope pf n w);
      Some (x, end_scope pf n' (makeIdleNotification (begin_scope pf n' (end_scope pf n w)))) } = Some (x', w')"
    then obtain w1 where w1: "DrainJobQueue pf (begin_scope pf n w) = Some w1"
      and w': "w' = end_scope pf n' (makeIdleNotification (begin_scope pf n' (end_scope pf n w1)))"
      by (auto elim: bind_eq_SomeE)
    have "R (begin_scope pf n w) w1" using post1_DrainJobQueue w1 by (simp add: post1_def)
    then have "R w (end_scope pf n w1)" using R_scope unfolding begin_scope_def end_scope_def by blast
    then show "R w w'" unfolding w' by (rule R_trans) (rule R_scoped_notification)
  qed
  show ?thesis
    unfolding exec_run_def Let_def
    by (rule post_bind1 [OF closed_R post1_exec_call] post_bind [OF closed_R post_report_rval] drain)+
qed

lemma post_native_execJS: "post R w (native_execJS pf jinstanceid jnamespace jfunction jargs w)"
proof -
  have exe: "post R w (do { (rval, w) \<leftarrow> exec_run pf glob jinstanceid jnamespace func argv (begin_exec_scope pf func w);
      Some (rval, delete_ScopedJStringUTF8 u (end_scope pf ''exeJS'' w)) })" for w glob func argv u
  proof (unfold post_def, intro allI impI)
    fix x w'
    assume "do { (rval, w) \<leftarrow> exec_run pf glob jinstanceid jnamespace func argv (begin_exec_scope pf func w);
      Some (rval, delete_ScopedJStringUTF8 u (end_scope pf ''exeJS'' w)) } = Some (x, w')"
    then obtain w1 where "exec_run pf glob jinstanceid jnamespace func argv (begin_exec_scope pf func w) = Some (x, w1)"
      and w': "w' = delete_ScopedJStringUTF8 u (end_scope pf ''exeJS'' w1)"
      by (auto elim: bind_eq_SomeE)
    then have "R (begin_exec_scope pf func w) w1" using post_exec_run by (auto simp: post_def)
    then have "R w (end_scope pf ''exeJS'' w1)" using R_scope unfolding begin_exec_scope_def end_scope_def by blast
    then show "R w w'" unfolding w' by (rule R_trans) (rule post_scoped_strings(4))
  qed
  have tail: "post R w (case r of None \<Rightarrow> Some (0, w)
      | Some argv \<Rightarrow> do { (func, scoped, w) \<leftarrow> ScopedJStringUTF8_getChars pf u w;
          (rval, w) \<leftarrow> exec_run pf glob jinstanceid jnamespace func argv (begin_exec_scope pf func w);
          Some (rval, delete_ScopedJStringUTF8 scoped (end_scope pf ''exeJS'' w)) })" for r u glob w
    by (cases r) (simp_all add: post_Some R_refl post_bind3 [OF closed_R post_scoped_strings(2) exe])
  show ?thesis
    unfolding native_execJS_def Let_def
    by (rule post_if(1) post_Some R_refl post_bind [OF closed_R post_exec_args] tail post_pure(1))+
qed

lemma post_script_run: "post R w
    (if script \<noteq> 0 then
       do { (ok, w) \<leftarrow> ExecuteJavaScript pf script True w;
            if \<not> ok then Some (False, w)
            else do { w \<leftarrow> setJSFVersion pf glob w; Some (True, w) } }
     else Some (True, w))"
  by (rule post_if post_bind [OF closed_R post_ExecuteJavaScript]
      post_bind1 [OF closed_R post1_setJSFVersion] post_Some R_refl)+

lemma post_init_run: "post R w (init_run pf script glob w)"
proof -
  have finish: "post (scoped n) w (if \<not> ok then Some (x, end_scope pf n w)
      else do { w \<leftarrow> DrainJobQueue pf w; Some (y, end_scope pf n w) })" for n w ok x y
    by (rule post_if post_end_scope post_bind1 [OF closed_scoped post1_DrainJobQueue])+
  have idle: "post (scoped n) w (let w = w\<lparr>w_idle := s w\<rparr> in f w)" if "\<And>w. post (scoped n) w (f w)" for n w s f
    using that closed_scoped R_idle by (fastforce simp: Let_def post_def closed_def)
  show ?thesis
    unfolding init_run_def
    by (rule post_let_scope idle post_bind [OF closed_scoped post_script_run] finish)+
qed

end

end
