(* ===== verification/BridgeContract.thy ===== *)
theory BridgeContract
  imports NativeContract "HOL-Library.Sublist"
begin

text \<open>
  The interpretations of the locales of \<open>NativeContract\<close> on the world of the bridge, and what they give
  for the functions Java calls: the trace stays balanced, the statics and the global references stay
  what they are, the log of calls only grows, the reference tables stay well formed, a program only
  appends to the job queue, and a program that catches nothing leaves a pending exception pending.
\<close>

section \<open>The trace\<close>

definition trace_kept :: "platform \<Rightarrow> world \<Rightarrow> world \<Rightarrow> bool" where
  "trace_kept pf w w' \<longleftrightarrow> trace_balanced (sys pf) (w_trace w) (w_trace w')"

interpretation tr: session_relation pf "trace_kept pf" for pf
proof
  show "trace_kept pf w w1 \<Longrightarrow> trace_kept pf w1 w2 \<Longrightarrow> trace_kept pf w w2" for w w1 w2
    unfolding trace_kept_def by (rule trace_balanced_trans)
  show "trace_kept pf (w\<lparr>w_trace := TraceScope (sys pf) cat name key val (w_trace w)\<rparr>) w' \<Longrightarrow>
      trace_kept pf w (w'\<lparr>w_trace := end_TraceScope (sys pf) cat name (w_trace w')\<rparr>)" for w w' cat name key val
    unfolding trace_kept_def by (simp add: trace_balanced_scope)
qed (simp_all add: trace_kept_def set_sc_def throw_exception_def)

section \<open>The frame\<close>

text \<open>What is written by the loading of the library and by the initialisation only.\<close>

definition frame_kept :: "world \<Rightarrow> world \<Rightarrow> bool" where
  "frame_kept w w' \<longleftrightarrow>
     jBridgeClazz w' = jBridgeClazz w \<and> jWXJSObject w' = jWXJSObject w \<and> jWXLogUtils w' = jWXLogUtils w \<and>
     jThis w' = jThis w \<and> sVm w' = sVm w \<and> globalContext w' = globalContext w \<and>
     globalObject w' = globalObject w \<and> jTraceClass (w_trace w') = jTraceClass (w_trace w) \<and>
     globals (w_jni w') = globals (w_jni w) \<and> prefix (calls (w_jni w)) (calls (w_jni w'))"

lemma jni_step_frame: "jni_step j j' \<Longrightarrow> globals j' = globals j \<and> prefix (calls j) (calls j')"
  by (cases rule: jni_step.cases) (auto simp: new_local_def DeleteLocalRef_def split: option.split)

lemma jni_steps_frame: "jni_steps j j' \<Longrightarrow> globals j' = globals j \<and> prefix (calls j) (calls j')"
  unfolding jni_steps_def
  by (induction rule: rtranclp_induct) (use jni_step_frame prefix_order.trans in fastforce)+

lemma jTraceClass_scope [simp]:
  "jTraceClass (TraceScope os cat name key val st) = jTraceClass st"
  "jTraceClass (end_TraceScope os cat name st) = jTraceClass st"
  by (simp_all add: TraceScope_def TRACE_EVENT_BEGIN1_def end_TraceScope_def TRACE_EVENT_END0_def
      SendToATrace_def WriteEvent_line SetArgs_def new_TraceEvent_def)

interpretation fr: session_relation pf frame_kept for pf
proof
  show "frame_kept w w1 \<Longrightarrow> frame_kept w1 w2 \<Longrightarrow> frame_kept w w2" for w w1 w2
    unfolding frame_kept_def using prefix_order.trans by metis
qed (auto simp: frame_kept_def set_sc_def throw_exception_def dest: jni_steps_frame)

section \<open>Reference tables\<close>

definition wf_kept :: "world \<Rightarrow> world \<Rightarrow> bool" where
  "wf_kept w w' \<longleftrightarrow> (jni_wf (w_jni w) \<longrightarrow> jni_wf (w_jni w'))"

lemma jni_step_wf: "jni_step j j' \<Longrightarrow> jni_wf j \<Longrightarrow> jni_wf j'"
proof (induction rule: jni_step.induct)
  case (step_new j obj)
  then show ?case by (rule jni_wf_new_local)
next
  case (step_delete j r)
  then show ?case by (rule jni_wf_delete)
next
  case (step_region j r x)
  have "fst ` set (set_local r x (locals j)) = fst ` set (locals j)"
    by (force simp: set_local_def image_iff)
  then show ?case using step_region by (simp add: jni_wf_def live_def)
qed (simp_all add: jni_wf_def live_def)

lemma jni_steps_wf: "jni_steps j j' \<Longrightarrow> jni_wf j \<Longrightarrow> jni_wf j'"
  unfolding jni_steps_def by (induction rule: rtranclp_induct) (auto intro: jni_step_wf)

interpretation jw: session_relation pf wf_kept for pf
  by unfold_locales (auto simp: wf_kept_def set_sc_def throw_exception_def dest: jni_steps_wf)

section \<open>Cached method IDs\<close>

definition cache_ok :: "world \<Rightarrow> bool" where
  "cache_ok w \<longleftrightarrow> (\<forall>var. method_ids w var = None \<or> method_ids w var = Some (method_of var))"

definition cache_kept :: "world \<Rightarrow> world \<Rightarrow> bool" where
  "cache_kept w w' \<longleftrightarrow> (cache_ok w \<longrightarrow> cache_ok w')"

interpretation ca: session_relation pf cache_kept for pf
  by unfold_locales (auto simp: cache_kept_def cache_ok_def set_sc_def throw_exception_def)

section \<open>The job queue\<close>

text \<open>What a program does to the shell context: it appends jobs and starts tasks.\<close>

definition queue_kept :: "world \<Rightarrow> world \<Rightarrow> bool" where
  "queue_kept w w' \<longleftrightarrow>
     (case context_private w of
        None \<Rightarrow> context_private w' = None
      | Some sc \<Rightarrow> (\<exists>js ts. context_private w' = Some (sc\<lparr>jobQueue := jobQueue sc @ map Some js,
            running := running sc @ ts, outstanding := outstanding sc + length ts\<rparr>)))"

lemma queue_kept_None: "context_private w = None \<Longrightarrow> queue_kept w w' \<longleftrightarrow> context_private w' = None"
  by (simp add: queue_kept_def)

lemma queue_kept_trans: "queue_kept w w1 \<Longrightarrow> queue_kept w1 w2 \<Longrightarrow> queue_kept w w2"
proof (cases "context_private w")
  case (Some sc)
  assume "queue_kept w w1" and w2: "queue_kept w1 w2"
  then obtain js ts where w1: "context_private w1 = Some (sc\<lparr>jobQueue := jobQueue sc @ map Some js,
      running := running sc @ ts, outstanding := outstanding sc + length ts\<rparr>)"
    unfolding queue_kept_def Some by auto
  then obtain js' ts' where "context_private w2 = Some (sc\<lparr>jobQueue := jobQueue sc @ map Some (js @ js'),
      running := running sc @ (ts @ ts'), outstanding := outstanding sc + length (ts @ ts')\<rparr>)"
    using w2 unfolding queue_kept_def by (auto simp: ac_simps)
  then show ?thesis unfolding queue_kept_def Some option.case by blast
qed (simp add: queue_kept_None)

lemma queue_kept_same: "context_private w' = context_private w \<Longrightarrow> queue_kept w w'"
proof (cases "context_private w")
  case (Some sc)
  assume "context_private w' = context_private w"
  then have "context_private w' = Some (sc\<lparr>jobQueue := jobQueue sc @ map Some [],
      running := running sc @ [], outstanding := outstanding sc + length []\<rparr>)" using Some by simp
  then show ?thesis unfolding queue_kept_def Some option.case by blast
qed (simp add: queue_kept_def)

lemma queue_kept_append:
  "context_private w = Some sc \<Longrightarrow> queue_kept w (set_sc (sc\<lparr>jobQueue := jobQueue sc @ map Some js,
     running := running sc @ ts, outstanding := outstanding sc + length ts\<rparr>) w)"
  unfolding queue_kept_def set_sc_def by auto

interpretation qu: program_relation pf queue_kept for pf
proof
  show "queue_kept w w1 \<Longrightarrow> queue_kept w1 w2 \<Longrightarrow> queue_kept w w2" for w w1 w2
    by (rule queue_kept_trans)
  show "context_private w = Some sc \<Longrightarrow>
      queue_kept w (set_sc (sc\<lparr>jobQueue := jobQueue sc @ [Some job]\<rparr>) w)" for w sc job
    using queue_kept_append [where js = "[job]" and ts = "[]"] by simp
  show "context_private w = Some sc \<Longrightarrow>
      queue_kept w (set_sc (sc\<lparr>running := running sc @ [task], outstanding := outstanding sc + 1\<rparr>) w)" for w sc task
    using queue_kept_append [where js = "[]" and ts = "[task]"] by simp
  show "queue_kept (w\<lparr>w_trace := TraceScope (sys pf) cat name key val (w_trace w)\<rparr>) w' \<Longrightarrow>
      queue_kept w (w'\<lparr>w_trace := end_TraceScope (sys pf) cat name (w_trace w')\<rparr>)" for w w' cat name key val
    by (cases "context_private w") (simp_all add: queue_kept_def)
qed (simp_all add: queue_kept_same throw_exception_def)

section \<open>The pending exception\<close>

text \<open>
  No native clears an exception that is pending, it can at most replace it. A program that enters no catch clause
  does not either.
\<close>

definition pending_kept :: "world \<Rightarrow> world \<Rightarrow> bool" where
  "pending_kept w w' \<longleftrightarrow> (JS_IsExceptionPending w \<longrightarrow> JS_IsExceptionPending w')"

interpretation pe: world_relation pf pending_kept for pf
  by unfold_locales (auto simp: pending_kept_def JS_IsExceptionPending_def throw_exception_def setPendingException_def)

lemma pending_kept_set_sc: "pending_kept w (set_sc sc w)"
  by (simp add: pending_kept_def JS_IsExceptionPending_def set_sc_def)

primrec catch_free :: "js_prog \<Rightarrow> bool" where
  "catch_free (Ret v) \<longleftrightarrow> True"
| "catch_free (Throw v) \<longleftrightarrow> True"
| "catch_free (Caught p) \<longleftrightarrow> False"
| "catch_free (Native n callee args k) \<longleftrightarrow> (\<forall>v. catch_free (k v))"
| "catch_free (Read k) \<longleftrightarrow> (\<forall>h. catch_free (k h))"
| "catch_free (Update f p) \<longleftrightarrow> catch_free p"
| "catch_free (Enqueue job p) \<longleftrightarrow> catch_free p"
| "catch_free (StartAsync task p) \<longleftrightarrow> catch_free p"

lemma run_js_pending: "catch_free p \<Longrightarrow> post pending_kept w (run_js pf p w)"
proof (induction p arbitrary: w)
  case (Native n callee args k)
  have "post pending_kept w1 (run_js pf (k v) w1)" for v w1 using Native by (simp add: rangeI)
  then show ?case unfolding run_js.simps by (rule pe.post_bind [OF pe.closed_R pe.post_run_native])
next
  case (Enqueue job p)
  have "post1 pending_kept w (ShellEnqueuePromiseJobCallback job w)"
    unfolding ShellEnqueuePromiseJobCallback_def by (rule post_pure(2), rule post1_Some) (rule pending_kept_set_sc)
  moreover have "post pending_kept w1 (run_js pf p w1)" for w1 using Enqueue by simp
  ultimately show ?case unfolding run_js.simps by (rule pe.post_bind1 [OF pe.closed_R])
next
  case (StartAsync task p)
  have "post1 pending_kept w (ShellStartAsyncTaskCallback task w)"
    unfolding ShellStartAsyncTaskCallback_def by (rule post_pure(2), rule post1_Some) (rule pending_kept_set_sc)
  moreover have "post pending_kept w1 (run_js pf p w1)" for w1 using StartAsync by simp
  ultimately show ?case unfolding run_js.simps by (rule pe.post_bind1 [OF pe.closed_R])
next
  case (Throw v)
  show ?case unfolding run_js.simps by (rule post_Some) (rule pe.R_throw)
next
  case (Read k)
  then show ?case unfolding run_js.simps by (simp add: rangeI)
next
  case (Update f p)
  have "post pending_kept (w\<lparr>w_heap := f (w_heap w)\<rparr>) (run_js pf p (w\<lparr>w_heap := f (w_heap w)\<rparr>))"
    using Update by simp
  then show ?case unfolding run_js.simps by (rule pe.post_after [OF pe.R_heap])
qed (simp_all add: post_def pending_kept_def)

end
