(* ===== verification/Demo.thy ===== *)
theory Demo
  imports BridgeContract
begin

text \<open>
  A small concrete platform, on which the properties of the bridge are instantiated: a Java side with
  every class and method, an engine whose programs are a few constructors long, a world in which the
  framework is initialised.
\<close>

definition demo_host :: host where
  "demo_host = \<lparr>class_of = (\<lambda>x. ''WXParams''), has_class = (\<lambda>c. True), has_method = (\<lambda>c m. True),
     int_result = (\<lambda>cs. int (length cs)), object_result = (\<lambda>cs. Some (JWXJSObject 2 (Some (JString (u16s ''answer''))))),
     boolean_result = (\<lambda>cs. True), register_ok = True, get_env_ok = True,
     from_mutf8 = map ucast, to_mutf8 = map ucast\<rparr>"

text \<open>
  The script \<open>ok\<close> returns, every other one throws a string. A call passes its arguments to
  \<open>setTimeoutNative\<close> and enqueues job 7, or returns without arguments; job 7 enqueues job 8, which ends.
\<close>

definition demo_call :: "jsval list \<Rightarrow> js_prog" where
  "demo_call args =
     (if args = [] then Ret Undefined
      else Native NSetTimeoutNative Undefined args (\<lambda>v. Enqueue 7 (Ret v)))"

definition demo_engine :: js_engine where
  "demo_engine = \<lparr>frac = (\<lambda>d. []), strtod = (\<lambda>s. DInt 0), to_primitive = (\<lambda>h n. None), to_number = (\<lambda>h n. None),
     call = (\<lambda>f this args h. (Some Undefined, h)),
     eval_script = (\<lambda>src. if src = u16s ''ok'' then Ret Undefined else Throw (Str (u16s ''boom''))),
     call_function = (\<lambda>f this args. demo_call args),
     run_job = (\<lambda>job. if job = 7 then Enqueue 8 (Ret Undefined) else Ret Undefined),
     finish_task = (\<lambda>task. Ret Undefined),
     json_exception = (\<lambda>e. Str (u16s ''json'')), syntax_exception = (\<lambda>m l c. Str (u16s ''syntax'')),
     type_error = Str (u16s ''type'')\<rparr>"

definition demo_platform :: platform where
  "demo_platform = \<lparr>jhost = demo_host, sys = \<lparr>getpid = 42, open_marker = 3\<rparr>, engine = demo_engine,
     boot = \<lparr>JS_Init_ok = True, new_context_ok = True, self_hosted_ok = True, shell_alloc_ok = True,
       new_global_ok = True, standard_classes_ok = True, immutable_proto_ok = True, define_functions_ok = True\<rparr>,
     alloc_mem = (\<lambda>n. Some (replicate n 0)), recursion_budget = 10, next_finished = hd\<rparr>"

definition demo_jni :: jni where
  "demo_jni = \<lparr>locals =
       [(12, JArray [Some (JWXJSObject 2 (Some (JString (u16s ''a''))))]), (11, JString (u16s ''f'')),
        (10, JString (u16s ''1''))],
     globals = [(1, JInstance 0), (2, JClass ''WXBridge''), (3, JClass ''WXLogUtils'')],
     next_ref = 20, pinned = [], calls = []\<rparr>"

definition demo_world :: world where
  "demo_world = \<lparr>w_jni = demo_jni, w_trace = \<lparr>g_atrace_fd = 3, jTraceClass = 0, written = []\<rparr>,
     w_idle = idle_init, method_ids = (\<lambda>v. None), jBridgeClazz = 2, jWXJSObject = 4, jWXLogUtils = 3, jThis = 1,
     sVm = True, globalContext = True, globalObject = Some 0, context_private = Some new_ShellContext,
     w_exn = no_exn, w_heap = [\<lparr>cls = PlainC, props = [], hidden = [(u16s ''f'', Object 1)], proto = None\<rparr>, callable_object],
     gc_runs = 0\<rparr>"

text \<open>One call of \<open>f\<close> on the string \<open>a\<close>: it returns, after a call into Java and two jobs.\<close>

lemma demo_run:
  "map_option (\<lambda>(r, w). (r, length (calls (w_jni w)), length (written (w_trace w)), context_private w))
     (native_execJS demo_platform 10 0 11 12 demo_world) = Some (1, 1, 10, Some new_ShellContext)"
  by code_simp

lemma demo_execJS: "\<exists>w'. native_execJS demo_platform 10 0 11 12 demo_world = Some (1, w')"
  using demo_run by (auto simp: map_option_eq_Some)

lemma demo_wf: "jni_wf (w_jni demo_world)"
  by (auto simp: demo_world_def demo_jni_def jni_wf_def live_def)

end
