(* ===== verification/LocalRefs.thy ===== *)
theory LocalRefs
  imports Demo
begin

text \<open>
  Local references: what a sequence of JNI operations made, and that the natives delete every
  reference they make. Then what a native sends to Java, as the objects its arguments refer to.
\<close>

section \<open>What was made\<close>

lemma deref_new_local: "r < next_ref j \<Longrightarrow> deref r (snd (new_local obj j)) = deref r j"
  by (auto simp: deref_def new_local_def split: option.split)

lemma deref_fresh: "0 < next_ref j \<Longrightarrow> deref (fst (new_local obj j)) (snd (new_local obj j)) = obj"
  by (auto simp: deref_def new_local_def split: option.split)

text \<open>
  \<open>grown j rs j'\<close>: from \<open>j\<close>, references were made, all of them in \<open>rs\<close>; the old ones are there with their
  objects, the globals and the pins are the same.
\<close>

definition grown :: "jni \<Rightarrow> jref list \<Rightarrow> jni \<Rightarrow> bool" where
  "grown j rs j' \<longleftrightarrow> jni_wf j \<and> next_ref j \<le> next_ref j' \<and> globals j' = globals j \<and> pinned j' = pinned j \<and>
     (\<exists>new. locals j' = new @ locals j \<and> (\<forall>r \<in> fst ` set new. next_ref j \<le> r \<and> r < next_ref j' \<and> r \<in> set rs)) \<and>
     (\<forall>r \<in> set rs. r = 0 \<or> next_ref j \<le> r \<and> r < next_ref j')"

lemma grown_refl: "jni_wf j \<Longrightarrow> grown j [] j"
  by (simp add: grown_def)

lemma grown_wf: "grown j rs j' \<Longrightarrow> jni_wf j'"
proof -
  assume "grown j rs j'"
  then obtain new where j: "jni_wf j" "next_ref j \<le> next_ref j'" "globals j' = globals j"
    and new: "locals j' = new @ locals j" "\<forall>r \<in> fst ` set new. next_ref j \<le> r \<and> r < next_ref j'"
    unfolding grown_def by blast
  have live: "live j' = fst ` set new \<union> live j" by (auto simp: live_def new(1))
  have old: "r < next_ref j" if "r \<in> live j \<union> fst ` set (globals j)" for r using that j(1) by (auto simp: jni_wf_def)
  have new_r: "0 < r \<and> r < next_ref j' \<and> \<not> r < next_ref j" if "r \<in> fst ` set new" for r
    using new(2) that j(1) by (auto simp: jni_wf_def)
  have old_r: "0 < r \<and> r < next_ref j'" if "r \<in> live j \<union> fst ` set (globals j)" for r
    using old [OF that] that j(1,2) unfolding jni_wf_def by (meson less_le_trans)
  have "\<forall>r \<in> live j' \<union> fst ` set (globals j'). 0 < r \<and> r < next_ref j'"
    unfolding live j(3) using new_r old_r by blast
  moreover have "live j' \<inter> fst ` set (globals j') = {}"
    unfolding live j(3) using new_r old j(1) by (auto simp: jni_wf_def)
  ultimately show "jni_wf j'" using j(1,2) unfolding jni_wf_def by linarith
qed

lemma grown_new_local:
  assumes "grown j rs j'"
  shows "grown j (fst (new_local obj j') # rs) (snd (new_local obj j'))"
proof (cases obj)
  case None
  then show ?thesis using assms by (auto simp: new_local_def grown_def)
next
  case (Some x)
  obtain new where new: "locals j' = new @ locals j"
    "\<forall>r \<in> fst ` set new. next_ref j \<le> r \<and> r < next_ref j' \<and> r \<in> set rs"
    using assms unfolding grown_def by blast
  have "locals (snd (new_local obj j')) = ((next_ref j', x) # new) @ locals j"
    using new(1) Some by (simp add: new_local_def)
  moreover have "\<forall>r \<in> fst ` set ((next_ref j', x) # new). next_ref j \<le> r \<and> r < Suc (next_ref j') \<and> r \<in> set (next_ref j' # rs)"
    using new(2) assms by (auto simp: grown_def)
  ultimately show ?thesis
    using assms Some unfolding grown_def by (auto simp: new_local_def)
qed

text \<open>Deleting what was made restores the table.\<close>

lemma fold_delete: "locals (fold DeleteLocalRef rs j) = filter (\<lambda>p. fst p \<notin> set rs) (locals j)"
  by (induction rs arbitrary: j) (auto simp: DeleteLocalRef_def case_prod_unfold intro!: filter_cong)

lemma grown_deleted:
  assumes "grown j rs j'" and "set rs \<subseteq> set ds" and "\<forall>d \<in> set ds. d = 0 \<or> next_ref j \<le> d"
  shows "locals (fold DeleteLocalRef ds j') = locals j"
proof -
  obtain new where new: "locals j' = new @ locals j" "\<forall>r \<in> fst ` set new. r \<in> set rs"
    using assms(1) unfolding grown_def by blast
  have "filter (\<lambda>p. fst p \<notin> set ds) new = []" using new(2) assms(2) by (auto simp: filter_empty_conv)
  moreover have "fst p \<notin> set ds" if "p \<in> set (locals j)" for p
  proof -
    have "fst p \<in> live j" using that by (simp add: live_def)
    then have "0 < fst p \<and> fst p < next_ref j" using assms(1) by (auto simp: grown_def jni_wf_def)
    then show ?thesis using assms(3) by auto
  qed
  then have "filter (\<lambda>p. fst p \<notin> set ds) (locals j) = locals j" by (simp add: filter_id_conv)
  ultimately show ?thesis by (simp add: fold_delete new(1))
qed

lemma grown_deref:
  assumes "grown j rs j'" and "r < next_ref j"
  shows "deref r j' = deref r j"
proof -
  obtain new where new: "locals j' = new @ locals j" "\<forall>r \<in> fst ` set new. next_ref j \<le> r" "globals j' = globals j"
    using assms(1) unfolding grown_def by blast
  then have "map_of new r = None" using assms(2) by (auto simp: map_of_eq_None_iff)
  then show ?thesis using new by (simp add: deref_def map_add_def)
qed

section \<open>The conversion of arguments\<close>

text \<open>How a native converts an argument: to a string, to bytes, to the bytes of its JSON text.\<close>

datatype argkind = AsString | AsBytes | AsJSON

fun convert_arg :: "platform \<Rightarrow> argkind \<Rightarrow> jsval list \<Rightarrow> nat \<Rightarrow> world \<Rightarrow> (jref \<times> world) option" where
  "convert_arg pf AsString args i w = getArgumentAsJString pf args i w"
| "convert_arg pf AsBytes args i w = getArgumentAsJByteArray pf args i w"
| "convert_arg pf AsJSON args i w = getArgumentAsJByteArrayJSON pf args i w"

fun convert_args :: "platform \<Rightarrow> argkind list \<Rightarrow> jsval list \<Rightarrow> nat \<Rightarrow> world \<Rightarrow> (jref list \<times> world) option" where
  "convert_args pf [] args i w = Some ([], w)"
| "convert_args pf (k # ks) args i w =
     do { (r, w) \<leftarrow> convert_arg pf k args i w;
          (rs, w) \<leftarrow> convert_args pf ks args (Suc i) w;
          Some (r # rs, w) }"

text \<open>The Java object each conversion stands for, and what it does to the engine.\<close>

definition java_string :: "platform \<Rightarrow> u16 list \<Rightarrow> jobj option" where
  "java_string pf s =
     (case JS_EncodeStringToUTF8 pf s of
        None \<Rightarrow> None | Some chars \<Rightarrow> Some (JString (from_mutf8 (jhost pf) (c_string chars))))"

definition json_bytes :: "platform \<Rightarrow> jsval \<Rightarrow> world \<Rightarrow> (jobj option \<times> world) option" where
  "json_bytes pf v w =
     (case v of
        Object n \<Rightarrow>
          (case JS_Stringify (engine_fns.truncate (engine pf)) (recursion_budget pf) v None Null (w_heap w) of
             Inl err \<Rightarrow> Some (None, throw_exception (json_exception (engine pf) err) w)
           | Inr (text, h) \<Rightarrow>
               do { utf8 \<leftarrow> JS_EncodeStringToUTF8 pf text; Some (Some (JBytes (c_string utf8)), w\<lparr>w_heap := h\<rparr>) })
      | _ \<Rightarrow> Some (None, w))"

fun marshal_arg :: "platform \<Rightarrow> argkind \<Rightarrow> jsval list \<Rightarrow> nat \<Rightarrow> world \<Rightarrow> (jobj option \<times> world) option" where
  "marshal_arg pf AsString args i w =
     (if length args \<le> i then Some (None, w)
      else do { s \<leftarrow> js_ToString pf w (args ! i); Some (java_string pf s, w) })"
| "marshal_arg pf AsJSON args i w = (if length args \<le> i then None else json_bytes pf (args ! i) w)"
| "marshal_arg pf AsBytes args i w =
     (if length args \<le> i then None
      else case args ! i of
          Str s \<Rightarrow> Some (map_option (\<lambda>chars. JBytes (c_string chars)) (JS_EncodeStringToUTF8 pf s), w)
        | v \<Rightarrow> json_bytes pf v w)"

fun marshal :: "platform \<Rightarrow> argkind list \<Rightarrow> jsval list \<Rightarrow> nat \<Rightarrow> world \<Rightarrow> (jobj option list \<times> world) option" where
  "marshal pf [] args i w = Some ([], w)"
| "marshal pf (k # ks) args i w =
     do { (x, w) \<leftarrow> marshal_arg pf k args i w;
          (xs, w) \<leftarrow> marshal pf ks args (Suc i) w;
          Some (x # xs, w) }"

text \<open>A conversion is: marshal, then make a reference to the object.\<close>

definition with_table :: "jni \<Rightarrow> world \<Rightarrow> world" where
  "with_table j w = w\<lparr>w_jni := j\<rparr>"

lemma set_local_fresh: "r \<notin> fst ` set tab \<Longrightarrow> set_local r x tab = tab"
  by (force simp: set_local_def intro!: map_idI)

lemma bytes_to_jbyteArray_new:
  assumes "jni_wf (w_jni w)"
  shows "bytes_to_jbyteArray chars w = Some (with_jni (new_local (Some (JBytes (c_string chars)))) w)"
proof -
  have "next_ref (w_jni w) \<notin> fst ` set (locals (w_jni w))"
    using next_not_live [OF assms] by (simp add: live_def)
  then have fresh: "set_local (next_ref (w_jni w)) x (locals (w_jni w)) = locals (w_jni w)" for x
    by (rule set_local_fresh)
  have "take (strlen chars) chars = c_string chars"
    unfolding strlen_def c_string_def by (rule takeWhile_eq_take [symmetric])
  moreover have "overwrite (c_string chars) (replicate (strlen chars) 0) = c_string chars"
    by (simp add: overwrite_def strlen_def)
  ultimately show ?thesis
    using fresh jni_wf_next [OF assms]
    by (simp add: bytes_to_jbyteArray_def with_jni_def NewByteArray_def new_local_def try_upd_jni_def
        SetByteArrayRegion_def deref_def set_local_def strlen_def)
qed

lemma with_jni_none [simp]: "with_jni (new_local None) w = (0, w)"
  by (simp add: with_jni_def new_local_def)

lemma with_jni_NewStringUTF:
  "with_jni (NewStringUTF h block) = with_jni (new_local (Some (JString (from_mutf8 h (c_string block)))))"
  by (simp add: with_jni_def NewStringUTF_def fun_eq_iff)

lemma json_bytes_jni: "json_bytes pf v w = Some (x, u) \<Longrightarrow> w_jni u = w_jni w"
  by (auto simp: json_bytes_def throw_exception_def elim!: bind_eq_SomeE split: jsval.splits sum.splits)

lemma convert_JSON:
  assumes "jni_wf (w_jni w)"
  shows "convert_arg pf AsJSON args i w =
    map_option (\<lambda>(x, u). with_jni (new_local x) u) (marshal_arg pf AsJSON args i w)"
  by (auto simp: getArgumentAsJByteArrayJSON_def json_bytes_def JSONCreator_def JS_EncodeStringToUTF8_def
      bytes_to_jbyteArray_new assms Let_def map_option_bind comp_def split: jsval.split sum.split)

lemma convert_arg_marshal:
  assumes "jni_wf (w_jni w)"
  shows "convert_arg pf k args i w = map_option (\<lambda>(x, u). with_jni (new_local x) u) (marshal_arg pf k args i w)"
proof (cases k)
  case AsString
  then show ?thesis
    by (auto simp: getArgumentAsJString_def java_string_def with_jni_NewStringUTF split: option.split)
next
  case AsBytes
  then show ?thesis
    using convert_JSON [OF assms, of pf args i]
    by (auto simp: getArgumentAsJByteArray_def bytes_to_jbyteArray_new [OF assms] split: jsval.split option.split)
qed (use convert_JSON [OF assms] in simp)

fun new_locals :: "jobj option list \<Rightarrow> jni \<Rightarrow> jref list \<times> jni" where
  "new_locals [] j = ([], j)"
| "new_locals (x # xs) j =
     (let (r, j) = new_local x j; (rs, j) = new_locals xs j in (r # rs, j))"

lemma marshal_arg_table:
  "marshal_arg pf k args i (with_table j w) = map_option (map_prod id (with_table j)) (marshal_arg pf k args i w)"
proof -
  have "json_bytes pf v (with_table j w) = map_option (map_prod id (with_table j)) (json_bytes pf v w)" for v
    by (cases w) (auto simp: json_bytes_def with_table_def throw_exception_def map_option_bind comp_def
        split: jsval.split sum.split)
  then show ?thesis
    by (cases k) (auto simp: with_table_def js_ToString_def map_option_bind comp_def split: jsval.split)
qed

lemma marshal_table:
  "marshal pf ks args i (with_table j w) = map_option (map_prod id (with_table j)) (marshal pf ks args i w)"
  by (induction ks arbitrary: i w)
    (simp_all add: marshal_arg_table map_option_bind bind_map_option comp_def case_prod_unfold)

lemma marshal_arg_jni: "marshal_arg pf k args i w = Some (x, u) \<Longrightarrow> w_jni u = w_jni w"
  using json_bytes_jni by (cases k) (fastforce elim!: bind_eq_SomeE split: if_splits jsval.splits)+

lemma marshal_jni: "marshal pf ks args i w = Some (xs, u) \<Longrightarrow> w_jni u = w_jni w"
  by (induction ks arbitrary: i w xs) (fastforce elim!: bind_eq_SomeE dest: marshal_arg_jni)+

lemma with_table_simps [simp]: "w_jni (with_table j w) = j" "with_table j' (with_table j w) = with_table j' w"
  by (simp_all add: with_table_def)

lemma convert_args_marshal:
  "jni_wf (w_jni w) \<Longrightarrow> convert_args pf ks args i w =
     map_option (\<lambda>(xs, u). with_jni (new_locals xs) u) (marshal pf ks args i w)"
proof (induction ks arbitrary: i w)
  case (Cons k ks)
  show ?case
  proof (cases "marshal_arg pf k args i w")
    case None
    then show ?thesis using convert_arg_marshal [OF Cons.prems, of pf k args i] by simp
  next
    case (Some xu)
    obtain x u where xu: "xu = (x, u)" by fastforce
    have u: "w_jni u = w_jni w" using marshal_arg_jni Some xu by blast
    obtain r j where rj: "new_local x (w_jni u) = (r, j)" by fastforce
    have "jni_wf (w_jni (with_table j u))"
      using jni_wf_new_local [of "w_jni u" x] Cons.prems u rj by (simp add: with_table_def)
    note rest = Cons.IH [OF this, of "Suc i"]
    show ?thesis
    proof (cases "marshal pf ks args (Suc i) u")
      case None
      then show ?thesis
        using convert_arg_marshal [OF Cons.prems, of pf k args i] Some xu rest rj
        by (simp add: with_jni_def with_table_def [symmetric] marshal_table)
    next
      case (Some ys)
      moreover have "w_jni (snd ys) = w_jni u" using marshal_jni [of pf ks args "Suc i" u "fst ys"] Some by simp
      ultimately show ?thesis
        using convert_arg_marshal [OF Cons.prems, of pf k args i] \<open>marshal_arg pf k args i w = Some xu\<close> xu rest rj
        by (auto simp: with_jni_def with_table_def [symmetric] marshal_table split: prod.split)
    qed
  qed
qed (simp add: with_jni_def)


lemma marshal_arg_trace:
  "marshal_arg pf k args i (w\<lparr>w_trace := t\<rparr>) = map_option (map_prod id (w_trace_update (\<lambda>_. t))) (marshal_arg pf k args i w)"
proof -
  have "json_bytes pf v (w\<lparr>w_trace := t\<rparr>) = map_option (map_prod id (w_trace_update (\<lambda>_. t))) (json_bytes pf v w)" for v
    by (cases w) (auto simp: json_bytes_def throw_exception_def map_option_bind comp_def
        split: jsval.split sum.split)
  then show ?thesis
    by (cases k) (auto simp: js_ToString_def map_option_bind comp_def split: jsval.split)
qed

lemma marshal_trace:
  "marshal pf ks args i (w\<lparr>w_trace := t\<rparr>) = map_option (map_prod id (w_trace_update (\<lambda>_. t))) (marshal pf ks args i w)"
  by (induction ks arbitrary: i w)
    (simp_all add: marshal_arg_trace map_option_bind bind_map_option comp_def case_prod_unfold)

section \<open>What the new references are\<close>

lemma new_locals_grown: "grown j0 rs0 j \<Longrightarrow> grown j0 (rev (fst (new_locals xs j)) @ rs0) (snd (new_locals xs j))"
proof (induction xs arbitrary: j rs0)
  case (Cons x xs)
  from Cons.IH [OF grown_new_local [OF Cons.prems]] show ?case
    by (simp add: Let_def case_prod_unfold)
qed simp

lemma new_locals_grown0: "jni_wf j \<Longrightarrow> grown j (rev (fst (new_locals xs j))) (snd (new_locals xs j))"
  using new_locals_grown [OF grown_refl, of j xs] by simp

lemma new_locals_calls [simp]: "calls (snd (new_locals xs j)) = calls j"
  by (induction xs arbitrary: j) (simp_all add: Let_def case_prod_unfold new_local_def split: option.split)

lemma new_locals_deref:
  "jni_wf j \<Longrightarrow> map (\<lambda>r. deref r (snd (new_locals xs j))) (fst (new_locals xs j)) = xs"
proof (induction xs arbitrary: j)
  case (Cons x xs)
  let ?r = "fst (new_local x j)" and ?j = "snd (new_local x j)"
  have wf: "jni_wf ?j" by (rule jni_wf_new_local [OF Cons.prems])
  have "?r < next_ref ?j" using jni_wf_next [OF Cons.prems] by (cases x) (auto simp: new_local_def)
  then have "deref ?r (snd (new_locals xs ?j)) = deref ?r ?j"
    by (rule grown_deref [OF new_locals_grown0 [OF wf]])
  also have "\<dots> = x" by (rule deref_fresh [OF jni_wf_next [OF Cons.prems]])
  finally show ?case using Cons.IH [OF wf] by (simp add: Let_def case_prod_unfold)
qed simp

section \<open>Calls into Java\<close>

text \<open>
  \<open>sends pf ks var args w w'\<close>: between the two worlds Java was called once, with the method of the cached
  ID \<open>var\<close>, on the bridge object and the marshalled arguments; the reference table and the pins are what they
  were, and the heap and the pending exception are what marshalling left.
\<close>

definition sends :: "platform \<Rightarrow> argkind list \<Rightarrow> method_var \<Rightarrow> jsval list \<Rightarrow> world \<Rightarrow> world \<Rightarrow> bool" where
  "sends pf ks var args w w' \<longleftrightarrow>
     (\<exists>objs u. marshal pf ks args 0 w = Some (objs, u) \<and>
        calls (w_jni w') = calls (w_jni w) @
          [JCall (fst (method_of var)) (snd (method_of var)) (deref (jThis w) (w_jni w)) objs] \<and>
        locals (w_jni w') = locals (w_jni w) \<and> globals (w_jni w') = globals (w_jni w) \<and>
        pinned (w_jni w') = pinned (w_jni w) \<and> w_heap w' = w_heap u \<and> w_exn w' = w_exn u)"

text \<open>What holds of the references when a native runs: the table is well formed, a cached ID is the right
  one, the bridge object is an old reference.\<close>

definition bridge_ok :: "world \<Rightarrow> bool" where
  "bridge_ok w \<longleftrightarrow> jni_wf (w_jni w) \<and> cache_ok w \<and> jThis w < next_ref (w_jni w)"

lemma cache_method_keeps:
  "cache_method pf var c n s w = Some w' \<Longrightarrow>
     w_jni w' = w_jni w \<and> jThis w' = jThis w \<and> w_heap w' = w_heap w \<and> w_exn w' = w_exn w"
  by (auto simp: cache_method_def elim!: bind_eq_SomeE split: if_splits)

lemma cache_method_ok:
  assumes "cache_ok w" and "cache_method pf var c (fst (method_of var)) (snd (method_of var)) w = Some w'"
  shows "method_ids w' var = None \<or> method_ids w' var = Some (method_of var)"
proof (cases "method_ids w var = None")
  case True
  then show ?thesis
    using assms(2) by (auto simp: cache_method_def GetMethodID_def elim!: bind_eq_SomeE split: if_splits option.splits)
next
  case False
  then have "w' = w" using assms(2) by (simp add: cache_method_def)
  then show ?thesis using assms(1) by (simp add: cache_ok_def)
qed

lemma json_bytes_frame:
  "json_bytes pf v w = Some (x, u) \<Longrightarrow> w_jni u = w_jni w \<and> method_ids u = method_ids w \<and> jThis u = jThis w \<and> jBridgeClazz u = jBridgeClazz w"
  by (auto simp: json_bytes_def throw_exception_def elim!: bind_eq_SomeE split: jsval.splits sum.splits)

lemma marshal_arg_frame:
  "marshal_arg pf k args i w = Some (x, u) \<Longrightarrow> w_jni u = w_jni w \<and> method_ids u = method_ids w \<and> jThis u = jThis w \<and> jBridgeClazz u = jBridgeClazz w"
  using json_bytes_frame by (cases k) (fastforce elim!: bind_eq_SomeE split: if_splits jsval.splits)+

lemma marshal_frame:
  "marshal pf ks args i w = Some (xs, u) \<Longrightarrow> w_jni u = w_jni w \<and> method_ids u = method_ids w \<and> jThis u = jThis w \<and> jBridgeClazz u = jBridgeClazz w"
proof (induction ks arbitrary: i w xs)
  case (Cons k ks)
  from Cons.prems obtain x v ys where "marshal_arg pf k args i w = Some (x, v)" "marshal pf ks args (Suc i) v = Some (ys, u)"
    by (auto elim!: bind_eq_SomeE)
  then show ?case using marshal_arg_frame Cons.IH by metis
qed simp

lemma convert_args_scope:
  assumes "jni_wf (w_jni w)"
  shows "\<exists>t. convert_args pf ks args i (begin_scope pf n w) =
    map_option (\<lambda>(xs, u). with_jni (new_locals xs) (u\<lparr>w_trace := t\<rparr>)) (marshal pf ks args i w)"
proof -
  obtain t where b: "begin_scope pf n w = w\<lparr>w_trace := t\<rparr>" by (simp add: begin_scope_def)
  have "jni_wf (w_jni (w\<lparr>w_trace := t\<rparr>))" using assms by simp
  from convert_args_marshal [OF this, of pf ks args i, unfolded marshal_trace] show ?thesis
    unfolding b by (intro exI [of _ t]) (simp add: option.map_comp comp_def case_prod_unfold)
qed

lemma convert_args_new:
  assumes "jni_wf (w_jni w)" and "convert_args pf ks args i (begin_scope pf n w) = Some (rs, w1)"
  shows "\<exists>xs. rs = fst (new_locals xs (w_jni w)) \<and> w_jni w1 = snd (new_locals xs (w_jni w))"
proof -
  obtain t xs u where m: "marshal pf ks args i w = Some (xs, u)"
    and new: "with_jni (new_locals xs) (u\<lparr>w_trace := t\<rparr>) = (rs, w1)"
    using convert_args_scope [OF assms(1), of pf ks args i n] assms(2) by fastforce
  have "w_jni u = w_jni w" using marshal_frame [OF m] by simp
  then show ?thesis using new by (intro exI [of _ xs]) (auto simp: with_jni_def split: prod.splits)
qed

lemma java_invoke:
  assumes ok: "bridge_ok w"
    and args: "convert_args pf ks args 0 (begin_scope pf n w) = Some (rs, w1)"
    and cache: "cache_method pf var c (fst (method_of var)) (snd (method_of var)) w1 = Some w2"
    and inv: "invoke (method_ids w2 var) (jThis w2) rs (w_jni w2) = Some j"
  obtains xs u where "marshal pf ks args 0 w = Some (xs, u)" and "rs = fst (new_locals xs (w_jni w))"
    and "w_jni w2 = snd (new_locals xs (w_jni w))" and "w_heap w2 = w_heap u" and "w_exn w2 = w_exn u"
    and "j = (w_jni w2)\<lparr>calls := calls (w_jni w) @
      [JCall (fst (method_of var)) (snd (method_of var)) (deref (jThis w) (w_jni w)) xs]\<rparr>"
proof -
  have wf: "jni_wf (w_jni w)" and old: "jThis w < next_ref (w_jni w)" using ok by (simp_all add: bridge_ok_def)
  obtain t where conv: "convert_args pf ks args 0 (begin_scope pf n w) =
      map_option (\<lambda>(xs, u). with_jni (new_locals xs) (u\<lparr>w_trace := t\<rparr>)) (marshal pf ks args 0 w)"
    using convert_args_scope [OF wf] by blast
  obtain xs u where m: "marshal pf ks args 0 w = Some (xs, u)"
    and w1: "with_jni (new_locals xs) (u\<lparr>w_trace := t\<rparr>) = (rs, w1)"
    using args unfolding conv map_option_eq_Some by force
  let ?j0 = "w_jni w" and ?new = "new_locals xs (w_jni w)"
  have u: "w_jni u = ?j0" "method_ids u = method_ids w" "jThis u = jThis w"
    using marshal_frame [OF m] by simp_all
  have w1': "rs = fst ?new" "w_jni w1 = snd ?new" "jThis w1 = jThis w" "method_ids w1 = method_ids w"
      "w_heap w1 = w_heap u" "w_exn w1 = w_exn u"
    using w1 u by (auto simp: with_jni_def split: prod.splits)
  have w2: "w_jni w2 = snd ?new" "jThis w2 = jThis w" "w_heap w2 = w_heap u" "w_exn w2 = w_exn u"
    using cache_method_keeps [OF cache] w1' by simp_all
  have "cache_ok w1" using ok w1' by (simp add: bridge_ok_def cache_ok_def)
  then have mid: "method_ids w2 var = Some (method_of var)"
    using cache_method_ok [OF _ cache] inv by (auto simp: invoke_def)
  have g: "grown ?j0 (rev rs) (snd ?new)" using new_locals_grown0 [OF wf] w1' by simp
  have "j = (w_jni w2)\<lparr>calls := calls ?j0 @
      [JCall (fst (method_of var)) (snd (method_of var)) (deref (jThis w) ?j0) xs]\<rparr>"
    using inv mid w2 w1' new_locals_deref [OF wf, of xs] grown_deref [OF g old] new_locals_calls [of xs ?j0]
    by (auto simp: invoke_def split: prod.splits if_splits)
  then show ?thesis using that m w1'(1) w2 by blast
qed

lemma java_call:
  assumes ok: "bridge_ok w"
    and args: "convert_args pf ks args 0 (begin_scope pf n w) = Some (rs, w1)"
    and cache: "cache_method pf var c (fst (method_of var)) (snd (method_of var)) w1 = Some w2"
    and inv: "invoke (method_ids w2 var) (jThis w2) rs (w_jni w2) = Some j"
    and ds: "set ds = set rs"
  shows "sends pf ks var args w (end_scope pf n (delete_refs ds (w2\<lparr>w_jni := j\<rparr>)))"
proof -
  let ?j0 = "w_jni w"
  obtain xs u where m: "marshal pf ks args 0 w = Some (xs, u)" and rs: "rs = fst (new_locals xs ?j0)"
    and w2: "w_jni w2 = snd (new_locals xs ?j0)" "w_heap w2 = w_heap u" "w_exn w2 = w_exn u"
    and j: "j = (w_jni w2)\<lparr>calls := calls ?j0 @
      [JCall (fst (method_of var)) (snd (method_of var)) (deref (jThis w) ?j0) xs]\<rparr>"
    by (rule java_invoke [OF ok args cache inv])
  have g: "grown ?j0 (rev rs) (snd (new_locals xs ?j0))"
    using new_locals_grown0 ok rs by (simp add: bridge_ok_def)
  have fd: "calls (fold DeleteLocalRef ds j) = calls j" "globals (fold DeleteLocalRef ds j) = globals j"
      "pinned (fold DeleteLocalRef ds j) = pinned j" for ds j
    by (induction ds arbitrary: j) (simp_all add: DeleteLocalRef_def)
  have "\<forall>d \<in> set ds. d = 0 \<or> next_ref ?j0 \<le> d" using g ds by (auto simp: grown_def)
  then have "locals (fold DeleteLocalRef ds (snd (new_locals xs ?j0))) = locals ?j0"
    using grown_deleted [OF g] ds by simp
  then have "locals (fold DeleteLocalRef ds j) = locals ?j0" by (simp add: fold_delete j w2)
  moreover have "globals j = globals ?j0" "pinned j = pinned ?j0" using g by (auto simp: grown_def j w2)
  ultimately show ?thesis
    using m w2 by (auto simp: sends_def end_scope_def delete_refs_def upd_jni_def fd) (simp_all add: j)
qed

section \<open>The natives\<close>

lemma try_jni_CallIntMethod:
  "try_jni (CallIntMethod h this mid rs) w =
     do { j \<leftarrow> invoke mid this rs (w_jni w); Some (int_result h (calls j), w\<lparr>w_jni := j\<rparr>) }"
  by (cases "invoke mid this rs (w_jni w)") (simp_all add: try_jni_def CallIntMethod_def)

lemma try_upd_jni_CallVoidMethod:
  "try_upd_jni (CallVoidMethod this mid rs) w =
     do { j \<leftarrow> invoke mid this rs (w_jni w); Some (w\<lparr>w_jni := j\<rparr>) }"
  by (cases "invoke mid this rs (w_jni w)") (simp_all add: try_upd_jni_def CallVoidMethod_def)

lemmas call_simps = try_jni_CallIntMethod try_upd_jni_CallVoidMethod Let_def case_prod_unfold numeral_2_eq_2
  numeral_3_eq_3 eval_nat_numeral

text \<open>What the natives have in common; \<open>ds\<close> is the order in which they delete their references.\<close>

definition call_java ::
  "platform \<Rightarrow> argkind list \<Rightarrow> method_var \<Rightarrow> string \<Rightarrow> (jref list \<Rightarrow> jref list) \<Rightarrow> (jcall list \<Rightarrow> jsval) \<Rightarrow>
   jsval list \<Rightarrow> world \<Rightarrow> (jsval \<times> world) option" where
  "call_java pf ks var n ds answer args w =
     do { getJNIEnv pf w;
          (rs, w1) \<leftarrow> convert_args pf ks args 0 (begin_scope pf n w);
          w2 \<leftarrow> cache_method pf var (jBridgeClazz w1) (fst (method_of var)) (snd (method_of var)) w1;
          j \<leftarrow> invoke (method_ids w2 var) (jThis w2) rs (w_jni w2);
          Some (answer (calls j), end_scope pf n (delete_refs (ds rs) (w2\<lparr>w_jni := j\<rparr>))) }"

lemma natives_call_java:
  "CallNative pf callee =
     call_java pf [AsString, AsBytes, AsString] jCallNativeMethodId ''callNative'' (\<lambda>rs. [rs ! 1, rs ! 0, rs ! 2])
       (\<lambda>cs. Number (DInt (int_result (jhost pf) cs)))"
  "CallNativeComponent pf callee =
     call_java pf [AsString, AsString, AsString, AsJSON, AsJSON] jCallNativeComponentMethodId ''callNativeComponent''
       (\<lambda>rs. rs) (\<lambda>cs. Boolean True)"
  "CallAddElement pf callee =
     call_java pf [AsString, AsString, AsBytes, AsString, AsString] jCallAddElementMethodId ''callAddElement''
       (\<lambda>rs. rs) (\<lambda>cs. Number (DInt (int_result (jhost pf) cs)))"
  "SetTimeoutNative pf callee =
     call_java pf [AsString, AsString] jSetTimeoutNativeMethodId ''setTimeoutNative'' (\<lambda>rs. rs) (\<lambda>cs. Boolean True)"
  by (simp_all add: fun_eq_iff call_java_def CallNative_def CallNativeComponent_def CallAddElement_def
      SetTimeoutNative_def call_simps getJNIEnv_def begin_scope_def)

lemma convert_args_length: "convert_args pf ks args i w = Some (rs, w') \<Longrightarrow> length rs = length ks"
  by (induction ks arbitrary: i w rs) (auto elim!: bind_eq_SomeE)

lemma call_java_sends:
  assumes "call_java pf ks var n ds answer args w = Some (v, w')" and "bridge_ok w"
    and "\<And>rs. length rs = length ks \<Longrightarrow> set (ds rs) = set rs"
  shows "sends pf ks var args w w' \<and> v = answer (calls (w_jni w'))"
proof -
  obtain rs w1 w2 j where parts: "convert_args pf ks args 0 (begin_scope pf n w) = Some (rs, w1)"
      "cache_method pf var (jBridgeClazz w1) (fst (method_of var)) (snd (method_of var)) w1 = Some w2"
      "invoke (method_ids w2 var) (jThis w2) rs (w_jni w2) = Some j"
    and res: "v = answer (calls j)" "w' = end_scope pf n (delete_refs (ds rs) (w2\<lparr>w_jni := j\<rparr>))"
    using assms(1) by (auto simp: call_java_def elim!: bind_eq_SomeE)
  have "calls (fold DeleteLocalRef ds j) = calls j" for ds j
    by (induction ds arbitrary: j) (simp_all add: DeleteLocalRef_def)
  then have "calls (w_jni w') = calls j" by (simp add: res end_scope_def delete_refs_def upd_jni_def)
  then show ?thesis
    using java_call [OF assms(2) parts assms(3) [OF convert_args_length [OF parts(1)]]] res by simp
qed

text \<open>When the environment, the class and the method are there, a native returns as soon as its arguments can
  be marshalled.\<close>

definition callable :: "platform \<Rightarrow> method_var \<Rightarrow> world \<Rightarrow> bool" where
  "callable pf var w \<longleftrightarrow> bridge_ok w \<and> getJNIEnv pf w \<noteq> None \<and> deref (jThis w) (w_jni w) \<noteq> None \<and>
     jBridgeClazz w < next_ref (w_jni w) \<and>
     (case deref (jBridgeClazz w) (w_jni w) of None \<Rightarrow> False | Some c \<Rightarrow> has_method (jhost pf) c (method_of var))"


lemma call_java_total:
  assumes "callable pf var w" and "marshal pf ks args 0 w = Some (objs, u)"
  shows "\<exists>v w'. call_java pf ks var n ds answer args w = Some (v, w')"
proof -
  have wf: "jni_wf (w_jni w)" and ok: "cache_ok w"
    and old: "jThis w < next_ref (w_jni w)" "jBridgeClazz w < next_ref (w_jni w)"
    using assms(1) by (simp_all add: callable_def bridge_ok_def)
  let ?new = "new_locals objs (w_jni w)" and ?mid = "Some (method_of var)"
  have u: "w_jni u = w_jni w" "method_ids u = method_ids w" "jThis u = jThis w" "jBridgeClazz u = jBridgeClazz w"
    using marshal_frame [OF assms(2)] by simp_all
  obtain t where "convert_args pf ks args 0 (begin_scope pf n w) = Some (with_jni (new_locals objs) (u\<lparr>w_trace := t\<rparr>))"
    using convert_args_scope [OF wf, of pf ks args 0 n] assms(2) by auto
  then obtain rs w1 where args: "convert_args pf ks args 0 (begin_scope pf n w) = Some (rs, w1)"
    and w1: "with_jni (new_locals objs) (u\<lparr>w_trace := t\<rparr>) = (rs, w1)"
    by (metis surj_pair)
  have w1': "w_jni w1 = snd ?new" "jThis w1 = jThis w" "method_ids w1 = method_ids w" "jBridgeClazz w1 = jBridgeClazz w"
    using w1 u by (auto simp: with_jni_def split: prod.splits)
  have d: "deref r (w_jni w1) = deref r (w_jni w)" if "r < next_ref (w_jni w)" for r
    using grown_deref [OF new_locals_grown0 that] wf w1' by simp
  obtain w2 where w2: "cache_method pf var (jBridgeClazz w1) (fst (method_of var)) (snd (method_of var)) w1 = Some w2"
    and mid: "method_ids w2 var = ?mid" "w_jni w2 = w_jni w1" "jThis w2 = jThis w1"
  proof (cases "method_ids w var")
    case None
    then show ?thesis
      using that assms(1) d [OF old(2)] w1' by (auto simp: cache_method_def callable_def GetMethodID_def split: option.splits)
  next
    case (Some m)
    then have "m = method_of var" using ok by (metis cache_ok_def option.distinct(1) option.inject)
    then show ?thesis using that Some w1' by (simp add: cache_method_def)
  qed
  have "invoke (method_ids w2 var) (jThis w2) rs (w_jni w2) \<noteq> None"
    using mid d [OF old(1)] w1' assms(1) by (auto simp: invoke_def callable_def split: prod.split)
  then show ?thesis
    using args w2 assms(1) by (auto simp: call_java_def callable_def)
qed

text \<open>The natives that hand their arguments to Java: how each argument is converted, the method, the answer.\<close>

fun java_signature :: "native \<Rightarrow> (argkind list \<times> method_var \<times> (platform \<Rightarrow> jcall list \<Rightarrow> jsval)) option" where
  "java_signature NCallNative =
     Some ([AsString, AsBytes, AsString], jCallNativeMethodId, \<lambda>pf cs. Number (DInt (int_result (jhost pf) cs)))"
| "java_signature NCallNativeComponent =
     Some ([AsString, AsString, AsString, AsJSON, AsJSON], jCallNativeComponentMethodId, \<lambda>pf cs. Boolean True)"
| "java_signature NCallAddElement =
     Some ([AsString, AsString, AsBytes, AsString, AsString], jCallAddElementMethodId,
       \<lambda>pf cs. Number (DInt (int_result (jhost pf) cs)))"
| "java_signature NSetTimeoutNative = Some ([AsString, AsString], jSetTimeoutNativeMethodId, \<lambda>pf cs. Boolean True)"
| "java_signature _ = None"

lemma run_native_call_java:
  "java_signature native = Some (ks, var, answer) \<Longrightarrow>
     \<exists>n ds. run_native pf native callee = call_java pf ks var n ds (answer pf) \<and>
       (\<forall>rs. length rs = length ks \<longrightarrow> set (ds rs) = set rs)"
proof (cases native)
  case NCallNative
  moreover assume "java_signature native = Some (ks, var, answer)"
  ultimately show ?thesis
    by (intro exI [of _ "''callNative''"] exI [of _ "\<lambda>rs. [rs ! 1, rs ! 0, rs ! 2]"])
      (auto simp: natives_call_java length_Suc_conv)
qed (auto simp: natives_call_java)

lemma demo_bridge_ok: "bridge_ok demo_world"
  by (simp add: bridge_ok_def demo_wf cache_ok_def) (simp add: demo_world_def demo_jni_def)

lemma demo_callable: "callable demo_platform var demo_world"
  by (simp add: callable_def demo_bridge_ok)
    (simp add: demo_world_def demo_jni_def demo_platform_def demo_host_def getJNIEnv_def deref_def)

lemma js_ToString_Str [simp]: "js_ToString pf w (Str s) = Some s"
  by (simp add: js_ToString_def ToString_def)

lemma demo_marshal:
  "\<exists>objs u. marshal demo_platform [AsString, AsBytes, AsString] [Str a, Str b, Str c] 0 demo_world = Some (objs, u)"
  by simp

text \<open>
  C15. A native that hands its arguments to Java calls it exactly once, with the method of its name on the bridge
  object and the arguments as the strings, bytes or JSON bytes its signature says. It answers what Java
  answered, and every local reference it made is deleted again.
\<close>

theorem natives_send:
  assumes "java_signature native = Some (ks, var, answer)" and "bridge_ok w"
    and "run_native pf native callee args w = Some (v, w')"
  shows "sends pf ks var args w w' \<and> v = answer pf (calls (w_jni w'))"
proof -
  obtain n ds where eq: "run_native pf native callee = call_java pf ks var n ds (answer pf)"
    and ds: "\<forall>rs. length rs = length ks \<longrightarrow> set (ds rs) = set rs"
    using run_native_call_java [OF assms(1)] by blast
  from assms(3) [unfolded eq] show ?thesis
    by (rule call_java_sends) (use assms(2) ds in blast)+
qed

lemma demo_returns:
  "\<exists>v w'. run_native demo_platform NCallNative Undefined [Str a, Str b, Str c] demo_world = Some (v, w')"
  using run_native_call_java [of NCallNative] call_java_total [OF demo_callable] demo_marshal
  by (metis java_signature.simps(1))

theorem natives_send_witness:
  "\<exists>v w'. run_native demo_platform NCallNative Undefined [Str (u16s ''1''), Str (u16s ''[]''), Str []] demo_world
       = Some (v, w') \<and>
     sends demo_platform [AsString, AsBytes, AsString] jCallNativeMethodId
       [Str (u16s ''1''), Str (u16s ''[]''), Str []] demo_world w'"
proof -
  obtain v w' where run: "run_native demo_platform NCallNative Undefined
      [Str (u16s ''1''), Str (u16s ''[]''), Str []] demo_world = Some (v, w')"
    using demo_returns by blast
  with natives_send [OF java_signature.simps(1) demo_bridge_ok run] show ?thesis by blast
qed

text \<open>
  C16. Such a native returns whenever the environment and the method are there and its arguments can be
  marshalled: no argument that is a string or a number makes it fail.
\<close>

theorem natives_return:
  assumes "java_signature native = Some (ks, var, answer)" and "callable pf var w"
    and "marshal pf ks args 0 w = Some (objs, u)"
  shows "run_native pf native callee args w \<noteq> None"
  using run_native_call_java [OF assms(1), of pf callee] call_java_total [OF assms(2,3)] by fastforce

theorem natives_return_witness:
  "run_native demo_platform NSetTimeoutNative Undefined [Str (u16s ''7''), Number (DInt 100)] demo_world \<noteq> None"
proof -
  have "\<exists>objs. marshal demo_platform [AsString, AsString] [Str (u16s ''7''), Number (DInt 100)] 0 demo_world =
      Some (objs, demo_world)"
    by (simp add: js_ToString_def ToString_def)
  then show ?thesis using natives_return [OF java_signature.simps(4) demo_callable] by blast
qed

section \<open>The module call\<close>


text \<open>Reading the module's value makes no reference that stays.\<close>

lemma deleted_fresh_local:
  assumes "jni_wf j"
  shows "filter (\<lambda>p. fst p \<noteq> fst (new_local obj j)) (locals (snd (new_local obj j))) = locals j"
proof -
  have "r \<notin> live j" if "r = 0 \<or> r = next_ref j" for r
    using assms that next_not_live [OF assms] unfolding jni_wf_def by blast
  then have "filter (\<lambda>p. fst p \<noteq> r) (locals j) = locals j" if "r = 0 \<or> r = next_ref j" for r
    using that by (intro filter_True) (auto simp: live_def)
  then show ?thesis by (cases obj) (simp_all add: new_local_def flip: neq0_conv)
qed

lemma try_jni_CallObjectMethod:
  assumes "try_jni (CallObjectMethod h this mid rs) w = Some (r, w')"
  obtains j where "invoke mid this rs (w_jni w) = Some j" and "new_local (object_result h (calls j)) j = (r, w_jni w')"
  using assms that by (auto simp: try_jni_def CallObjectMethod_def elim!: bind_eq_SomeE split: option.splits)

lemma call_doubleValue_locals:
  assumes "call_doubleValue pf r w = Some (d, w')" and "jni_wf (w_jni w)"
  shows "locals (w_jni w') = locals (w_jni w)"
proof -
  have call: "locals (w_jni w') = locals (w_jni w1)"
    if "try_jni (CallDoubleMethod r mid) w1 = Some (d, w')" for mid w1
    using that by (auto simp: try_jni_def CallDoubleMethod_def invoke_def elim!: bind_eq_SomeE
        split: option.splits if_splits prod.splits jobj.splits)
  show ?thesis
  proof (cases "method_ids w jDoubleValueMethodId = None")
    case False
    then show ?thesis using assms(1) call [of _ w] by (simp add: call_doubleValue_def)
  next
    case True
    let ?c = "if has_class (jhost pf) ''java/lang/Double'' then Some (JClass ''java/lang/Double'') else None"
    let ?new = "new_local ?c (w_jni w)"
    obtain w2 where w2: "cache_method pf jDoubleValueMethodId (fst ?new) ''doubleValue'' ''()D'' (w\<lparr>w_jni := snd ?new\<rparr>) = Some w2"
      and d: "try_jni (CallDoubleMethod r (method_ids (delete_refs [fst ?new] w2) jDoubleValueMethodId))
        (delete_refs [fst ?new] w2) = Some (d, w')"
      using assms(1) True
      by (auto simp: call_doubleValue_def with_jni_def FindClass_def Let_def case_prod_unfold elim!: bind_eq_SomeE)
    have "w_jni w2 = snd ?new" using cache_method_keeps [OF w2] by simp
    then have "locals (w_jni (delete_refs [fst ?new] w2)) = locals (w_jni w)"
      using deleted_fresh_local [OF assms(2), of ?c]
      by (simp add: delete_refs_def upd_jni_def DeleteLocalRef_def case_prod_unfold)
    then show ?thesis using call [OF d] by simp
  qed
qed

lemma module_result_locals:
  assumes "module_result pf callee t r w = Some (v, w')" and "jni_wf (w_jni w)"
  shows "locals (w_jni w') = locals (w_jni w)"
proof -
  have chars: "locals (w_jni w1) = locals (w_jni w)"
    if "ScopedJString_getChars (new_ScopedJString r) w = Some (c, s, w1)" for c s w1
    using that by (auto simp: ScopedJString_getChars_def try_jni_def GetStringChars_def new_ScopedJString_def
        elim!: bind_eq_SomeE split: option.splits jobj.splits)
  have release: "locals (w_jni (delete_ScopedJString s w1)) = locals (w_jni w1)" for s w1
    by (simp add: delete_ScopedJString_def upd_jni_def ReleaseStringChars_def)
  have throw: "w_jni (throw_exception e w1) = w_jni w1" for e w1 by (simp add: throw_exception_def)
  consider "t = 1" | "t = 2" | "t = 3" | "t \<noteq> 1" "t \<noteq> 2" "t \<noteq> 3" by blast
  then show ?thesis
  proof cases
    case 1
    then show ?thesis using assms call_doubleValue_locals by (auto simp: module_result_def elim!: bind_eq_SomeE)
  next
    case 2
    then show ?thesis
      using assms(1) chars by (auto simp: module_result_def jString2JSValue_def release elim!: bind_eq_SomeE)
  next
    case 3
    then show ?thesis
      using assms(1) chars
      by (auto simp: module_result_def parseToObject_def release throw elim!: bind_eq_SomeE split: parse_result.splits)
  qed (use assms(1) in \<open>simp add: module_result_def\<close>)
qed

text \<open>
  After the call into Java: reading the result makes a reference to its data, and of all the references made only
  the one to the result is not deleted.
\<close>

lemma module_call_locals:
  assumes wf: "jni_wf j0" and rs: "rs = fst (new_locals xs j0)" and w2: "w_jni w2 = snd (new_locals xs j0)"
    and new: "new_local obj ((w_jni w2)\<lparr>calls := cs\<rparr>) = (result, w_jni w3)"
    and type: "GetIntField_type result (w_jni w3) = Some t"
    and data: "try_jni (GetObjectField_data result) w3 = Some (d, w4)"
    and res: "module_result pf callee t d w4 = Some (v, w5)"
  shows "\<exists>x. obj = Some x \<and> next_ref j0 \<le> result \<and>
    locals (w_jni (end_scope pf n (delete_refs (d # rs) w5))) = (result, x) # locals j0"
proof -
  let ?j2 = "w_jni w2" and ?j3 = "w_jni w3" and ?j4 = "w_jni w4"
  have g: "grown j0 (rev rs) ?j2" using new_locals_grown0 [OF wf] by (simp add: rs w2)
  have wf2: "jni_wf ?j2" by (rule grown_wf [OF g])
  have "result \<noteq> 0" using type by (cases "result = 0") (simp_all add: GetIntField_type_def deref_def)
  then obtain x where x: "obj = Some x" using new by (cases obj) (simp_all add: new_local_def)
  have result: "result = next_ref ?j2" and l3: "locals ?j3 = (result, x) # locals ?j2"
    and n3: "next_ref ?j3 = Suc (next_ref ?j2)"
  proof -
    have "w_jni w3 = snd (new_local obj (?j2\<lparr>calls := cs\<rparr>))" "result = fst (new_local obj (?j2\<lparr>calls := cs\<rparr>))"
      using new by simp_all
    then show "result = next_ref ?j2" "locals ?j3 = (result, x) # locals ?j2" "next_ref ?j3 = Suc (next_ref ?j2)"
      by (simp_all add: x new_local_def)
  qed
  have "jni_wf (?j2\<lparr>calls := cs\<rparr>)" using wf2 by (simp add: jni_wf_def live_def)
  from jni_wf_new_local [OF this, of obj] have wf3: "jni_wf ?j3" unfolding new by simp
  obtain y where "new_local y ?j3 = (d, ?j4)"
    using data that by (auto simp: try_jni_def GetObjectField_data_def split: option.splits jobj.splits)
  then have d: "d = fst (new_local y ?j3)" and j4: "?j4 = snd (new_local y ?j3)" by simp_all
  have l5: "locals (w_jni w5) = locals ?j4"
    by (rule module_result_locals [OF res]) (simp add: j4 jni_wf_new_local [OF wf3])
  have d_new: "d = 0 \<or> next_ref ?j3 \<le> d" by (cases y) (simp_all add: d new_local_def)
  have "result \<noteq> d" using d_new n3 result wf2 by (auto simp: jni_wf_def)
  moreover have "result \<notin> set rs" using g result wf2 by (auto simp: grown_def jni_wf_def)
  ultimately have kept: "result \<notin> set (d # rs)" by simp
  have "locals (fold DeleteLocalRef (d # rs) ?j2) = locals j0"
    using g d_new n3 by (intro grown_deleted [OF g]) (auto simp: grown_def)
  then have "filter (\<lambda>p. fst p \<notin> set (d # rs)) (locals ?j2) = locals j0" by (simp only: fold_delete)
  moreover have "locals (w_jni (end_scope pf n (delete_refs (d # rs) w5))) =
      filter (\<lambda>p. fst p \<notin> set (d # rs)) (locals ?j4)"
    using fold_delete [of "d # rs" "w_jni w5"] by (simp add: end_scope_def delete_refs_def upd_jni_def l5)
  moreover have "filter (\<lambda>p. fst p \<notin> set (d # rs)) (locals ?j4) = filter (\<lambda>p. fst p \<notin> set (d # rs)) (locals ?j3)"
    by (cases y) (auto simp: j4 d new_local_def)
  moreover have "next_ref j0 \<le> result" using g result by (auto simp: grown_def)
  ultimately show ?thesis using l3 kept x by simp
qed

text \<open>
  C17. \<open>callNativeModule\<close> calls Java once with the marshalled arguments, and of the references it made all are
  deleted but one: the object \<open>x\<close> that this call answered with stays in the table of local references after
  every call.
\<close>

theorem callNativeModule_leaks:
  assumes "CallNativeModule pf callee args w = Some (v, w')" and "bridge_ok w"
  shows "\<exists>objs u cs r x.
    marshal pf [AsString, AsString, AsString, AsJSON, AsJSON] args 0 w = Some (objs, u) \<and>
    cs = calls (w_jni w) @ [JCall (fst (method_of jCallNativeModuleMethodId)) (snd (method_of jCallNativeModuleMethodId))
      (deref (jThis w) (w_jni w)) objs] \<and>
    prefix cs (calls (w_jni w')) \<and> object_result (jhost pf) cs = Some x \<and>
    locals (w_jni w') = (r, x) # locals (w_jni w) \<and> next_ref (w_jni w) \<le> r"
proof -
  obtain rs w1 w2 result w3 t d w4 w5 where
    args: "convert_args pf [AsString, AsString, AsString, AsJSON, AsJSON] args 0 (begin_scope pf ''callNativeModule'' w)
      = Some (rs, w1)"
    and cache: "cache_method pf jCallNativeModuleMethodId (jBridgeClazz w1) (fst (method_of jCallNativeModuleMethodId))
      (snd (method_of jCallNativeModuleMethodId)) w1 = Some w2"
    and call: "try_jni (CallObjectMethod (jhost pf) (jThis w2) (method_ids w2 jCallNativeModuleMethodId) rs) w2
      = Some (result, w3)"
    and type: "GetIntField_type result (w_jni w3) = Some t"
    and data: "try_jni (GetObjectField_data result) w3 = Some (d, w4)"
    and res: "module_result pf callee t d w4 = Some (v, w5)"
    and w': "w' = end_scope pf ''callNativeModule'' (delete_refs (d # rs) w5)"
    using assms(1) by (auto simp: CallNativeModule_def call_simps elim!: bind_eq_SomeE)
  obtain j where inv: "invoke (method_ids w2 jCallNativeModuleMethodId) (jThis w2) rs (w_jni w2) = Some j"
    and new: "new_local (object_result (jhost pf) (calls j)) j = (result, w_jni w3)"
    by (rule try_jni_CallObjectMethod [OF call])
  obtain xs u where m: "marshal pf [AsString, AsString, AsString, AsJSON, AsJSON] args 0 w = Some (xs, u)"
    and rs: "rs = fst (new_locals xs (w_jni w))" and w2: "w_jni w2 = snd (new_locals xs (w_jni w))"
    and j: "j = (w_jni w2)\<lparr>calls := calls (w_jni w) @ [JCall (fst (method_of jCallNativeModuleMethodId))
      (snd (method_of jCallNativeModuleMethodId)) (deref (jThis w) (w_jni w)) xs]\<rparr>" (is "_ = _\<lparr>calls := ?cs\<rparr>")
    by (rule java_invoke [OF assms(2) args cache inv])
  have wf: "jni_wf (w_jni w)" using assms(2) by (simp add: bridge_ok_def)
  have cs: "calls j = ?cs" by (simp add: j)
  have new': "new_local (object_result (jhost pf) ?cs) ((w_jni w2)\<lparr>calls := ?cs\<rparr>) = (result, w_jni w3)"
    using new unfolding cs by (simp only: j)
  have "calls (w_jni w3) = ?cs"
    using arg_cong [OF new', of "\<lambda>p. calls (snd p)"] by (simp add: new_local_def split: option.splits)
  moreover have "calls (w_jni w4) = calls (w_jni w3)"
    using data by (auto simp: try_jni_def GetObjectField_data_def new_local_def split: option.splits jobj.splits)
  moreover have "prefix (calls (w_jni w4)) (calls (w_jni w5))"
    using fr.post_module_result res by (auto simp: post_def frame_kept_def)
  moreover have "calls (fold DeleteLocalRef ds j) = calls j" for ds j
    by (induction ds arbitrary: j) (simp_all add: DeleteLocalRef_def)
  ultimately have "prefix ?cs (calls (w_jni w'))"
    by (simp add: w' end_scope_def delete_refs_def upd_jni_def del: fold.simps)
  then show ?thesis
    using m module_call_locals [OF wf rs w2 new' type data res, of "''callNativeModule''"] unfolding w' by blast
qed

theorem callNativeModule_leaks_witness:
  "\<exists>v w' objs u cs r x. CallNativeModule demo_platform Undefined
      [Str (u16s ''1''), Str (u16s ''m''), Str (u16s ''f''), Undefined, Undefined] demo_world = Some (v, w') \<and>
     marshal demo_platform [AsString, AsString, AsString, AsJSON, AsJSON]
      [Str (u16s ''1''), Str (u16s ''m''), Str (u16s ''f''), Undefined, Undefined] 0 demo_world = Some (objs, u) \<and>
     cs = calls (w_jni demo_world) @ [JCall (fst (method_of jCallNativeModuleMethodId))
      (snd (method_of jCallNativeModuleMethodId)) (deref (jThis demo_world) (w_jni demo_world)) objs] \<and>
     prefix cs (calls (w_jni w')) \<and> object_result (jhost demo_platform) cs = Some x \<and>
     locals (w_jni w') = (r, x) # locals (w_jni demo_world) \<and> next_ref (w_jni demo_world) \<le> r"
proof -
  have "CallNativeModule demo_platform Undefined
      [Str (u16s ''1''), Str (u16s ''m''), Str (u16s ''f''), Undefined, Undefined] demo_world \<noteq> None"
    by code_simp
  then obtain v w' where "CallNativeModule demo_platform Undefined
      [Str (u16s ''1''), Str (u16s ''m''), Str (u16s ''f''), Undefined, Undefined] demo_world = Some (v, w')"
    by force
  from callNativeModule_leaks [OF this demo_bridge_ok] this show ?thesis by blast
qed

end
