(* ===== verification/BridgeCorrect.thy ===== *)
theory BridgeCorrect
  imports LocalRefs
begin

text \<open>
  What the functions Java calls guarantee as a whole: the trace, the frame, the reference tables, the
  initialisation, the reporting of exceptions.
\<close>

section \<open>Trace and frame\<close>

text \<open>
  C10. A call of \<open>execJS\<close> leaves the trace balanced, whatever the script, the promise jobs and the natives
  they call do: it appends a well-nested log of begin and end markers, and nothing when the marker
  file is not open.
\<close>

theorem execJS_trace_balanced:
  assumes "native_execJS pf jinstanceid jnamespace jfunction jargs w = Some (r, w')"
  shows "trace_balanced (sys pf) (w_trace w) (w_trace w')"
  using tr.post_native_execJS assms by (auto simp: post_def trace_kept_def)

theorem execJS_trace_balanced_witness:
  "\<exists>w'. native_execJS demo_platform 10 0 11 12 demo_world = Some (1, w') \<and>
     trace_balanced (sys demo_platform) (w_trace demo_world) (w_trace w')"
  using demo_execJS execJS_trace_balanced by blast

text \<open>
  A call of \<open>execJS\<close> keeps the cached classes, the bridge object, the virtual machine, the context,
  the global object, the global references and the trace class; the log of the calls into Java is
  only appended to, and the table of local references stays well formed.
\<close>

theorem execJS_frame:
  assumes "native_execJS pf jinstanceid jnamespace jfunction jargs w = Some (r, w')" and "jni_wf (w_jni w)"
  shows "frame_kept w w' \<and> jni_wf (w_jni w')"
  using fr.post_native_execJS jw.post_native_execJS assms by (auto simp: post_def wf_kept_def)

theorem execJS_frame_witness:
  "\<exists>w'. native_execJS demo_platform 10 0 11 12 demo_world = Some (1, w') \<and>
     frame_kept demo_world w' \<and> jni_wf (w_jni w')"
  using demo_execJS execJS_frame [OF _ demo_wf] by blast

text \<open>
  A program, whatever it does, keeps what is in the job queue: it only appends jobs behind, starts
  tasks that it counts, and never touches the draining flag or the list of finished tasks.
\<close>

theorem run_js_appends:
  assumes "run_js pf p w = Some (r, w')" and "context_private w = Some sc"
  shows "\<exists>js ts. context_private w' = Some (sc\<lparr>jobQueue := jobQueue sc @ map Some js,
    running := running sc @ ts, outstanding := outstanding sc + length ts\<rparr>)"
  using qu.post_run_js assms by (fastforce simp: post_def queue_kept_def)

theorem run_js_appends_witness:
  "\<exists>w' js ts. run_js demo_platform (demo_call []) demo_world = Some (Some Undefined, w') \<and>
     context_private w' = Some (new_ShellContext\<lparr>jobQueue := jobQueue new_ShellContext @ map Some js,
       running := running new_ShellContext @ ts, outstanding := outstanding new_ShellContext + length ts\<rparr>)"
proof -
  have "run_js demo_platform (demo_call []) demo_world = Some (Some Undefined, demo_world)"
    by (simp add: demo_call_def)
  from run_js_appends [OF this, of new_ShellContext] this show ?thesis
    by (simp add: demo_world_def)
qed

section \<open>Initialisation\<close>

lemma initGlobalObject_globalContext:
  "initGlobalObject pf params glob w = Some (ok, w') \<Longrightarrow> globalContext w' = globalContext w"
  using fr.post_initGlobalObject by (auto simp: post_def frame_kept_def)

lemma init_run_globalContext: "init_run pf script glob w = Some (r, w') \<Longrightarrow> globalContext w' = globalContext w"
  using fr.post_init_run by (auto simp: post_def frame_kept_def)

lemma initFramework_sets_context:
  assumes "native_initFramework pf object script params w = Some (r, w')"
    and "JS_Init_ok (boot pf)" and "new_context_ok (boot pf)"
  shows "globalContext w'"
  using assms
  by (auto simp: native_initFramework_def Let_def with_jni_def NewGlobalRef_def elim!: bind_eq_SomeE
      dest!: initGlobalObject_globalContext init_run_globalContext split: if_splits prod.splits option.splits)

text \<open>
  C11. The framework is initialised at most once, and a failure is final: once the engine and its context
  exist, whatever the first \<open>initFramework\<close> returned, every later one returns 0 and changes nothing.
\<close>

theorem initFramework_once:
  assumes "native_initFramework pf object script params w = Some (r, w')"
    and "JS_Init_ok (boot pf)" and "new_context_ok (boot pf)"
  shows "native_initFramework pf object' script' params' w' = Some (0, w')"
  using initFramework_sets_context [OF assms] by (simp add: native_initFramework_def)

definition failing_platform :: platform where
  "failing_platform = demo_platform\<lparr>boot := boot demo_platform\<lparr>self_hosted_ok := False\<rparr>\<rparr>"

theorem initFramework_once_witness:
  "\<exists>w'. native_initFramework failing_platform 1 0 0 (demo_world\<lparr>globalContext := False\<rparr>) = Some (0, w') \<and>
     native_initFramework failing_platform 1 0 0 w' = Some (0, w')"
proof -
  let ?w = "demo_world\<lparr>globalContext := True, w_exn := no_exn, w_heap := [], context_private := None\<rparr>"
  have "native_initFramework failing_platform 1 0 0 (demo_world\<lparr>globalContext := False\<rparr>) = Some (0, ?w)"
    by (simp add: native_initFramework_def failing_platform_def demo_platform_def Let_def)
  moreover have "JS_Init_ok (boot failing_platform)" "new_context_ok (boot failing_platform)"
    by (simp_all add: failing_platform_def demo_platform_def)
  ultimately show ?thesis using initFramework_once by blast
qed

text \<open>
  C12. When the shell context cannot be allocated, \<open>initFramework\<close> answers 1, as after success, but there is
  no global object: every later \<open>execJS\<close> with a function and an instance crashes.
\<close>

theorem initFramework_false_success:
  assumes "\<not> globalContext w" and "globalObject w = None"
    and "JS_Init_ok (boot pf)" and "new_context_ok (boot pf)" and "self_hosted_ok (boot pf)"
    and "\<not> shell_alloc_ok (boot pf)" and "jfunction \<noteq> 0" and "jinstanceid \<noteq> 0"
  shows "\<exists>w'. native_initFramework pf object script params w = Some (1, w') \<and>
    native_execJS pf jinstanceid jnamespace jfunction jargs w' = None"
  using assms by (simp add: native_initFramework_def Let_def native_execJS_def)

definition tight_platform :: platform where
  "tight_platform = demo_platform\<lparr>boot := boot demo_platform\<lparr>shell_alloc_ok := False\<rparr>\<rparr>"

theorem initFramework_false_success_witness:
  "\<exists>w'. native_initFramework tight_platform 1 0 0 (demo_world\<lparr>globalContext := False, globalObject := None\<rparr>) = Some (1, w') \<and>
    native_execJS tight_platform 10 0 11 12 w' = None"
  by (rule initFramework_false_success) (simp_all add: tight_platform_def demo_platform_def)

section \<open>Exceptions\<close>

lemma exn_unchanged [simp]:
  "w_exn (snd (with_jni f w)) = w_exn w" "w_exn (upd_jni g w) = w_exn w" "w_exn (delete_refs rs w) = w_exn w"
  "w_exn (delete_ScopedJString s w) = w_exn w" "w_exn (delete_ScopedJStringUTF8 u w) = w_exn w"
  "w_exn (begin_scope pf n w) = w_exn w" "w_exn (end_scope pf n w) = w_exn w"
  by (simp_all add: with_jni_def upd_jni_def delete_refs_def delete_ScopedJString_def delete_ScopedJStringUTF8_def
      begin_scope_def end_scope_def Let_def case_prod_unfold)

lemma try_upd_jni_exn: "try_upd_jni f w = Some w' \<Longrightarrow> w_exn w' = w_exn w"
  by (auto simp: try_upd_jni_def split: option.splits)

lemma reportException_exn: "reportException pf r f e w = Some w' \<Longrightarrow> w_exn w' = w_exn w"
  by (auto simp: reportException_def Let_def case_prod_unfold elim!: bind_eq_SomeE dest!: try_upd_jni_exn)

lemma ReportException_exn: "ReportException pf v r f w = Some w' \<Longrightarrow> w_exn w' = w_exn w"
  by (auto simp: ReportException_def reportException_exn elim!: bind_eq_SomeE split: jsval.splits)

lemma run_js_throws: "run_js pf p w = Some (None, w') \<Longrightarrow> JS_IsExceptionPending w'"
  by (induction p arbitrary: w)
    (auto simp: JS_IsExceptionPending_def throw_exception_def setPendingException_def elim!: bind_eq_SomeE)

lemma ExecuteJavaScript_failed:
  assumes "ExecuteJavaScript pf source True w = Some (False, w')"
  shows "JS_IsExceptionPending w'"
proof -
  obtain w1 r w2 w3 saved s where "run_js pf r w1 = Some (None, w2)"
    and "(if JS_IsExceptionPending w2 then ReportException pf (JS_GetPendingException w2) 0 [] w2 else Some w2) = Some w3"
    and w': "w' = delete_AutoSaveExceptionState saved (delete_ScopedJString s w3)"
    using assms
    by (auto simp: ExecuteJavaScript_def Let_def case_prod_unfold elim!: bind_eq_SomeE) (metis snd_conv)
  then have "JS_IsExceptionPending (delete_ScopedJString s w3)"
    using run_js_throws [of pf r w1 w2] ReportException_exn [of pf _ 0 "[]" w2 w3]
    by (auto simp: JS_IsExceptionPending_def split: if_splits)
  then show ?thesis by (simp add: w' delete_AutoSaveExceptionState_def)
qed

lemma exec_run_value:
  assumes "exec_run pf glob jinstanceid jnamespace func argv w = Some (r, w')"
    and "exec_call pf glob jnamespace func argv w = Some w1"
  shows "r = (if JS_IsExceptionPending w1 then 0 else 1)"
  using assms by (auto simp: exec_run_def Let_def elim!: bind_eq_SomeE split: if_splits)










section \<open>A pending exception and the next call\<close>

text \<open>Some call of \<open>reportJSException\<close> was made on the way from \<open>w\<close> to \<open>w'\<close>.\<close>

definition reported :: "world \<Rightarrow> world \<Rightarrow> bool" where
  "reported w w' \<longleftrightarrow> (\<exists>cs this args. prefix (calls (w_jni w) @ cs @ [JCall ''reportJSException''
     ''(Ljava/lang/String;Ljava/lang/String;Ljava/lang/String;)V'' this args]) (calls (w_jni w')))"

lemma reported_frame:
  assumes "frame_kept w w1" and "reported w1 w2" and "frame_kept w2 w3"
  shows "reported w w3"
proof -
  obtain cs where cs: "calls (w_jni w1) = calls (w_jni w) @ cs" using assms(1) by (auto simp: frame_kept_def prefix_def)
  obtain cs' this args where "prefix (calls (w_jni w1) @ cs' @ [JCall ''reportJSException''
      ''(Ljava/lang/String;Ljava/lang/String;Ljava/lang/String;)V'' this args]) (calls (w_jni w2))"
    using assms(2) unfolding reported_def by blast
  moreover have "prefix (calls (w_jni w2)) (calls (w_jni w3))" using assms(3) by (simp add: frame_kept_def)
  ultimately have "prefix (calls (w_jni w) @ (cs @ cs') @ [JCall ''reportJSException''
      ''(Ljava/lang/String;Ljava/lang/String;Ljava/lang/String;)V'' this args]) (calls (w_jni w3))"
    unfolding cs append_assoc by (rule prefix_order.trans)
  then show ?thesis unfolding reported_def by blast
qed

lemma reportException_reported:
  assumes "reportException pf r f e w = Some w'"
  shows "reported w w'"
proof -
  have made: "calls (snd (NewStringUTF h bs j)) = calls j" for h bs j
    by (simp add: NewStringUTF_def new_local_def)
  have deleted: "calls (fold DeleteLocalRef ds j) = calls j" for ds j
    by (induction ds arbitrary: j) (simp_all add: DeleteLocalRef_def)
  let ?w1 = "snd (with_jni (NewStringUTF (jhost pf) e) w)"
  let ?v = "snd (with_jni (NewStringUTF (jhost pf) f) ?w1)"
  obtain mid args w2 rs where "GetMethodID (jhost pf) (jBridgeClazz ?v) ''reportJSException''
      ''(Ljava/lang/String;Ljava/lang/String;Ljava/lang/String;)V'' (w_jni ?v) = Some mid"
    and call: "try_upd_jni (CallVoidMethod (jThis ?v) mid args) ?v = Some w2" and w': "w' = delete_refs rs w2"
    using assms by (auto simp: reportException_def Let_def case_prod_unfold elim!: bind_eq_SomeE)
  then have mid: "mid = None \<or> mid = Some (''reportJSException'', ''(Ljava/lang/String;Ljava/lang/String;Ljava/lang/String;)V'')"
    by (auto simp: GetMethodID_def split: option.splits if_splits)
  have v: "calls (w_jni ?v) = calls (w_jni w)" by (simp add: with_jni_def Let_def case_prod_unfold made)
  have calls: "calls (w_jni w') = calls (w_jni w2)" by (simp add: w' delete_refs_def upd_jni_def deleted)
  obtain j where "invoke mid (jThis ?v) args (w_jni ?v) = Some j" "calls (w_jni w2) = calls j"
    using call by (auto simp: try_upd_jni_CallVoidMethod elim!: bind_eq_SomeE)
  then have "calls (w_jni w') = calls (w_jni w) @ [] @ [JCall ''reportJSException''
      ''(Ljava/lang/String;Ljava/lang/String;Ljava/lang/String;)V'' (deref (jThis ?v) (w_jni ?v)) (map (\<lambda>r. deref r (w_jni ?v)) args)]"
    using mid v calls by (auto simp: invoke_def split: option.splits if_splits)
  then show ?thesis unfolding reported_def by (metis prefix_order.refl)
qed

lemma ReportException_reported: "ReportException pf v r f w = Some w' \<Longrightarrow> reported w w'"
  by (auto simp: ReportException_def reportException_reported elim!: bind_eq_SomeE split: jsval.splits)

lemma postD: "post S w m \<Longrightarrow> m = Some (x, w') \<Longrightarrow> S w w'"
  by (simp add: post_def)

lemma post3D: "post3 S w m \<Longrightarrow> m = Some (x, y, w') \<Longrightarrow> S w w'"
  by (simp add: post3_def)

text \<open>An argument of type 3, whose text may fail to parse: the error is reported then.\<close>

lemma exec_json_arg_pending:
  assumes parse: "parseToObject pf d w = Some (okay, v, w3)" and pending: "JS_IsExceptionPending w"
    and rest: "(if \<not> okay \<and> JS_IsExceptionPending w3 then
       do { (chars, scopedStr, w) \<leftarrow> ScopedJStringUTF8_getChars pf (new_ScopedJStringUTF8 d) w3;
            w \<leftarrow> ReportException pf (JS_GetPendingException w) jinstanceid chars w;
            let w = JS_ClearPendingException w;
            let w = delete_refs [d, jArg] w;
            Some (None, delete_ScopedJStringUTF8 scopedStr w) }
     else Some (Some (argv @ [if okay then v else Undefined]), delete_refs [d, jArg] w3)) = Some (r, w')"
  shows "case r of None \<Rightarrow> reported w w' | Some argv' \<Rightarrow> JS_IsExceptionPending w'"
proof -
  have w3: "JS_IsExceptionPending w3"
    using post3D [OF pe.post3_parseToObject parse] pending by (simp add: pending_kept_def)
  show ?thesis
  proof (cases okay)
    case True
    then show ?thesis using rest w3 by (auto simp: JS_IsExceptionPending_def)
  next
    case False
    then obtain chars s w4 w5 where chars: "ScopedJStringUTF8_getChars pf (new_ScopedJStringUTF8 d) w3 = Some (chars, s, w4)"
      and report: "ReportException pf (JS_GetPendingException w4) jinstanceid chars w4 = Some w5"
      and w': "r = None" "w' = delete_ScopedJStringUTF8 s (delete_refs [d, jArg] (JS_ClearPendingException w5))"
      using rest w3 by (auto simp: Let_def elim!: bind_eq_SomeE)
    have "frame_kept w w4"
      by (rule fr.R_trans [OF post3D [OF fr.post3_parseToObject parse] post3D [OF fr.post_scoped_strings(2) chars]])
    moreover have "frame_kept w5 w'"
      unfolding w'(2) by (rule fr.R_trans [OF fr.R_trans [OF fr.R_clear fr.R_delete_refs] fr.post_scoped_strings(4)])
    ultimately show ?thesis using reported_frame ReportException_reported [OF report] w'(1) by simp
  qed
qed

lemma exec_arg_pending:
  assumes "exec_arg pf jinstanceid jargs i argv w = Some (r, w')" and "JS_IsExceptionPending w"
  shows "case r of None \<Rightarrow> reported w w' | Some argv' \<Rightarrow> JS_IsExceptionPending w'"
proof -
  obtain jArg w1 t d w2 where arg: "try_jni (GetObjectArrayElement jargs i) w = Some (jArg, w1)"
    and data: "try_jni (GetObjectField_data jArg) w1 = Some (d, w2)"
    and type: "GetIntField_type jArg (w_jni w1) = Some t"
    using assms(1) by (auto simp: exec_arg_def elim!: bind_eq_SomeE)
  have w2: "JS_IsExceptionPending w2"
    using assms(2) arg data by (auto simp: try_jni_def JS_IsExceptionPending_def split: option.splits)
  consider "t = 1" | "t = 2" | "t = 3" | "t \<noteq> 1" "t \<noteq> 2" "t \<noteq> 3" by blast
  then show ?thesis
  proof cases
    case 1
    then show ?thesis
      using assms(1) arg data type w2 pe.post_call_doubleValue
      by (fastforce simp: exec_arg_def post_def pending_kept_def JS_IsExceptionPending_def elim!: bind_eq_SomeE)
  next
    case 2
    then show ?thesis
      using assms(1) arg data type w2 pe.post_jString2JSValue
      by (fastforce simp: exec_arg_def post_def pending_kept_def JS_IsExceptionPending_def elim!: bind_eq_SomeE)
  next
    case 3
    have "frame_kept w w2"
      by (rule fr.R_trans [OF postD [OF fr.post_calls(6) arg] postD [OF fr.post_calls(5) data]])
    moreover have "case r of None \<Rightarrow> reported w2 w' | Some argv' \<Rightarrow> JS_IsExceptionPending w'"
      using assms(1) arg data type 3 exec_json_arg_pending [OF _ w2]
      by (auto simp: exec_arg_def elim!: bind_eq_SomeE)
    ultimately show ?thesis using reported_frame [OF _ _ fr.R_refl] by (cases r) auto
  next
    case 4
    then show ?thesis
      using assms(1) arg data type w2 by (auto simp: exec_arg_def JS_IsExceptionPending_def elim!: bind_eq_SomeE)
  qed
qed

lemma exec_args_pending:
  "exec_args pf jinstanceid jargs is argv w = Some (r, w') \<Longrightarrow> JS_IsExceptionPending w \<Longrightarrow>
     (case r of None \<Rightarrow> reported w w' | Some argv' \<Rightarrow> JS_IsExceptionPending w')"
proof (induction "is" arbitrary: argv w)
  case (Cons i "is")
  obtain x w1 where arg: "exec_arg pf jinstanceid jargs i argv w = Some (x, w1)"
    and rest: "(case x of None \<Rightarrow> Some (None, w1) | Some argv \<Rightarrow> exec_args pf jinstanceid jargs is argv w1) = Some (r, w')"
    using Cons.prems(1) by (auto elim!: bind_eq_SomeE)
  have "frame_kept w w1" using fr.post_exec_arg arg by (auto simp: post_def)
  then show ?case
    using exec_arg_pending [OF arg Cons.prems(2)] rest Cons.IH reported_frame [OF _ _ fr.R_refl]
    by (cases x; cases r) fastforce+
qed auto

lemma call_catch_free_pending:
  assumes "\<And>f this args. catch_free (call_function (engine pf) f this args)"
    and "JS_CallFunctionName pf obj name args w = Some (x, w')" and "JS_IsExceptionPending w"
  shows "JS_IsExceptionPending w'"
  using assms(2,3) run_js_pending [OF assms(1), of w] pe.R_throw
  by (auto simp: JS_CallFunctionName_def Let_def post_def pending_kept_def split: if_splits)

lemma exec_call_pending:
  assumes "\<And>f this args. catch_free (call_function (engine pf) f this args)"
    and "exec_call pf glob jnamespace func argv w = Some w'" and "JS_IsExceptionPending w"
  shows "JS_IsExceptionPending w'"
proof (cases "jnamespace = 0")
  case True
  then obtain x w1 where "JS_CallFunctionName pf glob func argv (begin_scope pf ''CallFunctionName normal'' w) = Some (x, w1)"
    and "w' = end_scope pf ''CallFunctionName normal'' w1"
    using assms(2) by (auto simp: exec_call_def elim!: bind_eq_SomeE)
  then show ?thesis
    using call_catch_free_pending [OF assms(1)] assms(3) by (simp add: JS_IsExceptionPending_def)
next
  case False
  let ?w = "begin_scope pf ''CallFunctionName namespace'' w"
  obtain ns s w1 obj x w2 where chars: "ScopedJStringUTF8_getChars pf (new_ScopedJStringUTF8 jnamespace) ?w = Some (ns, s, w1)"
    and call: "JS_CallFunctionName pf obj func argv w1 = Some (x, w2)"
    and w': "w' = end_scope pf ''CallFunctionName namespace'' (delete_ScopedJStringUTF8 s w2)"
    using assms(2) False by (auto simp: exec_call_def elim!: bind_eq_SomeE split: jsval.splits)
  have "JS_IsExceptionPending w1"
    using pe.post_scoped_strings(2) chars assms(3) by (auto simp: post3_def pending_kept_def JS_IsExceptionPending_def)
  then have "JS_IsExceptionPending w2" by (rule call_catch_free_pending [OF assms(1) call])
  then show ?thesis by (simp add: w' JS_IsExceptionPending_def)
qed

lemma exec_run_pending:
  assumes "\<And>f this args. catch_free (call_function (engine pf) f this args)"
    and "exec_run pf glob jinstanceid jnamespace func argv w = Some (r, w')" and "JS_IsExceptionPending w"
  shows "r = 0 \<and> reported w w'"
proof -
  obtain w1 where w1: "exec_call pf glob jnamespace func argv w = Some w1"
    using assms(2) by (auto simp: exec_run_def elim!: bind_eq_SomeE)
  have p: "JS_IsExceptionPending w1" by (rule exec_call_pending [OF assms(1) w1 assms(3)])
  obtain w2 w3 where report: "ReportException pf (JS_GetPendingException w1) jinstanceid func w1 = Some w2"
    and drain: "DrainJobQueue pf (begin_scope pf ''DrainJobQueue'' (JS_ClearPendingException w2)) = Some w3"
    and w': "w_jni w' = w_jni w3" "r = 0"
    using assms(2) w1 p
    by (auto simp: exec_run_def Let_def makeIdleNotification_def JS_GC_def end_scope_def begin_scope_def
        elim!: bind_eq_SomeE split: prod.splits if_splits)
  have "frame_kept w w1" using fr.post1_exec_call w1 by (simp add: post1_def)
  moreover have "reported w1 w2" by (rule ReportException_reported [OF report])
  ultimately have "reported w w2" using reported_frame [OF _ _ fr.R_refl] by blast
  moreover have "prefix (calls (w_jni w2)) (calls (w_jni w'))"
    using fr.post1_DrainJobQueue drain w'(1)
    by (fastforce simp: post1_def frame_kept_def begin_scope_def JS_ClearPendingException_def)
  ultimately show ?thesis using w'(2) unfolding reported_def by (meson prefix_order.trans)
qed

text \<open>
  C14. A script run by \<open>execJSService\<close> that throws leaves its exception pending, so that the next \<open>execJS\<close>
  answers 0 and reports an exception to Java, in any namespace, with any arguments, whatever the called
  functions do short of entering a catch clause: returning normally does not help.
\<close>

theorem service_error_fails_next_call:
  assumes "native_execJSService pf script w = Some (0, w1)" and "script \<noteq> 0"
    and "\<And>f this args. catch_free (call_function (engine pf) f this args)"
    and "native_execJS pf jinstanceid jnamespace jfunction jargs w1 = Some (r, w2)"
    and "jinstanceid \<noteq> 0" and "jfunction \<noteq> 0"
  shows "JS_IsExceptionPending w1 \<and> r = 0 \<and> reported w1 w2"
proof -
  have "ExecuteJavaScript pf script True w = Some (False, w1)"
    using assms(1,2) by (auto simp: native_execJSService_def elim!: bind_eq_SomeE split: if_splits)
  then have pending: "JS_IsExceptionPending w1" by (rule ExecuteJavaScript_failed)
  obtain len glob x u where args: "exec_args pf jinstanceid jargs [0..<len] [] w1 = Some (x, u)"
    and rest: "(case x of None \<Rightarrow> Some (0, u)
       | Some argv \<Rightarrow>
           do { (func, scoped, w) \<leftarrow> ScopedJStringUTF8_getChars pf (new_ScopedJStringUTF8 jfunction) u;
                let w = begin_exec_scope pf func w;
                (rval, w) \<leftarrow> exec_run pf glob jinstanceid jnamespace func argv w;
                let w = end_scope pf ''exeJS'' w;
                Some (rval, delete_ScopedJStringUTF8 scoped w) }) = Some (r, w2)"
    using assms(4-6) by (auto simp: native_execJS_def elim!: bind_eq_SomeE)
  note u = exec_args_pending [OF args pending]
  show ?thesis
  proof (cases x)
    case None
    then show ?thesis using u rest pending by simp
  next
    case (Some argv)
    then obtain func s v w3 where chars: "ScopedJStringUTF8_getChars pf (new_ScopedJStringUTF8 jfunction) u = Some (func, s, v)"
      and run: "exec_run pf glob jinstanceid jnamespace func argv (begin_exec_scope pf func v) = Some (r, w3)"
      and w2: "w2 = delete_ScopedJStringUTF8 s (end_scope pf ''exeJS'' w3)"
      using rest by (auto simp: Let_def elim!: bind_eq_SomeE)
    have "JS_IsExceptionPending v"
      using pe.post_scoped_strings(2) chars u Some by (auto simp: post3_def pending_kept_def)
    then have "r = 0 \<and> reported (begin_exec_scope pf func v) w3"
      by (intro exec_run_pending [OF assms(3) run]) (simp add: JS_IsExceptionPending_def begin_exec_scope_def)
    then have r: "r = 0" "reported v w3" by (simp_all add: reported_def begin_exec_scope_def)
    have "frame_kept w1 u" using fr.post_exec_args args by (auto simp: post_def)
    moreover have "frame_kept u v" using fr.post_scoped_strings(2) chars by (auto simp: post3_def)
    ultimately have "frame_kept w1 v" by (rule fr.R_trans)
    moreover have "frame_kept (end_scope pf ''exeJS'' w3) w2" unfolding w2 by (rule fr.post_scoped_strings(4))
    then have "frame_kept w3 w2" by (simp add: frame_kept_def end_scope_def)
    ultimately show ?thesis using reported_frame r pending by blast
  qed
qed

lemma demo_service_then_call:
  "map_option (\<lambda>(r, w). (r, map_option fst (native_execJS demo_platform 10 0 11 12 w)))
     (native_execJSService demo_platform 11 demo_world) = Some (0, Some 0)"
  by code_simp

theorem service_error_fails_next_call_witness:
  "\<exists>w1 w2. native_execJSService demo_platform 11 demo_world = Some (0, w1) \<and>
     native_execJS demo_platform 10 0 11 12 w1 = Some (0, w2) \<and> JS_IsExceptionPending w1 \<and> reported w1 w2"
proof -
  obtain w1 r w2 where run: "native_execJSService demo_platform 11 demo_world = Some (0, w1)"
      "native_execJS demo_platform 10 0 11 12 w1 = Some (r, w2)"
    using demo_service_then_call by (auto simp: map_option_eq_Some)
  have "catch_free (call_function (engine demo_platform) f this args)" for f this args
    by (simp add: demo_platform_def demo_engine_def demo_call_def)
  from service_error_fails_next_call [OF run(1) _ this run(2)] run show ?thesis by auto
qed

end
