(* ===== verification/JobQueueCorrect.thy ===== *)
theory JobQueueCorrect
  imports Demo "HOL-Library.Multiset"
begin

text \<open>
  The draining of the job queue against an abstract first-in-first-out queue: a loop over the indices
  of a growing vector, whose slots are set to null behind it, does what popping the front and
  appending at the back does. Then termination, and the waiting for tasks.
\<close>

section \<open>The natives do not look at the shell context\<close>

definition ctx :: "ShellContext option \<Rightarrow> world \<Rightarrow> world" where
  "ctx c w = w\<lparr>context_private := c\<rparr>"

lemma ctx_fields [simp]:
  "w_jni (ctx c w) = w_jni w" "method_ids (ctx c w) = method_ids w" "jBridgeClazz (ctx c w) = jBridgeClazz w"
  "jWXLogUtils (ctx c w) = jWXLogUtils w" "jThis (ctx c w) = jThis w" "w_heap (ctx c w) = w_heap w"
  "w_exn (ctx c w) = w_exn w" "sVm (ctx c w) = sVm w" "context_private (ctx c w) = c"
  "getJNIEnv pf (ctx c w) = getJNIEnv pf w" "js_ToString pf (ctx c w) = js_ToString pf w"
  by (simp_all add: ctx_def getJNIEnv_def js_ToString_def fun_eq_iff)

lemma ctx_heap [simp]:
  "(ctx c w)\<lparr>w_heap := h\<rparr> = ctx c (w\<lparr>w_heap := h\<rparr>)"
  "(ctx c w)\<lparr>method_ids := m\<rparr> = ctx c (w\<lparr>method_ids := m\<rparr>)"
  "(ctx c w)\<lparr>w_idle := s\<rparr> = ctx c (w\<lparr>w_idle := s\<rparr>)" "w_idle (ctx c w) = w_idle w"
  by (cases w; simp add: ctx_def)+

abbreviation lift1 :: "ShellContext option \<Rightarrow> world option \<Rightarrow> world option" where
  "lift1 c \<equiv> map_option (ctx c)"

abbreviation lift2 :: "ShellContext option \<Rightarrow> ('a \<times> world) option \<Rightarrow> ('a \<times> world) option" where
  "lift2 c \<equiv> map_option (map_prod id (ctx c))"

abbreviation lift3 :: "ShellContext option \<Rightarrow> ('a \<times> 'b \<times> world) option \<Rightarrow> ('a \<times> 'b \<times> world) option" where
  "lift3 c \<equiv> map_option (map_prod id (map_prod id (ctx c)))"

lemma ctx_with_jni [simp]: "with_jni f (ctx c w) = map_prod id (ctx c) (with_jni f w)"
  by (simp add: with_jni_def ctx_def split_beta Let_def)

lemma ctx_try_jni [simp]: "try_jni f (ctx c w) = lift2 c (try_jni f w)"
  by (simp add: try_jni_def ctx_def split: option.split)

lemma ctx_try_upd_jni [simp]: "try_upd_jni f (ctx c w) = lift1 c (try_upd_jni f w)"
  by (simp add: try_upd_jni_def ctx_def split: option.split)

lemma ctx_upd [simp]:
  "upd_jni f (ctx c w) = ctx c (upd_jni f w)" "delete_refs rs (ctx c w) = ctx c (delete_refs rs w)"
  "begin_scope pf name (ctx c w) = ctx c (begin_scope pf name w)"
  "end_scope pf name (ctx c w) = ctx c (end_scope pf name w)"
  "throw_exception v (ctx c w) = ctx c (throw_exception v w)" "JS_GC (ctx c w) = ctx c (JS_GC w)"
  "JS_ClearPendingException (ctx c w) = ctx c (JS_ClearPendingException w)"
  by (simp_all add: upd_jni_def delete_refs_def begin_scope_def end_scope_def throw_exception_def JS_GC_def
      JS_ClearPendingException_def ctx_def)

lemma ctx_cache_method [simp]: "cache_method pf var clazz name sig (ctx c w) = lift1 c (cache_method pf var clazz name sig w)"
  by (simp add: cache_method_def map_option_bind comp_def)

lemmas lift_simps = Let_def case_prod_unfold map_option_bind bind_map_option comp_def option.map_comp

lemma ctx_strings [simp]:
  "ScopedJString_getChars s (ctx c w) = lift3 c (ScopedJString_getChars s w)"
  "ScopedJString_getCharsLength s (ctx c w) = ScopedJString_getCharsLength s w"
  "delete_ScopedJString s (ctx c w) = ctx c (delete_ScopedJString s w)"
  by (auto simp: ScopedJString_getChars_def ScopedJString_getCharsLength_def delete_ScopedJString_def lift_simps
      split: option.split)

lemma ctx_jString2JSValue [simp]: "jString2JSValue r (ctx c w) = lift2 c (jString2JSValue r w)"
  by (simp add: jString2JSValue_def lift_simps)

lemma ctx_parseToObject [simp]: "parseToObject pf r (ctx c w) = lift3 c (parseToObject pf r w)"
  by (auto simp: parseToObject_def lift_simps intro!: bind_option_cong split: parse_result.split)

lemma ctx_bytes [simp]: "bytes_to_jbyteArray bs (ctx c w) = lift2 c (bytes_to_jbyteArray bs w)"
  by (simp add: bytes_to_jbyteArray_def lift_simps)

lemma ctx_arguments [simp]:
  "getArgumentAsJString pf args i (ctx c w) = lift2 c (getArgumentAsJString pf args i w)"
  "getArgumentAsJByteArrayJSON pf args i (ctx c w) = lift2 c (getArgumentAsJByteArrayJSON pf args i w)"
  "getArgumentAsJByteArray pf args i (ctx c w) = lift2 c (getArgumentAsJByteArray pf args i w)"
  by (simp_all add: getArgumentAsJString_def getArgumentAsJByteArrayJSON_def getArgumentAsJByteArray_def lift_simps
      split: option.split sum.split jsval.split)

lemma ctx_call_doubleValue [simp]: "call_doubleValue pf r (ctx c w) = lift2 c (call_doubleValue pf r w)"
  by (simp add: call_doubleValue_def lift_simps)

lemma ctx_concat_args [simp]: "concat_args pf (ctx c w) vs = concat_args pf w vs"
  by (induction vs) simp_all

lemma ctx_natives:
  "CallNative pf callee args (ctx c w) = lift2 c (CallNative pf callee args w)"
  "CallNativeComponent pf callee args (ctx c w) = lift2 c (CallNativeComponent pf callee args w)"
  "CallAddElement pf callee args (ctx c w) = lift2 c (CallAddElement pf callee args w)"
  "SetTimeoutNative pf callee args (ctx c w) = lift2 c (SetTimeoutNative pf callee args w)"
  by (simp_all add: CallNative_def CallNativeComponent_def CallAddElement_def SetTimeoutNative_def lift_simps)

lemma ctx_module_result [simp]: "module_result pf callee t r (ctx c w) = lift2 c (module_result pf callee t r w)"
  by (simp add: module_result_def lift_simps)

lemma ctx_CallNativeModule: "CallNativeModule pf callee args (ctx c w) = lift2 c (CallNativeModule pf callee args w)"
  by (simp add: CallNativeModule_def lift_simps)

lemma ctx_NativeLog: "NativeLog pf callee args (ctx c w) = lift2 c (NativeLog pf callee args w)"
  by (auto simp: NativeLog_def lift_simps intro!: bind_option_cong split: option.split)

lemma ctx_run_native: "run_native pf n callee args (ctx c w) = lift2 c (run_native pf n callee args w)"
  by (cases n) (simp_all add: ctx_natives ctx_CallNativeModule ctx_NativeLog NotifyTrimMemory_def MarkupState_def
      GCAndSweep_def)

text \<open>A native leaves the shell context alone.\<close>

definition same_context :: "world \<Rightarrow> world \<Rightarrow> bool" where
  "same_context w w' \<longleftrightarrow> context_private w' = context_private w"

interpretation sc: world_relation pf same_context for pf
  by unfold_locales (simp_all add: same_context_def throw_exception_def)

lemma run_native_context: "run_native pf n callee args w = Some (v, w') \<Longrightarrow> context_private w' = context_private w"
  using sc.post_run_native by (auto simp: post_def same_context_def)

section \<open>The abstract queue\<close>

text \<open>Taking the first \<open>k\<close> slots away.\<close>

definition drop_jobs :: "nat \<Rightarrow> ShellContext \<Rightarrow> ShellContext" where
  "drop_jobs k sc = sc\<lparr>jobQueue := drop k (jobQueue sc)\<rparr>"

definition drop_queue :: "nat \<Rightarrow> world \<Rightarrow> world" where
  "drop_queue k w = ctx (map_option (drop_jobs k) (context_private w)) w"

text \<open>
  The queue as it is meant: the job in front is taken out and run, with the exception state saved and
  cleared; what it enqueues goes behind.
\<close>

partial_function (option) fifo_drain :: "platform \<Rightarrow> world \<Rightarrow> world option" where
  "fifo_drain pf w =
     do { sc \<leftarrow> GetShellContext w;
          case jobQueue sc of
            [] \<Rightarrow> Some w
          | slot # queue \<Rightarrow>
              do { job \<leftarrow> slot;
                   let (saved, w) = AutoSaveExceptionState (set_sc (sc\<lparr>jobQueue := queue\<rparr>) w);
                   (r, w) \<leftarrow> run_js pf (run_job (engine pf) job) w;
                   fifo_drain pf (delete_AutoSaveExceptionState saved w) } }"

lemma run_js_drop:
  "\<exists>sc. context_private w = Some sc \<and> k \<le> length (jobQueue sc) \<Longrightarrow>
     run_js pf p (drop_queue k w) = map_option (map_prod id (drop_queue k)) (run_js pf p w)"
proof (induction p arbitrary: w)
  case (Native n callee args f)
  show ?case
  proof (cases "run_native pf n callee args w")
    case None
    then show ?thesis by (simp add: drop_queue_def ctx_run_native)
  next
    case (Some r)
    obtain v w1 where r: "r = (v, w1)" by fastforce
    have same: "context_private w1 = context_private w" using run_native_context Some r by blast
    then have "run_js pf (f v) (drop_queue k w1) = map_option (map_prod id (drop_queue k)) (run_js pf (f v) w1)"
      using Native.prems by (intro Native.IH [OF rangeI]) simp
    moreover have "drop_queue k w1 = ctx (map_option (drop_jobs k) (context_private w)) w1"
      using same by (simp add: drop_queue_def)
    ultimately show ?thesis
      unfolding run_js.simps drop_queue_def [of k w] ctx_run_native Some r by (simp add: id_def)
  qed
next
  case (Caught p)
  have same: "context_private (JS_ClearPendingException w) = context_private w"
    by (simp add: JS_ClearPendingException_def)
  then have "drop_queue k (JS_ClearPendingException w) = JS_ClearPendingException (drop_queue k w)"
    by (simp add: drop_queue_def)
  moreover have "run_js pf p (drop_queue k (JS_ClearPendingException w)) =
      map_option (map_prod id (drop_queue k)) (run_js pf p (JS_ClearPendingException w))"
    by (rule Caught.IH) (use Caught.prems same in simp)
  ultimately show ?case by (simp add: id_def)
next
  case (Update f p)
  then show ?case using Update.IH [of "w\<lparr>w_heap := f (w_heap w)\<rparr>"] by (simp add: drop_queue_def)
next
  case (Enqueue job p)
  obtain sc where sc: "context_private w = Some sc" "k \<le> length (jobQueue sc)" using Enqueue.prems by blast
  let ?w = "set_sc (sc\<lparr>jobQueue := jobQueue sc @ [Some job]\<rparr>) w"
  have "drop_queue k ?w = set_sc (drop_jobs k sc\<lparr>jobQueue := jobQueue (drop_jobs k sc) @ [Some job]\<rparr>) (drop_queue k w)"
    using sc by (simp add: drop_queue_def drop_jobs_def set_sc_def ctx_def)
  moreover have "run_js pf p (drop_queue k ?w) = map_option (map_prod id (drop_queue k)) (run_js pf p ?w)"
    by (rule Enqueue.IH) (use sc in \<open>simp add: set_sc_def\<close>)
  moreover have "context_private (drop_queue k w) = Some (drop_jobs k sc)" using sc by (simp add: drop_queue_def)
  ultimately show ?case
    using sc by (simp add: ShellEnqueuePromiseJobCallback_def GetShellContext_def id_def)
next
  case (StartAsync task p)
  obtain sc where sc: "context_private w = Some sc" "k \<le> length (jobQueue sc)" using StartAsync.prems by blast
  let ?w = "set_sc (sc\<lparr>running := running sc @ [task], outstanding := outstanding sc + 1\<rparr>) w"
  have "drop_queue k ?w =
      set_sc (drop_jobs k sc\<lparr>running := running (drop_jobs k sc) @ [task], outstanding := outstanding (drop_jobs k sc) + 1\<rparr>)
        (drop_queue k w)"
    using sc by (simp add: drop_queue_def drop_jobs_def set_sc_def ctx_def)
  moreover have "run_js pf p (drop_queue k ?w) = map_option (map_prod id (drop_queue k)) (run_js pf p ?w)"
    by (rule StartAsync.IH) (use sc in \<open>simp add: set_sc_def\<close>)
  moreover have "context_private (drop_queue k w) = Some (drop_jobs k sc)" using sc by (simp add: drop_queue_def)
  ultimately show ?case
    using sc by (simp add: ShellStartAsyncTaskCallback_def GetShellContext_def id_def)
qed (simp_all add: drop_queue_def throw_exception_def ctx_def)

text \<open>One turn of the loop on the slot \<open>i\<close> is one pop of the queue from \<open>i\<close> on.\<close>

lemma saved_state:
  "AutoSaveExceptionState (ctx c w) = map_prod id (ctx c) (AutoSaveExceptionState w)"
  "delete_AutoSaveExceptionState x (ctx c w) = ctx c (delete_AutoSaveExceptionState x w)"
  "context_private (snd (AutoSaveExceptionState w)) = context_private w"
  "context_private (delete_AutoSaveExceptionState x w) = context_private w"
  by (simp_all add: AutoSaveExceptionState_def delete_AutoSaveExceptionState_def JS_IsExceptionPending_def ctx_def Let_def)

lemma drop_queue_ctx: "context_private w = Some sc \<Longrightarrow> drop_queue k w = ctx (Some (drop_jobs k sc)) w"
  by (simp add: drop_queue_def)

definition fifo_step :: "platform \<Rightarrow> ShellContext \<Rightarrow> nat \<Rightarrow> nat option list \<Rightarrow> world \<Rightarrow> world option" where
  "fifo_step pf sc job queue w =
     (let (saved, w) = AutoSaveExceptionState (set_sc (sc\<lparr>jobQueue := queue\<rparr>) w) in
      do { (r, w) \<leftarrow> run_js pf (run_job (engine pf) job) w; Some (delete_AutoSaveExceptionState saved w) })"

lemma drain_turn_fifo:
  assumes sc: "context_private w = Some sc" and i: "i < length (jobQueue sc)" and job: "jobQueue sc ! i = Some job"
  shows "map_option (drop_queue (Suc i)) (drain_turn pf i w) =
    fifo_step pf (drop_jobs i sc) job (drop (Suc i) (jobQueue sc)) (drop_queue i w)"
proof -
  obtain saved v where save: "AutoSaveExceptionState w = (saved, v)" by fastforce
  have v: "context_private v = Some sc" using saved_state(3) [of w] sc save by simp
  have start: "AutoSaveExceptionState (set_sc (drop_jobs i sc\<lparr>jobQueue := drop (Suc i) (jobQueue sc)\<rparr>) (drop_queue i w)) =
      (saved, drop_queue (Suc i) v)"
  proof -
    have "set_sc (drop_jobs i sc\<lparr>jobQueue := drop (Suc i) (jobQueue sc)\<rparr>) (drop_queue i w) =
        ctx (Some (drop_jobs (Suc i) sc)) w"
      by (simp add: drop_queue_ctx [OF sc] set_sc_def ctx_def drop_jobs_def)
    then show ?thesis using save by (simp add: saved_state(1) drop_queue_ctx [OF v])
  qed
  have run: "run_js pf p (drop_queue (Suc i) v) = map_option (map_prod id (drop_queue (Suc i))) (run_js pf p v)" for p
    by (rule run_js_drop) (use v i in simp)
  show ?thesis
  proof (cases "run_js pf (run_job (engine pf) job) v")
    case None
    then show ?thesis using sc job by (simp add: drain_turn_def fifo_step_def GetShellContext_def save start run)
  next
    case (Some r)
    obtain x w1 where r: "r = (x, w1)" by fastforce
    obtain js ts where w1: "context_private w1 = Some (sc\<lparr>jobQueue := jobQueue sc @ map Some js,
        running := running sc @ ts, outstanding := outstanding sc + length ts\<rparr>)"
      using qu.post_run_js [where w = v] Some r v by (fastforce simp: post_def queue_kept_def)
    let ?w = "set_sc (sc\<lparr>running := running sc @ ts, outstanding := outstanding sc + length ts,
        jobQueue := (jobQueue sc @ map Some js)[i := None]\<rparr>) (delete_AutoSaveExceptionState saved w1)"
    have "drain_turn pf i w = Some ?w"
      using sc job Some r w1 by (simp add: drain_turn_def GetShellContext_def save saved_state)
    moreover have "drop_queue (Suc i) ?w = delete_AutoSaveExceptionState saved (drop_queue (Suc i) w1)"
      using i w1 by (simp add: drop_queue_def saved_state set_sc_def drop_jobs_def) (simp add: ctx_def)
    moreover have "fifo_step pf (drop_jobs i sc) job (drop (Suc i) (jobQueue sc)) (drop_queue i w) =
        Some (delete_AutoSaveExceptionState saved (drop_queue (Suc i) w1))"
      by (simp add: fifo_step_def start run Some r)
    ultimately show ?thesis by simp
  qed
qed

section \<open>The loop refines the queue\<close>

definition clear_queue :: "world \<Rightarrow> world" where
  "clear_queue w = ctx (map_option (\<lambda>sc. sc\<lparr>jobQueue := []\<rparr>) (context_private w)) w"

lemma fifo_drain_step:
  "context_private w = Some sc \<Longrightarrow> jobQueue sc = Some job # queue \<Longrightarrow>
     fifo_drain pf w = Option.bind (fifo_step pf sc job queue w) (fifo_drain pf)"
  by (subst fifo_drain.simps) (simp add: GetShellContext_def fifo_step_def Let_def case_prod_unfold)

lemma fifo_drain_cases:
  "context_private w = None \<Longrightarrow> fifo_drain pf w = None"
  "context_private w = Some sc \<Longrightarrow> jobQueue sc = [] \<Longrightarrow> fifo_drain pf w = Some w"
  "context_private w = Some sc \<Longrightarrow> jobQueue sc = None # queue \<Longrightarrow> fifo_drain pf w = None"
  by (subst fifo_drain.simps, simp add: GetShellContext_def)+

lemma drain_loop_cases:
  "context_private w = None \<Longrightarrow> drain_loop pf i w = None"
  "context_private w = Some sc \<Longrightarrow> \<not> i < length (jobQueue sc) \<Longrightarrow> drain_loop pf i w = Some w"
  "context_private w = Some sc \<Longrightarrow> i < length (jobQueue sc) \<Longrightarrow>
     drain_loop pf i w = Option.bind (drain_turn pf i w) (drain_loop pf (Suc i))"
  by (subst drain_loop.simps, simp add: GetShellContext_def)+

lemma drop_queue_slot:
  "context_private w = Some sc \<Longrightarrow> i < length (jobQueue sc) \<Longrightarrow>
     context_private (drop_queue i w) = Some (drop_jobs i sc) \<and>
     jobQueue (drop_jobs i sc) = jobQueue sc ! i # drop (Suc i) (jobQueue sc)"
  by (simp add: drop_queue_ctx drop_jobs_def Cons_nth_drop_Suc)

lemma drain_loop_step:
  assumes sc: "context_private w = Some sc" and i: "i < length (jobQueue sc)"
  shows "jobQueue sc ! i = None \<Longrightarrow> drain_loop pf i w = None \<and> fifo_drain pf (drop_queue i w) = None"
    and "jobQueue sc ! i = Some job \<Longrightarrow> fifo_drain pf (drop_queue i w) =
      Option.bind (drain_turn pf i w) (\<lambda>w1. fifo_drain pf (drop_queue (Suc i) w1))"
proof -
  show "drain_loop pf i w = None \<and> fifo_drain pf (drop_queue i w) = None" if "jobQueue sc ! i = None"
    using that drop_queue_slot [OF assms] fifo_drain_cases(3) drain_loop_cases(3) [OF assms] sc
    by (auto simp: drain_turn_def GetShellContext_def)
  show "fifo_drain pf (drop_queue i w) = Option.bind (drain_turn pf i w) (\<lambda>w1. fifo_drain pf (drop_queue (Suc i) w1))"
    if job: "jobQueue sc ! i = Some job"
    using fifo_drain_step [of "drop_queue i w" "drop_jobs i sc" job] drop_queue_slot [OF assms]
      drain_turn_fifo [OF assms job, of pf, symmetric] job
    by (simp add: bind_map_option comp_def)
qed

lemma drain_loop_to_fifo:
  "drain_loop pf i w = Some w' \<Longrightarrow> fifo_drain pf (drop_queue i w) = Some (clear_queue w')"
proof (induction rule: drain_loop.raw_induct [rotated, consumes 1, case_names loop])
  case (loop rec pf i w w')
  obtain sc where sc: "context_private w = Some sc"
    using loop(2) by (auto simp: GetShellContext_def elim: bind_eq_SomeE)
  show ?case
  proof (cases "i < length (jobQueue sc)")
    case False
    then show ?thesis
      using loop(2) sc fifo_drain_cases(2) [of "drop_queue i w" "drop_jobs i sc"]
      by (simp add: GetShellContext_def drop_queue_ctx clear_queue_def drop_jobs_def)
  next
    case True
    then obtain w1 where w1: "drain_turn pf i w = Some w1" "rec pf (Suc i) w1 = Some w'"
      using loop(2) sc by (auto simp: GetShellContext_def elim: bind_eq_SomeE)
    then obtain job where "jobQueue sc ! i = Some job"
      using sc by (auto simp: drain_turn_def GetShellContext_def elim: bind_eq_SomeE)
    then show ?thesis using drain_loop_step(2) [OF sc True] w1 loop(1) by simp
  qed
qed

lemma fifo_to_drain_loop:
  "fifo_drain pf v = Some v' \<Longrightarrow> v = drop_queue i w \<Longrightarrow> \<exists>w'. drain_loop pf i w = Some w'"
proof (induction arbitrary: i w rule: fifo_drain.raw_induct [rotated, consumes 1, case_names loop])
  case (loop rec pf v v')
  note run = loop(2) and v = loop(3)
  obtain sc where sc: "context_private w = Some sc"
    using run v by (cases "context_private w") (auto simp: GetShellContext_def drop_queue_def)
  show ?case
  proof (cases "i < length (jobQueue sc)")
    case True
    note slot = drop_queue_slot [OF sc True]
    obtain job where job: "jobQueue sc ! i = Some job"
      using run slot v by (cases "jobQueue sc ! i") (auto simp: GetShellContext_def)
    then obtain v1 where v1: "fifo_step pf (drop_jobs i sc) job (drop (Suc i) (jobQueue sc)) v = Some v1"
      and rest: "rec pf v1 = Some v'"
      using run slot v
      by (auto simp: GetShellContext_def fifo_step_def Let_def case_prod_unfold elim!: bind_eq_SomeE)
    then obtain w1 where "drain_turn pf i w = Some w1" "v1 = drop_queue (Suc i) w1"
      using drain_turn_fifo [OF sc True job, of pf] v by auto
    then show ?thesis using loop(1) [OF rest] drain_loop_cases(3) [OF sc True] by simp
  qed (use drain_loop_cases(2) [OF sc] in blast)
qed

lemma drain_loop_fifo: "map_option clear_queue (drain_loop pf i w) = fifo_drain pf (drop_queue i w)"
proof (cases "drain_loop pf i w")
  case None
  then show ?thesis by (cases "fifo_drain pf (drop_queue i w)") (auto dest: fifo_to_drain_loop [OF _ refl])
next
  case (Some w')
  then show ?thesis using drain_loop_to_fifo by simp
qed

text \<open>\<open>DrainJobQueue\<close> as it is meant, on the abstract queue.\<close>

definition drain_spec :: "platform \<Rightarrow> world \<Rightarrow> world option" where
  "drain_spec pf w =
     do { sc \<leftarrow> GetShellContext w;
          if drainingJobQueue sc then Some w
          else
            do { sc \<leftarrow> wait_outstanding (next_finished pf) sc;
                 w \<leftarrow> finish_tasks pf (finished sc) (set_sc (sc\<lparr>finished := []\<rparr>) w);
                 sc \<leftarrow> GetShellContext w;
                 w \<leftarrow> fifo_drain pf (set_sc (sc\<lparr>drainingJobQueue := True\<rparr>) w);
                 sc \<leftarrow> GetShellContext w;
                 Some (set_sc (sc\<lparr>drainingJobQueue := False\<rparr>) w) } }"

lemma drain_all:
  "do { w \<leftarrow> drain_loop pf 0 w; sc \<leftarrow> GetShellContext w;
        Some (set_sc (sc\<lparr>jobQueue := [], drainingJobQueue := False\<rparr>) w) } =
   do { w \<leftarrow> fifo_drain pf w; sc \<leftarrow> GetShellContext w; Some (set_sc (sc\<lparr>drainingJobQueue := False\<rparr>) w) }"
proof -
  have "drop_queue 0 w = w" by (cases "context_private w") (simp_all add: drop_queue_def drop_jobs_def ctx_def)
  then have fifo: "fifo_drain pf w = map_option clear_queue (drain_loop pf 0 w)"
    using drain_loop_fifo [of pf 0 w] by simp
  have "do { sc \<leftarrow> GetShellContext v; Some (set_sc (sc\<lparr>jobQueue := [], drainingJobQueue := False\<rparr>) v) } =
      do { sc \<leftarrow> GetShellContext (clear_queue v); Some (set_sc (sc\<lparr>drainingJobQueue := False\<rparr>) (clear_queue v)) }" for v
    by (cases "context_private v") (simp_all add: GetShellContext_def clear_queue_def set_sc_def ctx_def)
  then show ?thesis unfolding fifo by (simp add: bind_map_option comp_def)
qed

text \<open>
  C7. Draining the job queue by index, over a vector that grows while its jobs run and whose slots are
  set to null, is draining a first-in-first-out queue: every job runs exactly once, in the order in
  which it was enqueued, the jobs that jobs enqueue included; a call while the queue is being drained
  does nothing. This holds for every program a job may be, and for drains that never end.
\<close>

theorem drain_refines_fifo: "DrainJobQueue pf w = drain_spec pf w"
  unfolding DrainJobQueue_def drain_spec_def Let_def drain_all ..

section \<open>Waiting for tasks\<close>

lemma wait_outstanding_spec:
  assumes "outstanding sc = length (running sc)"
  shows "\<exists>ts. mset ts = mset (running sc) \<and>
    wait_outstanding pick sc = Some (sc\<lparr>outstanding := 0, running := [], finished := finished sc @ ts\<rparr>)"
  using assms
proof (induction pick sc rule: wait_outstanding.induct)
  case (1 pick sc)
  show ?case
  proof (cases "running sc")
    case Nil
    then show ?thesis using 1(2) by (intro exI [of _ "[]"]) (simp add: wait_outstanding.simps [of pick sc])
  next
    case (Cons t ts)
    let ?t = "next_task pick (running sc)"
    let ?sc = "ShellFinishAsyncTaskCallback ?t sc"
    have t: "?t \<in> set (running sc)" by (rule next_task_running) (simp add: Cons)
    then have "outstanding ?sc = length (running ?sc)"
      using 1(2) by (simp add: ShellFinishAsyncTaskCallback_def length_remove1)
    then obtain us where us: "mset us = mset (running ?sc)"
      "wait_outstanding pick ?sc = Some (?sc\<lparr>outstanding := 0, running := [], finished := finished ?sc @ us\<rparr>)"
      using 1(1) 1(2) Cons by auto
    have "wait_outstanding pick sc = wait_outstanding pick ?sc"
      using 1(2) Cons by (simp add: wait_outstanding.simps [of pick sc])
    then show ?thesis
      using us t by (intro exI [of _ "?t # us"]) (simp add: ShellFinishAsyncTaskCallback_def)
  qed
qed

text \<open>
  Waiting for the outstanding tasks returns when every one of them is running on some helper, in
  whatever order they finish: none is outstanding or running any more, each task is in the list of
  finished ones once, behind those that were, and the job queue is what it was.
\<close>

theorem wait_collects_tasks:
  assumes "outstanding sc = length (running sc)"
  shows "\<exists>sc'. wait_outstanding pick sc = Some sc' \<and> outstanding sc' = 0 \<and> running sc' = [] \<and>
    mset (finished sc') = mset (finished sc) + mset (running sc) \<and> jobQueue sc' = jobQueue sc \<and>
    drainingJobQueue sc' = drainingJobQueue sc"
  using wait_outstanding_spec [OF assms, of pick] by fastforce

theorem wait_collects_tasks_witness:
  "\<exists>sc'. wait_outstanding hd (new_ShellContext\<lparr>running := [5, 6], outstanding := 2\<rparr>) = Some sc' \<and>
     mset (finished sc') = {#5, 6#}"
proof -
  let ?sc = "new_ShellContext\<lparr>running := [5, 6], outstanding := 2\<rparr>"
  have "outstanding ?sc = length (running ?sc)" by simp
  from wait_collects_tasks [OF this, of hd] show ?thesis by (force simp: new_ShellContext_def)
qed

section \<open>Termination\<close>

text \<open>Every job a program enqueues has a rank below \<open>n\<close>.\<close>

primrec enqueues_below :: "(nat \<Rightarrow> nat) \<Rightarrow> nat \<Rightarrow> js_prog \<Rightarrow> bool" where
  "enqueues_below rank n (Ret v) = True"
| "enqueues_below rank n (Throw v) = True"
| "enqueues_below rank n (Caught p) = enqueues_below rank n p"
| "enqueues_below rank n (Native f callee args k) = (\<forall>v. enqueues_below rank n (k v))"
| "enqueues_below rank n (Read k) = (\<forall>h. enqueues_below rank n (k h))"
| "enqueues_below rank n (Update f p) = enqueues_below rank n p"
| "enqueues_below rank n (Enqueue job p) = (rank job < n \<and> enqueues_below rank n p)"
| "enqueues_below rank n (StartAsync task p) = enqueues_below rank n p"

definition enqueued :: "(nat \<Rightarrow> nat) \<Rightarrow> nat \<Rightarrow> nat option list \<Rightarrow> world \<Rightarrow> bool" where
  "enqueued rank n queue w \<longleftrightarrow>
     (\<exists>sc js. context_private w = Some sc \<and> jobQueue sc = queue @ map Some js \<and> (\<forall>j \<in> set js. rank j < n))"

lemma run_js_enqueues:
  "enqueues_below rank n p \<Longrightarrow> run_js pf p w = Some (r, w') \<Longrightarrow> enqueued rank n queue w \<Longrightarrow> enqueued rank n queue w'"
proof (induction p arbitrary: w)
  case (Native f callee args k)
  then show ?case
    using run_native_context by (fastforce simp: enqueued_def elim!: bind_eq_SomeE)
next
  case (Enqueue job p)
  then obtain sc js where sc: "context_private w = Some sc" "jobQueue sc = queue @ map Some js" "\<forall>j \<in> set js. rank j < n"
    unfolding enqueued_def by blast
  let ?w = "set_sc (sc\<lparr>jobQueue := jobQueue sc @ [Some job]\<rparr>) w"
  have "enqueued rank n queue ?w"
    unfolding enqueued_def using sc Enqueue.prems(1)
    by (intro exI [of _ "sc\<lparr>jobQueue := jobQueue sc @ [Some job]\<rparr>"] exI [of _ "js @ [job]"]) (auto simp: set_sc_def)
  moreover have "run_js pf p ?w = Some (r, w')"
    using Enqueue.prems(2) sc(1) by (simp add: ShellEnqueuePromiseJobCallback_def GetShellContext_def)
  ultimately show ?case using Enqueue.IH Enqueue.prems(1) by simp
next
  case (StartAsync task p)
  then obtain sc where sc: "context_private w = Some sc" unfolding enqueued_def by blast
  let ?w = "set_sc (sc\<lparr>running := running sc @ [task], outstanding := outstanding sc + 1\<rparr>) w"
  have "enqueued rank n queue ?w" using StartAsync.prems(3) sc by (auto simp: enqueued_def set_sc_def)
  moreover have "run_js pf p ?w = Some (r, w')"
    using StartAsync.prems(2) sc(1) by (simp add: ShellStartAsyncTaskCallback_def GetShellContext_def)
  ultimately show ?case using StartAsync.IH StartAsync.prems(1) by simp
next
  case (Read k)
  then show ?case using Read.IH [OF rangeI, of "w_heap w" w] by simp
qed (auto simp: enqueued_def throw_exception_def JS_ClearPendingException_def)

definition queue_ranks :: "(nat \<Rightarrow> nat) \<Rightarrow> ShellContext \<Rightarrow> nat multiset" where
  "queue_ranks rank sc = mset (map (rank \<circ> the) (jobQueue sc))"

text \<open>Running a job replaces its rank in the multiset of the queue by smaller ones.\<close>

lemma fifo_step_decreases:
  assumes below: "enqueues_below rank (rank job) (run_job (engine pf) job)"
    and step: "fifo_step pf sc job queue w = Some w'" and queue: "jobQueue sc = Some job # queue"
    and slots: "None \<notin> set queue"
  shows "\<exists>sc'. context_private w' = Some sc' \<and> None \<notin> set (jobQueue sc') \<and>
    (queue_ranks rank sc', queue_ranks rank sc) \<in> mult less_than"
proof -
  obtain saved w0 where w0: "AutoSaveExceptionState (set_sc (sc\<lparr>jobQueue := queue\<rparr>) w) = (saved, w0)" by fastforce
  obtain r w1 where w1: "run_js pf (run_job (engine pf) job) w0 = Some (r, w1)"
    and w': "w' = delete_AutoSaveExceptionState saved w1"
    using step w0 by (auto simp: fifo_step_def elim: bind_eq_SomeE)
  have "context_private w0 = Some (sc\<lparr>jobQueue := queue\<rparr>)"
    using saved_state(3) [of "set_sc (sc\<lparr>jobQueue := queue\<rparr>) w"] w0 by (simp add: set_sc_def)
  then have "enqueued rank (rank job) queue w0"
    unfolding enqueued_def by (intro exI [of _ "sc\<lparr>jobQueue := queue\<rparr>"] exI [of _ "[]"]) simp
  from run_js_enqueues [OF below w1 this]
  obtain sc' js where sc': "context_private w1 = Some sc'" "jobQueue sc' = queue @ map Some js" "\<forall>j \<in> set js. rank j < rank job"
    unfolding enqueued_def by blast
  have "(mset (map (rank \<circ> the) queue) + mset (map rank js), mset (map (rank \<circ> the) queue) + {#rank job#}) \<in> mult less_than"
    using sc'(3) by (intro one_step_implies_mult) auto
  then show ?thesis
    using sc' slots queue by (auto simp: w' saved_state queue_ranks_def comp_def image_mset.compositionality)
qed

lemma fifo_drain_returns:
  assumes below: "\<And>job. enqueues_below rank (rank job) (run_job (engine pf) job)"
    and returns: "\<And>job v. context_private v \<noteq> None \<Longrightarrow> run_js pf (run_job (engine pf) job) v \<noteq> None"
  shows "context_private w = Some sc \<Longrightarrow> None \<notin> set (jobQueue sc) \<Longrightarrow>
    \<exists>w' sc'. fifo_drain pf w = Some w' \<and> context_private w' = Some sc' \<and> jobQueue sc' = []"
proof (induction "queue_ranks rank sc" arbitrary: sc w rule: wf_induct_rule [OF wf_mult [OF wf_less_than]])
  case (1 sc w)
  show ?case
  proof (cases "jobQueue sc")
    case Nil
    then show ?thesis using 1 fifo_drain_cases(2) by blast
  next
    case (Cons slot queue)
    then obtain job where job: "jobQueue sc = Some job # queue" "None \<notin> set queue" using 1(3) by (cases slot) auto
    have "fifo_step pf sc job queue w \<noteq> None"
      using returns [of "snd (AutoSaveExceptionState (set_sc (sc\<lparr>jobQueue := queue\<rparr>) w))" job]
      by (auto simp: fifo_step_def case_prod_unfold saved_state set_sc_def)
    then obtain w1 where w1: "fifo_step pf sc job queue w = Some w1" by blast
    from fifo_step_decreases [OF below w1 job] obtain sc1 where "context_private w1 = Some sc1"
      "None \<notin> set (jobQueue sc1)" "(queue_ranks rank sc1, queue_ranks rank sc) \<in> mult less_than" by blast
    with 1(1) have "\<exists>w' sc'. fifo_drain pf w1 = Some w' \<and> context_private w' = Some sc' \<and> jobQueue sc' = []" by blast
    then show ?thesis using fifo_drain_step [OF 1(2) job(1)] w1 by simp
  qed
qed

lemma finish_tasks_returns:
  assumes returns: "\<And>task v. context_private v \<noteq> None \<Longrightarrow> run_js pf (finish_task (engine pf) task) v \<noteq> None"
    and below: "\<And>task. enqueues_below rank n (finish_task (engine pf) task)"
  shows "context_private w = Some sc \<Longrightarrow> None \<notin> set (jobQueue sc) \<Longrightarrow>
    \<exists>w' sc'. finish_tasks pf tasks w = Some w' \<and> context_private w' = Some sc' \<and> None \<notin> set (jobQueue sc')"
proof (induction tasks arbitrary: w sc)
  case (Cons task tasks)
  obtain r w1 where w1: "run_js pf (finish_task (engine pf) task) w = Some (r, w1)"
    using returns [of w task] Cons.prems by auto
  have "enqueued rank n (jobQueue sc) w" using Cons.prems by (force simp: enqueued_def)
  from run_js_enqueues [OF below w1 this] obtain sc1 where "context_private w1 = Some sc1" "None \<notin> set (jobQueue sc1)"
    using Cons.prems by (auto simp: enqueued_def)
  then show ?case using Cons.IH w1 by simp
qed simp

text \<open>
  C8. Draining ends when every outstanding task is running on a helper and the jobs can be ranked so
  that a job only enqueues jobs of lower rank: \<open>DrainJobQueue\<close> then returns, with the queue empty and the
  flag cleared. Jobs and the finishing of tasks must return themselves.
\<close>

theorem drain_terminates:
  assumes "context_private w = Some sc" and "\<not> drainingJobQueue sc" and "None \<notin> set (jobQueue sc)"
    and "outstanding sc = length (running sc)"
    and jobs: "\<And>job. enqueues_below rank (rank job) (run_job (engine pf) job)"
    and tasks: "\<And>task. enqueues_below rank n (finish_task (engine pf) task)"
    and returns: "\<And>job v. context_private v \<noteq> None \<Longrightarrow> run_js pf (run_job (engine pf) job) v \<noteq> None"
      "\<And>task v. context_private v \<noteq> None \<Longrightarrow> run_js pf (finish_task (engine pf) task) v \<noteq> None"
  shows "\<exists>w' sc'. DrainJobQueue pf w = Some w' \<and> context_private w' = Some sc' \<and> jobQueue sc' = [] \<and>
    \<not> drainingJobQueue sc'"
proof -
  obtain ts where wait: "wait_outstanding (next_finished pf) sc =
      Some (sc\<lparr>outstanding := 0, running := [], finished := finished sc @ ts\<rparr>)" (is "_ = Some ?sc")
    using wait_outstanding_spec [OF assms(4)] by blast
  have "context_private (set_sc (?sc\<lparr>finished := []\<rparr>) w) = Some (?sc\<lparr>finished := []\<rparr>)"
    "None \<notin> set (jobQueue (?sc\<lparr>finished := []\<rparr>))" using assms(3) by (simp_all add: set_sc_def)
  from finish_tasks_returns [OF returns(2) tasks this]
  obtain w1 sc1 where w1: "finish_tasks pf (finished ?sc) (set_sc (?sc\<lparr>finished := []\<rparr>) w) = Some w1"
    "context_private w1 = Some sc1" "None \<notin> set (jobQueue sc1)" by blast
  let ?w = "set_sc (sc1\<lparr>drainingJobQueue := True\<rparr>) w1"
  have "context_private ?w = Some (sc1\<lparr>drainingJobQueue := True\<rparr>)"
    "None \<notin> set (jobQueue (sc1\<lparr>drainingJobQueue := True\<rparr>))" using w1(3) by (simp_all add: set_sc_def)
  from fifo_drain_returns [OF jobs returns(1) this]
  obtain w2 sc2 where "fifo_drain pf ?w = Some w2" "context_private w2 = Some sc2" "jobQueue sc2 = []" by blast
  then show ?thesis
    using assms(1,2) wait w1(1,2) by (simp add: drain_refines_fifo drain_spec_def GetShellContext_def set_sc_def)
qed

theorem drain_terminates_witness:
  "\<exists>w' sc'. DrainJobQueue demo_platform (set_sc (new_ShellContext\<lparr>jobQueue := [Some 7, Some 8]\<rparr>) demo_world) = Some w' \<and>
     context_private w' = Some sc' \<and> jobQueue sc' = [] \<and> \<not> drainingJobQueue sc'"
proof (rule drain_terminates [where rank = "\<lambda>job. if job = 7 then 1 else 0" and n = 0])
  show "context_private (set_sc (new_ShellContext\<lparr>jobQueue := [Some 7, Some 8]\<rparr>) demo_world) =
      Some (new_ShellContext\<lparr>jobQueue := [Some 7, Some 8]\<rparr>)" by (simp add: set_sc_def)
qed (auto simp: new_ShellContext_def demo_platform_def demo_engine_def ShellEnqueuePromiseJobCallback_def
    GetShellContext_def)

section \<open>Draining turn by turn\<close>

text \<open>The drain returns exactly when it is over after some number of turns.\<close>

lemma drain_loop_for_sound: "drain_loop_for n pf i w = Some (Inr w') \<Longrightarrow> drain_loop pf i w = Some w'"
proof (induction n arbitrary: i w)
  case 0
  then show ?case
    by (auto simp: GetShellContext_def drain_loop_cases(2) elim!: bind_eq_SomeE split: if_splits)
next
  case (Suc n)
  then obtain sc where sc: "context_private w = Some sc" by (auto simp: GetShellContext_def elim!: bind_eq_SomeE)
  show ?case
  proof (cases "i < length (jobQueue sc)")
    case True
    then obtain w1 where "drain_turn pf i w = Some w1" "drain_loop_for n pf (Suc i) w1 = Some (Inr w')"
      using Suc.prems sc by (auto simp: GetShellContext_def elim!: bind_eq_SomeE)
    then show ?thesis using Suc.IH drain_loop_cases(3) [OF sc True] by simp
  next
    case False
    then show ?thesis using Suc.prems sc drain_loop_cases(2) [OF sc False] by (simp add: GetShellContext_def)
  qed
qed

lemma drain_loop_for_complete: "drain_loop pf i w = Some w' \<Longrightarrow> \<exists>n. drain_loop_for n pf i w = Some (Inr w')"
proof (induction rule: drain_loop.raw_induct [rotated, consumes 1, case_names loop])
  case (loop rec pf i w w')
  obtain sc where sc: "context_private w = Some sc" using loop(2) by (auto simp: GetShellContext_def elim!: bind_eq_SomeE)
  show ?case
  proof (cases "i < length (jobQueue sc)")
    case True
    then obtain w1 where w1: "drain_turn pf i w = Some w1" "rec pf (Suc i) w1 = Some w'"
      using loop(2) sc by (auto simp: GetShellContext_def elim!: bind_eq_SomeE)
    obtain n where "drain_loop_for n pf (Suc i) w1 = Some (Inr w')" using loop(1) [OF w1(2)] by blast
    then show ?thesis using sc True w1(1) by (intro exI [of _ "Suc n"]) (simp add: GetShellContext_def)
  next
    case False
    then show ?thesis using loop(2) sc by (intro exI [of _ 0]) (simp add: GetShellContext_def)
  qed
qed

lemma DrainJobQueue_returns:
  "DrainJobQueue pf w = Some w' \<longleftrightarrow> (\<exists>n. DrainJobQueue_for n pf w = Some (Inr w'))"
proof
  assume run: "DrainJobQueue pf w = Some w'"
  then obtain sc where sc: "GetShellContext w = Some sc" by (auto simp: DrainJobQueue_def elim!: bind_eq_SomeE)
  show "\<exists>n. DrainJobQueue_for n pf w = Some (Inr w')"
  proof (cases "drainingJobQueue sc")
    case True
    then show ?thesis using run sc by (simp add: DrainJobQueue_def DrainJobQueue_for_def)
  next
    case False
    then obtain sc1 w1 sc2 w2 sc3 where steps: "wait_outstanding (next_finished pf) sc = Some sc1"
      "finish_tasks pf (finished sc1) (set_sc (sc1\<lparr>finished := []\<rparr>) w) = Some w1" "GetShellContext w1 = Some sc2"
      "GetShellContext w2 = Some sc3" "w' = set_sc (sc3\<lparr>jobQueue := [], drainingJobQueue := False\<rparr>) w2"
      and turns: "drain_loop pf 0 (set_sc (sc2\<lparr>drainingJobQueue := True\<rparr>) w1) = Some w2"
      using run sc by (auto simp: DrainJobQueue_def Let_def elim!: bind_eq_SomeE)
    obtain n where "drain_loop_for n pf 0 (set_sc (sc2\<lparr>drainingJobQueue := True\<rparr>) w1) = Some (Inr w2)"
      using drain_loop_for_complete [OF turns] by blast
    then show ?thesis using sc False steps by (intro exI [of _ n]) (simp add: DrainJobQueue_for_def)
  qed
next
  assume "\<exists>n. DrainJobQueue_for n pf w = Some (Inr w')"
  then show "DrainJobQueue pf w = Some w'"
    by (auto simp: DrainJobQueue_def DrainJobQueue_for_def Let_def elim!: bind_eq_SomeE
        dest!: drain_loop_for_sound split: if_splits sum.splits)
qed

text \<open>A job that enqueues itself: each turn leaves a null slot and the job behind it.\<close>

lemma drain_turn_self_enqueue:
  assumes "run_job (engine pf) job = Enqueue job (Ret v)"
    and "context_private w = Some sc" and "jobQueue sc = replicate i None @ [Some job]"
  obtains w' sc' where "drain_turn pf i w = Some w'" and "context_private w' = Some sc'"
    and "jobQueue sc' = replicate (Suc i) None @ [Some job]"
proof -
  let ?w = "snd (AutoSaveExceptionState w)"
  have w: "context_private ?w = Some sc" using assms(2) by (simp add: saved_state)
  have slot: "jobQueue sc ! i = Some job" by (simp add: assms(3) nth_append)
  have queue: "(jobQueue sc @ [Some job])[i := None] = replicate (Suc i) None @ [Some job]"
    by (simp add: assms(3) list_update_append replicate_app_Cons_same)
  show ?thesis
    using assms(1,2) w slot queue
    by (intro that [of "set_sc (sc\<lparr>jobQueue := replicate (Suc i) None @ [Some job]\<rparr>)
          (delete_AutoSaveExceptionState (fst (AutoSaveExceptionState w)) (set_sc (sc\<lparr>jobQueue := jobQueue sc @ [Some job]\<rparr>) ?w))"
        "sc\<lparr>jobQueue := replicate (Suc i) None @ [Some job]\<rparr>"])
      (simp_all add: drain_turn_def GetShellContext_def Let_def case_prod_unfold ShellEnqueuePromiseJobCallback_def
        saved_state set_sc_def)
qed

lemma drain_loop_self_enqueue:
  assumes "run_job (engine pf) job = Enqueue job (Ret v)"
  shows "context_private w = Some sc \<Longrightarrow> jobQueue sc = replicate i None @ [Some job] \<Longrightarrow>
    \<exists>w' sc'. drain_loop_for n pf i w = Some (Inl w') \<and> context_private w' = Some sc' \<and>
      jobQueue sc' = replicate (i + n) None @ [Some job]"
proof (induction n arbitrary: i w sc)
  case 0
  then show ?case by (simp add: GetShellContext_def)
next
  case (Suc n)
  obtain w1 sc1 where "drain_turn pf i w = Some w1" "context_private w1 = Some sc1"
    "jobQueue sc1 = replicate (Suc i) None @ [Some job]"
    by (rule drain_turn_self_enqueue [OF assms Suc.prems])
  with Suc.IH [of w1 sc1 "Suc i"] Suc.prems show ?case by (simp add: GetShellContext_def)
qed

text \<open>
  C9. A job that enqueues itself keeps the drain going forever: however many turns \<open>DrainJobQueue\<close> makes, each of them
  runs the job without a crash and another one is due, and the vector of jobs has grown by one null slot per
  turn. It never returns.
\<close>

theorem drain_self_enqueue_diverges:
  assumes "context_private w = Some sc" and "jobQueue sc = [Some job]" and "\<not> drainingJobQueue sc"
    and "outstanding sc = 0" and "finished sc = []" and "run_job (engine pf) job = Enqueue job (Ret v)"
  shows "(\<forall>n. \<exists>w' sc'. DrainJobQueue_for n pf w = Some (Inl w') \<and> context_private w' = Some sc' \<and>
      jobQueue sc' = replicate n None @ [Some job]) \<and> DrainJobQueue pf w = None"
proof -
  let ?sc = "sc\<lparr>finished := [], drainingJobQueue := True\<rparr>"
  have queue: "context_private (set_sc ?sc w) = Some ?sc" "jobQueue ?sc = replicate 0 None @ [Some job]"
    using assms(2) by (simp_all add: set_sc_def)
  have turns: "\<exists>w' sc'. DrainJobQueue_for n pf w = Some (Inl w') \<and> context_private w' = Some sc' \<and>
      jobQueue sc' = replicate n None @ [Some job]" for n
  proof -
    obtain w' sc' where "drain_loop_for n pf 0 (set_sc ?sc w) = Some (Inl w')" "context_private w' = Some sc'"
      "jobQueue sc' = replicate n None @ [Some job]"
      using drain_loop_self_enqueue [OF assms(6) queue, of n] by auto
    then show ?thesis
      using assms(1,3-5)
      by (simp add: DrainJobQueue_for_def GetShellContext_def wait_outstanding.simps [of _ sc] set_sc_def)
  qed
  moreover have "DrainJobQueue pf w = None"
  proof (rule ccontr)
    assume "DrainJobQueue pf w \<noteq> None"
    then obtain n w' where "DrainJobQueue_for n pf w = Some (Inr w')" using DrainJobQueue_returns by blast
    then show False using turns [of n] by simp
  qed
  ultimately show ?thesis by blast
qed

definition looping_platform :: platform where
  "looping_platform = demo_platform\<lparr>engine := demo_engine\<lparr>run_job := (\<lambda>job. Enqueue job (Ret Undefined))\<rparr>\<rparr>"

theorem drain_self_enqueue_diverges_witness:
  "(\<forall>n. \<exists>w' sc'. DrainJobQueue_for n looping_platform (set_sc (new_ShellContext\<lparr>jobQueue := [Some 3]\<rparr>) demo_world) = Some (Inl w') \<and>
      context_private w' = Some sc' \<and> jobQueue sc' = replicate n None @ [Some 3]) \<and>
   DrainJobQueue looping_platform (set_sc (new_ShellContext\<lparr>jobQueue := [Some 3]\<rparr>) demo_world) = None"
  by (rule drain_self_enqueue_diverges [where sc = "new_ShellContext\<lparr>jobQueue := [Some 3]\<rparr>" and job = 3])
    (simp_all add: set_sc_def new_ShellContext_def looping_platform_def)

text \<open>
  After a drain that returns, the queue is empty, no job of the drain is left in it, and the flag is
  cleared, so that the next drain runs.
\<close>

theorem drain_empties:
  assumes "DrainJobQueue pf w = Some w'" and "context_private w = Some sc" and "\<not> drainingJobQueue sc"
  shows "\<exists>sc'. context_private w' = Some sc' \<and> jobQueue sc' = [] \<and> \<not> drainingJobQueue sc'"
  using assms by (auto simp: DrainJobQueue_def GetShellContext_def Let_def set_sc_def elim!: bind_eq_SomeE)

theorem drain_empties_witness:
  "\<exists>w' sc'. DrainJobQueue demo_platform demo_world = Some w' \<and> context_private w' = Some sc' \<and>
     jobQueue sc' = [] \<and> \<not> drainingJobQueue sc'"
proof -
  have "DrainJobQueue demo_platform demo_world =
      Some (set_sc (new_ShellContext\<lparr>jobQueue := [], drainingJobQueue := False\<rparr>)
        (set_sc (new_ShellContext\<lparr>drainingJobQueue := True\<rparr>) demo_world))"
    by (simp add: DrainJobQueue_def GetShellContext_def Let_def set_sc_def demo_world_def new_ShellContext_def
        wait_outstanding.simps drain_loop.simps)
  then show ?thesis using drain_empties [of demo_platform demo_world] by (auto simp: demo_world_def new_ShellContext_def)
qed

end
