(* ===== verification/HashFunctions.thy ===== *)
theory HashFunctions
  imports JsValue
begin

text \<open>
  The hash functions of \<open>mfbt/HashFunctions.h\<close> that the keys of \<open>Map\<close> and \<open>Set\<close> go through: the string hash
  and the scrambler, SipHash-1-3 on one word.
\<close>

definition kGoldenRatioU32 :: u32 where
  "kGoldenRatioU32 = 0x9E3779B9"

definition RotateBitsLeft32 :: "u32 \<Rightarrow> nat \<Rightarrow> u32" where
  "RotateBitsLeft32 v bits = push_bit bits v OR drop_bit (32 - bits) v"

definition AddU32ToHash :: "u32 \<Rightarrow> u32 \<Rightarrow> u32" where
  "AddU32ToHash h v = kGoldenRatioU32 * (RotateBitsLeft32 h 5 XOR v)"

definition HashKnownLength :: "u16 list \<Rightarrow> u32" where
  "HashKnownLength str = foldl (\<lambda>h c. AddU32ToHash h (ucast c)) 0 str"

record SipHasher =
  mV0 :: u64
  mV1 :: u64
  mV2 :: u64
  mV3 :: u64

definition new_SipHasher :: "u64 \<Rightarrow> u64 \<Rightarrow> SipHasher" where
  "new_SipHasher k0 k1 =
     \<lparr>mV0 = k0 XOR 0x736f6d6570736575, mV1 = k1 XOR 0x646f72616e646f6d,
      mV2 = k0 XOR 0x6c7967656e657261, mV3 = k1 XOR 0x7465646279746573\<rparr>"

definition RotateLeft :: "u64 \<Rightarrow> nat \<Rightarrow> u64" where
  "RotateLeft v shift = push_bit shift v OR drop_bit (64 - shift) v"

definition sipRound :: "SipHasher \<Rightarrow> SipHasher" where
  "sipRound s =
     (let s = s\<lparr>mV0 := mV0 s + mV1 s\<rparr>;
          s = s\<lparr>mV1 := RotateLeft (mV1 s) 13\<rparr>;
          s = s\<lparr>mV1 := mV1 s XOR mV0 s\<rparr>;
          s = s\<lparr>mV0 := RotateLeft (mV0 s) 32\<rparr>;
          s = s\<lparr>mV2 := mV2 s + mV3 s\<rparr>;
          s = s\<lparr>mV3 := RotateLeft (mV3 s) 16\<rparr>;
          s = s\<lparr>mV3 := mV3 s XOR mV2 s\<rparr>;
          s = s\<lparr>mV0 := mV0 s + mV3 s\<rparr>;
          s = s\<lparr>mV3 := RotateLeft (mV3 s) 21\<rparr>;
          s = s\<lparr>mV3 := mV3 s XOR mV0 s\<rparr>;
          s = s\<lparr>mV2 := mV2 s + mV1 s\<rparr>;
          s = s\<lparr>mV1 := RotateLeft (mV1 s) 17\<rparr>;
          s = s\<lparr>mV1 := mV1 s XOR mV2 s\<rparr>
      in s\<lparr>mV2 := RotateLeft (mV2 s) 32\<rparr>)"

definition sipHash :: "SipHasher \<Rightarrow> u64 \<Rightarrow> u64" where
  "sipHash s m =
     (let s = s\<lparr>mV3 := mV3 s XOR m\<rparr>;
          s = sipRound s;
          s = s\<lparr>mV0 := mV0 s XOR m\<rparr>;
          s = s\<lparr>mV2 := mV2 s XOR 0xFF\<rparr>;
          s = (sipRound ^^ 3) s
      in mV0 s XOR mV1 s XOR mV2 s XOR mV3 s)"

definition scramble :: "u64 \<Rightarrow> u64 \<Rightarrow> u32 \<Rightarrow> u32" where
  "scramble k0 k1 h = ucast (sipHash (new_SipHasher k0 k1) (ucast h))"

text \<open>The multiplicative scrambling of \<open>js/public/Utility.h\<close> that the hash tables apply to every hash code.\<close>

definition ScrambleHashCode :: "u32 \<Rightarrow> u32" where
  "ScrambleHashCode h = h * 0x9E3779B9"

end
