(* ===== verification/OrderedHashTable.thy ===== *)
theory OrderedHashTable
  imports HashFunctions
begin

text \<open>
  The hash table of \<open>ds/OrderedHashTable.h\<close>, behind JavaScript's \<open>Map\<close> and \<open>Set\<close>: the entries in a vector in
  the order of insertion, a table of buckets whose chains run through the vector, and the ranges that
  walk over it while it changes.

  \<^item> A \<open>Data*\<close> is an index into the vector, \<open>None\<close> for null. \<open>data\<close> holds the constructed entries only, so
    \<open>dataLength\<close> is its length; an entry past \<open>dataCapacity\<close> is never written: such a write, a bucket past
    the table or a null pointer that is followed gives \<open>None\<close>, and so does a chain that never ends.
  \<^item> The hash policy \<open>Ops\<close>, a template parameter, is the record \<open>hash_ops\<close>.
  \<^item> The allocations of an operation succeed or fail as its argument of type \<open>allocs\<close> says: the table first,
    then the vector.
  \<^item> \<open>fillFactor()\<close> is 8/3 and \<open>minDataFill()\<close> 1/4. Scaling by a power of two is exact on doubles, and neither
    8/3 nor its double is near an integer multiple, so the capacities and comparisons are those of the fractions.
\<close>

section \<open>Data\<close>

record ('k, 'e) hash_ops =
  ops_hash :: "'k \<Rightarrow> u32"
  ops_match :: "'k \<Rightarrow> 'k \<Rightarrow> bool"
  ops_isEmpty :: "'k \<Rightarrow> bool"
  ops_makeEmpty :: "'e \<Rightarrow> 'e"
  ops_getKey :: "'e \<Rightarrow> 'k"
  ops_setKey :: "'e \<Rightarrow> 'k \<Rightarrow> 'e"

record 'e Data =
  element :: 'e
  chained :: "nat option"

text \<open>A range: the index of its front, and the number of entries in use left of it.\<close>

record Range =
  front_index :: nat
  front_count :: nat

text \<open>The ranges are a linked list; each has the identity its address gives it.\<close>

record 'e table =
  hashTable :: "nat option list"
  data :: "'e Data list"
  dataCapacity :: nat
  liveCount :: nat
  hashShift :: nat
  ranges :: "(nat \<times> Range) list"

type_synonym allocs = "bool \<times> bool"

definition new_table :: "'e table" where
  "new_table = \<lparr>hashTable = [], data = [], dataCapacity = 0, liveCount = 0, hashShift = 0, ranges = []\<rparr>"

definition HashNumberSizeBits :: nat where
  "HashNumberSizeBits = 32"

definition initialBucketsLog2 :: nat where
  "initialBucketsLog2 = 1"

definition initialBuckets :: nat where
  "initialBuckets = 2 ^ initialBucketsLog2"

definition hashBuckets :: "'e table \<Rightarrow> nat" where
  "hashBuckets t = 2 ^ (HashNumberSizeBits - hashShift t)"

definition capacity_of :: "nat \<Rightarrow> nat" where
  "capacity_of buckets = buckets * 8 div 3"

definition prepareHash :: "('k, 'e) hash_ops \<Rightarrow> 'k \<Rightarrow> u32" where
  "prepareHash ops l = ScrambleHashCode (ops_hash ops l)"

text \<open>\<open>h >> hashShift\<close>\<close>

definition bucket :: "u32 \<Rightarrow> nat \<Rightarrow> nat" where
  "bucket h shift = unat (drop_bit shift h)"

definition is_empty :: "('k, 'e) hash_ops \<Rightarrow> 'e Data \<Rightarrow> bool" where
  "is_empty ops d = ops_isEmpty ops (ops_getKey ops (element d))"

text \<open>
  \<open>pod_malloc\<close> of a table of buckets refuses a size whose bytes overflow: a pointer has four bytes and a
  \<open>size_t\<close> 32 bits.
\<close>

definition pod_malloc_buckets :: "bool \<Rightarrow> nat \<Rightarrow> bool" where
  "pod_malloc_buckets ok n \<longleftrightarrow> ok \<and> int n * 4 < 0x100000000"

section \<open>Ranges, as the table calls them\<close>

text \<open>\<open>seek\<close>: to the next entry in use.\<close>

fun seek_from :: "('k, 'e) hash_ops \<Rightarrow> 'e Data list \<Rightarrow> nat \<Rightarrow> nat" where
  "seek_from ops [] i = i"
| "seek_from ops (d # ds) i = (if is_empty ops d then seek_from ops ds (Suc i) else i)"

definition seek :: "('k, 'e) hash_ops \<Rightarrow> 'e Data list \<Rightarrow> Range \<Rightarrow> Range" where
  "seek ops ds r = r\<lparr>front_index := seek_from ops (drop (front_index r) ds) (front_index r)\<rparr>"

definition onRemove :: "('k, 'e) hash_ops \<Rightarrow> 'e Data list \<Rightarrow> nat \<Rightarrow> Range \<Rightarrow> Range" where
  "onRemove ops ds j r =
     (let r = (if j < front_index r then r\<lparr>front_count := front_count r - 1\<rparr> else r)
      in if j = front_index r then seek ops ds r else r)"

definition onCompact :: "Range \<Rightarrow> Range" where
  "onCompact r = r\<lparr>front_index := front_count r\<rparr>"

definition onClear :: "Range \<Rightarrow> Range" where
  "onClear r = r\<lparr>front_index := 0, front_count := 0\<rparr>"

definition for_ranges :: "(Range \<Rightarrow> Range) \<Rightarrow> 'e table \<Rightarrow> 'e table" where
  "for_ranges f t = t\<lparr>ranges := map (\<lambda>(rid, r). (rid, f r)) (ranges t)\<rparr>"

section \<open>Initialisation and lookup\<close>

definition init :: "allocs \<Rightarrow> 'e table \<Rightarrow> bool \<times> 'e table" where
  "init ok t =
     (let buckets = initialBuckets in
      if \<not> pod_malloc_buckets (fst ok) buckets then (False, t)
      else
        let capacity = capacity_of buckets in
        if \<not> snd ok then (False, t)
        else (True, t\<lparr>hashTable := replicate buckets None, data := [], dataCapacity := capacity, liveCount := 0,
                hashShift := HashNumberSizeBits - initialBucketsLog2\<rparr>))"

partial_function (option) lookup_chain ::
  "('k, 'e) hash_ops \<Rightarrow> 'e Data list \<Rightarrow> 'k \<Rightarrow> nat option \<Rightarrow> nat option option" where
  "lookup_chain ops ds l e =
     (case e of
        None \<Rightarrow> Some None
      | Some i \<Rightarrow>
          if length ds \<le> i then None
          else if ops_match ops (ops_getKey ops (element (ds ! i))) l then Some (Some i)
          else lookup_chain ops ds l (chained (ds ! i)))"

declare lookup_chain.simps [code]

definition lookup :: "('k, 'e) hash_ops \<Rightarrow> 'e table \<Rightarrow> 'k \<Rightarrow> u32 \<Rightarrow> nat option option" where
  "lookup ops t l h =
     (let b = bucket h (hashShift t)
      in if b < length (hashTable t) then lookup_chain ops (data t) l (hashTable t ! b) else None)"

definition has :: "('k, 'e) hash_ops \<Rightarrow> 'k \<Rightarrow> 'e table \<Rightarrow> bool option" where
  "has ops l t = do { e \<leftarrow> lookup ops t l (prepareHash ops l); Some (e \<noteq> None) }"

definition get :: "('k, 'e) hash_ops \<Rightarrow> 'k \<Rightarrow> 'e table \<Rightarrow> 'e option option" where
  "get ops l t =
     do { e \<leftarrow> lookup ops t l (prepareHash ops l);
          Some (map_option (\<lambda>i. element (data t ! i)) e) }"

section \<open>Rehashing\<close>

text \<open>One entry of the loop of \<open>rehash\<close>: it moves behind the entries already moved.\<close>

definition rehash_entry ::
  "('k, 'e) hash_ops \<Rightarrow> nat \<Rightarrow> nat \<Rightarrow> 'e Data \<Rightarrow> nat option list \<times> 'e Data list \<Rightarrow>
   (nat option list \<times> 'e Data list) option" where
  "rehash_entry ops shift capacity p st =
     (let (newHashTable, newData) = st in
      if is_empty ops p then Some st
      else
        let h = bucket (prepareHash ops (ops_getKey ops (element p))) shift;
            wp = length newData
        in if h < length newHashTable \<and> wp < capacity
           then Some (newHashTable[h := Some wp],
                      newData @ [\<lparr>element = element p, chained = newHashTable ! h\<rparr>])
           else None)"

fun rehash_loop ::
  "('k, 'e) hash_ops \<Rightarrow> nat \<Rightarrow> nat \<Rightarrow> 'e Data list \<Rightarrow> nat option list \<times> 'e Data list \<Rightarrow>
   (nat option list \<times> 'e Data list) option" where
  "rehash_loop ops shift capacity [] st = Some st"
| "rehash_loop ops shift capacity (p # ps) st =
     do { st \<leftarrow> rehash_entry ops shift capacity p st; rehash_loop ops shift capacity ps st }"

text \<open>The loop of \<open>rehashInPlace\<close>: entry \<open>rp\<close> moves to \<open>wp\<close> in the same vector.\<close>

fun rehash_in_place_loop ::
  "('k, 'e) hash_ops \<Rightarrow> nat \<Rightarrow> nat list \<Rightarrow> nat option list \<times> 'e Data list \<times> nat \<Rightarrow>
   (nat option list \<times> 'e Data list \<times> nat) option" where
  "rehash_in_place_loop ops shift [] st = Some st"
| "rehash_in_place_loop ops shift (rp # rps) (tab, ds, wp) =
     (if is_empty ops (ds ! rp) then rehash_in_place_loop ops shift rps (tab, ds, wp)
      else
        let h = bucket (prepareHash ops (ops_getKey ops (element (ds ! rp)))) shift
        in if h < length tab
           then rehash_in_place_loop ops shift rps
                  (tab[h := Some wp],
                   ds[wp := \<lparr>element = element (ds ! rp), chained = tab ! h\<rparr>], Suc wp)
           else None)"

definition compacted :: "'e table \<Rightarrow> 'e table" where
  "compacted t = for_ranges onCompact t"

definition rehashInPlace :: "('k, 'e) hash_ops \<Rightarrow> 'e table \<Rightarrow> 'e table option" where
  "rehashInPlace ops t =
     do { (tab, ds, wp) \<leftarrow> rehash_in_place_loop ops (hashShift t) [0..<length (data t)]
                             (replicate (hashBuckets t) None, data t, 0);
          Some (compacted (t\<lparr>hashTable := tab, data := take (liveCount t) ds\<rparr>)) }"

definition rehash :: "('k, 'e) hash_ops \<Rightarrow> allocs \<Rightarrow> nat \<Rightarrow> 'e table \<Rightarrow> (bool \<times> 'e table) option" where
  "rehash ops ok newHashShift t =
     (if newHashShift = hashShift t then do { t \<leftarrow> rehashInPlace ops t; Some (True, t) }
      else
        let newHashBuckets = 2 ^ (HashNumberSizeBits - newHashShift);
            newCapacity = capacity_of newHashBuckets
        in if \<not> pod_malloc_buckets (fst ok) newHashBuckets then Some (False, t)
        else if \<not> snd ok then Some (False, t)
        else
           do { (newHashTable, newData) \<leftarrow> rehash_loop ops newHashShift newCapacity (data t)
                                             (replicate newHashBuckets None, []);
                Some (True, compacted (t\<lparr>hashTable := newHashTable, data := newData,
                        dataCapacity := newCapacity, hashShift := newHashShift\<rparr>)) })"

section \<open>Insertion, removal, clearing\<close>

text \<open>\<open>liveCount >= dataCapacity * 0.75\<close> decides whether a full vector grows or is compacted.\<close>

definition make_room :: "('k, 'e) hash_ops \<Rightarrow> allocs \<Rightarrow> 'e table \<Rightarrow> (bool \<times> 'e table) option" where
  "make_room ops ok t =
     (if length (data t) = dataCapacity t
      then rehash ops ok (if dataCapacity t * 3 \<le> liveCount t * 4 then hashShift t - 1 else hashShift t) t
      else Some (True, t))"

definition put :: "('k, 'e) hash_ops \<Rightarrow> allocs \<Rightarrow> 'e \<Rightarrow> 'e table \<Rightarrow> (bool \<times> 'e table) option" where
  "put ops ok e t =
     (let h = prepareHash ops (ops_getKey ops e) in
      do { found \<leftarrow> lookup ops t (ops_getKey ops e) h;
           case found of
             Some i \<Rightarrow> Some (True, t\<lparr>data := (data t)[i := (data t ! i)\<lparr>element := e\<rparr>]\<rparr>)
           | None \<Rightarrow>
               do { (okay, t) \<leftarrow> make_room ops ok t;
                    if \<not> okay then Some (False, t)
                    else
                      let b = bucket h (hashShift t);
                          dataLength = length (data t)
                      in if b < length (hashTable t) \<and> dataLength < dataCapacity t
                         then Some (True, t\<lparr>liveCount := liveCount t + 1,
                                data := data t @ [\<lparr>element = e, chained = hashTable t ! b\<rparr>],
                                hashTable := (hashTable t)[b := Some dataLength]\<rparr>)
                         else None } })"

definition remove :: "('k, 'e) hash_ops \<Rightarrow> allocs \<Rightarrow> 'k \<Rightarrow> 'e table \<Rightarrow> (bool \<times> bool \<times> 'e table) option" where
  "remove ops ok l t =
     do { found \<leftarrow> lookup ops t l (prepareHash ops l);
          case found of
            None \<Rightarrow> Some (True, False, t)
          | Some pos \<Rightarrow>
              let t = t\<lparr>liveCount := liveCount t - 1,
                        data := (data t)[pos := (data t ! pos)\<lparr>element := ops_makeEmpty ops (element (data t ! pos))\<rparr>]\<rparr>;
                  t = for_ranges (onRemove ops (data t) pos) t
              in if initialBuckets < hashBuckets t \<and> liveCount t * 4 < length (data t)
                 then do { (okay, t) \<leftarrow> rehash ops ok (hashShift t + 1) t; Some (okay, True, t) }
                 else Some (True, True, t) }"

definition clear :: "allocs \<Rightarrow> 'e table \<Rightarrow> bool \<times> 'e table" where
  "clear ok t =
     (if data t = [] then (True, t)
      else case init ok t of
          (False, t) \<Rightarrow> (False, t)
        | (True, t) \<Rightarrow> (True, for_ranges onClear t))"

section \<open>Ranges, as iterators use them\<close>

definition all_range :: "('k, 'e) hash_ops \<Rightarrow> nat \<Rightarrow> 'e table \<Rightarrow> 'e table" where
  "all_range ops rid t =
     t\<lparr>ranges := (rid, seek ops (data t) \<lparr>front_index = 0, front_count = 0\<rparr>) # ranges t\<rparr>"

definition copy_range :: "nat \<Rightarrow> nat \<Rightarrow> 'e table \<Rightarrow> 'e table option" where
  "copy_range other rid t = do { r \<leftarrow> map_of (ranges t) other; Some (t\<lparr>ranges := (rid, r) # ranges t\<rparr>) }"

definition destroy_range :: "nat \<Rightarrow> 'e table \<Rightarrow> 'e table" where
  "destroy_range rid t = t\<lparr>ranges := filter (\<lambda>(rid', r). rid' \<noteq> rid) (ranges t)\<rparr>"

definition range_empty :: "nat \<Rightarrow> 'e table \<Rightarrow> bool option" where
  "range_empty rid t = do { r \<leftarrow> map_of (ranges t) rid; Some (length (data t) \<le> front_index r) }"

definition range_front :: "nat \<Rightarrow> 'e table \<Rightarrow> 'e option" where
  "range_front rid t =
     do { r \<leftarrow> map_of (ranges t) rid;
          if front_index r < length (data t) then Some (element (data t ! front_index r)) else None }"

definition set_range :: "nat \<Rightarrow> Range \<Rightarrow> 'e table \<Rightarrow> 'e table" where
  "set_range rid r t = t\<lparr>ranges := map (\<lambda>(rid', r'). (rid', if rid' = rid then r else r')) (ranges t)\<rparr>"

definition popFront :: "('k, 'e) hash_ops \<Rightarrow> nat \<Rightarrow> 'e table \<Rightarrow> 'e table option" where
  "popFront ops rid t =
     do { r \<leftarrow> map_of (ranges t) rid;
          Some (set_range rid (seek ops (data t)
            (r\<lparr>front_count := front_count r + 1, front_index := front_index r + 1\<rparr>)) t) }"

section \<open>Changing a key\<close>

text \<open>A \<open>Data**\<close>: the address of a bucket or of the chain pointer of an entry.\<close>

datatype link = Bucket nat | Chain nat

fun read_link :: "'e table \<Rightarrow> link \<Rightarrow> nat option option" where
  "read_link t (Bucket b) = (if b < length (hashTable t) then Some (hashTable t ! b) else None)"
| "read_link t (Chain i) = (if i < length (data t) then Some (chained (data t ! i)) else None)"

fun write_link :: "link \<Rightarrow> nat option \<Rightarrow> 'e table \<Rightarrow> 'e table" where
  "write_link (Bucket b) v t = t\<lparr>hashTable := (hashTable t)[b := v]\<rparr>"
| "write_link (Chain i) v t = t\<lparr>data := (data t)[i := (data t ! i)\<lparr>chained := v\<rparr>]\<rparr>"

text \<open>\<open>while (*ep != entry) ep = &(*ep)->chain;\<close>\<close>

partial_function (option) link_to :: "'e table \<Rightarrow> nat \<Rightarrow> link \<Rightarrow> link option" where
  "link_to t entry ep =
     do { v \<leftarrow> read_link t ep;
          if v = Some entry then Some ep
          else case v of None \<Rightarrow> None | Some i \<Rightarrow> link_to t entry (Chain i) }"

text \<open>\<open>while (*ep && *ep > entry) ep = &(*ep)->chain;\<close>\<close>

partial_function (option) link_before :: "'e table \<Rightarrow> nat \<Rightarrow> link \<Rightarrow> link option" where
  "link_before t entry ep =
     do { v \<leftarrow> read_link t ep;
          case v of
            None \<Rightarrow> Some ep
          | Some i \<Rightarrow> if entry < i then link_before t entry (Chain i) else Some ep }"

declare link_to.simps [code] link_before.simps [code]

text \<open>Unhook the entry from its old chain, and hook it into the new one in descending order.\<close>

definition move_entry :: "nat \<Rightarrow> nat \<Rightarrow> nat \<Rightarrow> 'e table \<Rightarrow> 'e table option" where
  "move_entry oldHash newHash entry t =
     do { ep \<leftarrow> link_to t entry (Bucket oldHash);
          let t = write_link ep (chained (data t ! entry)) t;
          ep \<leftarrow> link_before t entry (Bucket newHash);
          v \<leftarrow> read_link t ep;
          let t = write_link (Chain entry) v t;
          Some (write_link ep (Some entry) t) }"

definition set_element :: "nat \<Rightarrow> 'e \<Rightarrow> 'e table \<Rightarrow> 'e table" where
  "set_element i e t = t\<lparr>data := (data t)[i := (data t ! i)\<lparr>element := e\<rparr>]\<rparr>"

definition rekeyFront :: "('k, 'e) hash_ops \<Rightarrow> nat \<Rightarrow> 'k \<Rightarrow> 'e table \<Rightarrow> 'e table option" where
  "rekeyFront ops rid k t =
     do { r \<leftarrow> map_of (ranges t) rid;
          let i = front_index r;
          if length (data t) \<le> i then None
          else
            let e = element (data t ! i);
                oldHash = bucket (prepareHash ops (ops_getKey ops e)) (hashShift t);
                newHash = bucket (prepareHash ops k) (hashShift t);
                t = set_element i (ops_setKey ops e k) t
            in if newHash \<noteq> oldHash then move_entry oldHash newHash i t else Some t }"

definition rekeyOneEntry :: "('k, 'e) hash_ops \<Rightarrow> 'k \<Rightarrow> 'k \<Rightarrow> 'e \<Rightarrow> 'e table \<Rightarrow> 'e table option" where
  "rekeyOneEntry ops current newKey e t =
     (if current = newKey then Some t
      else
        do { found \<leftarrow> lookup ops t current (prepareHash ops current);
             case found of
               None \<Rightarrow> Some t
             | Some i \<Rightarrow>
                 move_entry (bucket (prepareHash ops current) (hashShift t))
                   (bucket (prepareHash ops newKey) (hashShift t)) i (set_element i e t) })"

end
