(* ===== verification/MapObject.thy ===== *)
theory MapObject
  imports HashFunctions OrderedHashTable Doubles
begin

text \<open>
  \<open>Map\<close> and \<open>Set\<close> of \<open>builtin/MapObject.cpp\<close>: the normalisation and hashing of keys, the policies they give
  the ordered hash table, the natives, the iterators.

  \<^item> A native is given its \<open>this\<close> after \<open>CallNonGenericMethod\<close> has checked it. Its outer option is \<open>None\<close> when the
    table's behaviour is undefined, the inner one when it throws (out of memory).
  \<^item> \<open>memory\<close> says which allocations of a call succeed: the atom of a string key, the list of nursery keys, the
    bucket table, the entry vector, the range and the object of an iterator.
  \<^item> \<open>hash_env\<close> is what the runtime adds to a hash code: the key of the scrambler, the number of a symbol, the
    address of an object.
  \<^item> An iterator and its range have the same identity, a number.
\<close>

section \<open>Keys\<close>

datatype HashableValue = HKey jsval | JS_HASH_KEY_EMPTY

record hash_env =
  hcs_k0 :: u64
  hcs_k1 :: u64
  symbol_hash :: "nat \<Rightarrow> u32"
  object_address :: "nat \<Rightarrow> u32"

record memory =
  atomize_ok :: bool
  barrier_ok :: bool
  table_alloc :: bool
  vector_alloc :: bool
  range_alloc :: bool
  object_alloc :: bool

text \<open>\<open>NumberEqualsInt32\<close> takes negative zero for zero.\<close>

definition NumberEqualsInt32 :: "dbl \<Rightarrow> int option" where
  "NumberEqualsInt32 d =
     (case d of
        DInt n \<Rightarrow> if dbl_fits_int32 d then Some n else None
      | DBits b \<Rightarrow> if b = sign_bit then Some 0 else None)"

fun setValue :: "bool \<Rightarrow> jsval \<Rightarrow> HashableValue option" where
  "setValue atomize (Str s) = (if atomize then Some (HKey (Str s)) else None)"
| "setValue atomize (Number d) =
     (case NumberEqualsInt32 d of
        Some i \<Rightarrow> Some (HKey (Number (DInt i)))
      | None \<Rightarrow> if IsNaN d then Some (HKey (Number DoubleNaN)) else Some (HKey (Number d)))"
| "setValue atomize v = Some (HKey v)"

text \<open>The low word of a value's bits on a 32-bit machine.\<close>

fun dbl_low_word :: "dbl \<Rightarrow> u32" where
  "dbl_low_word (DInt n) = (if dbl_fits_int32 (DInt n) then word_of_int n else ucast (integral_bits n))"
| "dbl_low_word (DBits b) = ucast b"

fun HashValue :: "hash_env \<Rightarrow> jsval \<Rightarrow> u32" where
  "HashValue env (Str s) = HashKnownLength s"
| "HashValue env (Symbol n) = symbol_hash env n"
| "HashValue env (Object n) = scramble (hcs_k0 env) (hcs_k1 env) (object_address env n)"
| "HashValue env (Number d) = dbl_low_word d"
| "HashValue env (Boolean b) = (if b then 1 else 0)"
| "HashValue env Null = 0"
| "HashValue env Undefined = 0"

text \<open>The empty key is never hashed: a lookup is for a value, and a rehash skips it.\<close>

fun hash_of :: "hash_env \<Rightarrow> HashableValue \<Rightarrow> u32" where
  "hash_of env (HKey v) = HashValue env v"
| "hash_of env JS_HASH_KEY_EMPTY = 0"

fun key_value :: "HashableValue \<Rightarrow> jsval option" where
  "key_value (HKey v) = Some v"
| "key_value JS_HASH_KEY_EMPTY = None"

text \<open>Equal bits: equal values, as atoms are shared.\<close>

definition map_ops :: "hash_env \<Rightarrow> (HashableValue, HashableValue \<times> jsval) hash_ops" where
  "map_ops env = \<lparr>ops_hash = hash_of env, ops_match = (\<lambda>k l. k = l), ops_isEmpty = (\<lambda>k. k = JS_HASH_KEY_EMPTY),
     ops_makeEmpty = (\<lambda>e. (JS_HASH_KEY_EMPTY, Undefined)), ops_getKey = fst, ops_setKey = (\<lambda>e k. (k, snd e))\<rparr>"

definition set_ops :: "hash_env \<Rightarrow> (HashableValue, HashableValue) hash_ops" where
  "set_ops env = \<lparr>ops_hash = hash_of env, ops_match = (\<lambda>k l. k = l), ops_isEmpty = (\<lambda>k. k = JS_HASH_KEY_EMPTY),
     ops_makeEmpty = (\<lambda>e. JS_HASH_KEY_EMPTY), ops_getKey = (\<lambda>e. e), ops_setKey = (\<lambda>e k. k)\<rparr>"

text \<open>\<open>ARG0_KEY\<close>: without an argument the key is the default one, undefined.\<close>

definition arg0_key :: "memory \<Rightarrow> jsval list \<Rightarrow> HashableValue option" where
  "arg0_key mem args = (if args \<noteq> [] then setValue (atomize_ok mem) (hd args) else Some (HKey Undefined))"

definition arg_get :: "jsval list \<Rightarrow> nat \<Rightarrow> jsval" where
  "arg_get args i = (if i < length args then args ! i else Undefined)"

definition table_allocs :: "memory \<Rightarrow> allocs" where
  "table_allocs mem = (table_alloc mem, vector_alloc mem)"

section \<open>Map\<close>

datatype IteratorKind = Keys | Values | Entries

record iterator =
  it_range :: bool
  it_kind :: IteratorKind

record 'e collection =
  coll_table :: "'e table"
  iterators :: "(nat \<times> iterator) list"

type_synonym map_object = "(HashableValue \<times> jsval) collection"

text \<open>\<open>MapObject::create\<close>\<close>

definition create :: "memory \<Rightarrow> 'e collection option" where
  "create mem =
     (let (okay, t) = init (table_allocs mem) new_table in
      if \<not> okay then None
      else if \<not> object_alloc mem then None
      else Some \<lparr>coll_table = t, iterators = []\<rparr>)"

definition map_size :: "map_object \<Rightarrow> nat" where
  "map_size m = liveCount (coll_table m)"

definition map_get :: "hash_env \<Rightarrow> memory \<Rightarrow> jsval list \<Rightarrow> map_object \<Rightarrow> jsval option option" where
  "map_get env mem args m =
     (case setValue (atomize_ok mem) (arg_get args 0) of
        None \<Rightarrow> Some None
      | Some k \<Rightarrow>
          do { p \<leftarrow> get (map_ops env) k (coll_table m);
               Some (Some (case p of Some e \<Rightarrow> snd e | None \<Rightarrow> Undefined)) })"

definition map_has :: "hash_env \<Rightarrow> memory \<Rightarrow> jsval list \<Rightarrow> map_object \<Rightarrow> jsval option option" where
  "map_has env mem args m =
     (case setValue (atomize_ok mem) (arg_get args 0) of
        None \<Rightarrow> Some None
      | Some k \<Rightarrow> do { found \<leftarrow> has (map_ops env) k (coll_table m); Some (Some (Boolean found)) })"

definition map_set :: "hash_env \<Rightarrow> memory \<Rightarrow> jsval \<Rightarrow> jsval list \<Rightarrow> map_object \<Rightarrow> (jsval option \<times> map_object) option" where
  "map_set env mem thisv args m =
     (case arg0_key mem args of
        None \<Rightarrow> Some (None, m)
      | Some key \<Rightarrow>
          if \<not> barrier_ok mem then Some (None, m)
          else do { (okay, t) \<leftarrow> put (map_ops env) (table_allocs mem) (key, arg_get args 1) (coll_table m);
                    Some (if okay then Some thisv else None, m\<lparr>coll_table := t\<rparr>) })"

definition map_delete :: "hash_env \<Rightarrow> memory \<Rightarrow> jsval list \<Rightarrow> map_object \<Rightarrow> (jsval option \<times> map_object) option" where
  "map_delete env mem args m =
     (case arg0_key mem args of
        None \<Rightarrow> Some (None, m)
      | Some key \<Rightarrow>
          do { (okay, found, t) \<leftarrow> remove (map_ops env) (table_allocs mem) key (coll_table m);
               Some (if okay then Some (Boolean found) else None, m\<lparr>coll_table := t\<rparr>) })"

definition map_clear :: "memory \<Rightarrow> map_object \<Rightarrow> jsval option \<times> map_object" where
  "map_clear mem m =
     (let (okay, t) = clear (table_allocs mem) (coll_table m)
      in (if okay then Some Undefined else None, m\<lparr>coll_table := t\<rparr>))"

text \<open>\<open>MapIteratorObject::create\<close>, with the identity of the new object.\<close>

definition map_iterator :: "hash_env \<Rightarrow> memory \<Rightarrow> nat \<Rightarrow> IteratorKind \<Rightarrow> map_object \<Rightarrow> bool \<times> map_object" where
  "map_iterator env mem rid kind m =
     (if \<not> range_alloc mem then (False, m)
      else
        let t = all_range (map_ops env) rid (coll_table m) in
        if \<not> object_alloc mem then (False, m\<lparr>coll_table := destroy_range rid t\<rparr>)
        else (True, m\<lparr>coll_table := t, iterators := (rid, \<lparr>it_range = True, it_kind = kind\<rparr>) # iterators m\<rparr>))"

definition set_iterator :: "nat \<Rightarrow> iterator \<Rightarrow> 'e collection \<Rightarrow> 'e collection" where
  "set_iterator rid it m = m\<lparr>iterators := map (\<lambda>(rid', it'). (rid', if rid' = rid then it else it')) (iterators m)\<rparr>"

text \<open>\<open>js_delete(range)\<close> and the cleared slot.\<close>

definition drop_range :: "nat \<Rightarrow> iterator \<Rightarrow> 'e collection \<Rightarrow> 'e collection" where
  "drop_range rid it m =
     set_iterator rid (it\<lparr>it_range := False\<rparr>) (m\<lparr>coll_table := destroy_range rid (coll_table m)\<rparr>)"

text \<open>\<open>MapIteratorObject::next\<close>: whether the iteration is done, and the pair it fills in.\<close>

definition map_next ::
  "hash_env \<Rightarrow> nat \<Rightarrow> jsval \<times> jsval \<Rightarrow> map_object \<Rightarrow> (bool \<times> (jsval \<times> jsval) \<times> map_object) option" where
  "map_next env rid pair m =
     do { it \<leftarrow> map_of (iterators m) rid;
          if \<not> it_range it then Some (True, pair, m)
          else
            do { over \<leftarrow> range_empty rid (coll_table m);
                 if over then Some (True, pair, drop_range rid it m)
                 else
                   do { front \<leftarrow> range_front rid (coll_table m);
                        k \<leftarrow> key_value (fst front);
                        let pair = (case it_kind it of
                            Keys \<Rightarrow> (k, snd pair)
                          | Values \<Rightarrow> (fst pair, snd front)
                          | Entries \<Rightarrow> (k, snd front));
                        t \<leftarrow> popFront (map_ops env) rid (coll_table m);
                        Some (False, pair, m\<lparr>coll_table := t\<rparr>) } } }"

definition map_finalize_iterator :: "nat \<Rightarrow> map_object \<Rightarrow> map_object" where
  "map_finalize_iterator rid m =
     m\<lparr>coll_table := destroy_range rid (coll_table m), iterators := filter (\<lambda>(rid', it). rid' \<noteq> rid) (iterators m)\<rparr>"

section \<open>Set\<close>

type_synonym set_object = "HashableValue collection"

definition set_size :: "set_object \<Rightarrow> nat" where
  "set_size s = liveCount (coll_table s)"

definition set_has :: "hash_env \<Rightarrow> memory \<Rightarrow> jsval list \<Rightarrow> set_object \<Rightarrow> jsval option option" where
  "set_has env mem args s =
     (case arg0_key mem args of
        None \<Rightarrow> Some None
      | Some k \<Rightarrow> do { found \<leftarrow> has (set_ops env) k (coll_table s); Some (Some (Boolean found)) })"

definition set_add :: "hash_env \<Rightarrow> memory \<Rightarrow> jsval \<Rightarrow> jsval list \<Rightarrow> set_object \<Rightarrow> (jsval option \<times> set_object) option" where
  "set_add env mem thisv args s =
     (case arg0_key mem args of
        None \<Rightarrow> Some (None, s)
      | Some key \<Rightarrow>
          if \<not> barrier_ok mem then Some (None, s)
          else do { (okay, t) \<leftarrow> put (set_ops env) (table_allocs mem) key (coll_table s);
                    Some (if okay then Some thisv else None, s\<lparr>coll_table := t\<rparr>) })"

definition set_delete :: "hash_env \<Rightarrow> memory \<Rightarrow> jsval list \<Rightarrow> set_object \<Rightarrow> (jsval option \<times> set_object) option" where
  "set_delete env mem args s =
     (case arg0_key mem args of
        None \<Rightarrow> Some (None, s)
      | Some key \<Rightarrow>
          do { (okay, found, t) \<leftarrow> remove (set_ops env) (table_allocs mem) key (coll_table s);
               Some (if okay then Some (Boolean found) else None, s\<lparr>coll_table := t\<rparr>) })"

definition set_clear :: "memory \<Rightarrow> set_object \<Rightarrow> jsval option \<times> set_object" where
  "set_clear mem s =
     (let (okay, t) = clear (table_allocs mem) (coll_table s)
      in (if okay then Some Undefined else None, s\<lparr>coll_table := t\<rparr>))"

definition set_iterator_create :: "hash_env \<Rightarrow> memory \<Rightarrow> nat \<Rightarrow> IteratorKind \<Rightarrow> set_object \<Rightarrow> bool \<times> set_object" where
  "set_iterator_create env mem rid kind s =
     (if \<not> range_alloc mem then (False, s)
      else
        let t = all_range (set_ops env) rid (coll_table s) in
        if \<not> object_alloc mem then (False, s\<lparr>coll_table := destroy_range rid t\<rparr>)
        else (True, s\<lparr>coll_table := t, iterators := (rid, \<lparr>it_range = True, it_kind = kind\<rparr>) # iterators s\<rparr>))"

definition set_next :: "hash_env \<Rightarrow> nat \<Rightarrow> jsval \<Rightarrow> set_object \<Rightarrow> (bool \<times> jsval \<times> set_object) option" where
  "set_next env rid result s =
     do { it \<leftarrow> map_of (iterators s) rid;
          if \<not> it_range it then Some (True, result, s)
          else
            do { over \<leftarrow> range_empty rid (coll_table s);
                 if over then Some (True, result, drop_range rid it s)
                 else
                   do { front \<leftarrow> range_front rid (coll_table s);
                        k \<leftarrow> key_value front;
                        t \<leftarrow> popFront (set_ops env) rid (coll_table s);
                        Some (False, k, s\<lparr>coll_table := t\<rparr>) } } }"

text \<open>The fast path of the constructor: the elements of a dense array, in order.\<close>

fun set_construct_loop :: "hash_env \<Rightarrow> memory \<Rightarrow> jsval list \<Rightarrow> set_object \<Rightarrow> (bool \<times> set_object) option" where
  "set_construct_loop env mem [] s = Some (True, s)"
| "set_construct_loop env mem (v # vs) s =
     (case setValue (atomize_ok mem) v of
        None \<Rightarrow> Some (False, s)
      | Some key \<Rightarrow>
          if \<not> barrier_ok mem then Some (False, s)
          else do { (okay, t) \<leftarrow> put (set_ops env) (table_allocs mem) key (coll_table s);
                    if okay then set_construct_loop env mem vs (s\<lparr>coll_table := t\<rparr>)
                    else Some (False, s\<lparr>coll_table := t\<rparr>) })"

end
