(* ===== verification/OrderedHashTableCorrect.thy ===== *)
theory OrderedHashTableCorrect
  imports OrderedHashTable
begin

text \<open>
  The ordered hash table is a list: its entries in use, in the order of their insertion. Every operation
  acts on that list as one would write it down, whatever the chains, the growing, the shrinking and the
  compacting do; and a range is a position in that list which the operations move along.
\<close>

section \<open>The last index with a property\<close>

primrec find_last :: "(nat \<Rightarrow> bool) \<Rightarrow> nat \<Rightarrow> nat option" where
  "find_last P 0 = None"
| "find_last P (Suc n) = (if P n then Some n else find_last P n)"

lemma find_last_Some: "find_last P n = Some i \<longleftrightarrow> i < n \<and> P i \<and> (\<forall>j. i < j \<and> j < n \<longrightarrow> \<not> P j)"
  by (induction n) (auto simp: less_Suc_eq)

lemma find_last_None: "find_last P n = None \<longleftrightarrow> (\<forall>j<n. \<not> P j)"
  by (induction n) (auto simp: less_Suc_eq)

lemma find_last_cong: "(\<And>j. j < n \<Longrightarrow> P j = Q j) \<Longrightarrow> find_last P n = find_last Q n"
  by (induction n) auto

section \<open>Chains\<close>

text \<open>
  \<open>links f S tab ds\<close>: the chains of the table run through the entries of \<open>S\<close>, each entry \<open>i\<close> in the chain of
  bucket \<open>f i\<close>, in descending order.
\<close>

definition links :: "(nat \<Rightarrow> nat) \<Rightarrow> nat set \<Rightarrow> nat option list \<Rightarrow> 'e Data list \<Rightarrow> bool" where
  "links f S tab ds \<longleftrightarrow>
     (\<forall>b < length tab. tab ! b = find_last (\<lambda>j. j \<in> S \<and> f j = b) (length ds)) \<and>
     (\<forall>i \<in> S. i < length ds \<and> f i < length tab \<and> chained (ds ! i) = find_last (\<lambda>j. j \<in> S \<and> f j = f i) i)"

lemma links_empty: "links f {} (replicate n None) []"
  by (simp add: links_def)

lemma links_cong:
  assumes "links f S tab ds" and "length ds' = length ds" and "\<And>i. i \<in> S \<Longrightarrow> chained (ds' ! i) = chained (ds ! i)"
  shows "links f S tab ds'"
  using assms by (simp add: links_def)

lemma links_append:
  assumes "links f {..<length ds} tab ds" and "h < length tab"
  shows "links (f(length ds := h)) {..<Suc (length ds)} (tab[h := Some (length ds)])
    (ds @ [\<lparr>element = e, chained = tab ! h\<rparr>])"
proof -
  let ?n = "length ds" and ?f = "f(length ds := h)"
  have same: "find_last (\<lambda>j. j \<in> {..<Suc ?n} \<and> ?f j = b) m = find_last (\<lambda>j. j \<in> {..<?n} \<and> f j = b) m" if "m \<le> ?n" for b m
    by (rule find_last_cong) (use that in auto)
  have tab: "tab ! b = find_last (\<lambda>j. j \<in> {..<?n} \<and> f j = b) ?n" if "b < length tab" for b
    using assms(1) that by (simp add: links_def)
  have "(tab[h := Some ?n]) ! b = find_last (\<lambda>j. j \<in> {..<Suc ?n} \<and> ?f j = b) (Suc ?n)" if "b < length tab" for b
    using that tab [OF that] same [of ?n b] by (simp add: nth_list_update del: lessThan_iff) simp
  moreover have "chained ((ds @ [\<lparr>element = e, chained = tab ! h\<rparr>]) ! i) =
      find_last (\<lambda>j. j \<in> {..<Suc ?n} \<and> ?f j = ?f i) i \<and> ?f i < length tab" if "i < Suc ?n" for i
  proof (cases "i = ?n")
    case True
    then show ?thesis using tab [OF assms(2)] same [of ?n h] assms(2) by simp
  next
    case False
    then have "i < ?n" using that by simp
    then show ?thesis using assms(1) same [of i "f i"] by (simp add: links_def nth_append)
  qed
  ultimately show ?thesis unfolding links_def by simp
qed

lemma lookup_chain_links:
  assumes "links f S tab ds" and "n \<le> length ds" and "b < length tab"
  shows "lookup_chain ops ds l (find_last (\<lambda>j. j \<in> S \<and> f j = b) n) =
    Some (find_last (\<lambda>j. j \<in> S \<and> f j = b \<and> ops_match ops (ops_getKey ops (element (ds ! j))) l) n)"
  using assms(2)
proof (induction n)
  case 0
  then show ?case by (simp add: lookup_chain.simps)
next
  case (Suc n)
  show ?case
  proof (cases "n \<in> S \<and> f n = b")
    case False
    then show ?thesis using Suc by auto
  next
    case True
    then have "chained (ds ! n) = find_last (\<lambda>j. j \<in> S \<and> f j = b) n"
      using assms(1) unfolding links_def by blast
    then show ?thesis
      using True Suc by (subst lookup_chain.simps) simp
  qed
qed


section \<open>The table as a list\<close>

definition in_use :: "('k, 'e) hash_ops \<Rightarrow> 'e Data list \<Rightarrow> 'e list" where
  "in_use ops ds = map element (filter (\<lambda>d. \<not> is_empty ops d) ds)"

definition entries :: "('k, 'e) hash_ops \<Rightarrow> 'e table \<Rightarrow> 'e list" where
  "entries ops t = in_use ops (data t)"

lemma in_use_simps [simp]:
  "in_use ops [] = []" "in_use ops (d # ds) = (if is_empty ops d then in_use ops ds else element d # in_use ops ds)"
  "in_use ops (ds @ ds') = in_use ops ds @ in_use ops ds'"
  by (simp_all add: in_use_def)

lemma length_in_use_le: "length (in_use ops ds) \<le> length ds"
  by (simp add: in_use_def)

definition matches :: "('k, 'e) hash_ops \<Rightarrow> 'k \<Rightarrow> 'e \<Rightarrow> bool" where
  "matches ops l e = ops_match ops (ops_getKey ops e) l"

definition distinct_keys :: "('k, 'e) hash_ops \<Rightarrow> 'e list \<Rightarrow> bool" where
  "distinct_keys ops es = sorted_wrt (\<lambda>a b. \<not> matches ops (ops_getKey ops b) a) es"

text \<open>The bucket an entry belongs to.\<close>

definition home :: "('k, 'e) hash_ops \<Rightarrow> nat \<Rightarrow> 'e Data \<Rightarrow> nat" where
  "home ops shift d = bucket (prepareHash ops (ops_getKey ops (element d))) shift"

definition chains_ok :: "('k, 'e) hash_ops \<Rightarrow> nat \<Rightarrow> nat option list \<Rightarrow> 'e Data list \<Rightarrow> bool" where
  "chains_ok ops shift tab ds \<longleftrightarrow>
     (\<exists>f. links f {..<length ds} tab ds \<and>
       (\<forall>i<length ds. \<not> is_empty ops (ds ! i) \<longrightarrow> f i = home ops shift (ds ! i)))"

definition table_ok :: "('k, 'e) hash_ops \<Rightarrow> 'e table \<Rightarrow> bool" where
  "table_ok ops t \<longleftrightarrow>
     3 \<le> hashShift t \<and> hashShift t \<le> 31 \<and> length (hashTable t) = hashBuckets t \<and>
     dataCapacity t = capacity_of (hashBuckets t) \<and> length (data t) \<le> dataCapacity t \<and>
     liveCount t = length (entries ops t) \<and> distinct_keys ops (entries ops t) \<and>
     chains_ok ops (hashShift t) (hashTable t) (data t)"

definition range_ok :: "('k, 'e) hash_ops \<Rightarrow> 'e Data list \<Rightarrow> Range \<Rightarrow> bool" where
  "range_ok ops ds r \<longleftrightarrow>
     front_index r \<le> length ds \<and> (front_index r < length ds \<longrightarrow> \<not> is_empty ops (ds ! front_index r)) \<and>
     front_count r = length (in_use ops (take (front_index r) ds))"

definition table_wf :: "('k, 'e) hash_ops \<Rightarrow> 'e table \<Rightarrow> bool" where
  "table_wf ops t \<longleftrightarrow> table_ok ops t \<and> distinct (map fst (ranges t)) \<and>
     (\<forall>(rid, r) \<in> set (ranges t). range_ok ops (data t) r)"

text \<open>What a range has still to visit.\<close>

definition remaining :: "('k, 'e) hash_ops \<Rightarrow> 'e Data list \<Rightarrow> Range \<Rightarrow> 'e list" where
  "remaining ops ds r = in_use ops (drop (front_index r) ds)"

lemma in_use_split: "in_use ops ds = in_use ops (take i ds) @ in_use ops (drop i ds)"
  by (metis append_take_drop_id in_use_simps(3))

lemma remaining_drop: "range_ok ops ds r \<Longrightarrow> remaining ops ds r = drop (front_count r) (in_use ops ds)"
  using in_use_split [of ops ds "front_index r"] by (simp add: range_ok_def remaining_def)

section \<open>Buckets\<close>

lemma bucket_less: "shift \<le> 32 \<Longrightarrow> bucket h shift < 2 ^ (32 - shift)"
proof -
  assume "shift \<le> 32"
  have "unat h < 2 ^ (32 - shift) * 2 ^ shift"
    using unsigned_less [of h, where 'a = nat] \<open>shift \<le> 32\<close> by (simp flip: power_add)
  then show ?thesis by (simp add: bucket_def unat_drop less_mult_imp_div_less)
qed

lemma capacity_less: "b \<le> b' \<Longrightarrow> capacity_of b \<le> capacity_of b'"
  by (simp add: capacity_of_def div_le_mono)

lemma home_less: "shift \<le> 31 \<Longrightarrow> home ops shift d < 2 ^ (32 - shift)"
  by (simp add: home_def bucket_less)

section \<open>Rehashing\<close>

definition hashed :: "('k, 'e) hash_ops \<Rightarrow> nat \<Rightarrow> nat option list \<Rightarrow> 'e Data list \<Rightarrow> bool" where
  "hashed ops shift tab ds \<longleftrightarrow> links (\<lambda>i. home ops shift (ds ! i)) {..<length ds} tab ds \<and> (\<forall>d \<in> set ds. \<not> is_empty ops d)"

lemma hashed_chains: "hashed ops shift tab ds \<Longrightarrow> chains_ok ops shift tab ds"
  by (auto simp: hashed_def chains_ok_def)

lemma links_fcong: "links f S tab ds \<Longrightarrow> (\<And>i. i \<in> S \<Longrightarrow> f i = g i) \<Longrightarrow> links g S tab ds"
  by (smt (verit) find_last_cong links_def)

lemma hashed_append:
  assumes "hashed ops shift tab ds" and "\<not> is_empty ops p" and "home ops shift p < length tab"
  shows "hashed ops shift (tab[home ops shift p := Some (length ds)])
    (ds @ [\<lparr>element = element p, chained = tab ! home ops shift p\<rparr>])"
proof -
  let ?d = "\<lparr>element = element p, chained = tab ! home ops shift p\<rparr>"
  have "home ops shift ?d = home ops shift p" "is_empty ops ?d = is_empty ops p"
    by (simp_all add: home_def is_empty_def)
  moreover have "links ((\<lambda>i. home ops shift (ds ! i))(length ds := home ops shift p)) {..<Suc (length ds)}
      (tab[home ops shift p := Some (length ds)]) (ds @ [?d])"
    by (rule links_append) (use assms in \<open>simp_all add: hashed_def\<close>)
  then have "links (\<lambda>i. home ops shift ((ds @ [?d]) ! i)) {..<Suc (length ds)}
      (tab[home ops shift p := Some (length ds)]) (ds @ [?d])"
    by (rule links_fcong) (auto simp: nth_append home_def)
  ultimately show ?thesis using assms by (auto simp: hashed_def)
qed

lemma rehash_entry_step:
  assumes "hashed ops shift tab nd" and "shift \<le> 31" and "length tab = 2 ^ (32 - shift)"
    and "length nd + length (in_use ops [p]) \<le> capacity"
  shows "\<exists>tab' nd'. rehash_entry ops shift capacity p (tab, nd) = Some (tab', nd') \<and> hashed ops shift tab' nd' \<and>
    length tab' = length tab \<and> map element nd' = map element nd @ in_use ops [p]"
proof (cases "is_empty ops p")
  case False
  have "home ops shift p < length tab" using home_less assms(2,3) by metis
  with False show ?thesis
    using hashed_append [OF assms(1) False] assms(4)
    by (simp add: rehash_entry_def Let_def home_def)
qed (use assms in \<open>simp add: rehash_entry_def\<close>)

lemma rehash_loop_spec:
  assumes "hashed ops shift tab nd" and "shift \<le> 31" and "length tab = 2 ^ (32 - shift)"
    and "length nd + length (in_use ops ps) \<le> capacity"
  shows "\<exists>tab' nd'. rehash_loop ops shift capacity ps (tab, nd) = Some (tab', nd') \<and> hashed ops shift tab' nd' \<and>
    length tab' = length tab \<and> map element nd' = map element nd @ in_use ops ps"
  using assms
proof (induction ps arbitrary: tab nd)
  case (Cons p ps)
  obtain tab' nd' where step: "rehash_entry ops shift capacity p (tab, nd) = Some (tab', nd')"
    and st': "hashed ops shift tab' nd'" "length tab' = length tab" "map element nd' = map element nd @ in_use ops [p]"
    using rehash_entry_step [of ops shift tab nd p capacity] Cons.prems by (auto split: if_splits)
  have "length nd' = length nd + length (in_use ops [p])" by (metis st'(3) length_append length_map)
  then have "length nd' + length (in_use ops ps) \<le> capacity" using Cons.prems(4) by (auto split: if_splits)
  then obtain tab'' nd'' where "rehash_loop ops shift capacity ps (tab', nd') = Some (tab'', nd'')"
      "hashed ops shift tab'' nd''" "length tab'' = length tab'" "map element nd'' = map element nd' @ in_use ops ps"
    using Cons.IH [OF st'(1) Cons.prems(2)] st'(2) Cons.prems(3) by metis
  then show ?case using step st' by (auto split: if_splits)
qed simp

text \<open>The loop in place does what the copying loop does.\<close>

lemma rehash_in_place_copies:
  assumes "rehash_loop ops shift capacity (drop rp orig) (tab, take wp ds) = Some (tab', nd)"
    and "length ds = length orig" and "drop rp ds = drop rp orig" and "wp \<le> rp" and "rp \<le> length orig"
  shows "\<exists>ds'. rehash_in_place_loop ops shift [rp..<length orig] (tab, ds, wp) = Some (tab', ds', length nd) \<and>
    take (length nd) ds' = nd \<and> length ds' = length orig"
  using assms
proof (induction "length orig - rp" arbitrary: rp tab ds wp)
  case 0
  then have nd: "tab' = tab" "nd = take wp ds" "wp \<le> length ds" by simp_all
  then have "length nd = wp" by simp
  then show ?case using 0 nd by simp
next
  case (Suc k)
  then have rp: "rp < length orig" by simp
  then have drop: "drop rp orig = orig ! rp # drop (Suc rp) orig" by (simp add: Cons_nth_drop_Suc)
  have upt: "[rp..<length orig] = rp # [Suc rp..<length orig]" using rp by (simp add: upt_rec)
  have at: "ds ! rp = orig ! rp" and rest: "drop (Suc rp) ds = drop (Suc rp) orig"
    using Suc.prems(2,3) rp by (metis Cons_nth_drop_Suc list.inject)+
  show ?case
  proof (cases "is_empty ops (orig ! rp)")
    case True
    have "rehash_loop ops shift capacity (drop (Suc rp) orig) (tab, take wp ds) = Some (tab', nd)"
      using Suc.prems(1) True by (simp add: drop rehash_entry_def)
    from Suc.hyps(1) [OF _ this Suc.prems(2) rest] show ?thesis
      using True Suc.hyps(2) Suc.prems(4) rp by (simp add: upt at)
  next
    case False
    let ?h = "bucket (prepareHash ops (ops_getKey ops (element (orig ! rp)))) shift"
    let ?d = "\<lparr>element = element (orig ! rp), chained = tab ! ?h\<rparr>"
    have wp: "wp < length ds" using Suc.prems(2,4) rp by simp
    then have copy: "take (Suc wp) (ds[wp := ?d]) = take wp ds @ [?d]" by (simp add: take_Suc_conv_app_nth)
    have h: "?h < length tab"
      and loop: "rehash_loop ops shift capacity (drop (Suc rp) orig) (tab[?h := Some wp], take (Suc wp) (ds[wp := ?d])) = Some (tab', nd)"
      using Suc.prems(1) False wp
      by (auto simp: drop rehash_entry_def Let_def copy min_absorb2 split: if_splits)
    have "drop (Suc rp) (ds[wp := ?d]) = drop (Suc rp) orig" using Suc.prems(4) rest by simp
    from Suc.hyps(1) [OF _ loop _ this] show ?thesis
      using False Suc.hyps(2) Suc.prems(2,4) rp h by (simp add: upt at Let_def)
  qed
qed


text \<open>What the iterators have still to visit.\<close>

definition walks :: "('k, 'e) hash_ops \<Rightarrow> 'e table \<Rightarrow> (nat \<times> 'e list) list" where
  "walks ops t = map (\<lambda>(rid, r). (rid, remaining ops (data t) r)) (ranges t)"

lemma map_fst_walks [simp]: "map fst (walks ops t) = map fst (ranges t)"
  by (simp add: walks_def comp_def case_prod_unfold)

lemma hashBuckets_31 [simp]: "hashBuckets t = 2 ^ (32 - hashShift t)"
  by (simp add: hashBuckets_def HashNumberSizeBits_def)

lemma no_empty_in_use: "\<forall>d \<in> set ds. \<not> is_empty ops d \<Longrightarrow> in_use ops ds = map element ds"
  by (induction ds) auto

lemma compact_range:
  assumes "range_ok ops ds r" and "\<forall>d \<in> set ds'. \<not> is_empty ops d" and "map element ds' = in_use ops ds"
  shows "range_ok ops ds' (onCompact r)" and "remaining ops ds' (onCompact r) = remaining ops ds r"
proof -
  have len: "length ds' = length (in_use ops ds)" by (metis assms(3) length_map)
  have le: "front_count r \<le> length ds'"
    using assms(1) in_use_split [of ops ds "front_index r"] by (simp add: len range_ok_def)
  have "\<forall>d \<in> set (take n ds'). \<not> is_empty ops d" "\<forall>d \<in> set (drop n ds'). \<not> is_empty ops d" for n
    using assms(2) by (auto dest: in_set_takeD in_set_dropD)
  note use = this [THEN no_empty_in_use]
  show "range_ok ops ds' (onCompact r)"
    using le assms(2) by (simp add: range_ok_def onCompact_def use)
  show "remaining ops ds' (onCompact r) = remaining ops ds r"
    using remaining_drop [OF assms(1)] by (simp add: remaining_def onCompact_def use drop_map [symmetric] assms(3))
qed

text \<open>The table after a successful rehash.\<close>

lemma rehashed:
  assumes wf: "table_wf ops t" and data: "\<forall>d \<in> set (data t'). \<not> is_empty ops d" "map element (data t') = entries ops t"
    and ranges: "ranges t' = map (\<lambda>(rid, r). (rid, onCompact r)) (ranges t)"
    and live: "liveCount t' = liveCount t" and shift: "3 \<le> hashShift t'" "hashShift t' \<le> 31"
    and cap: "dataCapacity t' = capacity_of (2 ^ (32 - hashShift t'))" "length (data t') \<le> dataCapacity t'"
    and chains: "hashed ops (hashShift t') (hashTable t') (data t')" "length (hashTable t') = 2 ^ (32 - hashShift t')"
  shows "table_wf ops t' \<and> entries ops t' = entries ops t \<and> walks ops t' = walks ops t \<and> length (data t') = liveCount t"
proof -
  have ent: "entries ops t' = entries ops t" using no_empty_in_use [OF data(1)] data(2) by (simp add: entries_def)
  have "table_ok ops t'"
    using wf live shift cap chains(2) hashed_chains [OF chains(1)] by (simp add: table_wf_def table_ok_def ent)
  moreover have "range_ok ops (data t) r" if "(rid, r) \<in> set (ranges t)" for rid r
    using wf that by (auto simp: table_wf_def)
  note compact = compact_range [OF this data(1) data(2) [unfolded entries_def]]
  have "\<forall>(rid, r) \<in> set (ranges t'). range_ok ops (data t') r" using compact(1) by (auto simp: ranges)
  moreover have "walks ops t' = walks ops t" using compact(2) by (auto simp: walks_def ranges)
  moreover have "distinct (map fst (ranges t'))" using wf by (simp add: ranges table_wf_def comp_def case_prod_unfold)
  moreover have "length (data t') = liveCount t"
    using data(2) wf by (metis length_map table_ok_def table_wf_def)
  ultimately show ?thesis using ent by (simp add: table_wf_def)
qed

lemma rehashInPlace_spec:
  assumes "table_wf ops t"
  shows "\<exists>t'. rehashInPlace ops t = Some t' \<and> hashShift t' = hashShift t \<and> dataCapacity t' = dataCapacity t \<and>
    table_wf ops t' \<and> entries ops t' = entries ops t \<and> walks ops t' = walks ops t \<and> length (data t') = liveCount t"
proof -
  have ok: "table_ok ops t" using assms by (simp add: table_wf_def)
  let ?tab = "replicate (2 ^ (32 - hashShift t)) None"
  have "hashed ops (hashShift t) ?tab []" using links_empty by (simp add: hashed_def)
  moreover have "length (in_use ops (data t)) \<le> dataCapacity t"
    using ok length_in_use_le [of ops "data t"] by (simp add: table_ok_def)
  ultimately obtain tab nd where loop: "rehash_loop ops (hashShift t) (dataCapacity t) (data t) (?tab, []) = Some (tab, nd)"
    and nd: "hashed ops (hashShift t) tab nd" "length tab = 2 ^ (32 - hashShift t)" "map element nd = in_use ops (data t)"
    using rehash_loop_spec [of ops "hashShift t" ?tab "[]" "data t" "dataCapacity t"] ok by (auto simp: table_ok_def)
  have len: "length nd = liveCount t" using ok nd(3) by (metis entries_def length_map table_ok_def)
  obtain ds where place: "rehash_in_place_loop ops (hashShift t) [0..<length (data t)] (?tab, data t, 0) = Some (tab, ds, length nd)"
    and ds: "take (length nd) ds = nd"
    using rehash_in_place_copies [of ops "hashShift t" "dataCapacity t" 0 "data t" ?tab 0 "data t"] loop by auto
  let ?t = "compacted (t\<lparr>hashTable := tab, data := nd\<rparr>)"
  have "length nd \<le> dataCapacity t"
    using ok length_in_use_le [of ops "data t"] by (simp add: len table_ok_def entries_def)
  then have "table_wf ops ?t \<and> entries ops ?t = entries ops t \<and> walks ops ?t = walks ops t \<and> length (data ?t) = liveCount t"
    using ok nd by (intro rehashed [OF assms]) (auto simp: compacted_def for_ranges_def table_ok_def hashed_def entries_def)
  then show ?thesis
    using place ds len by (simp add: rehashInPlace_def) (simp add: compacted_def for_ranges_def)
qed

lemma rehash_spec:
  assumes wf: "table_wf ops t" and shift: "newShift \<le> 31"
    and fits: "newShift \<noteq> hashShift t \<Longrightarrow> liveCount t \<le> capacity_of (2 ^ (32 - newShift))"
  shows "\<exists>okay t'. rehash ops ok newShift t = Some (okay, t') \<and> table_wf ops t' \<and> entries ops t' = entries ops t \<and>
    walks ops t' = walks ops t \<and> (okay \<longrightarrow> hashShift t' = newShift \<and> length (data t') = liveCount t) \<and> (\<not> okay \<longrightarrow> t' = t) \<and>
    (newShift = hashShift t \<longrightarrow> okay)"
proof (cases "newShift = hashShift t")
  case True
  then show ?thesis using rehashInPlace_spec [OF wf] by (auto simp: rehash_def)
next
  case False
  let ?n = "2 ^ (32 - newShift)"
  show ?thesis
  proof (cases "pod_malloc_buckets (fst ok) ?n \<and> snd ok")
    case False
    then show ?thesis using wf \<open>newShift \<noteq> hashShift t\<close> by (auto simp: rehash_def Let_def HashNumberSizeBits_def)
  next
    case True
    have "newShift \<ge> 3"
    proof (rule ccontr)
      assume "\<not> 3 \<le> newShift"
      then have "(2::nat) ^ 30 \<le> ?n" by (intro power_increasing) auto
      then have "int (2 ^ 30) \<le> int ?n" by (simp only: of_nat_le_iff)
      then show False using True by (simp add: pod_malloc_buckets_def)
    qed
    have ok': "table_ok ops t" using wf by (simp add: table_wf_def)
    have len: "length (in_use ops (data t)) = liveCount t" using ok' by (simp add: table_ok_def entries_def)
    have "hashed ops newShift (replicate ?n None) []" using links_empty by (simp add: hashed_def)
    then obtain tab nd where loop: "rehash_loop ops newShift (capacity_of ?n) (data t) (replicate ?n None, []) = Some (tab, nd)"
      and nd: "hashed ops newShift tab nd" "length tab = ?n" "map element nd = in_use ops (data t)"
      using rehash_loop_spec [of ops newShift "replicate ?n None" "[]" "data t" "capacity_of ?n"] shift fits False len by auto
    let ?t = "compacted (t\<lparr>hashTable := tab, data := nd, dataCapacity := capacity_of ?n, hashShift := newShift\<rparr>)"
    have "length nd = liveCount t" using len nd(3) by (metis length_map)
    then have "table_wf ops ?t \<and> entries ops ?t = entries ops t \<and> walks ops ?t = walks ops t \<and> length (data ?t) = liveCount t"
      using nd shift \<open>newShift \<ge> 3\<close> fits False
      by (intro rehashed [OF wf]) (auto simp: compacted_def for_ranges_def hashed_def entries_def)
    then show ?thesis
      using True False loop
      by (intro exI [of _ True] exI [of _ ?t]) (simp add: rehash_def Let_def HashNumberSizeBits_def,
          simp add: compacted_def for_ranges_def)
  qed
qed


section \<open>Ranges\<close>

lemma seek_from_spec:
  "seek_from ops (drop i ds) i = k \<Longrightarrow> i \<le> length ds \<Longrightarrow>
     i \<le> k \<and> k \<le> length ds \<and> (k < length ds \<longrightarrow> \<not> is_empty ops (ds ! k)) \<and>
     in_use ops (take k ds) = in_use ops (take i ds) \<and> in_use ops (drop k ds) = in_use ops (drop i ds)"
proof (induction "length ds - i" arbitrary: i)
  case (Suc n)
  then have i: "i < length ds" by simp
  then have drop: "drop i ds = ds ! i # drop (Suc i) ds" by (simp add: Cons_nth_drop_Suc)
  show ?case
  proof (cases "is_empty ops (ds ! i)")
    case True
    then have "seek_from ops (drop (Suc i) ds) (Suc i) = k" using Suc.prems(1) by (simp add: drop)
    moreover have "n = length ds - Suc i" using Suc.hyps(2) by simp
    ultimately have "Suc i \<le> k \<and> k \<le> length ds \<and> (k < length ds \<longrightarrow> \<not> is_empty ops (ds ! k)) \<and>
        in_use ops (take k ds) = in_use ops (take (Suc i) ds) \<and> in_use ops (drop k ds) = in_use ops (drop (Suc i) ds)"
      using Suc.hyps(1) i by simp
    then show ?thesis using True i by (simp add: drop take_Suc_conv_app_nth)
  qed (use Suc.prems i in \<open>simp add: drop\<close>)
qed simp

lemma seek_ok:
  assumes "front_index r \<le> length ds" and "front_count r = length (in_use ops (take (front_index r) ds))"
  shows "range_ok ops ds (seek ops ds r)" and "remaining ops ds (seek ops ds r) = remaining ops ds r"
  using seek_from_spec [OF refl assms(1), of ops] assms(2)
  by (simp_all add: seek_def range_ok_def remaining_def)

text \<open>Two vectors entry by entry: what changes the elements in use, and what takes some out of use.\<close>

lemma in_use_map:
  assumes "list_all2 (\<lambda>d d'. is_empty ops d' = is_empty ops d \<and> (\<not> is_empty ops d \<longrightarrow> element d' = g (element d))) ds ds'"
  shows "in_use ops ds' = map g (in_use ops ds)"
  using assms by (induction rule: list_all2_induct) auto

lemma in_use_filter:
  assumes "list_all2 (\<lambda>d d'. is_empty ops d' = (is_empty ops d \<or> \<not> P (element d)) \<and>
    (\<not> is_empty ops d' \<longrightarrow> element d' = element d)) ds ds'"
  shows "in_use ops ds' = filter P (in_use ops ds)"
  using assms by (induction rule: list_all2_induct) auto

lemma range_map:
  assumes rel: "list_all2 (\<lambda>d d'. is_empty ops d' = is_empty ops d \<and> (\<not> is_empty ops d \<longrightarrow> element d' = g (element d))) ds ds'"
    and "range_ok ops ds r"
  shows "range_ok ops ds' r" and "remaining ops ds' r = map g (remaining ops ds r)"
proof -
  have "in_use ops (take n ds') = map g (in_use ops (take n ds))" "in_use ops (drop n ds') = map g (in_use ops (drop n ds))" for n
    using rel by (auto intro!: in_use_map list_all2_takeI list_all2_dropI)
  then show "range_ok ops ds' r" "remaining ops ds' r = map g (remaining ops ds r)"
    using assms list_all2_nthD [OF rel, of "front_index r"] list_all2_lengthD [OF rel]
    by (auto simp: range_ok_def remaining_def)
qed

lemma range_append:
  assumes "range_ok ops ds r" and "\<not> is_empty ops d"
  shows "range_ok ops (ds @ [d]) r" and "remaining ops (ds @ [d]) r = remaining ops ds r @ [element d]"
  using assms by (auto simp: range_ok_def remaining_def nth_append not_less)

lemma find_unique:
  assumes "x \<in> set xs" and "P x" and "\<And>y. y \<in> set xs \<Longrightarrow> P y \<Longrightarrow> y = x"
  shows "List.find P xs = Some x"
proof (cases "List.find P xs")
  case None
  then show ?thesis using assms(1,2) by (simp add: find_None_iff)
next
  case (Some y)
  then have "y \<in> set xs" "P y" by (auto simp: find_Some_iff)
  then show ?thesis using assms(3) Some by simp
qed

lemma in_use_emptied:
  assumes "i < length ds" and "\<not> is_empty ops (ds ! i)" and "is_empty ops d"
  shows "length (in_use ops (ds[i := d])) = length (in_use ops ds) - 1"
proof -
  have "in_use ops ds = in_use ops (take i ds @ ds ! i # drop (Suc i) ds)" using assms(1) by (simp add: id_take_nth_drop [symmetric])
  then show ?thesis using assms by (simp add: upd_conv_take_nth_drop)
qed

text \<open>A range when an entry goes out of use.\<close>

lemma range_emptied:
  assumes r: "range_ok ops ds r" and i: "i < length ds" "\<not> is_empty ops (ds ! i)" and d: "is_empty ops d"
    and rel: "list_all2 (\<lambda>d d'. is_empty ops d' = (is_empty ops d \<or> \<not> P (element d)) \<and>
      (\<not> is_empty ops d' \<longrightarrow> element d' = element d)) ds (ds[i := d])"
  shows "range_ok ops (ds[i := d]) (onRemove ops (ds[i := d]) i r) \<and>
    remaining ops (ds[i := d]) (onRemove ops (ds[i := d]) i r) = filter P (remaining ops ds r)"
proof -
  let ?ds = "ds[i := d]" and ?f = "front_index r"
  have rem: "in_use ops (drop ?f ?ds) = filter P (in_use ops (drop ?f ds))"
    by (rule in_use_filter [OF list_all2_dropI [OF rel]])
  show ?thesis
  proof (cases "i < ?f")
    case True
    then have "length (in_use ops (take ?f ?ds)) = length (in_use ops (take ?f ds)) - 1"
      using in_use_emptied [of i "take ?f ds" ops d] i d r by (simp add: take_update_swap range_ok_def)
    then show ?thesis using True r rem by (simp add: onRemove_def Let_def range_ok_def remaining_def)
  next
    case False
    then have take: "take ?f ?ds = take ?f ds" by simp
    show ?thesis
    proof (cases "i = ?f")
      case True
      then have "range_ok ops ?ds (seek ops ?ds r) \<and> remaining ops ?ds (seek ops ?ds r) = remaining ops ?ds r"
        using r take i(1) by (intro conjI seek_ok) (simp_all add: range_ok_def)
      then show ?thesis using True rem by (simp add: onRemove_def Let_def remaining_def)
    next
      case neq: False
      then show ?thesis using False r take rem by (simp add: onRemove_def Let_def range_ok_def remaining_def)
    qed
  qed
qed

section \<open>The operations on the list\<close>

definition list_has :: "('k, 'e) hash_ops \<Rightarrow> 'k \<Rightarrow> 'e list \<Rightarrow> bool" where
  "list_has ops l es \<longleftrightarrow> (\<exists>e \<in> set es. matches ops l e)"

definition replace :: "('k, 'e) hash_ops \<Rightarrow> 'e \<Rightarrow> 'e list \<Rightarrow> 'e list" where
  "replace ops e es = map (\<lambda>x. if matches ops (ops_getKey ops e) x then e else x) es"

definition list_put :: "('k, 'e) hash_ops \<Rightarrow> 'e \<Rightarrow> 'e list \<Rightarrow> 'e list" where
  "list_put ops e es = (if \<exists>x \<in> set es. matches ops (ops_getKey ops e) x then replace ops e es else es @ [e])"

definition without :: "('k, 'e) hash_ops \<Rightarrow> 'k \<Rightarrow> 'e list \<Rightarrow> 'e list" where
  "without ops l es = filter (\<lambda>x. \<not> matches ops l x) es"

section \<open>The policy\<close>

text \<open>
  What the table relies on: matching is an equivalence that the hash respects, and it never relates a
  key to an empty one.
\<close>

locale hash_policy =
  fixes ops :: "('k, 'e) hash_ops"
  assumes match_hash: "\<not> ops_isEmpty ops l \<Longrightarrow> ops_match ops k l \<Longrightarrow> \<not> ops_isEmpty ops k \<and> ops_hash ops k = ops_hash ops l"
    and match_refl: "ops_match ops k k"
    and match_sym: "ops_match ops k l \<Longrightarrow> ops_match ops l k"
    and match_trans: "ops_match ops k l \<Longrightarrow> ops_match ops l m \<Longrightarrow> ops_match ops k m"
    and makeEmpty: "ops_isEmpty ops (ops_getKey ops (ops_makeEmpty ops e))"
    and getKey_setKey: "ops_getKey ops (ops_setKey ops e k) = k"
begin

lemma lookup_spec:
  assumes "table_ok ops t" and "\<not> ops_isEmpty ops l"
  shows "lookup ops t l (prepareHash ops l) = Some (find_last (\<lambda>j. matches ops l (element (data t ! j))) (length (data t)))"
proof -
  obtain f where f: "links f {..<length (data t)} (hashTable t) (data t)"
      "\<forall>i<length (data t). \<not> is_empty ops (data t ! i) \<longrightarrow> f i = home ops (hashShift t) (data t ! i)"
    using assms(1) by (auto simp: table_ok_def chains_ok_def)
  let ?b = "bucket (prepareHash ops l) (hashShift t)"
  have b: "?b < length (hashTable t)" using assms(1) bucket_less by (auto simp: table_ok_def)
  have "f j = ?b" if "j < length (data t)" "matches ops l (element (data t ! j))" for j
    using that f(2) match_hash [OF assms(2)] by (auto simp: matches_def home_def prepareHash_def is_empty_def)
  then have "find_last (\<lambda>j. j \<in> {..<length (data t)} \<and> f j = ?b \<and> matches ops l (element (data t ! j))) (length (data t)) =
      find_last (\<lambda>j. matches ops l (element (data t ! j))) (length (data t))"
    by (intro find_last_cong) auto
  moreover have "hashTable t ! ?b = find_last (\<lambda>j. j \<in> {..<length (data t)} \<and> f j = ?b) (length (data t))"
    using f(1) b by (simp add: links_def)
  ultimately show ?thesis
    using lookup_chain_links [OF f(1) order_refl b, of ops l] b by (simp add: lookup_def matches_def)
qed

text \<open>Where a key is found, and that it is nowhere else.\<close>

lemma found:
  assumes ok: "table_ok ops t" and l: "\<not> ops_isEmpty ops l"
    and i: "find_last (\<lambda>j. matches ops l (element (data t ! j))) (length (data t)) = Some i"
  shows "i < length (data t)" and "\<not> is_empty ops (data t ! i)" and "matches ops l (element (data t ! i))"
    and "j < length (data t) \<Longrightarrow> \<not> is_empty ops (data t ! j) \<Longrightarrow> matches ops l (element (data t ! j)) \<longleftrightarrow> j = i"
proof -
  show i_len: "i < length (data t)" and m: "matches ops l (element (data t ! i))" using i by (auto simp: find_last_Some)
  then show i_use: "\<not> is_empty ops (data t ! i)" using match_hash [OF l] by (auto simp: matches_def is_empty_def)
  have "\<not> matches ops (ops_getKey ops (element (data t ! k))) (element (data t ! j))"
    if "j < k" "k < length (data t)" "\<not> is_empty ops (data t ! j)" "\<not> is_empty ops (data t ! k)" for j k
  proof -
    have "data t = take k (data t) @ data t ! k # drop (Suc k) (data t)" using that by (simp add: id_take_nth_drop)
    then have split: "entries ops t = in_use ops (take k (data t)) @ element (data t ! k) # in_use ops (drop (Suc k) (data t))"
      using that by (metis entries_def in_use_simps(2,3))
    have "data t ! j \<in> set (take k (data t))" using that by (auto simp: in_set_conv_nth intro!: exI [of _ j])
    then have "element (data t ! j) \<in> set (in_use ops (take k (data t)))" using that by (auto simp: in_use_def)
    then show ?thesis using ok split by (auto simp: table_ok_def distinct_keys_def sorted_wrt_append)
  qed
  note distinct = this
  show "matches ops l (element (data t ! j)) \<longleftrightarrow> j = i" if "j < length (data t)" "\<not> is_empty ops (data t ! j)" for j
  proof
    assume mj: "matches ops l (element (data t ! j))"
    have "matches ops (ops_getKey ops (element (data t ! i))) (element (data t ! j))"
      "matches ops (ops_getKey ops (element (data t ! j))) (element (data t ! i))"
      using mj m match_sym match_trans unfolding matches_def by blast+
    then show "j = i" using distinct [of i j] distinct [of j i] that i_len i_use by (meson linorder_neqE_nat)
  qed (use m in simp)
qed

lemma not_found:
  assumes "find_last (\<lambda>j. matches ops l (element (data t ! j))) (length (data t)) = None"
  shows "\<forall>e \<in> set (entries ops t). \<not> matches ops l e"
  using assms by (auto simp: find_last_None entries_def in_use_def in_set_conv_nth)

lemma has_list:
  assumes "table_ok ops t" and "\<not> ops_isEmpty ops l"
  shows "has ops l t = Some (\<exists>e \<in> set (entries ops t). matches ops l e)"
proof (cases "find_last (\<lambda>j. matches ops l (element (data t ! j))) (length (data t))")
  case None
  then show ?thesis using lookup_spec [OF assms] not_found by (auto simp: has_def)
next
  case (Some i)
  note i = found [OF assms Some]
  have "element (data t ! i) \<in> set (entries ops t)" using i(1,2) by (auto simp: entries_def in_use_def)
  then show ?thesis using lookup_spec [OF assms] Some i(3) by (auto simp: has_def)
qed

lemma get_list:
  assumes "table_ok ops t" and "\<not> ops_isEmpty ops l"
  shows "get ops l t = Some (List.find (matches ops l) (entries ops t))"
proof (cases "find_last (\<lambda>j. matches ops l (element (data t ! j))) (length (data t))")
  case None
  then show ?thesis using lookup_spec [OF assms] not_found by (auto simp: get_def find_None_iff2)
next
  case (Some i)
  note i = found [OF assms Some]
  have el: "element (data t ! i) \<in> set (entries ops t)" using i(1,2) by (auto simp: entries_def in_use_def)
  have only: "e = element (data t ! i)" if "e \<in> set (entries ops t)" "matches ops l e" for e
    using that i(4) by (auto simp: entries_def in_use_def in_set_conv_nth)
  then have "List.find (matches ops l) (entries ops t) = Some (element (data t ! i))"
    by (rule find_unique [where P = "matches ops l", OF el i(3)])
  then show ?thesis using lookup_spec [OF assms] Some by (simp add: get_def)
qed

lemma distinct_keys_replace:
  assumes "distinct_keys ops es"
  shows "distinct_keys ops (replace ops e es)"
proof -
  let ?M = "\<lambda>x y. ops_match ops (ops_getKey ops x) (ops_getKey ops y)"
  have "\<not> ?M (if ?M a e then e else a) (if ?M b e then e else b)" if ab: "\<not> ?M a b" for a b
  proof (cases "?M a e")
    case True
    then have "\<not> ?M b e" "\<not> ?M e b" using ab match_sym match_trans by blast+
    then show ?thesis using True by simp
  next
    case False
    have "\<not> ?M a e" by (rule False)
    moreover have "\<not> ?M a b" by (rule ab)
    ultimately show ?thesis by simp
  qed
  then show ?thesis
    using assms unfolding distinct_keys_def replace_def sorted_wrt_map matches_def
    by (elim sorted_wrt_mono_rel [rotated]) blast
qed

lemma chains_ok_element:
  assumes "chains_ok ops shift tab ds" and "i < length ds"
    and "\<not> ops_isEmpty ops (ops_getKey ops e) \<Longrightarrow> \<not> is_empty ops (ds ! i) \<and>
      ops_hash ops (ops_getKey ops e) = ops_hash ops (ops_getKey ops (element (ds ! i)))"
  shows "chains_ok ops shift tab (ds[i := (ds ! i)\<lparr>element := e\<rparr>])"
proof -
  obtain f where f: "links f {..<length ds} tab ds" "\<forall>i<length ds. \<not> is_empty ops (ds ! i) \<longrightarrow> f i = home ops shift (ds ! i)"
    using assms(1) by (auto simp: chains_ok_def)
  have "links f {..<length ds} tab (ds[i := (ds ! i)\<lparr>element := e\<rparr>])"
    using assms(2) by (intro links_cong [OF f(1)]) (auto simp: nth_list_update)
  then show ?thesis
    using f(2) assms by (auto simp: chains_ok_def nth_list_update is_empty_def home_def prepareHash_def intro!: exI [of _ f])
qed

lemma make_room_spec:
  assumes wf: "table_wf ops t"
  shows "\<exists>okay t'. make_room ops ok t = Some (okay, t') \<and> table_wf ops t' \<and> entries ops t' = entries ops t \<and>
    walks ops t' = walks ops t \<and> (okay \<longrightarrow> length (data t') < dataCapacity t') \<and> (\<not> okay \<longrightarrow> t' = t)"
proof (cases "length (data t) = dataCapacity t")
  case False
  then show ?thesis using wf by (auto simp: make_room_def table_wf_def table_ok_def)
next
  case True
  define grow where "grow \<longleftrightarrow> dataCapacity t * 3 \<le> liveCount t * 4"
  define shift where "shift = (if grow then hashShift t - 1 else hashShift t)"
  have ok: "table_ok ops t" using wf by (simp add: table_wf_def)
  have live: "liveCount t \<le> dataCapacity t"
    using ok length_in_use_le [of ops "data t"] by (simp add: table_ok_def entries_def)
  have double: "(2::nat) ^ (32 - (hashShift t - 1)) = 2 * 2 ^ (32 - hashShift t)"
  proof -
    have "3 \<le> hashShift t \<and> hashShift t \<le> 31" using ok by (simp add: table_ok_def)
    then have "32 - (hashShift t - 1) = Suc (32 - hashShift t)" by arith
    then show ?thesis by simp
  qed
  have big: "2 \<le> (2::nat) ^ (32 - hashShift t)" using ok by (simp add: table_ok_def self_le_power)
  have cap: "dataCapacity t = capacity_of (2 ^ (32 - hashShift t))" using ok by (simp add: table_ok_def)
  have grows: "capacity_of (2 ^ (32 - hashShift t)) < capacity_of (2 ^ (32 - (hashShift t - 1)))"
    using big unfolding double capacity_of_def by linarith
  have "liveCount t \<le> capacity_of (2 ^ (32 - shift))" if "shift \<noteq> hashShift t"
    using that live cap grows by (auto simp: shift_def split: if_splits)
  moreover have "shift \<le> 31" using ok by (auto simp: shift_def table_ok_def)
  ultimately obtain okay t' where t': "rehash ops ok shift t = Some (okay, t')" "table_wf ops t'" "entries ops t' = entries ops t"
      "walks ops t' = walks ops t" "okay \<longrightarrow> hashShift t' = shift \<and> length (data t') = liveCount t" "\<not> okay \<longrightarrow> t' = t"
    using rehash_spec [OF wf, of shift ok] by blast
  have "length (data t') < dataCapacity t'" if okay
  proof -
    have cap': "dataCapacity t' = capacity_of (2 ^ (32 - shift))"
      using t'(2,5) that by (simp add: table_wf_def table_ok_def)
    have "0 < dataCapacity t" using big cap by (simp add: capacity_of_def)
    then show ?thesis using that t'(5) live cap' cap grows by (auto simp: shift_def grow_def split: if_splits)
  qed
  then show ?thesis using t' True by (simp add: make_room_def shift_def grow_def)
qed

lemma table_wf_ok: "table_wf ops t \<Longrightarrow> table_ok ops t"
  by (simp add: table_wf_def)

lemma walks_map:
  assumes "table_wf ops t" and "data t' = ds" and "ranges t' = ranges t"
    and "\<And>r. range_ok ops (data t) r \<Longrightarrow> range_ok ops ds r \<and> remaining ops ds r = g (remaining ops (data t) r)"
  shows "walks ops t' = map (apsnd g) (walks ops t)" and "\<forall>(rid, r) \<in> set (ranges t'). range_ok ops (data t') r"
  using assms by (auto simp: walks_def table_wf_def)

text \<open>\<open>put\<close> replaces the element with the key, or appends; a range sees the new element last.\<close>

lemma put_found:
  assumes wf: "table_wf ops t" and e: "\<not> ops_isEmpty ops (ops_getKey ops e)"
    and i: "find_last (\<lambda>j. matches ops (ops_getKey ops e) (element (data t ! j))) (length (data t)) = Some i"
  shows "table_wf ops (set_element i e t) \<and> entries ops (set_element i e t) = replace ops e (entries ops t) \<and>
    walks ops (set_element i e t) = map (apsnd (replace ops e)) (walks ops t)"
proof -
  let ?ds = "(data t)[i := (data t ! i)\<lparr>element := e\<rparr>]" and ?t = "set_element i e t"
  let ?g = "\<lambda>x. if matches ops (ops_getKey ops e) x then e else x"
  have ok: "table_ok ops t" by (rule table_wf_ok [OF wf])
  note f = found [OF ok e i]
  have rel: "list_all2 (\<lambda>d d'. is_empty ops d' = is_empty ops d \<and> (\<not> is_empty ops d \<longrightarrow> element d' = ?g (element d))) (data t) ?ds"
    using f e by (auto simp: list_all2_conv_all_nth nth_list_update is_empty_def)
  have ent: "entries ops ?t = replace ops e (entries ops t)"
    using in_use_map [OF rel] by (simp add: entries_def set_element_def replace_def)
  have "range_ok ops ?ds r \<and> remaining ops ?ds r = replace ops e (remaining ops (data t) r)" if "range_ok ops (data t) r" for r
    using range_map [OF rel that] by (simp add: replace_def)
  note w = walks_map [OF wf _ _ this, of ?t]
  have "chains_ok ops (hashShift t) (hashTable t) ?ds"
    using ok f match_hash [OF e] by (intro chains_ok_element) (auto simp: table_ok_def matches_def)
  then have "table_ok ops ?t"
    using ok distinct_keys_replace ent by (auto simp: table_ok_def set_element_def replace_def)
  then show ?thesis using ent w wf by (simp add: set_element_def table_wf_def)
qed

lemma appended:
  assumes wf: "table_wf ops t" and e: "\<not> ops_isEmpty ops (ops_getKey ops e)"
    and new: "\<forall>x \<in> set (entries ops t). \<not> matches ops (ops_getKey ops e) x" and room: "length (data t) < dataCapacity t"
  shows "\<exists>t'. t' = t\<lparr>liveCount := liveCount t + 1,
      data := data t @ [\<lparr>element = e, chained = hashTable t ! bucket (prepareHash ops (ops_getKey ops e)) (hashShift t)\<rparr>],
      hashTable := (hashTable t)[bucket (prepareHash ops (ops_getKey ops e)) (hashShift t) := Some (length (data t))]\<rparr> \<and>
    table_wf ops t' \<and> entries ops t' = entries ops t @ [e] \<and> walks ops t' = map (apsnd (\<lambda>es. es @ [e])) (walks ops t)"
proof -
  let ?b = "bucket (prepareHash ops (ops_getKey ops e)) (hashShift t)"
  let ?d = "\<lparr>element = e, chained = hashTable t ! ?b\<rparr>"
  let ?t = "t\<lparr>liveCount := liveCount t + 1, data := data t @ [?d], hashTable := (hashTable t)[?b := Some (length (data t))]\<rparr>"
  have ok: "table_ok ops t" by (rule table_wf_ok [OF wf])
  have b: "?b < length (hashTable t)" using ok bucket_less by (auto simp: table_ok_def)
  have d: "\<not> is_empty ops ?d" using e by (simp add: is_empty_def)
  obtain f where f: "links f {..<length (data t)} (hashTable t) (data t)"
      "\<forall>i<length (data t). \<not> is_empty ops (data t ! i) \<longrightarrow> f i = home ops (hashShift t) (data t ! i)"
    using ok by (auto simp: table_ok_def chains_ok_def)
  have "chains_ok ops (hashShift t) (hashTable ?t) (data ?t)"
    unfolding chains_ok_def
    by (rule exI [of _ "f(length (data t) := ?b)"])
      (use links_append [OF f(1) b, of e] f(2) in \<open>auto simp: nth_append home_def less_Suc_eq\<close>)
  moreover have "distinct_keys ops (entries ops t @ [e])"
    using ok new by (simp add: table_ok_def distinct_keys_def sorted_wrt_append)
  moreover have ent: "entries ops ?t = entries ops t @ [e]" using d by (simp add: entries_def)
  ultimately have "table_ok ops ?t" using ok room by (simp add: table_ok_def)
  moreover have "range_ok ops (data t @ [?d]) r \<and> remaining ops (data t @ [?d]) r = remaining ops (data t) r @ [e]"
    if "range_ok ops (data t) r" for r
    using range_append [OF that d] by simp
  note w = walks_map [OF wf _ _ this, of ?t]
  ultimately show ?thesis using ent w wf by (simp add: table_wf_def)
qed

lemma put_list:
  assumes wf: "table_wf ops t" and e: "\<not> ops_isEmpty ops (ops_getKey ops e)"
  shows "\<exists>okay t'. put ops ok e t = Some (okay, t') \<and> table_wf ops t' \<and> (\<not> okay \<longrightarrow> t' = t) \<and>
    (okay \<longrightarrow> entries ops t' = list_put ops e (entries ops t) \<and>
      walks ops t' = map (apsnd (if list_has ops (ops_getKey ops e) (entries ops t) then replace ops e else (\<lambda>es. es @ [e]))) (walks ops t))"
proof -
  have ok: "table_ok ops t" by (rule table_wf_ok [OF wf])
  note look = lookup_spec [OF ok e]
  show ?thesis
  proof (cases "find_last (\<lambda>j. matches ops (ops_getKey ops e) (element (data t ! j))) (length (data t))")
    case (Some i)
    note f = found [OF ok e Some]
    have "element (data t ! i) \<in> set (entries ops t)" using f(1,2) by (auto simp: entries_def in_use_def)
    then have "list_has ops (ops_getKey ops e) (entries ops t)" using f(3) by (auto simp: list_has_def)
    then show ?thesis
      using put_found [OF wf e Some] look Some by (auto simp: put_def Let_def set_element_def list_put_def list_has_def)
  next
    case None
    then have new: "\<forall>x \<in> set (entries ops t). \<not> matches ops (ops_getKey ops e) x" by (rule not_found)
    obtain okay t1 where room: "make_room ops ok t = Some (okay, t1)" "table_wf ops t1" "entries ops t1 = entries ops t"
        "walks ops t1 = walks ops t" "okay \<longrightarrow> length (data t1) < dataCapacity t1" "\<not> okay \<longrightarrow> t1 = t"
      using make_room_spec [OF wf, of ok] by blast
    show ?thesis
    proof (cases okay)
      case False
      then show ?thesis using look None room wf by (auto simp: put_def Let_def)
    next
      case True
      have b: "bucket (prepareHash ops (ops_getKey ops e)) (hashShift t1) < length (hashTable t1)"
        using room(2) bucket_less by (auto simp: table_wf_def table_ok_def)
      obtain t2 where "t2 = t1\<lparr>liveCount := liveCount t1 + 1,
          data := data t1 @ [\<lparr>element = e, chained = hashTable t1 ! bucket (prepareHash ops (ops_getKey ops e)) (hashShift t1)\<rparr>],
          hashTable := (hashTable t1)[bucket (prepareHash ops (ops_getKey ops e)) (hashShift t1) := Some (length (data t1))]\<rparr>"
        "table_wf ops t2" "entries ops t2 = entries ops t @ [e]" "walks ops t2 = map (apsnd (\<lambda>es. es @ [e])) (walks ops t)"
        using appended [OF room(2) e] new room True by auto
      then show ?thesis
        using look None room True new b by (auto simp: put_def Let_def list_put_def list_has_def)
    qed
  qed
qed

text \<open>\<open>remove\<close> takes the element with the key out of the table and of every range.\<close>

lemma without_absent: "\<not> list_has ops l es \<Longrightarrow> without ops l es = es"
  by (simp add: without_def list_has_def filter_id_conv)

lemma emptied:
  assumes wf: "table_wf ops t" and l: "\<not> ops_isEmpty ops l"
    and i: "find_last (\<lambda>j. matches ops l (element (data t ! j))) (length (data t)) = Some i"
    and t': "t' = for_ranges (onRemove ops ((data t)[i := (data t ! i)\<lparr>element := ops_makeEmpty ops (element (data t ! i))\<rparr>]) i)
      (t\<lparr>liveCount := liveCount t - 1, data := (data t)[i := (data t ! i)\<lparr>element := ops_makeEmpty ops (element (data t ! i))\<rparr>]\<rparr>)"
  shows "table_wf ops t' \<and> entries ops t' = without ops l (entries ops t) \<and> walks ops t' = map (apsnd (without ops l)) (walks ops t)"
proof -
  let ?d = "(data t ! i)\<lparr>element := ops_makeEmpty ops (element (data t ! i))\<rparr>"
  let ?ds = "(data t)[i := ?d]"
  have ok: "table_ok ops t" by (rule table_wf_ok [OF wf])
  note f = found [OF ok l i]
  have d: "is_empty ops ?d" using makeEmpty by (simp add: is_empty_def)
  have rel: "list_all2 (\<lambda>d d'. is_empty ops d' = (is_empty ops d \<or> \<not> \<not> matches ops l (element d)) \<and>
      (\<not> is_empty ops d' \<longrightarrow> element d' = element d)) (data t) ?ds"
    using f d by (auto simp: list_all2_conv_all_nth nth_list_update)
  have ent: "in_use ops ?ds = without ops l (entries ops t)" using in_use_filter [OF rel] by (simp add: entries_def without_def)
  have ranges: "range_ok ops ?ds (onRemove ops ?ds i r) \<and>
      remaining ops ?ds (onRemove ops ?ds i r) = without ops l (remaining ops (data t) r)" if "range_ok ops (data t) r" for r
    using range_emptied [OF that f(1,2) d rel] by (simp add: without_def)
  have len: "length (in_use ops ?ds) = length (entries ops t) - 1"
    using in_use_emptied [OF f(1,2) d] by (simp add: entries_def)
  have "distinct_keys ops (in_use ops ?ds)"
    using ok by (simp add: ent without_def table_ok_def distinct_keys_def sorted_wrt_filter)
  moreover have "chains_ok ops (hashShift t) (hashTable t) ?ds"
    using ok f(1) makeEmpty by (intro chains_ok_element) (auto simp: table_ok_def)
  ultimately have "table_ok ops t'"
    using ok len by (simp add: t' table_ok_def for_ranges_def entries_def)
  moreover have "walks ops t' = map (apsnd (without ops l)) (walks ops t)"
    using ranges wf by (auto simp: t' walks_def for_ranges_def table_wf_def)
  moreover have "\<forall>(rid, r) \<in> set (ranges t'). range_ok ops (data t') r"
    using ranges wf by (auto simp: t' for_ranges_def table_wf_def)
  moreover have "distinct (map fst (ranges t'))"
    using wf by (simp add: t' for_ranges_def table_wf_def comp_def case_prod_unfold)
  ultimately show ?thesis using ent by (simp add: table_wf_def t' entries_def for_ranges_def)
qed

lemma remove_list:
  assumes wf: "table_wf ops t" and l: "\<not> ops_isEmpty ops l"
  shows "\<exists>okay t'. remove ops ok l t = Some (okay, list_has ops l (entries ops t), t') \<and> table_wf ops t' \<and>
    entries ops t' = without ops l (entries ops t) \<and> walks ops t' = map (apsnd (without ops l)) (walks ops t)"
proof -
  have ok: "table_ok ops t" by (rule table_wf_ok [OF wf])
  note look = lookup_spec [OF ok l]
  show ?thesis
  proof (cases "find_last (\<lambda>j. matches ops l (element (data t ! j))) (length (data t))")
    case None
    then have no: "\<not> list_has ops l (entries ops t)" using not_found by (auto simp: list_has_def)
    have "without ops l es = es" if mem: "(rid, es) \<in> set (walks ops t)" for rid es
    proof (rule without_absent)
      have "set es \<subseteq> set (entries ops t)"
        using mem by (auto simp: walks_def remaining_def entries_def in_use_def intro!: imageI dest: in_set_dropD)
      then show "\<not> list_has ops l es" using no by (auto simp: list_has_def)
    qed
    then have "map (apsnd (without ops l)) (walks ops t) = walks ops t" by (auto intro!: map_idI)
    then show ?thesis using None look wf no without_absent by (intro exI [of _ True]) (simp add: remove_def)
  next
    case (Some i)
    note f = found [OF ok l Some]
    define t1 where "t1 = for_ranges (onRemove ops ((data t)[i := (data t ! i)\<lparr>element := ops_makeEmpty ops (element (data t ! i))\<rparr>]) i)
      (t\<lparr>liveCount := liveCount t - 1, data := (data t)[i := (data t ! i)\<lparr>element := ops_makeEmpty ops (element (data t ! i))\<rparr>]\<rparr>)"
    note t1 = emptied [OF wf l Some t1_def]
    have "element (data t ! i) \<in> set (entries ops t)" using f(1,2) by (auto simp: entries_def in_use_def)
    then have has: "list_has ops l (entries ops t)" using f(3) by (auto simp: list_has_def)
    have eq: "remove ops ok l t = (if initialBuckets < hashBuckets t1 \<and> liveCount t1 * 4 < length (data t1)
        then do { (okay, t) \<leftarrow> rehash ops ok (hashShift t1 + 1) t1; Some (okay, True, t) } else Some (True, True, t1))"
      using look Some by (simp add: remove_def Let_def t1_def)
    show ?thesis
    proof (cases "initialBuckets < hashBuckets t1 \<and> liveCount t1 * 4 < length (data t1)")
      case False
      then show ?thesis using eq t1 has by auto
    next
      case True
      let ?s = "hashShift t1"
      have t1_ok: "table_ok ops t1" using t1 by (simp add: table_wf_def)
      then have s: "?s \<le> 31" "dataCapacity t1 = capacity_of (2 ^ (32 - ?s))" "length (data t1) \<le> dataCapacity t1"
        by (simp_all add: table_ok_def)
      have "?s \<noteq> 31" using True by (auto simp: initialBuckets_def initialBucketsLog2_def)
      then have "32 - ?s = Suc (32 - (?s + 1))" using s(1) by simp
      then have "(2::nat) ^ (32 - ?s) = 2 * 2 ^ (32 - (?s + 1))" by simp
      then have "liveCount t1 \<le> capacity_of (2 ^ (32 - (?s + 1)))"
        using True s(2,3) unfolding capacity_of_def by linarith
      moreover have "?s + 1 \<le> 31" using s(1) \<open>?s \<noteq> 31\<close> by simp
      ultimately obtain okay t2 where "rehash ops ok (?s + 1) t1 = Some (okay, t2)" "table_wf ops t2"
          "entries ops t2 = entries ops t1" "walks ops t2 = walks ops t1"
        using rehash_spec [of ops t1 "?s + 1" ok] t1 by blast
      then show ?thesis using eq True t1 has by simp
    qed
  qed
qed

end

section \<open>Initialisation, clearing\<close>

lemma init_wf:
  assumes "init ok t = (True, t')"
  shows "data t' = [] \<and> ranges t' = ranges t \<and> table_ok ops t'"
proof -
  have "links f {..<0} (replicate 2 None) ([] :: 'a Data list)" for f using links_empty by simp
  then have "chains_ok ops 31 (replicate 2 None) ([] :: 'a Data list)" by (auto simp: chains_ok_def)
  then show ?thesis
    using assms by (auto simp: init_def Let_def initialBuckets_def initialBucketsLog2_def HashNumberSizeBits_def table_ok_def
        entries_def distinct_keys_def split: if_splits)
qed

lemma init_new:
  assumes "init ok new_table = (True, t)"
  shows "table_wf ops t \<and> entries ops t = [] \<and> walks ops t = []"
  using init_wf [OF assms, of ops] by (simp add: table_wf_def entries_def walks_def new_table_def)

lemma clear_list:
  assumes wf: "table_wf ops t"
  shows "\<exists>okay t'. clear ok t = (okay, t') \<and> table_wf ops t' \<and> (\<not> okay \<longrightarrow> t' = t) \<and>
    (okay \<longrightarrow> entries ops t' = [] \<and> walks ops t' = map (apsnd (\<lambda>es. [])) (walks ops t))"
proof (cases "data t = []")
  case True
  then show ?thesis
    using wf by (intro exI [of _ True]) (simp add: clear_def entries_def walks_def remaining_def case_prod_unfold)
next
  case False
  obtain okay t1 where init: "init ok t = (okay, t1)" by fastforce
  show ?thesis
  proof (cases okay)
    case True
    then have "init ok t = (True, t1)" using init by simp
    note t1 = init_wf [OF this, of ops]
    have "table_ok ops (for_ranges onClear t1)" using t1 by (auto simp: for_ranges_def table_ok_def entries_def)
    moreover have "range_ok ops [] (onClear r)" for r by (simp add: range_ok_def onClear_def)
    moreover have "distinct (map fst (ranges (for_ranges onClear t1)))"
      using t1 wf by (simp add: table_wf_def for_ranges_def comp_def case_prod_unfold)
    ultimately have "table_wf ops (for_ranges onClear t1)"
      using t1 by (auto simp: table_wf_def for_ranges_def)
    moreover have "entries ops (for_ranges onClear t1) = []" "walks ops (for_ranges onClear t1) = map (apsnd (\<lambda>es. [])) (walks ops t)"
      using t1 by (auto simp: for_ranges_def entries_def walks_def remaining_def)
    ultimately show ?thesis using False init True by (intro exI [of _ True]) (simp add: clear_def)
  next
    case okay: False
    then have "t1 = t" using init by (auto simp: init_def Let_def split: if_splits)
    then show ?thesis using False init okay wf by (intro exI [of _ False]) (simp add: clear_def)
  qed
qed


section \<open>Ranges as iterators\<close>

lemma all_range_list:
  assumes wf: "table_wf ops t" and "rid \<notin> fst ` set (ranges t)"
  shows "table_wf ops (all_range ops rid t) \<and> entries ops (all_range ops rid t) = entries ops t \<and>
    walks ops (all_range ops rid t) = (rid, entries ops t) # walks ops t"
proof -
  let ?r = "\<lparr>front_index = 0, front_count = 0\<rparr>"
  have "range_ok ops (data t) (seek ops (data t) ?r)" "remaining ops (data t) (seek ops (data t) ?r) = remaining ops (data t) ?r"
    by (intro seek_ok; simp)+
  then show ?thesis
    using assms by (simp add: all_range_def table_wf_def table_ok_def entries_def walks_def remaining_def)
qed

lemma destroy_range_list:
  assumes "table_wf ops t"
  shows "table_wf ops (destroy_range rid t) \<and> entries ops (destroy_range rid t) = entries ops t \<and>
    walks ops (destroy_range rid t) = filter (\<lambda>(rid', es). rid' \<noteq> rid) (walks ops t)"
  using assms
  by (auto simp: destroy_range_def table_wf_def table_ok_def entries_def walks_def filter_map comp_def case_prod_unfold
      distinct_map inj_on_filter_key_eq inj_on_def intro: distinct_filter)

lemma walk_of_range:
  "map_of (walks ops t) rid = map_option (remaining ops (data t)) (map_of (ranges t) rid)"
  by (simp add: walks_def map_of_map)

lemma range_empty_list: "table_wf ops t \<Longrightarrow> range_empty rid t = map_option (\<lambda>es. es = []) (map_of (walks ops t) rid)"
proof (cases "map_of (ranges t) rid")
  case (Some r)
  assume wf: "table_wf ops t"
  then have r: "range_ok ops (data t) r" using map_of_SomeD [OF Some] by (auto simp: table_wf_def)
  then have "remaining ops (data t) r = [] \<longleftrightarrow> length (data t) \<le> front_index r"
    by (cases "front_index r < length (data t)")
      (auto simp: remaining_def range_ok_def Cons_nth_drop_Suc [symmetric])
  then show ?thesis using Some by (simp add: range_empty_def walk_of_range)
qed (simp add: range_empty_def walk_of_range)

lemma range_front_list:
  "table_wf ops t \<Longrightarrow> map_of (walks ops t) rid = Some (e # es) \<Longrightarrow> range_front rid t = Some e"
proof -
  assume wf: "table_wf ops t" and w: "map_of (walks ops t) rid = Some (e # es)"
  then obtain r where r: "map_of (ranges t) rid = Some r" "remaining ops (data t) r = e # es" by (auto simp: walk_of_range)
  then have "range_ok ops (data t) r" using wf by (auto simp: table_wf_def dest: map_of_SomeD)
  then show ?thesis
    using r by (cases "front_index r < length (data t)")
      (auto simp: range_front_def remaining_def range_ok_def Cons_nth_drop_Suc [symmetric])
qed

lemma popFront_list:
  assumes wf: "table_wf ops t" and w: "map_of (walks ops t) rid = Some (e # es)"
  shows "\<exists>t'. popFront ops rid t = Some t' \<and> table_wf ops t' \<and> entries ops t' = entries ops t \<and>
    walks ops t' = map (\<lambda>(rid', es'). (rid', if rid' = rid then es else es')) (walks ops t)"
proof -
  obtain r where r: "map_of (ranges t) rid = Some r" "remaining ops (data t) r = e # es" using w by (auto simp: walk_of_range)
  then have ok: "range_ok ops (data t) r" using wf by (auto simp: table_wf_def dest: map_of_SomeD)
  let ?i = "front_index r" and ?r = "r\<lparr>front_count := front_count r + 1, front_index := front_index r + 1\<rparr>"
  have i: "?i < length (data t)"
    using r(2) by (cases "?i < length (data t)") (auto simp: remaining_def)
  have use: "\<not> is_empty ops (data t ! ?i)" using ok i by (simp add: range_ok_def)
  have "in_use ops (drop (Suc ?i) (data t)) = es"
    using r(2) use i by (simp add: remaining_def Cons_nth_drop_Suc [symmetric])
  moreover have "in_use ops (take (Suc ?i) (data t)) = in_use ops (take ?i (data t)) @ [element (data t ! ?i)]"
    using use i by (simp add: take_Suc_conv_app_nth)
  ultimately have new: "range_ok ops (data t) (seek ops (data t) ?r)" "remaining ops (data t) (seek ops (data t) ?r) = es"
    using seek_ok [of ?r "data t" ops] ok i by (simp_all add: range_ok_def remaining_def)
  have "popFront ops rid t = Some (set_range rid (seek ops (data t) ?r) t)" using r(1) by (simp add: popFront_def)
  moreover have "table_wf ops (set_range rid (seek ops (data t) ?r) t)"
    using wf new(1) by (auto simp: set_range_def table_wf_def table_ok_def entries_def comp_def case_prod_unfold)
  moreover have "entries ops (set_range rid (seek ops (data t) ?r) t) = entries ops t"
    by (simp add: set_range_def entries_def)
  moreover have "walks ops (set_range rid (seek ops (data t) ?r) t) =
      map (\<lambda>(rid', es'). (rid', if rid' = rid then es else es')) (walks ops t)"
    using new(2) by (simp add: set_range_def walks_def case_prod_unfold)
  ultimately show ?thesis by blast
qed


section \<open>Moving an entry to another chain\<close>

text \<open>\<open>at_link S f b n ep m\<close>: the link \<open>ep\<close> of bucket \<open>b\<close> is followed for the entries below \<open>m\<close>.\<close>

definition at_link :: "(nat \<Rightarrow> nat) \<Rightarrow> nat set \<Rightarrow> nat \<Rightarrow> nat \<Rightarrow> link \<Rightarrow> nat \<Rightarrow> bool" where
  "at_link f S b n ep m \<longleftrightarrow> ep = Bucket b \<and> m = n \<or> ep = Chain m \<and> m \<in> S \<and> f m = b \<and> m < n"

lemma read_at_link:
  assumes "links f S (hashTable t) (data t)" and "b < length (hashTable t)" and "at_link f S b (length (data t)) ep m"
  shows "read_link t ep = Some (find_last (\<lambda>j. j \<in> S \<and> f j = b) m)"
  using assms by (auto simp: at_link_def links_def)

lemma link_to_spec:
  assumes l: "links f S (hashTable t) (data t)" and b: "b < length (hashTable t)"
    and i: "i \<in> S" "f i = b" and "at_link f S b (length (data t)) ep m" and "i < m"
  shows "\<exists>ep' m'. link_to t i ep = Some ep' \<and> at_link f S b (length (data t)) ep' m' \<and> i < m' \<and>
    find_last (\<lambda>j. j \<in> S \<and> f j = b) m' = Some i"
  using assms(5,6)
proof (induction m arbitrary: ep rule: less_induct)
  case (less m)
  note read = read_at_link [OF l b less.prems(1)]
  obtain j where j: "find_last (\<lambda>j. j \<in> S \<and> f j = b) m = Some j"
    using less.prems(2) i by (cases "find_last (\<lambda>j. j \<in> S \<and> f j = b) m") (auto simp: find_last_None)
  then have j': "j < m" "j \<in> S" "f j = b" by (simp_all add: find_last_Some)
  have "\<not> j < i" using j i less.prems(2) by (auto simp: find_last_Some)
  then have "i \<le> j" by simp
  show ?case
  proof (cases "j = i")
    case True
    then show ?thesis using read j less.prems by (subst link_to.simps) auto
  next
    case False
    have "at_link f S b (length (data t)) (Chain j) j" using j' l by (auto simp: at_link_def links_def)
    with less.IH [OF j'(1) this] False \<open>i \<le> j\<close> show ?thesis
      using read j by (subst link_to.simps) auto
  qed
qed

lemma link_before_spec:
  assumes l: "links f S (hashTable t) (data t)" and b: "b < length (hashTable t)"
    and i: "i \<notin> S" and "at_link f S b (length (data t)) ep m" and "i < m"
  shows "\<exists>ep' m'. link_before t i ep = Some ep' \<and> at_link f S b (length (data t)) ep' m' \<and> i < m' \<and>
    find_last (\<lambda>j. j \<in> S \<and> f j = b) m' = find_last (\<lambda>j. j \<in> S \<and> f j = b) i"
  using assms(4,5)
proof (induction m arbitrary: ep rule: less_induct)
  case (less m)
  note read = read_at_link [OF l b less.prems(1)]
  show ?case
  proof (cases "\<exists>j. find_last (\<lambda>j. j \<in> S \<and> f j = b) m = Some j \<and> i < j")
    case True
    then obtain j where j: "find_last (\<lambda>j. j \<in> S \<and> f j = b) m = Some j" "i < j" by blast
    then have j': "j < m" "j \<in> S" "f j = b" by (auto simp: find_last_Some)
    have "at_link f S b (length (data t)) (Chain j) j" using j' l by (auto simp: at_link_def links_def)
    with less.IH [OF j'(1) this j(2)] show ?thesis using read j by (subst link_before.simps) auto
  next
    case False
    have "find_last (\<lambda>j. j \<in> S \<and> f j = b) m = find_last (\<lambda>j. j \<in> S \<and> f j = b) i"
    proof (cases "find_last (\<lambda>j. j \<in> S \<and> f j = b) m")
      case None
      then have "find_last (\<lambda>j. j \<in> S \<and> f j = b) i = None" using less.prems(2) by (auto simp: find_last_None)
      then show ?thesis using None by simp
    next
      case (Some j)
      moreover from Some have "j \<in> S" by (simp add: find_last_Some)
      then have "j < i" using Some False i by (metis linorder_neqE_nat)
      ultimately have "find_last (\<lambda>j. j \<in> S \<and> f j = b) i = Some j" using less.prems(2) by (auto simp: find_last_Some)
      then show ?thesis using Some by simp
    qed
    moreover have "link_before t i ep = Some ep"
      using read False by (subst link_before.simps) (auto split: option.split)
    ultimately show ?thesis using less.prems by blast
  qed
qed

lemma find_last_less: "find_last P n = Some i \<Longrightarrow> i < n"
  by (simp add: find_last_Some)

text \<open>Only one link of a chain leads to an entry.\<close>

lemma at_link_unique:
  assumes "at_link f S b n ep m" "at_link f S b n ep' m'" and "ep \<noteq> ep'"
    and "find_last (\<lambda>j. j \<in> S \<and> f j = b) m = Some i"
  shows "find_last (\<lambda>j. j \<in> S \<and> f j = b) m' \<noteq> Some i"
proof
  assume m': "find_last (\<lambda>j. j \<in> S \<and> f j = b) m' = Some i"
  have "m \<noteq> m'" using assms(1-3) by (auto simp: at_link_def)
  then consider "m < m'" | "m' < m" by linarith
  then show False
  proof cases
    case 1
    then have "m \<in> S \<and> f m = b" using assms(1,2) by (auto simp: at_link_def)
    then show False using m' assms(4) 1 by (auto simp: find_last_Some)
  next
    case 2
    then have "m' \<in> S \<and> f m' = b" using assms(1,2) by (auto simp: at_link_def)
    then show False using m' assms(4) 2 by (auto simp: find_last_Some)
  qed
qed


lemma find_last_remove:
  "find_last (\<lambda>j. j \<in> S - {i} \<and> f j = b) m =
     (if find_last (\<lambda>j. j \<in> S \<and> f j = b) m = Some i then find_last (\<lambda>j. j \<in> S \<and> f j = b) i
      else find_last (\<lambda>j. j \<in> S \<and> f j = b) m)"
proof (cases "find_last (\<lambda>j. j \<in> S \<and> f j = b) m = Some i")
  case True
  then have i: "i < m" "\<forall>j. i < j \<and> j < m \<longrightarrow> \<not> (j \<in> S \<and> f j = b)" by (auto simp: find_last_Some)
  show ?thesis
  proof (cases "find_last (\<lambda>j. j \<in> S \<and> f j = b) i")
    case None
    then have "\<not> (j \<in> S - {i} \<and> f j = b)" if "j < m" for j
      using i that by (auto simp: find_last_None) (metis linorder_neqE_nat)
    then have "find_last (\<lambda>j. j \<in> S - {i} \<and> f j = b) m = None" by (simp only: find_last_None) blast
    then show ?thesis using True None by simp
  next
    case (Some k)
    then have k: "k < i" "k \<in> S" "f k = b" "\<forall>j. k < j \<and> j < i \<longrightarrow> \<not> (j \<in> S \<and> f j = b)" by (auto simp: find_last_Some)
    have "\<not> (j \<in> S - {i} \<and> f j = b)" if "k < j" "j < m" for j
      using that k i by (metis DiffD1 DiffD2 insertI1 linorder_neqE_nat)
    then have "find_last (\<lambda>j. j \<in> S - {i} \<and> f j = b) m = Some k"
      using k i(1) by (simp only: find_last_Some) (auto dest: less_trans)
    then show ?thesis using True Some by simp
  qed
next
  case False
  show ?thesis
  proof (cases "find_last (\<lambda>j. j \<in> S \<and> f j = b) m")
    case None
    then have "find_last (\<lambda>j. j \<in> S - {i} \<and> f j = b) m = None" by (auto simp: find_last_None)
    then show ?thesis using None by simp
  next
    case (Some k)
    then have "k \<noteq> i" using False by simp
    then have "find_last (\<lambda>j. j \<in> S - {i} \<and> f j = b) m = Some k" using Some by (auto simp: find_last_Some)
    then show ?thesis using Some \<open>k \<noteq> i\<close> by simp
  qed
qed

lemma find_last_or:
  assumes "\<not> P i"
  shows "find_last (\<lambda>j. j = i \<or> P j) m = (if i < m \<and> find_last P m = find_last P i then Some i else find_last P m)"
proof (cases "i < m")
  case False
  then show ?thesis by (auto intro: find_last_cong)
next
  case im: True
  show ?thesis
  proof (cases "find_last P m = find_last P i")
    case True
    have "\<not> P j" if "i < j" "j < m" for j
    proof (cases "find_last P m")
      case None
      then show ?thesis using that by (simp add: find_last_None)
    next
      case (Some k)
      then have "k < i" using True by (simp add: find_last_Some)
      then show ?thesis using Some that by (simp add: find_last_Some)
    qed
    then have "find_last (\<lambda>j. j = i \<or> P j) m = Some i" using im by (auto simp: find_last_Some)
    then show ?thesis using True im by simp
  next
    case False
    obtain k where k: "find_last P m = Some k"
      using False im by (cases "find_last P m") (auto simp: find_last_None, metis find_last_None less_trans)
    have "\<not> k < i"
    proof
      assume "k < i"
      then have "find_last P i = Some k" using k im by (simp add: find_last_Some)
      then show False using False k by simp
    qed
    moreover have "k \<noteq> i" using k assms by (auto simp: find_last_Some)
    ultimately have "find_last (\<lambda>j. j = i \<or> P j) m = Some k" using k by (auto simp: find_last_Some)
    then show ?thesis using k False by simp
  qed
qed

lemma find_last_insert:
  assumes "i \<notin> S"
  shows "find_last (\<lambda>j. j \<in> insert i S \<and> (f(i := b)) j = c) m =
     (if c = b \<and> i < m \<and> find_last (\<lambda>j. j \<in> S \<and> f j = c) m = find_last (\<lambda>j. j \<in> S \<and> f j = c) i then Some i
      else find_last (\<lambda>j. j \<in> S \<and> f j = c) m)"
proof (cases "c = b")
  case True
  have "(\<lambda>j. j \<in> insert i S \<and> (f(i := b)) j = c) = (\<lambda>j. j = i \<or> j \<in> S \<and> f j = c)" using assms True by auto
  then show ?thesis using find_last_or [of "\<lambda>j. j \<in> S \<and> f j = c" i m] assms True by simp
next
  case False
  then show ?thesis using assms by (auto intro!: find_last_cong)
qed

definition same_but_chains :: "'e table \<Rightarrow> 'e table \<Rightarrow> bool" where
  "same_but_chains t t' \<longleftrightarrow> map element (data t') = map element (data t) \<and> length (hashTable t') = length (hashTable t) \<and>
     hashShift t' = hashShift t \<and> dataCapacity t' = dataCapacity t \<and> liveCount t' = liveCount t \<and> ranges t' = ranges t"

lemma same_but_chains_trans: "same_but_chains t t1 \<Longrightarrow> same_but_chains t1 t2 \<Longrightarrow> same_but_chains t t2"
  by (simp add: same_but_chains_def)

lemma same_but_chains_write [simp]: "same_but_chains t (write_link ep v t)"
proof (cases ep)
  case (Chain i)
  have "map element ((data t)[i := (data t ! i)\<lparr>chained := v\<rparr>]) = map element (data t)"
  proof (rule nth_equalityI)
    fix j
    assume "j < length (map element ((data t)[i := (data t ! i)\<lparr>chained := v\<rparr>]))"
    then show "map element ((data t)[i := (data t ! i)\<lparr>chained := v\<rparr>]) ! j = map element (data t) ! j"
      by (cases "j = i") simp_all
  qed simp
  then show ?thesis by (simp add: Chain same_but_chains_def)
qed (simp add: same_but_chains_def)

text \<open>What a written link changes.\<close>

lemma write_bucket: "b < length (hashTable t) \<Longrightarrow> hashTable (write_link ep v t) ! b = (if ep = Bucket b then v else hashTable t ! b)"
  by (cases ep) (auto simp: nth_list_update)

lemma write_chain: "i < length (data t) \<Longrightarrow> chained (data (write_link ep v t) ! i) = (if ep = Chain i then v else chained (data t ! i))"
  by (cases ep) (auto simp: nth_list_update)

lemma write_lengths [simp]:
  "length (hashTable (write_link ep v t)) = length (hashTable t)" "length (data (write_link ep v t)) = length (data t)"
  by (cases ep; simp)+

text \<open>Unhooking an entry.\<close>

lemma unlinked:
  assumes l: "links f S (hashTable t) (data t)" and b: "b < length (hashTable t)" and i: "i \<in> S" "f i = b"
  shows "\<exists>ep. link_to t i (Bucket b) = Some ep \<and>
    links f (S - {i}) (hashTable (write_link ep (chained (data t ! i)) t)) (data (write_link ep (chained (data t ! i)) t))"
proof -
  let ?n = "length (data t)" and ?P = "\<lambda>b j. j \<in> S \<and> f j = b" and ?Q = "\<lambda>b j. j \<in> S - {i} \<and> f j = b"
  have "i < ?n" using l i by (simp add: links_def)
  then obtain ep m where ep: "link_to t i (Bucket b) = Some ep" "at_link f S b ?n ep m" "find_last (?P b) m = Some i"
    using link_to_spec [OF l b i, of "Bucket b" ?n] by (auto simp: at_link_def)
  let ?v = "chained (data t ! i)" and ?t = "write_link ep (chained (data t ! i)) t"
  have v: "?v = find_last (?P b) i" using l i by (auto simp: links_def)
  have follow: "(if ep = ep' then ?v else find_last (?P c) m') = find_last (?Q c) m'"
    if at: "at_link f S c ?n ep' m'" for c ep' m'
  proof (cases "ep = ep'")
    case True
    then have "c = b \<and> m' = m" using ep(2) at by (auto simp: at_link_def)
    then show ?thesis using True ep(3) v unfolding find_last_remove by simp
  next
    case False
    have "find_last (?P c) m' \<noteq> Some i"
    proof (cases "c = b")
      case True
      then show ?thesis using at_link_unique [OF ep(2) _ False ep(3)] at by simp
    next
      case False
      then show ?thesis using i(2) by (auto simp: find_last_Some)
    qed
    then show ?thesis using False unfolding find_last_remove by simp
  qed
  have "hashTable ?t ! c = find_last (?Q c) ?n" if c: "c < length (hashTable t)" for c
    using follow [of c "Bucket c" ?n] l c by (auto simp: write_bucket links_def at_link_def)
  moreover have "j < ?n \<and> f j < length (hashTable t) \<and> chained (data ?t ! j) = find_last (?Q (f j)) j" if j: "j \<in> S - {i}" for j
  proof -
    have "at_link f S (f j) ?n (Chain j) j" using l j by (auto simp: at_link_def links_def)
    then show ?thesis using follow [of "f j" "Chain j" j] l j by (auto simp: write_chain links_def)
  qed
  ultimately have "links f (S - {i}) (hashTable ?t) (data ?t)" unfolding links_def by simp
  then show ?thesis using ep(1) by blast
qed


lemma find_last_ge: "p < q \<Longrightarrow> P p \<Longrightarrow> \<exists>k \<ge> p. find_last P q = Some k"
  by (induction q) (auto simp: less_Suc_eq)

text \<open>Hooking an entry in.\<close>

lemma linked:
  assumes l: "links f S (hashTable t) (data t)" and b: "b < length (hashTable t)" and i: "i \<notin> S" "i < length (data t)"
  shows "\<exists>ep v. link_before t i (Bucket b) = Some ep \<and> read_link t ep = Some v \<and>
    links (f(i := b)) (insert i S) (hashTable (write_link ep (Some i) (write_link (Chain i) v t)))
      (data (write_link ep (Some i) (write_link (Chain i) v t)))"
proof -
  let ?n = "length (data t)" and ?P = "\<lambda>b j. j \<in> S \<and> f j = b" and ?Q = "\<lambda>c j. j \<in> insert i S \<and> (f(i := b)) j = c"
  obtain ep m where ep: "link_before t i (Bucket b) = Some ep" "at_link f S b ?n ep m" "i < m" "find_last (?P b) m = find_last (?P b) i"
    using link_before_spec [OF l b i(1), of "Bucket b" ?n] i(2) by (auto simp: at_link_def)
  have read: "read_link t ep = Some (find_last (?P b) i)" using read_at_link [OF l b ep(2)] ep(4) by simp
  let ?v = "find_last (?P b) i"
  let ?t = "write_link ep (Some i) (write_link (Chain i) ?v t)"
  have ep_i: "ep \<noteq> Chain i" using ep(2,3) i(1) by (auto simp: at_link_def)
  have follow: "(if ep = ep' then Some i else find_last (?P c) m') = find_last (?Q c) m'"
    if at: "at_link f S c ?n ep' m'" for c ep' m'
  proof (cases "ep = ep'")
    case True
    then have "c = b \<and> m' = m" using ep(2) at by (auto simp: at_link_def)
    then show ?thesis using True ep(3,4) unfolding find_last_insert [OF i(1)] by simp
  next
    case False
    have "find_last (?P b) m' \<noteq> find_last (?P b) i" if "c = b" "i < m'"
    proof
      assume eq: "find_last (?P b) m' = find_last (?P b) i"
      have "m \<noteq> m'" using at ep(2) False that by (auto simp: at_link_def)
      then consider "m < m'" | "m' < m" by linarith
      then show False
      proof cases
        case 1
        then have "m \<in> S" "f m = b" using at ep(2) by (auto simp: at_link_def)
        with find_last_ge [of m m' "?P b"] 1 obtain k where "m \<le> k" "find_last (?P b) m' = Some k" by blast
        then show False using eq ep(3) find_last_less [of "?P b" i k] by simp
      next
        case 2
        then have "m' \<in> S" "f m' = b" using at ep(2) that by (auto simp: at_link_def)
        with find_last_ge [of m' m "?P b"] 2 obtain k where "m' \<le> k" "find_last (?P b) m = Some k" by blast
        then show False using ep(4) that(2) find_last_less [of "?P b" i k] by simp
      qed
    qed
    then show ?thesis using False unfolding find_last_insert [OF i(1)] by auto
  qed
  have "hashTable ?t ! c = find_last (?Q c) ?n" if c: "c < length (hashTable t)" for c
    using follow [of c "Bucket c" ?n] l c by (auto simp: write_bucket links_def at_link_def)
  moreover have "j < ?n \<and> (f(i := b)) j < length (hashTable t) \<and> chained (data ?t ! j) = find_last (?Q ((f(i := b)) j)) j"
    if j: "j \<in> insert i S" for j
  proof (cases "j = i")
    case True
    have "chained (data ?t ! i) = ?v" using ep_i i(2) by (simp add: write_chain del: write_link.simps)
    moreover have "find_last (?Q b) i = find_last (?P b) i" unfolding find_last_insert [OF i(1)] by simp
    ultimately show ?thesis using True i(2) b by simp
  next
    case False
    then have "j \<in> S" using j by simp
    then have at: "at_link f S (f j) ?n (Chain j) j" and j: "j < ?n" "f j < length (hashTable t)"
      using l by (auto simp: at_link_def links_def)
    have "chained (data ?t ! j) = (if ep = Chain j then Some i else chained (data t ! j))"
      using False j by (simp add: write_chain del: write_link.simps)
    also have "chained (data t ! j) = find_last (?P (f j)) j" using l \<open>j \<in> S\<close> by (simp add: links_def)
    also note follow [OF at]
    finally have "chained (data ?t ! j) = find_last (?Q (f j)) j" .
    moreover have f_j: "(f(i := b)) j = f j" using False by simp
    ultimately show ?thesis unfolding f_j using j by blast
  qed
  ultimately have "links (f(i := b)) (insert i S) (hashTable ?t) (data ?t)" unfolding links_def by simp
  then show ?thesis using ep(1) read by blast
qed

lemma move_entry_spec:
  assumes l: "links f {..<length (data t)} (hashTable t) (data t)" and i: "i < length (data t)"
    and old: "f i < length (hashTable t)" and new: "newHash < length (hashTable t)"
  shows "\<exists>t'. move_entry (f i) newHash i t = Some t' \<and> same_but_chains t t' \<and>
    links (f(i := newHash)) {..<length (data t)} (hashTable t') (data t')"
proof -
  let ?S = "{..<length (data t)}"
  obtain ep where ep: "link_to t i (Bucket (f i)) = Some ep"
    and l1: "links f (?S - {i}) (hashTable (write_link ep (chained (data t ! i)) t)) (data (write_link ep (chained (data t ! i)) t))"
    using unlinked [OF l old, of i] i by auto
  define t1 where "t1 = write_link ep (chained (data t ! i)) t"
  obtain ep' v where ep': "link_before t1 i (Bucket newHash) = Some ep'" "read_link t1 ep' = Some v"
    and l2: "links (f(i := newHash)) (insert i (?S - {i})) (hashTable (write_link ep' (Some i) (write_link (Chain i) v t1)))
      (data (write_link ep' (Some i) (write_link (Chain i) v t1)))"
    using linked [OF l1 [folded t1_def], of newHash i] new i by (auto simp: t1_def)
  have "insert i (?S - {i}) = ?S" using i by auto
  moreover have "same_but_chains t (write_link ep' (Some i) (write_link (Chain i) v t1))"
    unfolding t1_def by (meson same_but_chains_trans same_but_chains_write)
  ultimately show ?thesis using ep ep' l2 by (simp add: move_entry_def Let_def t1_def del: write_link.simps)
qed


context hash_policy
begin

text \<open>The element of an entry in use replaced by one with another key, and the entry in the chain of that key.\<close>

lemma rekeyed:
  assumes wf: "table_wf ops t" and l: "\<not> ops_isEmpty ops l"
    and i: "find_last (\<lambda>j. matches ops l (element (data t ! j))) (length (data t)) = Some i"
    and e: "\<not> ops_isEmpty ops (ops_getKey ops e)"
    and free: "\<forall>x \<in> set (entries ops t). matches ops (ops_getKey ops e) x \<longrightarrow> matches ops l x"
    and t': "same_but_chains (set_element i e t) t'"
    and chains: "\<And>f. links f {..<length (data t)} (hashTable t) (data t) \<Longrightarrow> f i = home ops (hashShift t) (data t ! i) \<Longrightarrow>
      links (f(i := bucket (prepareHash ops (ops_getKey ops e)) (hashShift t))) {..<length (data t)} (hashTable t') (data t')"
  shows "table_wf ops t' \<and> entries ops t' = map (\<lambda>x. if matches ops l x then e else x) (entries ops t) \<and>
    walks ops t' = map (apsnd (map (\<lambda>x. if matches ops l x then e else x))) (walks ops t)"
proof -
  let ?g = "\<lambda>x. if matches ops l x then e else x"
  have ok: "table_ok ops t" by (rule table_wf_ok [OF wf])
  note fd = found [OF ok l i]
  have el: "map element (data t') = (map element (data t))[i := e]" and len: "length (data t') = length (data t)"
    using t' by (auto simp: same_but_chains_def set_element_def map_update dest: arg_cong [of _ _ length])
  have nth: "element (data t' ! j) = (if j = i then e else element (data t ! j))" if "j < length (data t)" for j
    using arg_cong [OF el, of "\<lambda>xs. xs ! j"] that len by (auto simp: nth_list_update)
  have rel: "list_all2 (\<lambda>d d'. is_empty ops d' = is_empty ops d \<and> (\<not> is_empty ops d \<longrightarrow> element d' = ?g (element d))) (data t) (data t')"
    using nth fd e len by (auto simp: list_all2_conv_all_nth is_empty_def)
  have ent: "entries ops t' = map ?g (entries ops t)" using in_use_map [OF rel] by (simp add: entries_def)
  have same: "ranges t' = ranges t" "hashShift t' = hashShift t" "dataCapacity t' = dataCapacity t" "liveCount t' = liveCount t"
      "length (hashTable t') = length (hashTable t)"
    using t' by (auto simp: same_but_chains_def set_element_def)
  have "range_ok ops (data t') r \<and> remaining ops (data t') r = map ?g (remaining ops (data t) r)" if "range_ok ops (data t) r" for r
    using range_map [OF rel that] by simp
  note w = walks_map [OF wf refl same(1) this]
  obtain f where f: "links f {..<length (data t)} (hashTable t) (data t)"
      "\<forall>i<length (data t). \<not> is_empty ops (data t ! i) \<longrightarrow> f i = home ops (hashShift t) (data t ! i)"
    using ok by (auto simp: table_ok_def chains_ok_def)
  have "chains_ok ops (hashShift t') (hashTable t') (data t')"
    unfolding chains_ok_def len same(2)
    by (rule exI [of _ "f(i := bucket (prepareHash ops (ops_getKey ops e)) (hashShift t))"])
      (use chains [OF f(1)] f(2) fd nth in \<open>auto simp: home_def is_empty_def\<close>)
  moreover have "distinct_keys ops (entries ops t')"
  proof -
    have "\<not> matches ops (ops_getKey ops (?g b)) (?g a)"
      if ab: "a \<in> set (entries ops t)" "b \<in> set (entries ops t)" "\<not> matches ops (ops_getKey ops b) a" for a b
    proof (cases "matches ops l a"; cases "matches ops l b")
      assume "matches ops l a" "matches ops l b"
      then show ?thesis using ab(3) match_sym match_trans unfolding matches_def by blast
    next
      assume "matches ops l a" "\<not> matches ops l b"
      then show ?thesis using free ab(2) match_sym unfolding matches_def by auto
    next
      assume "\<not> matches ops l a" "matches ops l b"
      then show ?thesis using free ab(1) by auto
    qed (use ab(3) in simp)
    note rel = this
    have sorted: "sorted_wrt (\<lambda>a b. \<not> matches ops (ops_getKey ops b) a) (entries ops t)"
      using ok by (simp add: table_ok_def distinct_keys_def)
    show ?thesis
      unfolding ent distinct_keys_def sorted_wrt_map by (rule sorted_wrt_mono_rel [OF _ sorted]) (rule rel)
  qed
  ultimately have "table_ok ops t'" using ok ent same len by (simp add: table_ok_def)
  then show ?thesis using ent w wf same by (simp add: table_wf_def)
qed

lemma rekeyOneEntry_list:
  assumes wf: "table_wf ops t" and l: "\<not> ops_isEmpty ops current" and e: "\<not> ops_isEmpty ops newKey" "ops_getKey ops e = newKey"
    and free: "\<forall>x \<in> set (entries ops t). matches ops newKey x \<longrightarrow> matches ops current x" and "current \<noteq> newKey"
  shows "\<exists>t'. rekeyOneEntry ops current newKey e t = Some t' \<and> table_wf ops t' \<and>
    entries ops t' = map (\<lambda>x. if matches ops current x then e else x) (entries ops t) \<and>
    walks ops t' = map (apsnd (map (\<lambda>x. if matches ops current x then e else x))) (walks ops t)"
proof -
  have ok: "table_ok ops t" by (rule table_wf_ok [OF wf])
  note look = lookup_spec [OF ok l]
  show ?thesis
  proof (cases "find_last (\<lambda>j. matches ops current (element (data t ! j))) (length (data t))")
    case None
    then have no: "\<not> list_has ops current (entries ops t)" using not_found by (auto simp: list_has_def)
    have "map (\<lambda>x. if matches ops current x then e else x) es = es" if "set es \<subseteq> set (entries ops t)" for es
      using that no by (auto intro!: map_idI simp: list_has_def)
    moreover have "set es \<subseteq> set (entries ops t)" if "(rid, es) \<in> set (walks ops t)" for rid es
      using that by (auto simp: walks_def remaining_def entries_def in_use_def intro!: imageI dest: in_set_dropD)
    ultimately have "map (apsnd (map (\<lambda>x. if matches ops current x then e else x))) (walks ops t) = walks ops t"
      "map (\<lambda>x. if matches ops current x then e else x) (entries ops t) = entries ops t"
      by (auto intro!: map_idI)
    then show ?thesis using None look wf assms(6) by (simp add: rekeyOneEntry_def)
  next
    case (Some i)
    note fd = found [OF ok l Some]
    let ?new = "bucket (prepareHash ops newKey) (hashShift t)" and ?old = "bucket (prepareHash ops current) (hashShift t)"
    have buckets: "?new < length (hashTable t)" "?old < length (hashTable t)" using ok bucket_less by (auto simp: table_ok_def)
    have home: "home ops (hashShift t) (data t ! i) = ?old"
      using match_hash [OF l] fd(3) by (auto simp: home_def matches_def prepareHash_def)
    have "\<exists>t'. move_entry ?old ?new i (set_element i e t) = Some t' \<and> same_but_chains (set_element i e t) t' \<and>
        links (f(i := ?new)) {..<length (data t)} (hashTable t') (data t')"
      if f: "links f {..<length (data t)} (hashTable t) (data t)" "f i = ?old" for f
    proof -
      have "links f {..<length (data t)} (hashTable t) (data (set_element i e t))"
        using fd(1) by (intro links_cong [OF f(1)]) (auto simp: set_element_def nth_list_update)
      then have "links f {..<length (data (set_element i e t))} (hashTable (set_element i e t)) (data (set_element i e t))"
        by (simp add: set_element_def)
      from move_entry_spec [OF this, of i ?new] show ?thesis using f(2) fd(1) buckets by (simp add: set_element_def)
    qed
    note move = this
    obtain f where f: "links f {..<length (data t)} (hashTable t) (data t)"
        "\<forall>i<length (data t). \<not> is_empty ops (data t ! i) \<longrightarrow> f i = home ops (hashShift t) (data t ! i)"
      using ok by (auto simp: table_ok_def chains_ok_def)
    obtain t' where t': "move_entry ?old ?new i (set_element i e t) = Some t'" "same_but_chains (set_element i e t) t'"
      using move [OF f(1)] f(2) fd(1,2) home by auto
    have "links (f(i := ?new)) {..<length (data t)} (hashTable t') (data t')"
      if "links f {..<length (data t)} (hashTable t) (data t)" "f i = home ops (hashShift t) (data t ! i)" for f
      using move [OF that(1)] that(2) home t'(1) by auto
    from rekeyed [OF wf l Some _ _ t'(2), unfolded e(2), OF e(1) free this]
    show ?thesis using look Some t'(1) assms(6) by (simp add: rekeyOneEntry_def)
  qed
qed

end

end
