(* ===== verification/MapObjectCorrect.thy ===== *)
theory MapObjectCorrect
  imports MapObject OrderedHashTableCorrect "HOL-Library.Sublist"
begin

text \<open>
  \<open>Map\<close> and \<open>Set\<close> against the abstract collections of ECMAScript: a list of entries in the order of
  insertion, and for every iterator what it has still to visit.
\<close>

section \<open>The policies\<close>

interpretation mp: hash_policy "map_ops env" for env
  by unfold_locales (auto simp: map_ops_def)

interpretation st: hash_policy "set_ops env" for env
  by unfold_locales (auto simp: set_ops_def)

lemma map_ops_simps [simp]:
  "ops_isEmpty (map_ops env) k \<longleftrightarrow> k = JS_HASH_KEY_EMPTY" "ops_getKey (map_ops env) e = fst e"
  "matches (map_ops env) k e \<longleftrightarrow> fst e = k"
  by (auto simp: map_ops_def matches_def)

lemma set_ops_simps [simp]:
  "ops_isEmpty (set_ops env) k \<longleftrightarrow> k = JS_HASH_KEY_EMPTY" "ops_getKey (set_ops env) e = e"
  "matches (set_ops env) k e \<longleftrightarrow> e = k"
  by (auto simp: set_ops_def matches_def)

lemma setValue_key [simp]: "setValue a v = Some k \<Longrightarrow> k \<noteq> JS_HASH_KEY_EMPTY"
  by (cases "(a, v)" rule: setValue.cases) (auto split: if_splits option.splits)

lemma arg0_key_key [simp]: "arg0_key mem args = Some k \<Longrightarrow> k \<noteq> JS_HASH_KEY_EMPTY"
  by (auto simp: arg0_key_def split: if_splits)

section \<open>SameValueZero\<close>

text \<open>
  The relation of ECMAScript on numbers: NaN is itself, and negative zero is zero. A double is one value of
  \<open>dbl\<close>; an integral pattern below \<open>2\<^sup>5\<^sup>3\<close> is not written \<open>DBits\<close>.
\<close>

fun SameValueZero :: "jsval \<Rightarrow> jsval \<Rightarrow> bool" where
  "SameValueZero (Number d) (Number e) =
     (IsNaN d \<and> IsNaN e \<or>
      (if d = DBits sign_bit then DInt 0 else d) = (if e = DBits sign_bit then DInt 0 else e))"
| "SameValueZero v w = (v = w)"

lemma IsNaN_DoubleNaN [simp]: "IsNaN DoubleNaN" "\<not> IsNaN (DBits sign_bit)"
  by (simp_all add: DoubleNaN_def sign_bit_def)

lemma NumberEqualsInt32_None: "NumberEqualsInt32 d = None \<Longrightarrow> IsNaN d \<or> \<not> IsNaN d \<and> d \<noteq> DBits sign_bit"
  by (cases d) (auto simp: NumberEqualsInt32_def split: if_splits)

lemma setValue_Number:
  "setValue a (Number d) = Some (HKey (Number (if d = DBits sign_bit then DInt 0 else if IsNaN d then DoubleNaN else d)))"
  by (cases d) (auto simp: NumberEqualsInt32_def)

text \<open>
  C20. Two values are normalised to the same key of a \<open>Map\<close> or \<open>Set\<close> exactly when they are the same by
  SameValueZero: every NaN is one key, and so are zero and negative zero.
\<close>

theorem setValue_SameValueZero:
  "setValue True v = setValue True w \<longleftrightarrow> SameValueZero v w"
proof (cases v; cases w)
  fix d e
  assume "v = Number d" "w = Number e"
  moreover have "DoubleNaN \<noteq> DInt 0" by (simp add: DoubleNaN_def)
  ultimately show ?thesis
    using IsNaN_DoubleNaN by (auto simp: setValue_Number simp del: setValue.simps) 
qed (auto simp: setValue_Number simp del: setValue.simps(2))

declare setValue.simps(2) [simp del] setValue_Number [simp]

section \<open>The abstract map\<close>

text \<open>A call, its answer, and the abstract map: entries, and iterators with what they have still to visit
  (nothing once they have ended).\<close>

datatype map_call =
  MapSet jsval "jsval list" | MapGet "jsval list" | MapHas "jsval list" | MapDelete "jsval list" | MapClear | MapSize
  | MapIterate nat IteratorKind | MapNext nat

datatype map_answer = Threw | Answer jsval | Size nat | Iterator | Ended | NextPair "jsval \<times> jsval"

type_synonym entry = "HashableValue \<times> jsval"

record abstract_map =
  am_entries :: "entry list"
  am_iterators :: "(nat \<times> IteratorKind \<times> entry list option) list"

definition the_key :: "jsval list \<Rightarrow> HashableValue" where
  "the_key args = the (setValue True (arg_get args 0))"

definition put_entry :: "entry \<Rightarrow> entry list \<Rightarrow> entry list \<Rightarrow> entry list" where
  "put_entry e all es = (if fst e \<in> fst ` set all then map (\<lambda>x. if fst x = fst e then e else x) es else es @ [e])"

definition drop_entry :: "HashableValue \<Rightarrow> entry list \<Rightarrow> entry list" where
  "drop_entry k es = filter (\<lambda>x. fst x \<noteq> k) es"

definition on_iterators :: "(entry list \<Rightarrow> entry list) \<Rightarrow> abstract_map \<Rightarrow> abstract_map" where
  "on_iterators f a = a\<lparr>am_iterators := map (\<lambda>(rid, kind, es). (rid, kind, map_option f es)) (am_iterators a)\<rparr>"

definition pair_of :: "IteratorKind \<Rightarrow> entry \<Rightarrow> jsval \<times> jsval" where
  "pair_of kind e =
     (case kind of Keys \<Rightarrow> (the (key_value (fst e)), Null) | Values \<Rightarrow> (Null, snd e)
      | Entries \<Rightarrow> (the (key_value (fst e)), snd e))"

definition set_walk :: "nat \<Rightarrow> entry list option \<Rightarrow> abstract_map \<Rightarrow> abstract_map" where
  "set_walk rid w a =
     a\<lparr>am_iterators := map (\<lambda>(rid', kind, es). (rid', kind, if rid' = rid then w else es)) (am_iterators a)\<rparr>"

fun abstract_step :: "map_call \<Rightarrow> abstract_map \<Rightarrow> map_answer \<times> abstract_map" where
  "abstract_step (MapSet thisv args) a =
     (let e = (the_key args, arg_get args 1)
      in (Answer thisv, on_iterators (put_entry e (am_entries a)) (a\<lparr>am_entries := put_entry e (am_entries a) (am_entries a)\<rparr>)))"
| "abstract_step (MapGet args) a =
     (Answer (case map_of (am_entries a) (the_key args) of Some v \<Rightarrow> v | None \<Rightarrow> Undefined), a)"
| "abstract_step (MapHas args) a = (Answer (Boolean (the_key args \<in> fst ` set (am_entries a))), a)"
| "abstract_step (MapDelete args) a =
     (let k = the_key args
      in (Answer (Boolean (k \<in> fst ` set (am_entries a))),
          on_iterators (drop_entry k) (a\<lparr>am_entries := drop_entry k (am_entries a)\<rparr>)))"
| "abstract_step MapClear a = (Answer Undefined, on_iterators (\<lambda>es. []) (a\<lparr>am_entries := []\<rparr>))"
| "abstract_step MapSize a = (Size (length (am_entries a)), a)"
| "abstract_step (MapIterate rid kind) a =
     (Iterator, a\<lparr>am_iterators := (rid, kind, Some (am_entries a)) # am_iterators a\<rparr>)"
| "abstract_step (MapNext rid) a =
     (case map_of (am_iterators a) rid of
        Some (kind, Some (e # es)) \<Rightarrow> (NextPair (pair_of kind e), set_walk rid (Some es) a)
      | _ \<Rightarrow> (Ended, set_walk rid None a))"

section \<open>The concrete map, call by call\<close>

fun map_step :: "hash_env \<Rightarrow> memory \<Rightarrow> map_call \<Rightarrow> map_object \<Rightarrow> (map_answer \<times> map_object) option" where
  "map_step env mem (MapSet thisv args) m =
     do { (r, m) \<leftarrow> map_set env mem thisv args m; Some (case r of None \<Rightarrow> Threw | Some v \<Rightarrow> Answer v, m) }"
| "map_step env mem (MapGet args) m =
     do { r \<leftarrow> map_get env mem args m; Some (case r of None \<Rightarrow> Threw | Some v \<Rightarrow> Answer v, m) }"
| "map_step env mem (MapHas args) m =
     do { r \<leftarrow> map_has env mem args m; Some (case r of None \<Rightarrow> Threw | Some v \<Rightarrow> Answer v, m) }"
| "map_step env mem (MapDelete args) m =
     do { (r, m) \<leftarrow> map_delete env mem args m; Some (case r of None \<Rightarrow> Threw | Some v \<Rightarrow> Answer v, m) }"
| "map_step env mem MapClear m =
     (let (r, m) = map_clear mem m in Some (case r of None \<Rightarrow> Threw | Some v \<Rightarrow> Answer v, m))"
| "map_step env mem MapSize m = Some (Size (map_size m), m)"
| "map_step env mem (MapIterate rid kind) m =
     (let (okay, m) = map_iterator env mem rid kind m in Some (if okay then Iterator else Threw, m))"
| "map_step env mem (MapNext rid) m =
     do { (over, pair, m) \<leftarrow> map_next env rid (Null, Null) m; Some (if over then Ended else NextPair pair, m) }"

definition abstraction :: "hash_env \<Rightarrow> map_object \<Rightarrow> abstract_map" where
  "abstraction env m =
     \<lparr>am_entries = entries (map_ops env) (coll_table m),
      am_iterators = map (\<lambda>(rid, it). (rid, it_kind it, map_of (walks (map_ops env) (coll_table m)) rid)) (iterators m)\<rparr>"

text \<open>The invariant: a well-formed table, and a range for exactly the iterators that have not ended.\<close>

definition collection_ok :: "('k, 'e) hash_ops \<Rightarrow> 'e collection \<Rightarrow> bool" where
  "collection_ok ops m \<longleftrightarrow> table_wf ops (coll_table m) \<and> distinct (map fst (iterators m)) \<and>
     fst ` set (ranges (coll_table m)) = fst ` set (filter (\<lambda>(rid, it). it_range it) (iterators m))"

fun call_ok :: "map_call \<Rightarrow> map_object \<Rightarrow> bool" where
  "call_ok (MapIterate rid kind) m \<longleftrightarrow> rid \<notin> fst ` set (iterators m)"
| "call_ok (MapNext rid) m \<longleftrightarrow> rid \<in> fst ` set (iterators m)"
| "call_ok _ m \<longleftrightarrow> True"

lemma map_of_walks_map: "map_of (map (apsnd f) w) rid = map_option f (map_of w rid)"
  by (induction w) auto

lemma abstraction_table:
  assumes "entries (map_ops env) t = es" and "walks (map_ops env) t = map (apsnd f) (walks (map_ops env) (coll_table m))"
  shows "abstraction env (m\<lparr>coll_table := t\<rparr>) = on_iterators f ((abstraction env m)\<lparr>am_entries := es\<rparr>)"
  using assms by (simp add: abstraction_def on_iterators_def map_of_walks_map comp_def case_prod_unfold)

lemma collection_ok_table:
  assumes "collection_ok ops m" and "table_wf ops t" and "map fst (walks ops t) = map fst (walks ops (coll_table m))"
  shows "collection_ok ops (m\<lparr>coll_table := t\<rparr>)"
proof -
  have "fst ` set (ranges t) = fst ` set (ranges (coll_table m))" using assms(3) by (metis list.set_map map_fst_walks)
  then show ?thesis using assms(1,2) by (simp add: collection_ok_def)
qed

lemma walks_in_entries: "(rid, es) \<in> set (walks ops t) \<Longrightarrow> set es \<subseteq> set (entries ops t)"
  by (auto simp: walks_def remaining_def entries_def in_use_def intro!: imageI dest: in_set_dropD)

lemma the_key: "arg0_key mem args = Some k \<Longrightarrow> k = the_key args" "setValue (atomize_ok mem) (arg_get args 0) = Some k \<Longrightarrow> k = the_key args"
proof -
  have mono: "setValue a v = Some k \<Longrightarrow> setValue True v = Some k" for a v
    by (cases "(a, v)" rule: setValue.cases) (auto split: if_splits)
  show "setValue (atomize_ok mem) (arg_get args 0) = Some k \<Longrightarrow> k = the_key args"
    using mono by (fastforce simp: the_key_def)
  show "arg0_key mem args = Some k \<Longrightarrow> k = the_key args"
    using mono by (fastforce simp: arg0_key_def the_key_def arg_get_def hd_conv_nth split: if_splits)
qed


section \<open>Each call refines its abstract one\<close>

lemma map_list_ops:
  "list_has (map_ops env) k es = (k \<in> fst ` set es)" "without (map_ops env) k es = drop_entry k es"
  "list_put (map_ops env) e es = put_entry e es es"
  "(if list_has (map_ops env) (fst e) all then replace (map_ops env) e else (\<lambda>es. es @ [e])) = put_entry e all"
proof -
  show has: "list_has (map_ops env) k es = (k \<in> fst ` set es)" for k es by (auto simp: list_has_def)
  show "without (map_ops env) k es = drop_entry k es" by (simp add: without_def drop_entry_def)
  show put: "(if list_has (map_ops env) (fst e) all then replace (map_ops env) e else (\<lambda>es. es @ [e])) = put_entry e all" for all
    by (rule ext) (simp add: has replace_def put_entry_def)
  show "list_put (map_ops env) e es = put_entry e es es"
    using put [of es, THEN fun_cong, of es] by (auto simp: list_put_def list_has_def split: if_splits)
qed

lemma map_put:
  assumes "table_wf (map_ops env) t" and "fst e \<noteq> JS_HASH_KEY_EMPTY" and "entries (map_ops env) t = es"
  shows "\<exists>okay t'. put (map_ops env) ok e t = Some (okay, t') \<and> table_wf (map_ops env) t' \<and> (\<not> okay \<longrightarrow> t' = t) \<and>
    (okay \<longrightarrow> entries (map_ops env) t' = put_entry e es es \<and>
      walks (map_ops env) t' = map (apsnd (put_entry e es)) (walks (map_ops env) t))"
proof -
  have "(if fst e \<in> fst ` set es then replace (map_ops env) e else (\<lambda>es. es @ [e])) = put_entry e es"
    using map_list_ops(4) [of env e es] by (simp only: map_list_ops(1))
  then show ?thesis
    using mp.put_list [OF assms(1), where e = e and ok = ok] assms(2)
    by (simp only: map_list_ops(1,3) map_ops_simps assms(3) simp_thms)
qed

lemma map_remove:
  assumes "table_wf (map_ops env) t" and "k \<noteq> JS_HASH_KEY_EMPTY"
  shows "\<exists>okay t'. remove (map_ops env) ok k t = Some (okay, k \<in> fst ` set (entries (map_ops env) t), t') \<and>
    table_wf (map_ops env) t' \<and> entries (map_ops env) t' = drop_entry k (entries (map_ops env) t) \<and>
    walks (map_ops env) t' = map (apsnd (drop_entry k)) (walks (map_ops env) t)"
proof -
  have "without (map_ops env) k = drop_entry k" by (rule ext) (rule map_list_ops)
  then show ?thesis
    using mp.remove_list [OF assms(1), where l = k and ok = ok] assms(2) by (simp only: map_list_ops map_ops_simps simp_thms)
qed

text \<open>The range of an iterator: there until it has ended, and always within the entries.\<close>

lemma iterator_walk:
  assumes ok: "collection_ok ops m" and it: "map_of (iterators m) rid = Some it"
  shows "it_range it \<longleftrightarrow> (\<exists>es. map_of (walks ops (coll_table m)) rid = Some es)"
proof -
  have mem: "(rid, it) \<in> set (iterators m)" by (rule map_of_SomeD [OF it])
  have only: "it' = it" if "(rid, it') \<in> set (iterators m)" for it'
    using ok it that by (simp add: collection_ok_def)
  have "(\<exists>es. map_of (walks ops (coll_table m)) rid = Some es) \<longleftrightarrow> rid \<in> fst ` set (walks ops (coll_table m))"
    by (metis map_of_eq_None_iff not_None_eq)
  also have "\<dots> \<longleftrightarrow> rid \<in> fst ` set (ranges (coll_table m))" by (metis list.set_map map_fst_walks)
  also have "\<dots> \<longleftrightarrow> it_range it"
  proof -
    have "rid \<in> fst ` set (filter (\<lambda>(rid, it). it_range it) (iterators m)) \<longleftrightarrow> it_range it"
    proof
      assume "rid \<in> fst ` set (filter (\<lambda>(rid, it). it_range it) (iterators m))"
      then show "it_range it" using only by auto
    next
      assume "it_range it"
      then show "rid \<in> fst ` set (filter (\<lambda>(rid, it). it_range it) (iterators m))"
        using mem by (intro image_eqI [of _ _ "(rid, it)"]) auto
    qed
    then show ?thesis using ok by (simp add: collection_ok_def)
  qed
  finally show ?thesis by simp
qed

lemma fst_ranges_iterators: "collection_ok ops m \<Longrightarrow> fst ` set (ranges (coll_table m)) \<subseteq> fst ` set (iterators m)"
  by (auto simp: collection_ok_def)

lemma map_of_update:
  "map_of (map (\<lambda>(r, x). (r, if r = rid then f x else x)) xs) r =
   (if r = rid then map_option f (map_of xs r) else map_of xs r)"
  by (induction xs) auto

text \<open>
  What a call has to be for the abstract one: it is defined, keeps the invariant, and refines it, or throws and changes
  nothing; but a \<open>delete\<close> that throws may have deleted.
\<close>

definition refines :: "hash_env \<Rightarrow> map_call \<Rightarrow> map_object \<Rightarrow> (map_answer \<times> map_object) option \<Rightarrow> bool" where
  "refines env call m res \<longleftrightarrow>
     (\<exists>ans m'. res = Some (ans, m') \<and> collection_ok (map_ops env) m' \<and>
       (abstract_step call (abstraction env m) = (ans, abstraction env m') \<or>
        ans = Threw \<and> (abstraction env m' = abstraction env m \<or>
          (\<exists>args. call = MapDelete args) \<and> abstraction env m' = snd (abstract_step call (abstraction env m)))))"

lemma refinesI:
  "collection_ok (map_ops env) m' \<Longrightarrow> abstract_step call (abstraction env m) = (ans, abstraction env m') \<Longrightarrow>
   refines env call m (Some (ans, m'))"
  by (auto simp: refines_def)

lemma refines_throw:
  "collection_ok (map_ops env) m' \<Longrightarrow> abstraction env m' = abstraction env m \<Longrightarrow> refines env call m (Some (Threw, m'))"
  by (auto simp: refines_def)

lemma collection_ok_wf: "collection_ok ops m \<Longrightarrow> table_wf ops (coll_table m)"
  by (simp add: collection_ok_def)

lemma abstraction_entries [simp]: "am_entries (abstraction env m) = entries (map_ops env) (coll_table m)"
  by (simp add: abstraction_def)

lemma fst_walks_apsnd: "map fst (map (apsnd f) w) = map fst w"
  by simp

lemma set_refines:
  assumes "collection_ok (map_ops env) m"
  shows "refines env (MapSet thisv args) m (map_step env mem (MapSet thisv args) m)"
proof (cases "arg0_key mem args")
  case (Some k)
  let ?e = "(the_key args, arg_get args 1)"
  have k: "k = the_key args" "k \<noteq> JS_HASH_KEY_EMPTY" using the_key(1) Some by auto
  show ?thesis
  proof (cases "barrier_ok mem")
    case True
    note wf = collection_ok_wf [OF assms]
    obtain okay t' where put: "put (map_ops env) (table_allocs mem) ?e (coll_table m) = Some (okay, t')"
      and t': "table_wf (map_ops env) t'" "\<not> okay \<Longrightarrow> t' = coll_table m"
        "okay \<Longrightarrow> entries (map_ops env) t' = put_entry ?e (entries (map_ops env) (coll_table m)) (entries (map_ops env) (coll_table m))"
        "okay \<Longrightarrow> walks (map_ops env) t' = map (apsnd (put_entry ?e (entries (map_ops env) (coll_table m)))) (walks (map_ops env) (coll_table m))"
      using map_put [OF wf _ refl, of ?e "table_allocs mem"] k by fastforce
    have "collection_ok (map_ops env) (m\<lparr>coll_table := t'\<rparr>)"
      by (cases okay; rule collection_ok_table [OF assms t'(1)]) (simp_all add: t' comp_def)
    moreover have "abstraction env (m\<lparr>coll_table := t'\<rparr>) =
        on_iterators (put_entry ?e (entries (map_ops env) (coll_table m)))
          ((abstraction env m)\<lparr>am_entries := put_entry ?e (entries (map_ops env) (coll_table m)) (entries (map_ops env) (coll_table m))\<rparr>)" if okay
      by (rule abstraction_table) (simp_all add: t' that)
    ultimately show ?thesis
      using True Some k(1) put t'(2) assms
      by (cases okay) (auto simp: map_set_def Let_def intro!: refinesI refines_throw)
  qed (use Some assms in \<open>simp add: map_set_def refines_throw\<close>)
qed (use assms in \<open>simp add: map_set_def refines_throw\<close>)


lemma map_of_entries: "distinct_keys (map_ops env) es \<Longrightarrow> map_of es k = map_option snd (List.find (matches (map_ops env) k) es)"
  by (induction es) (auto simp: distinct_keys_def split: prod.splits)

lemma get_refines:
  assumes "collection_ok (map_ops env) m"
  shows "refines env (MapGet args) m (map_step env mem (MapGet args) m)"
proof (cases "setValue (atomize_ok mem) (arg_get args 0)")
  case (Some k)
  have k: "k = the_key args" "k \<noteq> JS_HASH_KEY_EMPTY" using the_key(2) Some by auto
  have ok: "table_ok (map_ops env) (coll_table m)" using assms by (simp add: collection_ok_def table_wf_def)
  have "get (map_ops env) k (coll_table m) = Some (List.find (matches (map_ops env) k) (entries (map_ops env) (coll_table m)))"
    by (rule mp.get_list [OF ok]) (simp add: k(2))
  moreover have "map_of (entries (map_ops env) (coll_table m)) k =
      map_option snd (List.find (matches (map_ops env) k) (entries (map_ops env) (coll_table m)))"
    by (rule map_of_entries) (use ok in \<open>simp add: table_ok_def\<close>)
  ultimately show ?thesis
    using Some assms k(1) by (auto simp: map_get_def intro!: refinesI split: option.split)
qed (use assms in \<open>simp add: map_get_def refines_throw\<close>)

lemma has_refines:
  assumes "collection_ok (map_ops env) m"
  shows "refines env (MapHas args) m (map_step env mem (MapHas args) m)"
proof (cases "setValue (atomize_ok mem) (arg_get args 0)")
  case (Some k)
  have k: "k = the_key args" "k \<noteq> JS_HASH_KEY_EMPTY" using the_key(2) Some by auto
  have "table_ok (map_ops env) (coll_table m)" using assms by (simp add: collection_ok_def table_wf_def)
  from mp.has_list [OF this, of k]
  have "has (map_ops env) k (coll_table m) = Some (k \<in> fst ` set (entries (map_ops env) (coll_table m)))"
    using k(2) by (auto simp: image_iff)
  then show ?thesis using Some assms k(1) by (simp add: map_has_def refinesI)
qed (use assms in \<open>simp add: map_has_def refines_throw\<close>)

lemma clear_refines:
  assumes "collection_ok (map_ops env) m"
  shows "refines env MapClear m (map_step env mem MapClear m)"
proof -
  note wf = collection_ok_wf [OF assms]
  obtain okay t' where clear: "clear (table_allocs mem) (coll_table m) = (okay, t')"
    and t': "table_wf (map_ops env) t'" "\<not> okay \<Longrightarrow> t' = coll_table m" "okay \<Longrightarrow> entries (map_ops env) t' = []"
      "okay \<Longrightarrow> walks (map_ops env) t' = map (apsnd (\<lambda>es. [])) (walks (map_ops env) (coll_table m))"
    using clear_list [OF wf, of "table_allocs mem"] by blast
  have "collection_ok (map_ops env) (m\<lparr>coll_table := t'\<rparr>)"
    by (cases okay; rule collection_ok_table [OF assms t'(1)]) (simp_all add: t' comp_def)
  moreover have "abstraction env (m\<lparr>coll_table := t'\<rparr>) = on_iterators (\<lambda>es. []) ((abstraction env m)\<lparr>am_entries := []\<rparr>)" if okay
    by (rule abstraction_table) (simp_all add: t' that)
  ultimately show ?thesis
    using clear t'(2) by (cases okay) (auto simp: map_clear_def Let_def intro!: refinesI refines_throw)
qed

lemma size_refines: "collection_ok (map_ops env) m \<Longrightarrow> refines env MapSize m (map_step env mem MapSize m)"
  by (auto intro!: refinesI simp: map_size_def collection_ok_def table_wf_def table_ok_def)

lemma delete_refines:
  assumes "collection_ok (map_ops env) m"
  shows "refines env (MapDelete args) m (map_step env mem (MapDelete args) m)"
proof (cases "arg0_key mem args")
  case (Some k)
  have k: "k = the_key args" "k \<noteq> JS_HASH_KEY_EMPTY" using the_key(1) Some by auto
  obtain okay t' where rem: "remove (map_ops env) (table_allocs mem) k (coll_table m) =
      Some (okay, k \<in> fst ` set (entries (map_ops env) (coll_table m)), t')"
    and t': "table_wf (map_ops env) t'" "entries (map_ops env) t' = drop_entry k (entries (map_ops env) (coll_table m))"
      "walks (map_ops env) t' = map (apsnd (drop_entry k)) (walks (map_ops env) (coll_table m))"
    using map_remove [OF collection_ok_wf [OF assms] k(2), of "table_allocs mem"] by blast
  have ok: "collection_ok (map_ops env) (m\<lparr>coll_table := t'\<rparr>)"
    by (rule collection_ok_table [OF assms t'(1)]) (simp add: t' comp_def)
  have "abstraction env (m\<lparr>coll_table := t'\<rparr>) =
      on_iterators (drop_entry k) ((abstraction env m)\<lparr>am_entries := drop_entry k (entries (map_ops env) (coll_table m))\<rparr>)"
    by (rule abstraction_table) (simp_all add: t')
  then have "abstract_step (MapDelete args) (abstraction env m) =
      (Answer (Boolean (k \<in> fst ` set (entries (map_ops env) (coll_table m)))), abstraction env (m\<lparr>coll_table := t'\<rparr>))"
    using k(1) by (simp add: Let_def)
  then show ?thesis
    using ok rem Some by (cases okay) (simp_all add: map_delete_def refines_def)
qed (use assms in \<open>simp add: map_delete_def refines_throw\<close>)

lemma abstraction_iterators [simp]:
  "am_iterators (abstraction env m) =
     map (\<lambda>(rid, it). (rid, it_kind it, map_of (walks (map_ops env) (coll_table m)) rid)) (iterators m)"
  by (simp add: abstraction_def)

lemma iterate_refines:
  assumes ok: "collection_ok (map_ops env) m" and new: "rid \<notin> fst ` set (iterators m)"
  shows "refines env (MapIterate rid kind) m (map_step env mem (MapIterate rid kind) m)"
proof (cases "range_alloc mem")
  case True
  note wf = collection_ok_wf [OF ok]
  let ?t = "all_range (map_ops env) rid (coll_table m)" and ?old = "coll_table m"
  have new': "rid \<notin> fst ` set (ranges ?old)" using new fst_ranges_iterators [OF ok] by blast
  note t = all_range_list [OF wf new']
  show ?thesis
  proof (cases "object_alloc mem")
    case True
    let ?m = "m\<lparr>coll_table := ?t, iterators := (rid, \<lparr>it_range = True, it_kind = kind\<rparr>) # iterators m\<rparr>"
    have rs: "fst ` set (ranges ?t) = insert rid (fst ` set (ranges ?old))" by (simp add: all_range_def)
    have "collection_ok (map_ops env) ?m"
      using ok new t rs by (auto simp: collection_ok_def)
    moreover have "abstraction env ?m =
        (abstraction env m)\<lparr>am_iterators := (rid, kind, Some (entries (map_ops env) ?old)) # am_iterators (abstraction env m)\<rparr>"
      using t new by (force simp: abstraction_def)
    ultimately show ?thesis
      using True \<open>range_alloc mem\<close> by (auto simp: map_iterator_def Let_def intro!: refinesI)
  next
    case False
    note d = destroy_range_list [of "map_ops env" ?t rid]
    have "rid \<notin> fst ` set (walks (map_ops env) ?old)" using new' by (metis list.set_map map_fst_walks)
    then have w: "walks (map_ops env) (destroy_range rid ?t) = walks (map_ops env) ?old"
      using t d by (auto intro!: filter_True simp: image_iff)
    have "collection_ok (map_ops env) (m\<lparr>coll_table := destroy_range rid ?t\<rparr>)"
      by (rule collection_ok_table [OF ok]) (use t d w in auto)
    moreover have "abstraction env (m\<lparr>coll_table := destroy_range rid ?t\<rparr>) = abstraction env m"
      using t d w by (simp add: abstraction_def)
    ultimately show ?thesis
      using False \<open>range_alloc mem\<close> by (simp add: map_iterator_def Let_def refines_throw)
  qed
qed (use ok in \<open>simp add: map_iterator_def refines_throw\<close>)


lemma abstraction_set_walk:
  assumes "entries (map_ops env) (coll_table m') = entries (map_ops env) (coll_table m)"
    and kinds: "map (apsnd it_kind) (iterators m') = map (apsnd it_kind) (iterators m)"
    and walk: "\<And>r. map_of (walks (map_ops env) (coll_table m')) r =
      (if r = rid then w else map_of (walks (map_ops env) (coll_table m)) r)"
  shows "abstraction env m' = set_walk rid w (abstraction env m)"
proof -
  have its: "map (\<lambda>(r, it). (r, it_kind it, W r)) xs = map (\<lambda>(r, k). (r, k, W r)) (map (apsnd it_kind) xs)"
    for W and xs :: "(nat \<times> iterator) list"
    by (simp add: case_prod_unfold)
  have "am_iterators (abstraction env m') = am_iterators (set_walk rid w (abstraction env m))"
    unfolding abstraction_iterators set_walk_def its [of _ "iterators m'"] kinds
    by (simp add: walk case_prod_unfold)
  then show ?thesis using assms(1) by (simp add: abstraction_def set_walk_def)
qed

lemma map_of_abstraction:
  "map_of (map (\<lambda>(r, it). (r, k it, W r)) its) rid = map_option (\<lambda>it. (k it, W rid)) (map_of its rid)"
  by (induction its) auto

lemma map_of_without: "map_of (filter (\<lambda>(r, x). r \<noteq> rid) xs) r = (if r = rid then None else map_of xs r)"
  by (induction xs) auto

lemma drop_range_ok:
  assumes ok: "collection_ok ops m" and it: "map_of (iterators m) rid = Some it"
  shows "collection_ok ops (drop_range rid it m)"
proof -
  note d = destroy_range_list [OF collection_ok_wf [OF ok], of rid]
  have fsts: "map fst (iterators (drop_range rid it m)) = map fst (iterators m)"
    by (simp add: drop_range_def set_iterator_def comp_def case_prod_unfold)
  have "fst ` set (filter (\<lambda>(r, i). it_range i) (iterators (drop_range rid it m))) =
      fst ` set (filter (\<lambda>(r, i). it_range i) (iterators m)) - {rid}"
    by (force simp: drop_range_def set_iterator_def split: if_splits)
  moreover have "fst ` set (ranges (coll_table (drop_range rid it m))) = fst ` set (ranges (coll_table m)) - {rid}"
    by (force simp: drop_range_def set_iterator_def destroy_range_def)
  moreover have "table_wf ops (coll_table (drop_range rid it m))" using d by (simp add: drop_range_def set_iterator_def)
  ultimately show ?thesis using ok unfolding collection_ok_def fsts by simp
qed

lemma next_refines:
  assumes ok: "collection_ok (map_ops env) m" and known: "rid \<in> fst ` set (iterators m)"
  shows "refines env (MapNext rid) m (map_step env mem (MapNext rid) m)"
proof -
  note wf = collection_ok_wf [OF ok]
  let ?t = "coll_table m"
  obtain it where it: "map_of (iterators m) rid = Some it" using known by (metis map_of_eq_None_iff not_None_eq)
  let ?w = "map_of (walks (map_ops env) ?t) rid"
  have walk: "map_of (am_iterators (abstraction env m)) rid = Some (it_kind it, ?w)"
    using it by (simp add: map_of_abstraction)
  show ?thesis
  proof (cases "it_range it")
    case False
    then have none: "?w = None" using iterator_walk [OF ok it] by auto
    have "abstraction env m = set_walk rid None (abstraction env m)"
      by (rule abstraction_set_walk) (simp_all add: none)
    then show ?thesis using ok it False walk none by (auto simp: map_next_def intro!: refinesI)
  next
    case True
    then obtain es where es: "?w = Some es" using iterator_walk [OF ok it] by auto
    have empty: "range_empty rid ?t = Some (es = [])" using range_empty_list [OF wf] es by simp
    show ?thesis
    proof (cases es)
      case Nil
      note d = destroy_range_list [OF wf, of rid]
      have same: "it' = it" if "(rid, it') \<in> set (iterators m)" for it'
        using ok it that by (simp add: collection_ok_def)
      have "abstraction env (drop_range rid it m) = set_walk rid None (abstraction env m)"
        by (rule abstraction_set_walk) (auto simp: drop_range_def set_iterator_def d map_of_without dest!: same)
      then show ?thesis
        using drop_range_ok [OF ok it] it True walk es empty Nil by (auto simp: map_next_def intro!: refinesI)
    next
      case (Cons e es')
      then have w: "?w = Some (e # es')" using es by simp
      obtain t' where pop: "popFront (map_ops env) rid ?t = Some t'" and t': "table_wf (map_ops env) t'"
          "entries (map_ops env) t' = entries (map_ops env) ?t"
          "walks (map_ops env) t' = map (\<lambda>(r, es). (r, if r = rid then es' else es)) (walks (map_ops env) ?t)"
        using popFront_list [OF wf w] by auto
      have "collection_ok (map_ops env) (m\<lparr>coll_table := t'\<rparr>)"
        by (rule collection_ok_table [OF ok t'(1)]) (simp add: t'(3) comp_def case_prod_unfold)
      moreover have "abstraction env (m\<lparr>coll_table := t'\<rparr>) = set_walk rid (Some es') (abstraction env m)"
        by (rule abstraction_set_walk) (simp_all add: t' map_of_update w)
      moreover have "e \<in> set (entries (map_ops env) ?t)"
        using walks_in_entries map_of_SomeD [OF w] by fastforce
      then have "fst e \<noteq> JS_HASH_KEY_EMPTY" by (auto simp: entries_def in_use_def is_empty_def)
      then obtain v where "key_value (fst e) = Some v" by (cases "fst e") auto
      ultimately show ?thesis
        using it True walk w empty Cons pop range_front_list [OF wf w]
        by (auto simp: map_next_def pair_of_def intro!: refinesI split: IteratorKind.split)
    qed
  qed
qed


lemma create_ok:
  assumes "create mem = Some m"
  shows "collection_ok ops m \<and> entries ops (coll_table m) = [] \<and> iterators m = []"
proof -
  obtain t where "init (table_allocs mem) new_table = (True, t)" "m = \<lparr>coll_table = t, iterators = []\<rparr>"
    using assms by (auto simp: create_def split: prod.splits if_splits)
  moreover from this(1) have "ranges t = []" using init_wf [of "table_allocs mem" new_table t ops] by (simp add: new_table_def)
  ultimately show ?thesis using init_new [of "table_allocs mem" t ops] by (simp add: collection_ok_def)
qed

lemma step_refines: "collection_ok (map_ops env) m \<Longrightarrow> call_ok call m \<Longrightarrow> refines env call m (map_step env mem call m)"
  by (cases call)
    (simp_all del: map_step.simps
      add: set_refines get_refines has_refines delete_refines clear_refines size_refines iterate_refines next_refines)

definition empty_map :: abstract_map where
  "empty_map = \<lparr>am_entries = [], am_iterators = []\<rparr>"

text \<open>A memory in which nothing fails, and one in which a table cannot be allocated.\<close>

definition plenty :: memory where
  "plenty = \<lparr>atomize_ok = True, barrier_ok = True, table_alloc = True, vector_alloc = True, range_alloc = True, object_alloc = True\<rparr>"

definition env0 :: hash_env where
  "env0 = \<lparr>hcs_k0 = 0, hcs_k1 = 0, symbol_hash = of_nat, object_address = of_nat\<rparr>"

lemma create_plenty: "\<exists>m :: 'e collection. create plenty = Some m"
  by (simp add: create_def plenty_def init_def table_allocs_def pod_malloc_buckets_def initialBuckets_def initialBucketsLog2_def Let_def)

text \<open>
  C19. Every call on a \<open>Map\<close> is defined and keeps the well-formedness of its table and iterators, and it does what
  the call does on the list of entries in insertion order and on the walks of the iterators, which see what is
  inserted, lose what is deleted and start empty again when the map is cleared, whatever the table does with its
  chains, its growing, shrinking and compacting. A call that runs out of memory changes nothing, except that
  a \<open>delete\<close> may have deleted the entry.
\<close>

theorem map_refines:
  assumes "collection_ok (map_ops env) m" and "call_ok call m"
  shows "\<exists>ans m'. map_step env mem call m = Some (ans, m') \<and> collection_ok (map_ops env) m' \<and>
    (abstract_step call (abstraction env m) = (ans, abstraction env m') \<or>
     ans = Threw \<and> (abstraction env m' = abstraction env m \<or>
       (\<exists>args. call = MapDelete args) \<and> abstraction env m' = snd (abstract_step call (abstraction env m))))"
  using step_refines [OF assms] by (simp add: refines_def)

theorem map_refines_witness:
  "\<exists>m ans m'. create plenty = Some m \<and> map_step env0 plenty (MapSet Null [Number (DInt 1), Null]) m = Some (ans, m') \<and>
    collection_ok (map_ops env0) m'"
proof -
  obtain m :: map_object where m: "create plenty = Some m" using create_plenty by blast
  then have "collection_ok (map_ops env0) m" using create_ok by blast
  from map_refines [OF this, of "MapSet Null [Number (DInt 1), Null]" plenty] m show ?thesis by auto
qed

text \<open>A script calls until a call throws; an iterator is a new one, or one that the script has made.\<close>

fun script_ok :: "nat list \<Rightarrow> (memory \<times> map_call) list \<Rightarrow> bool" where
  "script_ok its [] = True"
| "script_ok its ((mem, MapIterate rid kind) # cs) = (rid \<notin> set its \<and> script_ok (rid # its) cs)"
| "script_ok its ((mem, MapNext rid) # cs) = (rid \<in> set its \<and> script_ok its cs)"
| "script_ok its (c # cs) = script_ok its cs"

fun map_run :: "hash_env \<Rightarrow> (memory \<times> map_call) list \<Rightarrow> map_object \<Rightarrow> (map_answer list \<times> map_object) option" where
  "map_run env [] m = Some ([], m)"
| "map_run env ((mem, call) # cs) m =
     do { (ans, m) \<leftarrow> map_step env mem call m;
          if ans = Threw then Some ([Threw], m)
          else do { (anss, m) \<leftarrow> map_run env cs m; Some (ans # anss, m) } }"

fun abstract_run :: "(memory \<times> map_call) list \<Rightarrow> abstract_map \<Rightarrow> map_answer list" where
  "abstract_run [] a = []"
| "abstract_run ((mem, call) # cs) a = (let (ans, a) = abstract_step call a in ans # abstract_run cs a)"

text \<open>The iterators after a call.\<close>

lemma abstract_step_iterators:
  "map fst (am_iterators (snd (abstract_step call a))) =
     (case call of MapIterate rid kind \<Rightarrow> rid # map fst (am_iterators a) | _ \<Rightarrow> map fst (am_iterators a))"
  by (cases call) (auto simp: Let_def on_iterators_def set_walk_def comp_def case_prod_unfold split: option.split list.split)

lemma abstraction_its: "map fst (am_iterators (abstraction env m)) = map fst (iterators m)"
  by (simp add: comp_def case_prod_unfold)

lemma run_refines:
  assumes "collection_ok (map_ops env) m" and "script_ok (map fst (iterators m)) cs"
  shows "\<exists>anss m'. map_run env cs m = Some (anss, m') \<and> collection_ok (map_ops env) m' \<and>
    (anss = abstract_run cs (abstraction env m) \<or>
     (\<exists>before_it. anss = before_it @ [Threw] \<and> strict_prefix before_it (abstract_run cs (abstraction env m))))"
  using assms
proof (induction cs arbitrary: m)
  case Nil
  then show ?case by simp
next
  case (Cons c cs)
  obtain mem call where c: "c = (mem, call)" by (cases c)
  have "call_ok call m" using Cons.prems(2) c by (cases call) auto
  from step_refines [OF Cons.prems(1) this, of mem] obtain ans m' where step: "map_step env mem call m = Some (ans, m')"
    and ok: "collection_ok (map_ops env) m'"
    and abs: "ans \<noteq> Threw \<Longrightarrow> abstract_step call (abstraction env m) = (ans, abstraction env m')"
    by (auto simp: refines_def)
  obtain ans1 a1 where abs1: "abstract_step call (abstraction env m) = (ans1, a1)" by fastforce
  show ?case
  proof (cases "ans = Threw")
    case True
    then show ?thesis using step ok c by (simp add: abs1)
  next
    case False
    have "map fst (iterators m') = (case call of MapIterate rid kind \<Rightarrow> rid # map fst (iterators m) | _ \<Rightarrow> map fst (iterators m))"
      using abstract_step_iterators [of call "abstraction env m"] abs [OF False] by (simp only: snd_conv abstraction_its)
    then have "script_ok (map fst (iterators m')) cs" using Cons.prems(2) c by (cases call) auto
    from Cons.IH [OF ok this] obtain anss m'' where "map_run env cs m' = Some (anss, m'')" "collection_ok (map_ops env) m''"
        "anss = abstract_run cs (abstraction env m') \<or>
         (\<exists>before_it. anss = before_it @ [Threw] \<and> strict_prefix before_it (abstract_run cs (abstraction env m')))" by blast
    moreover have "ans # anss = abstract_run (c # cs) (abstraction env m) \<or>
         (\<exists>before_it. ans # anss = before_it @ [Threw] \<and> strict_prefix before_it (abstract_run (c # cs) (abstraction env m)))"
      if "anss = abstract_run cs (abstraction env m') \<or>
         (\<exists>before_it. anss = before_it @ [Threw] \<and> strict_prefix before_it (abstract_run cs (abstraction env m')))"
      using that
    proof
      assume "\<exists>before_it. anss = before_it @ [Threw] \<and> strict_prefix before_it (abstract_run cs (abstraction env m'))"
      then obtain before_it where "anss = before_it @ [Threw]" "strict_prefix before_it (abstract_run cs (abstraction env m'))" by blast
      then show ?thesis using c abs [OF False] by (intro disjI2 exI [of _ "ans # before_it"]) simp
    qed (simp add: c abs [OF False])
    ultimately show ?thesis using step False c by simp
  qed
qed


text \<open>
  C18. A script that makes a \<open>Map\<close> and calls it, with any number of iterators that run while it changes, gets the answers
  of the list of entries in insertion order, in every memory, up to the first call that throws; none of its calls
  reads or writes past the table, follows a null link or loops.
\<close>

theorem map_scripts:
  assumes "create mem = Some m" and "script_ok [] cs"
  shows "\<exists>anss m'. map_run env cs m = Some (anss, m') \<and> collection_ok (map_ops env) m' \<and>
    (anss = abstract_run cs empty_map \<or>
     (\<exists>before_it. anss = before_it @ [Threw] \<and> strict_prefix before_it (abstract_run cs empty_map)))"
proof -
  have m: "collection_ok (map_ops env) m" "abstraction env m = empty_map" "iterators m = []"
    using create_ok [OF assms(1), of "map_ops env"] by (simp_all add: abstraction_def empty_map_def)
  show ?thesis using run_refines [OF m(1)] assms(2) by (simp add: m(2,3))
qed

theorem map_scripts_witness:
  "\<exists>m. create plenty = Some m \<and>
    (let key = Number (DBits sign_bit); cs = map (\<lambda>call. (plenty, call)) [MapSet Null [key, Null], MapIterate 0 Keys, MapHas [Number (DInt 0)],
           MapNext 0, MapDelete [key], MapNext 0]
     in (\<exists>anss m'. map_run env0 cs m = Some (anss, m')) \<and>
        abstract_run cs empty_map =
          [Answer Null, Iterator, Answer (Boolean True), NextPair (Number (DInt 0), Null), Answer (Boolean True), Ended])"
proof -
  obtain m :: map_object where m: "create plenty = Some m" using create_plenty by blast
  let ?key = "Number (DBits sign_bit)"
  have "script_ok [] (map (\<lambda>call. (plenty, call)) [MapSet Null [?key, Null], MapIterate 0 Keys, MapHas [Number (DInt 0)],
           MapNext 0, MapDelete [?key], MapNext 0])" by simp
  note run = map_scripts [OF m this, of env0]
  have "abstract_run (map (\<lambda>call. (plenty, call)) [MapSet Null [?key, Null], MapIterate 0 Keys, MapHas [Number (DInt 0)],
           MapNext 0, MapDelete [?key], MapNext 0]) empty_map =
      [Answer Null, Iterator, Answer (Boolean True), NextPair (Number (DInt 0), Null), Answer (Boolean True), Ended]"
    by code_simp
  with run m show ?thesis unfolding Let_def by blast
qed


section \<open>A deletion that throws\<close>

lemma rehash_no_memory: "newHashShift \<noteq> hashShift t \<Longrightarrow> rehash ops (False, v) newHashShift t = Some (False, t)"
  by (simp add: rehash_def Let_def pod_malloc_buckets_def)

text \<open>Six entries, and four deleted: one more deletion shrinks the table.\<close>

definition sparse_calls :: "map_call list" where
  "sparse_calls = map (\<lambda>i. MapSet Null [Number (DInt i), Null]) [1, 2, 3, 4, 5, 6] @ map (\<lambda>i. MapDelete [Number (DInt i)]) [1, 2, 3, 4]"

definition sparse_map :: map_object where
  "sparse_map = snd (the (map_run env0 (map (\<lambda>call. (plenty, call)) sparse_calls) (the (create plenty))))"

lemma sparse_map_ok: "collection_ok (map_ops env0) sparse_map"
proof -
  obtain m :: map_object where m: "create plenty = Some m" using create_plenty by blast
  have "script_ok (map fst (iterators m)) (map (\<lambda>call. (plenty, call)) sparse_calls)"
    by (simp add: sparse_calls_def)
  then show ?thesis
    using run_refines [of env0 m "map (\<lambda>call. (plenty, call)) sparse_calls"] create_ok [OF m, of "map_ops env0"] m
    by (auto simp: sparse_map_def)
qed

text \<open>
  When the table is to shrink after a deletion and the smaller one cannot be allocated,
  \<open>Map.prototype.delete\<close> throws although the entry is gone, for the map and for every iterator.
\<close>

theorem delete_throws:
  assumes ok: "collection_ok (map_ops env) m" and key: "arg0_key mem args = Some k"
    and present: "k \<in> fst ` set (entries (map_ops env) (coll_table m))"
    and sparse: "initialBuckets < hashBuckets (coll_table m)" "(liveCount (coll_table m) - 1) * 4 < length (data (coll_table m))"
    and memory: "\<not> table_alloc mem"
  shows "\<exists>m'. map_delete env mem args m = Some (None, m') \<and>
    abstraction env m' = snd (abstract_step (MapDelete args) (abstraction env m))"
proof -
  have k: "k \<noteq> JS_HASH_KEY_EMPTY" "k = the_key args" using key the_key(1) by auto
  obtain okay t' where rem: "remove (map_ops env) (table_allocs mem) k (coll_table m) = Some (okay, True, t')"
      and t': "entries (map_ops env) t' = drop_entry k (entries (map_ops env) (coll_table m))"
        "walks (map_ops env) t' = map (apsnd (drop_entry k)) (walks (map_ops env) (coll_table m))"
    using map_remove [OF collection_ok_wf [OF ok] k(1), of "table_allocs mem"] present by auto
  have "\<not> okay"
    using rem sparse memory
    by (auto simp: remove_def Let_def bind_eq_Some_conv hashBuckets_def for_ranges_def table_allocs_def rehash_no_memory split: option.splits)
  moreover have "abstraction env (m\<lparr>coll_table := t'\<rparr>) =
      on_iterators (drop_entry k) ((abstraction env m)\<lparr>am_entries := drop_entry k (entries (map_ops env) (coll_table m))\<rparr>)"
    by (rule abstraction_table) (simp_all add: t')
  ultimately show ?thesis using rem key by (simp add: map_delete_def k(2) Let_def)
qed

theorem delete_throws_witness:
  "\<exists>m'. map_delete env0 (plenty\<lparr>table_alloc := False\<rparr>) [Number (DInt 5)] sparse_map = Some (None, m') \<and>
    am_entries (abstraction env0 m') = [(HKey (Number (DInt 6)), Null)]"
proof -
  have key: "arg0_key (plenty\<lparr>table_alloc := False\<rparr>) [Number (DInt 5)] = Some (HKey (Number (DInt 5)))" by code_simp
  have es: "entries (map_ops env0) (coll_table sparse_map) = [(HKey (Number (DInt 5)), Null), (HKey (Number (DInt 6)), Null)]"
    by code_simp
  have sparse: "initialBuckets < hashBuckets (coll_table sparse_map)"
      "(liveCount (coll_table sparse_map) - 1) * 4 < length (data (coll_table sparse_map))"
    by code_simp+
  have "the_key [Number (DInt 5)] = HKey (Number (DInt 5))" by code_simp
  moreover obtain m' where m': "map_delete env0 (plenty\<lparr>table_alloc := False\<rparr>) [Number (DInt 5)] sparse_map = Some (None, m')"
      "abstraction env0 m' = snd (abstract_step (MapDelete [Number (DInt 5)]) (abstraction env0 sparse_map))"
    using delete_throws [OF sparse_map_ok key _ sparse] by (auto simp: es)
  ultimately have "am_entries (abstraction env0 m') = [(HKey (Number (DInt 6)), Null)]"
    unfolding m'(2) by (simp add: es on_iterators_def Let_def drop_entry_def)
  then show ?thesis using m'(1) by blast
qed

section \<open>Sets\<close>

definition add_key :: "HashableValue \<Rightarrow> HashableValue list \<Rightarrow> HashableValue list" where
  "add_key k es = (if k \<in> set es then es else es @ [k])"

abbreviation set_entries :: "hash_env \<Rightarrow> set_object \<Rightarrow> HashableValue list" where
  "set_entries env s \<equiv> entries (set_ops env) (coll_table s)"

abbreviation set_walks :: "hash_env \<Rightarrow> set_object \<Rightarrow> (nat \<times> HashableValue list) list" where
  "set_walks env s \<equiv> walks (set_ops env) (coll_table s)"

lemma set_put:
  assumes "table_wf (set_ops env) t" and "k \<noteq> JS_HASH_KEY_EMPTY"
  shows "\<exists>okay t'. put (set_ops env) ok k t = Some (okay, t') \<and> table_wf (set_ops env) t' \<and> (\<not> okay \<longrightarrow> t' = t) \<and>
    (okay \<longrightarrow> entries (set_ops env) t' = add_key k (entries (set_ops env) t) \<and>
      walks (set_ops env) t' = map (apsnd (\<lambda>es. if k \<in> set (entries (set_ops env) t) then es else es @ [k])) (walks (set_ops env) t))"
proof -
  have replace: "replace (set_ops env) k es = es" for es by (auto simp: replace_def intro: map_idI)
  have "list_put (set_ops env) k es = add_key k es" for es by (auto simp: list_put_def add_key_def replace)
  moreover have "(if list_has (set_ops env) k all then replace (set_ops env) k else (\<lambda>es. es @ [k])) =
      (\<lambda>es. if k \<in> set all then es else es @ [k])" for all
    by (rule ext) (simp add: replace list_has_def)
  ultimately show ?thesis
    using st.put_list [OF assms(1), where e = k and ok = ok] assms(2) by (simp only: set_ops_simps simp_thms)
qed

lemma set_remove:
  assumes "table_wf (set_ops env) t" and "k \<noteq> JS_HASH_KEY_EMPTY"
  shows "\<exists>okay t'. remove (set_ops env) ok k t = Some (okay, k \<in> set (entries (set_ops env) t), t') \<and>
    table_wf (set_ops env) t' \<and> entries (set_ops env) t' = removeAll k (entries (set_ops env) t) \<and>
    walks (set_ops env) t' = map (apsnd (removeAll k)) (walks (set_ops env) t)"
proof -
  have "without (set_ops env) k = removeAll k" by (rule ext) (auto simp: without_def removeAll_filter_not_eq intro: filter_cong)
  moreover have "list_has (set_ops env) k es \<longleftrightarrow> k \<in> set es" for es by (auto simp: list_has_def)
  ultimately show ?thesis
    using st.remove_list [OF assms(1), where l = k and ok = ok] assms(2) by (simp only: set_ops_simps simp_thms)
qed

text \<open>
  C21. On a \<open>Set\<close>, \<open>has\<close> says whether the normalised key is an element, \<open>add\<close> leaves a set that has it as it is and
  else puts the key last, for the set and for every iterator, and changes nothing when it throws; and \<open>delete\<close> takes
  the key out of both and says whether it was there.
\<close>

theorem set_calls:
  assumes ok: "collection_ok (set_ops env) s" and key: "arg0_key mem args = Some k"
  shows "set_has env mem args s = Some (Some (Boolean (k \<in> set (set_entries env s)))) \<and>
    (\<exists>r s'. set_add env mem thisv args s = Some (r, s') \<and> collection_ok (set_ops env) s' \<and>
      (r = None \<and> s' = s \<or>
       r = Some thisv \<and> entries (set_ops env) (coll_table s') = add_key k (set_entries env s) \<and>
       walks (set_ops env) (coll_table s') = map (apsnd (\<lambda>w. if k \<in> set (set_entries env s) then w else w @ [k])) (set_walks env s))) \<and>
    (\<exists>r s'. set_delete env mem args s = Some (r, s') \<and> collection_ok (set_ops env) s' \<and>
      (r = None \<or> r = Some (Boolean (k \<in> set (set_entries env s)))) \<and> entries (set_ops env) (coll_table s') = removeAll k (set_entries env s) \<and>
      walks (set_ops env) (coll_table s') = map (apsnd (removeAll k)) (set_walks env s))"
proof (intro conjI)
  note wf = collection_ok_wf [OF ok]
  have k: "k \<noteq> JS_HASH_KEY_EMPTY" using key by auto
  have "has (set_ops env) k (coll_table s) = Some (k \<in> set (set_entries env s))"
    using st.has_list [of env "coll_table s" k] wf k by (auto simp: table_wf_def)
  then show "set_has env mem args s = Some (Some (Boolean (k \<in> set (set_entries env s))))" using key by (simp add: set_has_def)
  obtain okay t' where put: "put (set_ops env) (table_allocs mem) k (coll_table s) = Some (okay, t')" "table_wf (set_ops env) t'"
      "\<not> okay \<longrightarrow> t' = coll_table s" "okay \<longrightarrow> entries (set_ops env) t' = add_key k (set_entries env s)"
      "okay \<longrightarrow> walks (set_ops env) t' = map (apsnd (\<lambda>w. if k \<in> set (set_entries env s) then w else w @ [k])) (set_walks env s)"
    using set_put [OF wf k, of "table_allocs mem"] by (auto simp:)
  have "collection_ok (set_ops env) (s\<lparr>coll_table := t'\<rparr>)"
    by (cases okay; rule collection_ok_table [OF ok put(2)]) (simp_all add: put comp_def)
  then show "\<exists>r s'. set_add env mem thisv args s = Some (r, s') \<and> collection_ok (set_ops env) s' \<and>
      (r = None \<and> s' = s \<or>
       r = Some thisv \<and> entries (set_ops env) (coll_table s') = add_key k (set_entries env s) \<and>
       walks (set_ops env) (coll_table s') = map (apsnd (\<lambda>w. if k \<in> set (set_entries env s) then w else w @ [k])) (set_walks env s))"
    using put ok key by (cases okay) (auto simp: set_add_def)
  obtain okay t'' where rem: "remove (set_ops env) (table_allocs mem) k (coll_table s) = Some (okay, k \<in> set (set_entries env s), t'')"
      "table_wf (set_ops env) t''" "entries (set_ops env) t'' = removeAll k (set_entries env s)" "walks (set_ops env) t'' = map (apsnd (removeAll k)) (set_walks env s)"
    using set_remove [OF wf k, of "table_allocs mem"] by (auto simp:)
  have "collection_ok (set_ops env) (s\<lparr>coll_table := t''\<rparr>)"
    by (rule collection_ok_table [OF ok rem(2)]) (simp add: rem comp_def)
  then show "\<exists>r s'. set_delete env mem args s = Some (r, s') \<and> collection_ok (set_ops env) s' \<and>
      (r = None \<or> r = Some (Boolean (k \<in> set (set_entries env s)))) \<and> entries (set_ops env) (coll_table s') = removeAll k (set_entries env s) \<and>
      walks (set_ops env) (coll_table s') = map (apsnd (removeAll k)) (set_walks env s)"
    using rem key by (auto simp: set_delete_def)
qed



theorem set_calls_witness:
  "\<exists>s s'. create plenty = Some s \<and> set_add env0 plenty Null [Number (DBits sign_bit)] s = Some (Some Null, s') \<and>
    set_entries env0 s' = [HKey (Number (DInt 0))]"
proof -
  obtain s :: set_object where s: "create plenty = Some s" using create_plenty by blast
  have key: "arg0_key plenty [Number (DBits sign_bit)] = Some (HKey (Number (DInt 0)))"
    by (simp add: arg0_key_def setValue_Number)
  have c: "collection_ok (set_ops env0) s" "set_entries env0 s = []" using create_ok [OF s] by auto
  obtain r s' where add: "set_add env0 plenty Null [Number (DBits sign_bit)] s = Some (r, s')"
      "r = None \<and> s' = s \<or> r = Some Null \<and> set_entries env0 s' = add_key (HKey (Number (DInt 0))) []"
    using set_calls [OF c(1) key, of Null] c(2) by auto
  have "map_option fst (set_add env0 plenty Null [Number (DBits sign_bit)] (the (create plenty))) = Some (Some Null)"
    by code_simp
  then show ?thesis using add s by (auto simp: add_key_def)
qed

text \<open>The elements in the order of their first occurrence.\<close>

lemma fold_add_key: "fold add_key ks es = es @ rev (remdups (rev (filter (\<lambda>k. k \<notin> set es) ks)))"
  by (induction ks rule: rev_induct) (auto simp: add_key_def)

lemma construct_loop:
  assumes "collection_ok (set_ops env) s"
  shows "\<exists>okay s'. set_construct_loop env mem vs s = Some (okay, s') \<and> collection_ok (set_ops env) s' \<and>
    iterators s' = iterators s \<and>
    (okay \<longrightarrow> set_entries env s' = fold add_key (map (\<lambda>v. the (setValue True v)) vs) (set_entries env s))"
  using assms
proof (induction vs arbitrary: s)
  case (Cons v vs)
  show ?case
  proof (cases "setValue (atomize_ok mem) v")
    case None
    then show ?thesis using Cons.prems by (intro exI [of _ False]) simp
  next
    case (Some k)
    have k: "k \<noteq> JS_HASH_KEY_EMPTY" "the (setValue True v) = k"
      using Some the_key(2) [of mem "[v]" k] by (auto simp: arg_get_def the_key_def dest: setValue_key)
    obtain okay t' where put: "put (set_ops env) (table_allocs mem) k (coll_table s) = Some (okay, t')" "table_wf (set_ops env) t'"
        "\<not> okay \<longrightarrow> t' = coll_table s" "okay \<longrightarrow> entries (set_ops env) t' = add_key k (set_entries env s)"
        "okay \<longrightarrow> walks (set_ops env) t' = map (apsnd (\<lambda>w. if k \<in> set (set_entries env s) then w else w @ [k])) (set_walks env s)"
      using set_put [OF collection_ok_wf [OF Cons.prems] k(1), of "table_allocs mem"] by blast
    have ok: "collection_ok (set_ops env) (s\<lparr>coll_table := t'\<rparr>)"
      by (cases okay; rule collection_ok_table [OF Cons.prems put(2)]) (simp_all add: put comp_def)
    show ?thesis
    proof (cases "barrier_ok mem \<and> okay")
      case True
      then show ?thesis using Cons.IH [OF ok] Some k put by simp
    next
      case False
      then show ?thesis using Cons.prems Some put(1,3) ok by (cases okay) auto
    qed
  qed
qed (simp, blast)

text \<open>
  \<open>new Set(array)\<close>, on its fast path, gives a well-formed set: its elements are the normalised elements of the
  array, each once, in the order of their first occurrence, and as many as \<open>size\<close> says; or it throws.
\<close>

theorem set_constructor:
  assumes "create mem = Some s"
  shows "\<exists>okay s'. set_construct_loop env mem vs s = Some (okay, s') \<and> collection_ok (set_ops env) s' \<and>
    (okay \<longrightarrow> set_entries env s' = rev (remdups (rev (map (\<lambda>v. the (setValue True v)) vs))) \<and>
      set_size s' = card ((\<lambda>v. the (setValue True v)) ` set vs))"
proof -
  have s: "collection_ok (set_ops env) s" "set_entries env s = []" using create_ok [OF assms] by auto
  obtain okay s' where run: "set_construct_loop env mem vs s = Some (okay, s')" "collection_ok (set_ops env) s'"
      "okay \<longrightarrow> set_entries env s' = rev (remdups (rev (map (\<lambda>v. the (setValue True v)) vs)))"
    using construct_loop [OF s(1)] s(2) by (fastforce simp: fold_add_key)
  have "set_size s' = length (set_entries env s')"
    using run(2) by (simp add: set_size_def collection_ok_def table_wf_def table_ok_def)
  moreover have "length (rev (remdups (rev (map (\<lambda>v. the (setValue True v)) vs)))) = card ((\<lambda>v. the (setValue True v)) ` set vs)"
    by (simp add: length_remdups_card_conv)
  ultimately show ?thesis using run by auto
qed

theorem set_constructor_witness:
  "\<exists>s s'. create plenty = Some s \<and> set_construct_loop env0 plenty [Null, Number (DInt 0), Null, Number (DBits sign_bit)] s = Some (True, s') \<and>
    set_entries env0 s' = [HKey Null, HKey (Number (DInt 0))]"
proof -
  obtain s :: set_object where s: "create plenty = Some s" using create_plenty by blast
  let ?vs = "[Null, Number (DInt 0), Null, Number (DBits sign_bit)]"
  obtain okay s' where run: "set_construct_loop env0 plenty ?vs s = Some (okay, s')"
      "okay \<longrightarrow> set_entries env0 s' = rev (remdups (rev (map (\<lambda>v. the (setValue True v)) ?vs)))"
    using set_constructor [OF s, of env0 ?vs] by blast
  have "map_option fst (set_construct_loop env0 plenty ?vs (the (create plenty))) = Some True" by code_simp
  moreover have "rev (remdups (rev (map (\<lambda>v. the (setValue True v)) ?vs))) = [HKey Null, HKey (Number (DInt 0))]" by code_simp
  ultimately show ?thesis using run s by auto
qed

section \<open>Keys that move\<close>

text \<open>
  C22. When the collector moves the object of a key, the entry gets the new key in place, and every iterator keeps
  its position: the new key must not be one of the map's.
\<close>

theorem rekey_keeps_order:
  assumes "table_wf (map_ops env) t" and "old \<noteq> JS_HASH_KEY_EMPTY" and "new \<noteq> JS_HASH_KEY_EMPTY"
    and "old \<noteq> new" and "new \<notin> fst ` set (entries (map_ops env) t)"
  shows "\<exists>t'. rekeyOneEntry (map_ops env) old new (new, v) t = Some t' \<and> table_wf (map_ops env) t' \<and>
    entries (map_ops env) t' = map (\<lambda>e. if fst e = old then (new, v) else e) (entries (map_ops env) t) \<and>
    walks (map_ops env) t' = map (apsnd (map (\<lambda>e. if fst e = old then (new, v) else e))) (walks (map_ops env) t)"
proof -
  have "\<forall>x \<in> set (entries (map_ops env) t). matches (map_ops env) new x \<longrightarrow> matches (map_ops env) old x"
    using assms(5) by auto
  from mp.rekeyOneEntry_list [OF assms(1) _ _ _ this assms(4), of "(new, v)"] assms(2,3) show ?thesis by simp
qed

theorem rekey_keeps_order_witness:
  "\<exists>t'. rekeyOneEntry (map_ops env0) (HKey (Number (DInt 5))) (HKey (Object 1)) (HKey (Object 1), Null) (coll_table sparse_map) = Some t' \<and>
    entries (map_ops env0) t' = [(HKey (Object 1), Null), (HKey (Number (DInt 6)), Null)]"
proof -
  have es: "entries (map_ops env0) (coll_table sparse_map) = [(HKey (Number (DInt 5)), Null), (HKey (Number (DInt 6)), Null)]"
    by code_simp
  show ?thesis
    using rekey_keeps_order [OF collection_ok_wf [OF sparse_map_ok], of "HKey (Number (DInt 5))" "HKey (Object 1)" Null]
    by (auto simp: es)
qed

end
