(* ===== verification/Sort.thy ===== *)
theory Sort
  imports Prelude
begin

text \<open>
  The merge sort of \<open>ds/Sort.h\<close>, by which the engine sorts arrays and the keys of an object: insertion sort on
  chunks of three elements, then passes that merge neighbouring runs from one array into the other.

  \<^item> An array is a list, a pointer into it an index; an access past the end gives \<open>None\<close>.
  \<^item> The comparator gives \<open>None\<close> when it fails; the sort then returns false, and is \<open>None\<close> too.
  \<^item> A size is a \<open>nat\<close>: the callers have allocated twice the elements, so that doubling a run cannot wrap around.
\<close>

type_synonym 'a comparator = "'a \<Rightarrow> 'a \<Rightarrow> bool option"

text \<open>\<open>CopyNonEmptyArray(dst + d, src + s, nelems)\<close>: the test is at the end of the loop.\<close>

fun CopyNonEmptyArray :: "'a list \<Rightarrow> nat \<Rightarrow> 'a list \<Rightarrow> nat \<Rightarrow> nat \<Rightarrow> 'a list option" where
  "CopyNonEmptyArray dst d src s 0 = None"
| "CopyNonEmptyArray dst d src s (Suc n) =
     do { x \<leftarrow> rd src s;
          dst \<leftarrow> wr dst d x;
          if n = 0 then Some dst else CopyNonEmptyArray dst (d + 1) src (s + 1) n }"

text \<open>The loop of \<open>MergeArrayRuns\<close>: the arrays, \<open>a\<close>, \<open>b\<close>, the elements left in the runs and \<open>dst\<close>. It ends with
  \<open>dst\<close>, the new \<open>src\<close> and the elements left.\<close>

function merge_loop ::
  "'a comparator \<Rightarrow> 'a list \<Rightarrow> nat \<Rightarrow> nat \<Rightarrow> nat \<Rightarrow> nat \<Rightarrow> 'a list \<Rightarrow> nat \<Rightarrow> ('a list \<times> nat \<times> nat \<times> nat) option" where
  "merge_loop c src a b run1 run2 dst d =
     do { x \<leftarrow> rd src a;
          y \<leftarrow> rd src b;
          lessOrEqual \<leftarrow> c x y;
          if lessOrEqual then
            do { dst \<leftarrow> wr dst d x;
                 if run1 - 1 = 0 then Some (dst, d + 1, b, run2)
                 else merge_loop c src (a + 1) b (run1 - 1) run2 dst (d + 1) }
          else
            do { dst \<leftarrow> wr dst d y;
                 if run2 - 1 = 0 then Some (dst, d + 1, a, run1)
                 else merge_loop c src a (b + 1) run1 (run2 - 1) dst (d + 1) } }"
  by pat_completeness auto
termination
  by (relation "measure (\<lambda>(c, src, a, b, run1, run2, dst, d). run1 + run2)") auto

text \<open>\<open>MergeArrayRuns(dst + lo, src + lo, run1, run2, c)\<close>\<close>

definition MergeArrayRuns :: "'a comparator \<Rightarrow> 'a list \<Rightarrow> 'a list \<Rightarrow> nat \<Rightarrow> nat \<Rightarrow> nat \<Rightarrow> 'a list option" where
  "MergeArrayRuns c dst src lo run1 run2 =
     do { x \<leftarrow> rd src (lo + run1 - 1);
          y \<leftarrow> rd src (lo + run1);
          lessOrEqual \<leftarrow> c x y;
          (dst, d, s, n) \<leftarrow>
            (if \<not> lessOrEqual then merge_loop c src lo (lo + run1) run1 run2 dst lo
             else Some (dst, lo, lo, run1 + run2));
          CopyNonEmptyArray dst d src s n }"

definition INS_SORT_LIMIT :: nat where
  "INS_SORT_LIMIT = 3"

text \<open>The inner loop of the insertion sort, from \<open>j\<close> down to \<open>lo\<close>.\<close>

fun insert_down :: "'a comparator \<Rightarrow> nat \<Rightarrow> nat \<Rightarrow> 'a list \<Rightarrow> 'a list option" where
  "insert_down c lo 0 arr = None"
| "insert_down c lo (Suc j) arr =
     do { x \<leftarrow> rd arr j;
          y \<leftarrow> rd arr (Suc j);
          lessOrEqual \<leftarrow> c x y;
          if lessOrEqual then Some arr
          else
            do { arr \<leftarrow> wr arr j y;
                 arr \<leftarrow> wr arr (Suc j) x;
                 if j = lo then Some arr else insert_down c lo j arr } }"

fun insert_chunk :: "'a comparator \<Rightarrow> nat \<Rightarrow> nat list \<Rightarrow> 'a list \<Rightarrow> 'a list option" where
  "insert_chunk c lo [] arr = Some arr"
| "insert_chunk c lo (i # is) arr = do { arr \<leftarrow> insert_down c lo i arr; insert_chunk c lo is arr }"

function insertion_chunks :: "'a comparator \<Rightarrow> nat \<Rightarrow> nat \<Rightarrow> 'a list \<Rightarrow> 'a list option" where
  "insertion_chunks c nelems lo arr =
     (if lo < nelems then
        let hi = lo + INS_SORT_LIMIT;
            hi = (if nelems \<le> hi then nelems else hi)
        in do { arr \<leftarrow> insert_chunk c lo [lo + 1..<hi] arr;
                insertion_chunks c nelems (lo + INS_SORT_LIMIT) arr }
      else Some arr)"
  by pat_completeness auto
termination
  by (relation "measure (\<lambda>(c, nelems, lo, arr). nelems - lo)") (auto simp: INS_SORT_LIMIT_def)

text \<open>One pass: the runs of \<open>vec1\<close> merged in pairs into \<open>vec2\<close>.\<close>

function merge_pass :: "'a comparator \<Rightarrow> nat \<Rightarrow> nat \<Rightarrow> nat \<Rightarrow> 'a list \<Rightarrow> 'a list \<Rightarrow> 'a list option" where
  "merge_pass c nelems run lo vec1 vec2 =
     (if run = 0 then None
      else if lo < nelems then
        let hi = lo + run
        in if nelems \<le> hi then CopyNonEmptyArray vec2 lo vec1 lo (nelems - lo)
           else
             let run2 = (if run \<le> nelems - hi then run else nelems - hi)
             in do { vec2 \<leftarrow> MergeArrayRuns c vec2 vec1 lo run run2;
                     merge_pass c nelems run (lo + 2 * run) vec1 vec2 }
      else Some vec2)"
  by pat_completeness auto
termination
  by (relation "measure (\<lambda>(c, nelems, run, lo, vec1, vec2). nelems - lo)") auto

text \<open>The passes; \<open>scratched\<close> says that \<open>vec1\<close> is the scratch array.\<close>

function merge_passes ::
  "'a comparator \<Rightarrow> nat \<Rightarrow> nat \<Rightarrow> bool \<Rightarrow> 'a list \<Rightarrow> 'a list \<Rightarrow> (bool \<times> 'a list \<times> 'a list) option" where
  "merge_passes c nelems run scratched vec1 vec2 =
     (if run = 0 then None
      else if run < nelems then
        do { vec2 \<leftarrow> merge_pass c nelems run 0 vec1 vec2;
             merge_passes c nelems (run * 2) (\<not> scratched) vec2 vec1 }
      else Some (scratched, vec1, vec2))"
  by pat_completeness auto
termination
  by (relation "measure (\<lambda>(c, nelems, run, s, vec1, vec2). nelems - run)") auto

definition MergeSort :: "'a comparator \<Rightarrow> 'a list \<Rightarrow> nat \<Rightarrow> 'a list \<Rightarrow> 'a list option" where
  "MergeSort c array nelems scratch =
     (if nelems \<le> 1 then Some array
      else
        do { array \<leftarrow> insertion_chunks c nelems 0 array;
             (scratched, vec1, vec2) \<leftarrow> merge_passes c nelems INS_SORT_LIMIT False array scratch;
             if scratched then CopyNonEmptyArray vec2 0 vec1 0 nelems else Some vec1 })"

declare merge_loop.simps [simp del] insertion_chunks.simps [simp del] merge_pass.simps [simp del] merge_passes.simps [simp del]

end
