(* ===== verification/ArraySort.thy ===== *)
theory ArraySort
  imports Sort Doubles
begin

text \<open>
  \<open>Array.prototype.sort\<close> of \<open>jsarray.cpp\<close> on a plain array: the comparators, the sorts by cached keys, and \<open>array_sort\<close>.

  \<^item> The elements of the array are a list, \<open>None\<close> a hole. Nothing is indexed on the prototypes.
  \<^item> Conversions to strings and numbers may run script code, and are parameters; they give \<open>None\<close> when they throw.
    They are assumed not to change the array.
  \<^item> \<open>isInt32\<close> is asked of the value: an integral double in the range counts. Either path sorts it the same way.
  \<^item> \<open>toString\<close> and \<open>toInt32\<close> are called on strings and integers only; elsewhere they have some value.
  \<^item> Interrupts are not modelled.
\<close>

section \<open>Comparing strings\<close>

text \<open>\<open>CompareChars\<close>: the first difference, or that of the lengths, which fits since a string has less than \<open>2\<^sup>2\<^sup>8\<close> units.\<close>

fun CompareChars :: "u16 list \<Rightarrow> u16 list \<Rightarrow> int" where
  "CompareChars (c1 # s1) (c2 # s2) =
     (let cmp = uint c1 - uint c2 in if cmp \<noteq> 0 then cmp else CompareChars s1 s2)"
| "CompareChars s1 s2 = int (length s1) - int (length s2)"

fun toString :: "jsval \<Rightarrow> u16 list" where
  "toString (Str s) = s"
| "toString v = []"

definition CompareStringValues :: "jsval \<Rightarrow> jsval \<Rightarrow> bool option" where
  "CompareStringValues a b = Some (CompareChars (toString a) (toString b) \<le> 0)"

definition CompareSubStringValues :: "u16 list \<Rightarrow> u16 list \<Rightarrow> bool option" where
  "CompareSubStringValues s1 s2 = Some (CompareChars s1 s2 \<le> 0)"

section \<open>Comparing integers as strings\<close>

definition powersOf10 :: "u64 list" where
  "powersOf10 =
     [1, 10, 100, 1000, 10000, 100000, 1000000, 10000000, 100000000, 1000000000, 1000000000000]"

definition CountLeadingZeroes32 :: "u32 \<Rightarrow> nat" where
  "CountLeadingZeroes32 n = length (takeWhile (\<lambda>i. \<not> bit n i) (rev [0..<32]))"

definition CeilingLog2 :: "u32 \<Rightarrow> nat" where
  "CeilingLog2 n = (if n \<le> 1 then 0 else 32 - CountLeadingZeroes32 (n - 1))"

text \<open>The subtraction may go below zero before one is added, for zero.\<close>

definition NumDigitsBase10 :: "u32 \<Rightarrow> nat" where
  "NumDigitsBase10 n =
     (let log2 = CeilingLog2 n;
          t = log2 * 1233 div 2 ^ 12
      in nat (int t - (if ucast n < powersOf10 ! t then 1 else 0) + 1))"

definition CompareLexicographicInt32 :: "int \<Rightarrow> int \<Rightarrow> bool option" where
  "CompareLexicographicInt32 aint bint =
     (if aint = bint then Some True
      else if aint < 0 \<and> 0 \<le> bint then Some True
      else if 0 \<le> aint \<and> bint < 0 then Some False
      else
        let auint = word_of_int \<bar>aint\<bar> :: u32;
            buint = word_of_int \<bar>bint\<bar> :: u32;
            digitsa = NumDigitsBase10 auint;
            digitsb = NumDigitsBase10 buint
        in if digitsa = digitsb then Some (auint \<le> buint)
           else if digitsb < digitsa then
             Some ((ucast auint :: u64) < ucast buint * powersOf10 ! (digitsa - digitsb))
           else Some (ucast auint * powersOf10 ! (digitsb - digitsa) \<le> (ucast buint :: u64)))"

fun toInt32 :: "jsval \<Rightarrow> int" where
  "toInt32 (Number (DInt i)) = i"
| "toInt32 v = 0"

fun isInt32 :: "jsval \<Rightarrow> bool" where
  "isInt32 (Number d) = dbl_fits_int32 d"
| "isInt32 v = False"

fun isString :: "jsval \<Rightarrow> bool" where
  "isString (Str s) = True"
| "isString v = False"

definition SortComparatorLexicographicInt32 :: "jsval \<Rightarrow> jsval \<Rightarrow> bool option" where
  "SortComparatorLexicographicInt32 a b = CompareLexicographicInt32 (toInt32 a) (toInt32 b)"

section \<open>Numeric comparators\<close>

datatype ComparatorMatchResult = Match_Failure | Match_None | Match_LeftMinusRight | Match_RightMinusLeft

definition ComparatorNumericLeftMinusRight :: "dbl \<Rightarrow> dbl \<Rightarrow> bool option" where
  "ComparatorNumericLeftMinusRight a b = Some (dbl_le a b)"

definition ComparatorNumericRightMinusLeft :: "dbl \<Rightarrow> dbl \<Rightarrow> bool option" where
  "ComparatorNumericRightMinusLeft a b = Some (dbl_le b a)"

text \<open>The tables of comparators; the first two entries are null.\<close>

fun SortComparatorNumerics :: "ComparatorMatchResult \<Rightarrow> dbl \<Rightarrow> dbl \<Rightarrow> bool option" where
  "SortComparatorNumerics Match_LeftMinusRight a b = ComparatorNumericLeftMinusRight a b"
| "SortComparatorNumerics Match_RightMinusLeft a b = ComparatorNumericRightMinusLeft a b"
| "SortComparatorNumerics _ a b = None"

definition ComparatorInt32LeftMinusRight :: "jsval \<Rightarrow> jsval \<Rightarrow> bool option" where
  "ComparatorInt32LeftMinusRight a b = Some (toInt32 a \<le> toInt32 b)"

definition ComparatorInt32RightMinusLeft :: "jsval \<Rightarrow> jsval \<Rightarrow> bool option" where
  "ComparatorInt32RightMinusLeft a b = Some (toInt32 b \<le> toInt32 a)"

fun SortComparatorInt32s :: "ComparatorMatchResult \<Rightarrow> jsval \<Rightarrow> jsval \<Rightarrow> bool option" where
  "SortComparatorInt32s Match_LeftMinusRight a b = ComparatorInt32LeftMinusRight a b"
| "SortComparatorInt32s Match_RightMinusLeft a b = ComparatorInt32RightMinusLeft a b"
| "SortComparatorInt32s _ a b = None"

text \<open>
  A compare function: a scripted one, with its bytecode unless its script cannot be made, or any other object.
\<close>

datatype compare_fun = Scripted bool "u8 list option" | OtherCallable

definition JSOP_RETURN :: u8 where "JSOP_RETURN = 5"
definition JSOP_SUB :: u8 where "JSOP_SUB = 28"
definition JSOP_GETARG :: u8 where "JSOP_GETARG = 84"

definition JSOP_GETARG_LENGTH :: nat where "JSOP_GETARG_LENGTH = 3"
definition JSOP_SUB_LENGTH :: nat where "JSOP_SUB_LENGTH = 1"

definition GET_ARGNO :: "u8 list \<Rightarrow> nat \<Rightarrow> u16" where
  "GET_ARGNO code pc = push_bit 8 (ucast (code ! (pc + 1))) OR ucast (code ! (pc + 2))"

text \<open>\<open>Match_None\<close> for a byte past the end too: the bytecode of a function ends with \<open>JSOP_RETRVAL\<close>.\<close>

definition MatchNumericComparator :: "compare_fun option \<Rightarrow> ComparatorMatchResult" where
  "MatchNumericComparator fval =
     (case fval of
        None \<Rightarrow> Match_None
      | Some OtherCallable \<Rightarrow> Match_None
      | Some (Scripted isClassConstructor script) \<Rightarrow>
          if isClassConstructor then Match_None
          else
            case script of
              None \<Rightarrow> Match_Failure
            | Some code \<Rightarrow>
                let op_at = (\<lambda>pc op. pc < length code \<and> code ! pc = op);
                    pc = 0
                in if \<not> op_at pc JSOP_GETARG then Match_None
                   else
                     let arg0 = GET_ARGNO code pc; pc = pc + JSOP_GETARG_LENGTH
                     in if \<not> op_at pc JSOP_GETARG then Match_None
                        else
                          let arg1 = GET_ARGNO code pc; pc = pc + JSOP_GETARG_LENGTH
                          in if \<not> op_at pc JSOP_SUB then Match_None
                             else
                               let pc = pc + JSOP_SUB_LENGTH
                               in if \<not> op_at pc JSOP_RETURN then Match_None
                                  else if arg0 = 0 \<and> arg1 = 1 then Match_LeftMinusRight
                                  else if arg0 = 1 \<and> arg1 = 0 then Match_RightMinusLeft
                                  else Match_None)"

section \<open>Sorting by keys\<close>

text \<open>
  \<open>MergeSortByKey\<close>: a key has the index of its element. The elements then move along the cycles of the permutation,
  in place; the inner loop is a \<open>do\<close> \<open>while\<close>, and would not end for keys that are no permutation.
\<close>

partial_function (option) move_cycle ::
  "nat \<Rightarrow> nat \<Rightarrow> ('k \<times> nat) list \<Rightarrow> 'v list \<Rightarrow> (('k \<times> nat) list \<times> 'v list) option" where
  "move_cycle i j keys vec =
     do { key \<leftarrow> rd keys j;
          let k = snd key;
          keys \<leftarrow> wr keys j (fst key, j);
          v \<leftarrow> rd vec k;
          vec \<leftarrow> wr vec j v;
          if k \<noteq> i then move_cycle i k keys vec else Some (keys, vec) }"

declare move_cycle.simps [code]

fun reorder :: "nat list \<Rightarrow> ('k \<times> nat) list \<Rightarrow> 'v list \<Rightarrow> 'v list option" where
  "reorder [] keys vec = Some vec"
| "reorder (i # is) keys vec =
     do { key \<leftarrow> rd keys i;
          let j = snd key;
          if i = j then reorder is keys vec
          else
            do { tv \<leftarrow> rd vec j;
                 (keys, vec) \<leftarrow> move_cycle i j keys vec;
                 vec \<leftarrow> wr vec i tv;
                 reorder is keys vec } }"

definition MergeSortByKey ::
  "('k \<times> nat) list \<Rightarrow> nat \<Rightarrow> ('k \<times> nat) list \<Rightarrow> ('k \<times> nat) comparator \<Rightarrow> 'v list \<Rightarrow> 'v list option" where
  "MergeSortByKey keys len scratch comparator vec =
     do { keys \<leftarrow> MergeSort comparator keys len scratch;
          reorder [0..<len] keys vec }"

text \<open>\<open>StringifiedElement\<close>: where the characters of an element begin and end in the buffer, and its index.\<close>

type_synonym StringifiedElement = "(nat \<times> nat) \<times> nat"

definition SortComparatorStringifiedElements :: "u16 list \<Rightarrow> StringifiedElement \<Rightarrow> StringifiedElement \<Rightarrow> bool option" where
  "SortComparatorStringifiedElements sb a b =
     (let lenA = snd (fst a) - fst (fst a); lenB = snd (fst b) - fst (fst b)
      in CompareSubStringValues (take lenA (drop (fst (fst a)) sb)) (take lenB (drop (fst (fst b)) sb)))"

fun stringify :: "(jsval \<Rightarrow> u16 list option) \<Rightarrow> nat \<Rightarrow> jsval list \<Rightarrow> u16 list \<Rightarrow> (u16 list \<times> StringifiedElement list) option" where
  "stringify to_string i [] sb = Some (sb, [])"
| "stringify to_string i (v # vs) sb =
     do { s \<leftarrow> to_string v;
          let cursor = length sb;
          let sb = sb @ s;
          (final, elements) \<leftarrow> stringify to_string (i + 1) vs sb;
          Some (final, ((cursor, length sb), i) # elements) }"

definition SortLexicographically :: "(jsval \<Rightarrow> u16 list option) \<Rightarrow> jsval list \<Rightarrow> nat \<Rightarrow> jsval list option" where
  "SortLexicographically to_string vec len =
     do { (sb, strElements) \<leftarrow> stringify to_string 0 (take len vec) [];
          MergeSortByKey strElements len (replicate len ((0, 0), 0)) (SortComparatorStringifiedElements sb) vec }"

text \<open>\<open>NumericElement\<close>: the number of an element, and its index.\<close>

fun numericize :: "(jsval \<Rightarrow> dbl option) \<Rightarrow> nat \<Rightarrow> jsval list \<Rightarrow> (dbl \<times> nat) list option" where
  "numericize to_number i [] = Some []"
| "numericize to_number i (v # vs) =
     do { dv \<leftarrow> to_number v; elements \<leftarrow> numericize to_number (i + 1) vs; Some ((dv, i) # elements) }"

definition SortNumerically :: "(jsval \<Rightarrow> dbl option) \<Rightarrow> jsval list \<Rightarrow> nat \<Rightarrow> ComparatorMatchResult \<Rightarrow> jsval list option" where
  "SortNumerically to_number vec len cmp =
     do { numElements \<leftarrow> numericize to_number 0 (take len vec);
          MergeSortByKey numElements len (replicate len (DInt 0, 0)) (\<lambda>a b. SortComparatorNumerics cmp (fst a) (fst b)) vec }"

section \<open>The native\<close>

datatype compare_arg = NoComparefn | PrimitiveArg | Comparefn compare_fun

datatype sort_result = Failed | CallsSelfHosted | Sorted "jsval option list"

record conversions =
  to_string :: "jsval \<Rightarrow> u16 list option"
  to_number :: "jsval \<Rightarrow> dbl option"

record collected =
  vec_values :: "jsval list"
  undefs :: nat
  allStrings :: bool
  allInts :: bool

definition collect_element :: "jsval option \<Rightarrow> collected \<Rightarrow> collected" where
  "collect_element e c =
     (case e of
        None \<Rightarrow> c
      | Some v \<Rightarrow>
          if v = Undefined then c\<lparr>undefs := undefs c + 1\<rparr>
          else c\<lparr>vec_values := vec_values c @ [v], allStrings := allStrings c \<and> isString v, allInts := allInts c \<and> isInt32 v\<rparr>)"

text \<open>\<open>InitArrayElements\<close>, the loop that sets the undefined elements and the one that makes the holes.\<close>

definition InitArrayElements :: "jsval option list \<Rightarrow> jsval list \<Rightarrow> jsval option list" where
  "InitArrayElements elems vec = overwrite (map Some vec) elems"

fun set_undefs :: "nat \<Rightarrow> nat \<Rightarrow> jsval option list \<Rightarrow> nat \<times> jsval option list" where
  "set_undefs 0 n elems = (n, elems)"
| "set_undefs (Suc count) n elems = set_undefs count (n + 1) (elems[n := Some Undefined])"

fun make_holes :: "nat \<Rightarrow> nat \<Rightarrow> jsval option list \<Rightarrow> jsval option list" where
  "make_holes 0 n elems = elems"
| "make_holes (Suc len) n elems = (if n < Suc len then make_holes len n (elems[len := None]) else elems)"

text \<open>\<open>array_sort\<close>; \<open>arg0\<close> is its first argument, \<open>memory\<close> whether the vectors can be allocated.\<close>

definition array_sort :: "conversions \<Rightarrow> bool \<Rightarrow> compare_arg \<Rightarrow> jsval option list \<Rightarrow> sort_result" where
  "array_sort conv memory arg0 elems =
     (let fval = (case arg0 of Comparefn f \<Rightarrow> Some f | _ \<Rightarrow> None);
          cmp = MatchNumericComparator fval in
      if arg0 = PrimitiveArg then Failed
      else if cmp = Match_Failure then Failed
      else if fval \<noteq> None \<and> cmp = Match_None then CallsSelfHosted
      else
        let len = length elems in
        if len < 2 then Sorted elems
        else if (2 ^ 32 - 1) div 16 < int len then Failed
        else if \<not> memory then Failed
        else
          let c = fold collect_element elems \<lparr>vec_values = [], undefs = 0, allStrings = True, allInts = True\<rparr>;
              vec = vec_values c;
              n = length vec
          in if n = 0 \<and> undefs c = 0 then Sorted elems
             else
               case (if fval = None then
                       (if allStrings c then MergeSort CompareStringValues vec n (replicate n Undefined)
                        else if allInts c then MergeSort SortComparatorLexicographicInt32 vec n (replicate n Undefined)
                        else SortLexicographically (to_string conv) vec n)
                     else
                       (if allInts c then MergeSort (SortComparatorInt32s cmp) vec n (replicate n Undefined)
                        else SortNumerically (to_number conv) vec n cmp)) of
                 None \<Rightarrow> Failed
               | Some vec \<Rightarrow>
                   let elems = InitArrayElements elems vec;
                       (n, elems) = set_undefs (undefs c) n elems
                   in Sorted (make_holes len n elems))"

end
