(* ===== verification/Reorder.thy ===== *)
theory Reorder
  imports ArraySort
begin

text \<open>
  The reordering of \<open>MergeSortByKey\<close>: for keys whose indices are a permutation, the walks along its cycles end, stay
  within the vectors and put every element where its key is.
\<close>

section \<open>Moving along cycles\<close>

text \<open>The orbit of a permutation of the numbers below \<open>n\<close>.\<close>

lemma funpow_less: "(\<And>p. p < n \<Longrightarrow> f p < n) \<Longrightarrow> x < n \<Longrightarrow> (f ^^ k) x < (n :: nat)"
  by (induction k) auto

lemma funpow_cancel:
  assumes "\<And>p. p < n \<Longrightarrow> f p < n" and "inj_on f {..<n}" and "x < (n :: nat)" and "y < n" and "(f ^^ k) x = (f ^^ k) y"
  shows "x = y"
  using assms(5)
proof (induction k)
  case (Suc k)
  then have "f ((f ^^ k) x) = f ((f ^^ k) y)" by simp
  moreover have "(f ^^ k) x < n" "(f ^^ k) y < n" using funpow_less assms(1,3,4) by blast+
  ultimately show ?case using assms(2) Suc.IH by (auto dest: inj_onD)
qed simp

lemma orbit:
  assumes closed: "\<And>p. p < n \<Longrightarrow> f p < n" and inj: "inj_on f {..<n}" and "i < (n :: nat)"
  obtains m where "0 < m" and "(f ^^ m) i = i" and "distinct (map (\<lambda>k. (f ^^ k) i) [1..<Suc m])"
proof -
  have "\<not> inj_on (\<lambda>k. (f ^^ k) i) {..n}"
  proof
    assume "inj_on (\<lambda>k. (f ^^ k) i) {..n}"
    moreover have "(\<lambda>k. (f ^^ k) i) ` {..n} \<subseteq> {..<n}" using funpow_less [OF closed assms(3)] by auto
    ultimately have "card {..n} \<le> card {..<n}" by (intro card_inj_on_le) auto
    then show False by simp
  qed
  then have "\<exists>a b. a < b \<and> (f ^^ a) i = (f ^^ b) i"
    by (rule contrapos_np) (intro linorder_inj_onI; auto)
  then obtain a b where ab: "a < b" "(f ^^ a) i = (f ^^ b) i" by blast
  have shift: "(f ^^ (b - a)) i = i" if "a < b" "(f ^^ a) i = (f ^^ b) i" for a b
  proof -
    have "(f ^^ b) i = (f ^^ a) ((f ^^ (b - a)) i)"
      using that(1) by (simp add: funpow_add [symmetric, THEN fun_cong, unfolded comp_def])
    then show ?thesis
      using funpow_cancel [OF closed inj _ assms(3), of "(f ^^ (b - a)) i" a] that(2) funpow_less [of n f i "b - a"] closed assms(3)
      by simp
  qed
  define m where "m = (LEAST m. 0 < m \<and> (f ^^ m) i = i)"
  have "0 < b - a \<and> (f ^^ (b - a)) i = i" using ab shift by simp
  then have m: "0 < m \<and> (f ^^ m) i = i" unfolding m_def by (rule LeastI)
  have least: "\<not> (0 < k \<and> (f ^^ k) i = i)" if "k < m" for k using not_less_Least that unfolding m_def by blast
  have "(f ^^ k) i \<noteq> (f ^^ l) i" if "1 \<le> k" "k < l" "l \<le> m" for k l
    using shift [of k l] least [of "l - k"] that by auto
  then have "inj_on (\<lambda>k. (f ^^ k) i) (set [1..<Suc m])"
    by (intro linorder_inj_onI) auto
  then have "distinct (map (\<lambda>k. (f ^^ k) i) [1..<Suc m])" by (simp add: distinct_map del: upt_Suc)
  then show thesis using that m by blast
qed

text \<open>The inner loop along a chain of positions that ends with \<open>i\<close>.\<close>

fun chain :: "('k \<times> nat) list \<Rightarrow> nat list \<Rightarrow> bool" where
  "chain keys (j # k # js) = (snd (keys ! j) = k \<and> chain keys (k # js))"
| "chain keys js = True"

lemma chain_update: "j \<notin> set (butlast js) \<Longrightarrow> chain (keys[j := x]) js = chain keys js"
  by (induction keys js rule: chain.induct) (auto split: if_splits)

lemma move_cycle_chain:
  assumes "chain keys js" and "distinct js" and "2 \<le> length js" and "hd js = j" and "last js = i"
    and "set js \<subseteq> {..<length keys}" and "set js \<subseteq> {..<length vec}"
  shows "\<exists>keys' vec'. move_cycle i j keys vec = Some (keys', vec') \<and> length keys' = length keys \<and> length vec' = length vec \<and>
    (\<forall>p \<in> set (butlast js). snd (keys' ! p) = p \<and> vec' ! p = vec ! (snd (keys ! p))) \<and>
    (\<forall>p. p \<notin> set (butlast js) \<longrightarrow> keys' ! p = keys ! p \<and> vec' ! p = vec ! p)"
  using assms
proof (induction js arbitrary: j keys vec)
  case (Cons j0 js)
  then obtain k js' where js: "js = k # js'" by (cases js) auto
  have j: "j0 = j" using Cons.prems(4) by simp
  have k: "snd (keys ! j) = k" using Cons.prems(1) js j by simp
  have lens: "j < length keys" "j < length vec" "k < length vec" "k \<noteq> j" using Cons.prems(2,6,7) js j by auto
  let ?keys = "keys[j := (fst (keys ! j), j)]" and ?vec = "vec[j := vec ! k]"
  have step: "move_cycle i j keys vec = (if k \<noteq> i then move_cycle i k ?keys ?vec else Some (?keys, ?vec))"
    using lens k by (subst move_cycle.simps) (simp add: rd_def wr_def Let_def)
  show ?case
  proof (cases "js' = []")
    case True
    then have "k = i" using Cons.prems(5) js by simp
    then show ?thesis using True step lens k js j by (auto simp: nth_list_update)
  next
    case False
    then have "k \<noteq> i" using Cons.prems(2,5) js last_in_set by (metis distinct.simps(2) last_ConsR list.distinct(1))
    have jn: "j \<notin> set js" using Cons.prems(2) j by simp
    then have "j \<notin> set (butlast js)" using in_set_butlastD by metis
    then have ch: "chain ?keys js" using Cons.prems(1) js by (simp add: chain_update)
    have "\<exists>keys' vec'. move_cycle i k ?keys ?vec = Some (keys', vec') \<and> length keys' = length ?keys \<and> length vec' = length ?vec \<and>
      (\<forall>p \<in> set (butlast js). snd (keys' ! p) = p \<and> vec' ! p = ?vec ! (snd (?keys ! p))) \<and>
      (\<forall>p. p \<notin> set (butlast js) \<longrightarrow> keys' ! p = ?keys ! p \<and> vec' ! p = ?vec ! p)"
      by (rule Cons.IH [OF ch]) (use Cons.prems js False in \<open>auto simp: Suc_le_eq\<close>)
    then obtain keys' vec' where run: "move_cycle i k ?keys ?vec = Some (keys', vec')"
      and len: "length keys' = length ?keys" "length vec' = length ?vec"
      and moved: "\<And>p. p \<in> set (butlast js) \<Longrightarrow> snd (keys' ! p) = p \<and> vec' ! p = ?vec ! (snd (?keys ! p))"
      and same: "\<And>p. p \<notin> set (butlast js) \<Longrightarrow> keys' ! p = ?keys ! p \<and> vec' ! p = ?vec ! p" by blast
    have next_in: "snd (keys ! p) \<in> set js" if "p \<in> set (butlast js)" for p
    proof -
      have "chain keys js" using Cons.prems(1) js by simp
      then show ?thesis using that by (induction keys js rule: chain.induct) (auto split: if_splits)
    qed
    have "snd (keys' ! p) = p \<and> vec' ! p = vec ! (snd (keys ! p))" if p: "p \<in> set (butlast (j0 # js))" for p
    proof (cases "p = j")
      case True
      then show ?thesis using same [of j] \<open>j \<notin> set (butlast js)\<close> lens k by simp
    next
      case False
      then have p': "p \<in> set (butlast js)" using p js j by (simp split: if_splits)
      then have "snd (keys ! p) \<noteq> j" using next_in jn by metis
      then show ?thesis using moved [OF p'] False by (simp add: nth_list_update)
    qed
    moreover have "keys' ! p = keys ! p \<and> vec' ! p = vec ! p" if p: "p \<notin> set (butlast (j0 # js))" for p
      using same [of p] p js j by (auto split: if_splits)
    ultimately show ?thesis using step run \<open>k \<noteq> i\<close> len by auto
  qed
qed simp


text \<open>
  The state of the outer loop at \<open>i\<close>: the cycles through the positions of \<open>U\<close> are as they were, every other position
  has its element, and its key does not make it move again.
\<close>

definition placed :: "nat \<Rightarrow> nat \<Rightarrow> (nat \<Rightarrow> nat) \<Rightarrow> 'v list \<Rightarrow> nat set \<Rightarrow> ('k \<times> nat) list \<Rightarrow> 'v list \<Rightarrow> bool" where
  "placed n i \<sigma> vec U keys vec' \<longleftrightarrow>
     length keys = n \<and> length vec' = length vec \<and> U \<subseteq> {i..<n} \<and> \<sigma> ` U \<subseteq> U \<and>
     (\<forall>p \<in> U. snd (keys ! p) = \<sigma> p \<and> vec' ! p = vec ! p) \<and>
     (\<forall>p < n. p \<notin> U \<longrightarrow> vec' ! p = vec ! \<sigma> p \<and> (i \<le> p \<longrightarrow> snd (keys ! p) = p)) \<and>
     (\<forall>p \<ge> n. vec' ! p = vec ! p)"

lemma reorder_placed:
  fixes keys :: "('k \<times> nat) list" and vec :: "'v list"
  assumes \<sigma>: "\<And>p. p < n \<Longrightarrow> \<sigma> p < n" "inj_on \<sigma> {..<n}" and n: "n \<le> length vec"
    and st: "placed n i \<sigma> vec U keys vec'" and "i \<le> n"
  shows "reorder [i..<n] keys vec' = Some (map (\<lambda>p. vec ! \<sigma> p) [0..<n] @ drop n vec)"
  using st assms(5)
proof (induction "n - i" arbitrary: i U keys vec')
  case 0
  then have U: "U = {}" by (auto simp: placed_def)
  have "vec' = map (\<lambda>p. vec ! \<sigma> p) [0..<n] @ drop n vec"
    using "0.prems"(1) U n by (intro nth_equalityI) (auto simp: placed_def nth_append)
  then show ?case using 0 by simp
next
  case (Suc k)
  then have i: "i < n" by simp
  note st = Suc.prems(1) [unfolded placed_def]
  have Ui: "U \<subseteq> {i..<n}" and closed: "\<And>p. p \<in> U \<Longrightarrow> \<sigma> p \<in> U" and lens': "length keys = n" "length vec' = length vec"
    and in_U: "\<And>p. p \<in> U \<Longrightarrow> snd (keys ! p) = \<sigma> p \<and> vec' ! p = vec ! p"
    and out_U: "\<And>p. p < n \<Longrightarrow> p \<notin> U \<Longrightarrow> vec' ! p = vec ! \<sigma> p \<and> (i \<le> p \<longrightarrow> snd (keys ! p) = p)"
    and past: "\<And>p. n \<le> p \<Longrightarrow> vec' ! p = vec ! p"
    using st by auto
  have above: "V \<subseteq> {Suc i..<n}" if "V \<subseteq> U" "i \<notin> V" for V
    using that Ui by (auto simp: Suc_le_eq order_le_less)
  have upt: "[i..<n] = i # [Suc i..<n]" using i by (simp add: upt_conv_Cons)
  have key: "rd keys i = Some (keys ! i)" using st i by (simp add: rd_def)
  have IH: "reorder [Suc i..<n] ks v = Some (map (\<lambda>p. vec ! \<sigma> p) [0..<n] @ drop n vec)" if "placed n (Suc i) \<sigma> vec V ks v"
    for V v and ks :: "('k \<times> nat) list"
    by (rule Suc.hyps(1)) (use Suc.hyps(2) i that in auto)
  show ?case
  proof (cases "snd (keys ! i) = i")
    case fixed: True
    have "placed n (Suc i) \<sigma> vec (U - {i}) keys vec'"
    proof (cases "i \<in> U")
      case True
      then have "\<sigma> i = i" using st fixed by auto
      moreover have "\<sigma> p \<noteq> i" if "p \<in> U" "p \<noteq> i" for p
        using inj_onD [OF \<sigma>(2), of p i] that st i \<open>\<sigma> i = i\<close> by (metis atLeastLessThan_iff lessThan_iff subsetD)
      ultimately show ?thesis using st True unfolding placed_def by (auto simp: Suc_le_eq)
    next
      case False
      then have "U \<subseteq> {Suc i..<n}" by (intro above) auto
      moreover have "U - {i} = U" using False by simp
      moreover have "\<forall>p < n. p \<notin> U \<longrightarrow> vec' ! p = vec ! \<sigma> p \<and> (Suc i \<le> p \<longrightarrow> snd (keys ! p) = p)"
        using st by (metis Suc_leD)
      ultimately show ?thesis using st unfolding placed_def by (intro conjI) metis+
    qed
    then show ?thesis using IH fixed key by (simp add: upt Let_def)
  next
    case moves: False
    then have iU: "i \<in> U" using st i by auto
    then have ki: "snd (keys ! i) = \<sigma> i" using st by blast
    obtain m where m: "0 < m" "(\<sigma> ^^ m) i = i" "distinct (map (\<lambda>k. (\<sigma> ^^ k) i) [1..<Suc m])"
      using orbit [OF \<sigma> i] .
    define js where "js = map (\<lambda>k. (\<sigma> ^^ k) i) [1..<Suc m]"
    have "m \<noteq> 1" using m(2) moves ki by auto
    then have m2: "2 \<le> m" using m(1) by simp
    have orbU: "(\<sigma> ^^ k) i \<in> U" for k using st iU by (induction k) auto
    then have jsU: "set js \<subseteq> U" by (auto simp: js_def)
    have js_nth: "js ! k = (\<sigma> ^^ Suc k) i" if "k < m" for k using that by (simp add: js_def del: upt_Suc)
    have len: "length js = m" by (simp add: js_def)
    have ch: "chain ks ls" if "\<And>k. Suc k < length ls \<Longrightarrow> snd (ks ! (ls ! k)) = ls ! Suc k" for ks :: "('k \<times> nat) list" and ls
      using that
    proof (induction ks ls rule: chain.induct)
      case (1 ks j k ls)
      then show ?case by (metis chain.simps(1) length_Cons nth_Cons_0 nth_Cons_Suc Suc_less_eq zero_less_Suc)
    qed auto
    have chain: "chain keys js"
    proof (rule ch)
      fix k
      assume "Suc k < length js"
      then show "snd (keys ! (js ! k)) = js ! Suc k" using st orbU [of "Suc k"] by (simp add: js_nth len)
    qed
    have dj: "distinct js" "2 \<le> length js" using m(3) m2 len by (simp_all add: js_def)
    have hd: "hd js = \<sigma> i" using m2 len by (simp add: hd_conv_nth js_nth flip: length_greater_0_conv)
    have last: "last js = i" using m m2 len by (simp add: last_conv_nth js_nth flip: length_greater_0_conv)
    have "set js \<subseteq> {..<length keys}" "set js \<subseteq> {..<length vec'}" using jsU st n by auto
    note cycle = move_cycle_chain [OF chain dj hd last this]
    obtain keys' vec'' where run: "move_cycle i (\<sigma> i) keys vec' = Some (keys', vec'')"
      and lens: "length keys' = length keys" "length vec'' = length vec'"
      and moved: "\<And>p. p \<in> set (butlast js) \<Longrightarrow> snd (keys' ! p) = p \<and> vec'' ! p = vec' ! (snd (keys ! p))"
      and same: "\<And>p. p \<notin> set (butlast js) \<Longrightarrow> keys' ! p = keys ! p \<and> vec'' ! p = vec' ! p"
      using cycle by blast
    have split: "set js = insert i (set (butlast js))" "i \<notin> set (butlast js)"
    proof -
      have "js = butlast js @ [i]" using last m2 len by (metis append_butlast_last_id list.size(3) not_numeral_le_zero)
      then have "set js = set (butlast js @ [i])" "distinct (butlast js @ [i])" using dj(1) by simp_all
      then show "set js = insert i (set (butlast js))" "i \<notin> set (butlast js)" by auto
    qed
    have \<sigma>i: "\<sigma> i < n" using \<sigma>(1) i by blast
    have back_in: "\<sigma> p \<in> U - set js" if p: "p \<in> U - set js" for p
    proof -
      have "\<sigma> p \<notin> set js"
      proof
        assume "\<sigma> p \<in> set js"
        then obtain k where k: "k < m" "\<sigma> p = (\<sigma> ^^ Suc k) i" using len js_nth by (metis in_set_conv_nth)
        have "p < n" "(\<sigma> ^^ k) i < n" using p Ui orbU [of k] by auto
        moreover have "\<sigma> p = \<sigma> ((\<sigma> ^^ k) i)" using k(2) by simp
        ultimately have "p = (\<sigma> ^^ k) i" using inj_onD [OF \<sigma>(2)] by simp
        moreover have "(\<sigma> ^^ k) i \<in> set js"
        proof (cases k)
          case 0
          then show ?thesis using split(1) by simp
        next
          case (Suc l)
          then have "js ! l = (\<sigma> ^^ k) i" "l < length js" using k(1) len by (simp_all add: js_nth)
          then show ?thesis by (metis nth_mem)
        qed
        ultimately show False using p by simp
      qed
      then show ?thesis using p closed by simp
    qed
    let ?vec = "vec''[i := vec' ! \<sigma> i]"
    have iv: "i < length vec''" using lens lens' n i by simp
    have "placed n (Suc i) \<sigma> vec (U - set js) keys' ?vec"
      unfolding placed_def
    proof (intro conjI ballI allI impI)
      show "length keys' = n" "length ?vec = length vec" using lens lens' by simp_all
      show "U - set js \<subseteq> {Suc i..<n}" using split(1) by (intro above) auto
      show "\<sigma> ` (U - set js) \<subseteq> U - set js" using back_in by blast
    next
      fix p
      assume p: "p \<in> U - set js"
      then have "p \<notin> set (butlast js)" "p \<noteq> i" using split(1) by auto
      then show "snd (keys' ! p) = \<sigma> p" "?vec ! p = vec ! p" using same [of p] p in_U [of p] by simp_all
    next
      fix p
      assume p: "p < n" "p \<notin> U - set js"
      show "?vec ! p = vec ! \<sigma> p"
      proof (cases "p = i")
        case True
        moreover have "vec' ! \<sigma> i = vec ! \<sigma> i" using in_U [OF closed [OF iU]] by simp
        ultimately show ?thesis using iv by simp
      next
        case False
        show ?thesis
        proof (cases "p \<in> set (butlast js)")
          case True
          then have "p \<in> U" using jsU split(1) by auto
          then have "snd (keys ! p) = \<sigma> p" "vec' ! \<sigma> p = vec ! \<sigma> p" using in_U closed by blast+
          then show ?thesis using moved [OF True] False by simp
        next
          case out: False
          then have "p \<notin> U" using p False split(1) by auto
          then show ?thesis using same [OF out] out_U [of p] p False by simp
        qed
      qed
      assume "Suc i \<le> p"
      show "snd (keys' ! p) = p"
      proof (cases "p \<in> set (butlast js)")
        case out: False
        then have "p \<notin> U" using p \<open>Suc i \<le> p\<close> split(1) by auto
        then show ?thesis using same [OF out] out_U [of p] p \<open>Suc i \<le> p\<close> by simp
      qed (use moved in simp)
    next
      fix p
      assume "n \<le> p"
      then have "p \<notin> set (butlast js)" "p \<noteq> i" using jsU split(1) Ui i by auto
      then show "?vec ! p = vec ! p" using same past \<open>n \<le> p\<close> by simp
    qed
    note IH [OF this]
    moreover have "rd vec' (\<sigma> i) = Some (vec' ! \<sigma> i)" "wr vec'' i (vec' ! \<sigma> i) = Some ?vec"
      using \<sigma>i iv lens' n by (simp_all add: rd_def wr_def)
    ultimately show ?thesis using key ki moves run by (simp add: upt Let_def)
  qed
qed

text \<open>The elements follow their keys.\<close>

lemma reorder_keys:
  assumes "distinct (map snd keys)" and "snd ` set keys = {..<length keys}" and "length keys \<le> length vec"
  shows "reorder [0..<length keys] keys vec = Some (map (\<lambda>key. vec ! snd key) keys @ drop (length keys) vec)"
proof -
  let ?\<sigma> = "\<lambda>p. snd (keys ! p)"
  have closed: "?\<sigma> p < length keys" if "p < length keys" for p
    using assms(2) that by (metis image_eqI lessThan_iff nth_mem)
  moreover have "inj_on ?\<sigma> {..<length keys}"
    using assms(1) by (intro inj_onI) (metis length_map lessThan_iff nth_eq_iff_index_eq nth_map)
  moreover have "placed (length keys) 0 ?\<sigma> vec {..<length keys} keys vec"
    using closed by (auto simp: placed_def)
  ultimately have "reorder [0..<length keys] keys vec = Some (map (\<lambda>p. vec ! ?\<sigma> p) [0..<length keys] @ drop (length keys) vec)"
    by (intro reorder_placed [OF _ _ assms(3)]) auto
  moreover have "map (\<lambda>p. vec ! ?\<sigma> p) [0..<length keys] = map (\<lambda>key. vec ! snd key) keys"
    by (intro nth_equalityI) auto
  ultimately show ?thesis by simp
qed

end
