(* ===== verification/SortCorrect.thy ===== *)
theory SortCorrect
  imports Sort "HOL-Library.Multiset"
begin

text \<open>
  The merge sort over arrays is a bottom-up merge sort over the list of runs, whatever the comparator; and for one
  that compares keys it is the stable sort of the library.
\<close>

section \<open>The sort on lists of runs\<close>

fun merge :: "('a \<Rightarrow> 'a \<Rightarrow> bool) \<Rightarrow> 'a list \<Rightarrow> 'a list \<Rightarrow> 'a list" where
  "merge le [] ys = ys"
| "merge le xs [] = xs"
| "merge le (x # xs) (y # ys) = (if le x y then x # merge le xs (y # ys) else y # merge le (x # xs) ys)"

lemma merge_Nil2 [simp]: "merge le xs [] = xs"
  by (cases xs) auto

lemma mset_merge: "mset (merge le xs ys) = mset xs + mset ys"
  by (induction le xs ys rule: merge.induct) auto

lemma length_merge [simp]: "length (merge le xs ys) = length xs + length ys"
  by (metis mset_merge size_mset size_union)

definition merge_runs :: "('a \<Rightarrow> 'a \<Rightarrow> bool) \<Rightarrow> 'a list \<Rightarrow> 'a list \<Rightarrow> 'a list" where
  "merge_runs le xs ys = (if le (last xs) (hd ys) then xs @ ys else merge le xs ys)"

lemma mset_merge_runs: "mset (merge_runs le xs ys) = mset xs + mset ys"
  by (simp add: merge_runs_def mset_merge)

lemma length_merge_runs [simp]: "length (merge_runs le xs ys) = length xs + length ys"
  by (simp add: merge_runs_def)

lemma merge_runs_Nil [simp]: "merge_runs le r s = [] \<longleftrightarrow> r = [] \<and> s = []"
  by (metis add_is_0 length_0_conv length_merge_runs)

fun merge_pairs :: "('a \<Rightarrow> 'a \<Rightarrow> bool) \<Rightarrow> 'a list list \<Rightarrow> 'a list list" where
  "merge_pairs le (r # s # rs) = merge_runs le r s # merge_pairs le rs"
| "merge_pairs le [] = []"
| "merge_pairs le [r] = [r]"

text \<open>Insertion into the reverse of the sorted elements.\<close>

fun ins_rev :: "('a \<Rightarrow> 'a \<Rightarrow> bool) \<Rightarrow> 'a \<Rightarrow> 'a list \<Rightarrow> 'a list" where
  "ins_rev le x [] = [x]"
| "ins_rev le x (y # ys) = (if le y x then x # y # ys else y # ins_rev le x ys)"

definition insertion :: "('a \<Rightarrow> 'a \<Rightarrow> bool) \<Rightarrow> 'a list \<Rightarrow> 'a list" where
  "insertion le xs = rev (fold (ins_rev le) xs [])"

lemma mset_ins_rev [simp]: "mset (ins_rev le x ys) = add_mset x (mset ys)"
  by (induction ys) auto

lemma length_ins_rev [simp]: "length (ins_rev le x ys) = Suc (length ys)"
  by (induction ys) auto

lemma mset_insertion: "mset (insertion le xs) = mset xs"
proof -
  have "mset (fold (ins_rev le) xs acc) = mset acc + mset xs" for acc by (induction xs arbitrary: acc) auto
  from this [of "[]"] show ?thesis by (simp add: insertion_def)
qed

lemma length_insertion [simp]: "length (insertion le xs) = length xs"
  by (metis mset_insertion size_mset)

section \<open>Array segments\<close>

lemma rd_append [simp]: "length p = i \<Longrightarrow> rd (p @ x # q) i = Some x"
  by (auto simp: rd_def)

lemma wr_append [simp]: "length p = i \<Longrightarrow> wr (p @ x # q) i y = Some (p @ y # q)"
  by (auto simp: wr_def)

lemma CopyNonEmptyArray_segment:
  assumes "ys \<noteq> []" and "length zs = length ys"
  shows "CopyNonEmptyArray (p' @ zs @ q') (length p') (p @ ys @ q) (length p) (length ys) = Some (p' @ ys @ q')"
  using assms
proof (induction ys arbitrary: p p' zs)
  case (Cons y ys)
  obtain z zs' where zs: "zs = z # zs'" using Cons.prems by (cases zs) auto
  show ?case
  proof (cases "ys = []")
    case False
    have "CopyNonEmptyArray ((p' @ [y]) @ zs' @ q') (length (p' @ [y])) ((p @ [y]) @ ys @ q) (length (p @ [y])) (length ys) =
        Some ((p' @ [y]) @ ys @ q')"
      by (rule Cons.IH) (use False Cons.prems zs in auto)
    then show ?thesis using zs False by simp
  qed (use Cons.prems zs in simp)
qed simp

text \<open>The loop and the copy after it.\<close>

lemma merge_loop_segment:
  assumes "xs \<noteq> []" and "ys \<noteq> []" and "length zs = length xs + length ys"
    and "drop a src = xs @ p" and "drop b src = ys @ q" and "c = (\<lambda>x y. Some (le x y))"
  shows "\<exists>dst d s n. merge_loop c src a b (length xs) (length ys) (p' @ zs @ q') (length p') = Some (dst, d, s, n) \<and>
    CopyNonEmptyArray dst d src s n = Some (p' @ merge le xs ys @ q')"
  using assms(1-5)
proof (induction "length xs + length ys" arbitrary: xs ys a b zs p' rule: less_induct)
  case less
  obtain x xs' where xs: "xs = x # xs'" using less.prems(1) by (cases xs) auto
  obtain y ys' where ys: "ys = y # ys'" using less.prems(2) by (cases ys) auto
  obtain z zs' where zs: "zs = z # zs'" using less.prems(3) xs by (cases zs) auto
  have drop: "drop (Suc a) src = xs' @ p" "drop (Suc b) src = ys' @ q"
    using less.prems(4,5) xs ys by (metis append_Cons drop_Suc list.sel(3) tl_drop)+
  have "rd src a = Some x" "rd src b = Some y"
    using less.prems(4,5) xs ys by (auto simp: rd_def) (metis append_Cons drop_all hd_drop_conv_nth linorder_not_le list.distinct(1) list.sel(1))+
  note rds = this
  have tail: "CopyNonEmptyArray (p' @ w # zs' @ q') (Suc (length p')) src k (length us) = Some (p' @ w # us @ q')"
    if "drop k src = us @ r" "us \<noteq> []" "length zs' = length us" for w k us r
  proof -
    have "k < length src" using that(1,2) by (metis append_is_Nil_conv drop_all linorder_not_le)
    then have "length (take k src) = k" by simp
    moreover have "src = take k src @ us @ r" using that(1) by (metis append_take_drop_id)
    ultimately show ?thesis
      using CopyNonEmptyArray_segment [OF that(2,3), of "p' @ [w]" q' "take k src" r] by simp
  qed
  show ?case
  proof (cases "le x y")
    case True
    show ?thesis
    proof (cases "xs' = []")
      case True
      then show ?thesis
        using \<open>le x y\<close> rds assms(6) tail [OF less.prems(5,2)] less.prems(3) xs ys zs
        by (subst merge_loop.simps) simp
    next
      case False
      have "\<exists>dst d s n. merge_loop c src (Suc a) b (length xs') (length ys) ((p' @ [x]) @ zs' @ q') (length (p' @ [x])) = Some (dst, d, s, n) \<and>
          CopyNonEmptyArray dst d src s n = Some ((p' @ [x]) @ merge le xs' ys @ q')"
        by (rule less.hyps) (use False less.prems drop xs zs in auto)
      then show ?thesis using True False rds assms(6) xs ys zs by (subst merge_loop.simps) simp
    qed
  next
    case gt: False
    show ?thesis
    proof (cases "ys' = []")
      case True
      then show ?thesis
        using gt rds assms(6) tail [OF less.prems(4,1)] less.prems(3) xs ys zs
        by (subst merge_loop.simps) simp
    next
      case False
      have "\<exists>dst d s n. merge_loop c src a (Suc b) (length xs) (length ys') ((p' @ [y]) @ zs' @ q') (length (p' @ [y])) = Some (dst, d, s, n) \<and>
          CopyNonEmptyArray dst d src s n = Some ((p' @ [y]) @ merge le xs ys' @ q')"
        by (rule less.hyps) (use False less.prems drop ys zs in auto)
      then show ?thesis using gt False rds assms(6) xs ys zs by (subst merge_loop.simps) simp
    qed
  qed
qed

lemma MergeArrayRuns_segment:
  assumes "xs \<noteq> []" and "ys \<noteq> []" and "length zs = length xs + length ys" and "length p' = length p"
    and c: "c = (\<lambda>x y. Some (le x y))"
  shows "MergeArrayRuns c (p' @ zs @ q') (p @ xs @ ys @ q) (length p) (length xs) (length ys) =
    Some (p' @ merge_runs le xs ys @ q')"
proof -
  let ?src = "p @ xs @ ys @ q"
  obtain us u where "xs = us @ [u]" using assms(1) by (cases xs rule: rev_cases) auto
  then have "rd ?src (length p + length xs - 1) = Some (last xs)"
    using rd_append [of "p @ us" "length p + length us" u] by simp
  moreover have "rd ?src (length p + length xs) = Some (hd ys)"
    using assms(2) by (auto simp: rd_def nth_append hd_conv_nth)
  moreover have "CopyNonEmptyArray (p' @ zs @ q') (length p') ?src (length p) (length (xs @ ys)) = Some (p' @ (xs @ ys) @ q')"
    using CopyNonEmptyArray_segment [of "xs @ ys" zs p' q' p q] assms by simp
  moreover have "\<exists>dst d s n. merge_loop c ?src (length p) (length p + length xs) (length xs) (length ys) (p' @ zs @ q') (length p') =
      Some (dst, d, s, n) \<and> CopyNonEmptyArray dst d ?src s n = Some (p' @ merge le xs ys @ q')"
    by (rule merge_loop_segment [OF assms(1-3)]) (use c in auto)
  ultimately show ?thesis
    using assms(4) c by (auto simp: MergeArrayRuns_def merge_runs_def)
qed


section \<open>The passes\<close>

text \<open>All runs but the last have \<open>run\<close> elements.\<close>

fun runs_ok :: "nat \<Rightarrow> 'a list list \<Rightarrow> bool" where
  "runs_ok run [] = True"
| "runs_ok run [r] = (r \<noteq> [] \<and> length r \<le> run)"
| "runs_ok run (r # rs) = (length r = run \<and> runs_ok run rs)"

lemma runs_ok_Cons: "runs_ok run (r # rs) \<longleftrightarrow> (if rs = [] then r \<noteq> [] \<and> length r \<le> run else length r = run \<and> runs_ok run rs)"
  by (cases rs) auto

lemma runs_ok_concat: "runs_ok run rs \<Longrightarrow> 0 < run \<Longrightarrow> concat rs = [] \<longleftrightarrow> rs = []"
  by (cases "(run, rs)" rule: runs_ok.cases) auto

lemma length_concat_pairs [simp]: "length (concat (merge_pairs le rs)) = length (concat rs)"
  by (induction le rs rule: merge_pairs.induct) auto

lemma merge_pairs_Nil [simp]: "merge_pairs le rs = [] \<longleftrightarrow> rs = []"
  by (cases "(le, rs)" rule: merge_pairs.cases) auto

lemma runs_ok_pairs: "runs_ok run rs \<Longrightarrow> 0 < run \<Longrightarrow> runs_ok (run * 2) (merge_pairs le rs)"
proof (induction le rs rule: merge_pairs.induct)
  case (1 le r s rs)
  have ne: "merge_runs le r s \<noteq> []" using "1.prems" by auto
  show ?case
  proof (cases "rs = []")
    case True
    then show ?thesis using "1.prems" ne by simp
  next
    case False
    then have "length r = run" "length s = run" "runs_ok run rs" using "1.prems"(1) by (simp_all add: runs_ok_Cons)
    then show ?thesis using "1.IH" "1.prems"(2) False by (simp add: runs_ok_Cons)
  qed
qed auto

lemma merge_pass_runs:
  assumes "runs_ok run rs" and "0 < run" and "length zs = length (concat rs)" and "length p' = length p"
    and c: "c = (\<lambda>x y. Some (le x y))" and n: "n = length p + length (concat rs)"
  shows "merge_pass c n run (length p) (p @ concat rs) (p' @ zs) = Some (p' @ concat (merge_pairs le rs))"
  using assms
proof (induction le rs arbitrary: p p' zs rule: merge_pairs.induct)
  case (1 le r s rs)
  have r: "length r = run" "r \<noteq> []" and s: "s \<noteq> []" "length s \<le> run" "rs \<noteq> [] \<longrightarrow> length s = run" and rs: "runs_ok run rs"
    using "1.prems"(1,2) by (auto simp: runs_ok_Cons split: if_splits)
  define z1 z2 where "z1 = take (length r + length s) zs" and "z2 = drop (length r + length s) zs"
  have z: "zs = z1 @ z2" "length z1 = length r + length s" "length z2 = length (concat rs)"
    using "1.prems"(3) by (auto simp: z1_def z2_def)
  have merge: "MergeArrayRuns c (p' @ z1 @ z2) (p @ r @ s @ concat rs) (length p) (length r) (length s) =
      Some (p' @ merge_runs le r s @ z2)"
    by (rule MergeArrayRuns_segment) (use r s z "1.prems"(4,5) in auto)
  have run2: "(if run \<le> n - (length p + run) then run else n - (length p + run)) = length s"
    using "1.prems"(6) r s runs_ok_concat [OF rs "1.prems"(2)] by (cases "rs = []") auto
  have more: "\<not> n \<le> length p + run" using "1.prems"(6) r s by (cases s) auto
  show ?case
  proof (cases "rs = []")
    case True
    have "merge_pass c n run (length p + 2 * run) (p @ concat (r # s # rs)) (p' @ merge_runs le r s @ z2) = Some (p' @ merge_runs le r s @ z2)"
      using "1.prems"(2,6) r s True by (subst merge_pass.simps) auto
    then show ?thesis
      using merge run2 more r z True "1.prems"(2,6) by (subst merge_pass.simps) (simp add: Let_def)
  next
    case False
    then have "merge_pass c n run (length (p @ r @ s)) ((p @ r @ s) @ concat rs) ((p' @ merge_runs le r s) @ z2) =
        Some ((p' @ merge_runs le r s) @ concat (merge_pairs le rs))"
      using "1.IH" [of z2 "p' @ merge_runs le r s" "p @ r @ s"] rs "1.prems" z r s by simp
    moreover have "length (p @ r @ s) = length p + 2 * run" using r s False by simp
    ultimately show ?thesis
      using merge run2 more r z "1.prems"(2,6) by (subst merge_pass.simps) (simp add: Let_def mult_2)
  qed
next
  case (2 le)
  then show ?case by (subst merge_pass.simps) simp
next
  case (3 le r)
  then have "CopyNonEmptyArray (p' @ zs @ []) (length p') (p @ r @ []) (length p) (length r) = Some (p' @ r @ [])"
    by (intro CopyNonEmptyArray_segment) auto
  then show ?case using 3 by (subst merge_pass.simps) (simp add: Let_def)
qed

text \<open>Passes until one run is left.\<close>

function merge_all :: "('a \<Rightarrow> 'a \<Rightarrow> bool) \<Rightarrow> 'a list list \<Rightarrow> 'a list" where
  "merge_all le [] = []"
| "merge_all le [r] = r"
| "merge_all le (r # s # rs) = merge_all le (merge_pairs le (r # s # rs))"
  by pat_completeness auto

lemma length_merge_pairs: "length (merge_pairs le rs) = (length rs + 1) div 2"
  by (induction le rs rule: merge_pairs.induct) auto

termination merge_all
  by (relation "measure (\<lambda>(le, rs). length rs)") (auto simp: length_merge_pairs)

lemma runs_ok_one: "runs_ok run rs \<Longrightarrow> length (concat rs) \<le> run \<Longrightarrow> 0 < run \<Longrightarrow> rs = [] \<or> (\<exists>r. rs = [r])"
  by (cases "(run, rs)" rule: runs_ok.cases) (auto simp: runs_ok_Cons dest: runs_ok_concat split: if_splits)

lemma runs_ok_many: "runs_ok run rs \<Longrightarrow> run < length (concat rs) \<Longrightarrow> \<exists>r s rs'. rs = r # s # rs'"
  by (cases "(run, rs)" rule: runs_ok.cases) auto

lemma merge_passes_runs:
  assumes "runs_ok run rs" and "0 < run" and "length vec2 = length (concat rs)" and c: "c = (\<lambda>x y. Some (le x y))"
  shows "\<exists>sc v1 v2. merge_passes c (length (concat rs)) run scratched (concat rs) vec2 = Some (sc, v1, v2) \<and>
    v1 = merge_all le rs \<and> length v1 = length (concat rs) \<and> length v2 = length (concat rs)"
  using assms
proof (induction le rs arbitrary: run scratched vec2 rule: merge_all.induct)
  case (1 le)
  then show ?case by (subst merge_passes.simps) simp
next
  case (2 le r)
  then show ?case by (subst merge_passes.simps) simp
next
  case (3 le r s rs)
  let ?rs = "r # s # rs"
  have more: "run < length (concat ?rs)"
    using "3.prems"(1,2) runs_ok_one [of run ?rs] by (metis linorder_not_le list.distinct(1) list.inject)
  have "merge_pass c (length (concat ?rs)) run 0 (concat ?rs) vec2 = Some (concat (merge_pairs le ?rs))"
    using merge_pass_runs [OF "3.prems"(1,2), of vec2 "[]" "[]" c le] "3.prems"(3,4) by simp
  moreover have "runs_ok (run * 2) (merge_pairs le ?rs)" by (rule runs_ok_pairs [OF "3.prems"(1,2)])
  moreover have len: "length (concat (merge_pairs le ?rs)) = length (concat ?rs)" by (rule length_concat_pairs)
  moreover obtain sc v1 v2 where
    "merge_passes c (length (concat ?rs)) (run * 2) (\<not> scratched) (concat (merge_pairs le ?rs)) (concat ?rs) = Some (sc, v1, v2)"
    "v1 = merge_all le (merge_pairs le ?rs)" "length v1 = length (concat ?rs)" "length v2 = length (concat ?rs)"
    using "3.IH" [OF calculation(2) _ len [symmetric] "3.prems"(4), of "\<not> scratched"] "3.prems"(2) unfolding len by auto
  ultimately show ?case
    using more "3.prems"(2)
    by (subst merge_passes.simps) (simp only: merge_all.simps, simp del: concat.simps merge_pairs.simps)
qed


section \<open>The chunks\<close>

lemma insert_down_segment:
  assumes "ys \<noteq> []" and c: "c = (\<lambda>x y. Some (le x y))"
  shows "insert_down c (length p) (length p + length ys) (p @ rev ys @ x # q) = Some (p @ rev (ins_rev le x ys) @ q)"
  using assms(1)
proof (induction ys arbitrary: q)
  case (Cons y ys)
  have rds: "rd (p @ rev ys @ y # x # q) (length p + length ys) = Some y"
      "rd (p @ rev ys @ y # x # q) (Suc (length p + length ys)) = Some x"
    using rd_append [of "p @ rev ys" "length p + length ys" y "x # q"]
      rd_append [of "p @ rev ys @ [y]" "Suc (length p + length ys)" x q] by simp_all
  have wrs: "wr (p @ rev ys @ y # x # q) (length p + length ys) x = Some (p @ rev ys @ x # x # q)"
      "wr (p @ rev ys @ x # x # q) (Suc (length p + length ys)) y = Some (p @ rev ys @ x # y # q)"
    using wr_append [of "p @ rev ys" "length p + length ys" y "x # q" x]
      wr_append [of "p @ rev ys @ [x]" "Suc (length p + length ys)" x q y] by simp_all
  show ?case
    using rds wrs Cons.IH [of "y # q"] by (cases "ys = []") (auto simp: c)
qed simp

lemma insert_chunk_segment:
  assumes "acc \<noteq> []" and c: "c = (\<lambda>x y. Some (le x y))"
  shows "insert_chunk c (length p) [length p + length acc..<length p + length acc + length xs] (p @ rev acc @ xs @ q) =
    Some (p @ rev (fold (ins_rev le) xs acc) @ q)"
  using assms(1)
proof (induction xs arbitrary: acc)
  case (Cons x xs)
  have "ins_rev le x acc \<noteq> []" by (cases acc) auto
  note IH = Cons.IH [OF this]
  have "[length p + length acc..<length p + length acc + length (x # xs)] =
      (length p + length acc) # [length p + length (ins_rev le x acc)..<length p + length (ins_rev le x acc) + length xs]"
    by (subst upt_conv_Cons) auto
  then show ?case
    using IH insert_down_segment [OF Cons.prems c, of p x "xs @ q"] by (simp del: upt_Suc)
qed simp

fun threes :: "'a list \<Rightarrow> 'a list list" where
  "threes (x # y # z # xs) = [x, y, z] # threes xs"
| "threes [] = []"
| "threes [x] = [[x]]"
| "threes [x, y] = [[x, y]]"

lemma concat_threes [simp]: "concat (threes xs) = xs"
  by (induction xs rule: threes.induct) auto

lemma insertion_Cons: "insertion le (x # xs) = rev (fold (ins_rev le) xs [x])"
  by (simp add: insertion_def)

lemma insertion_Nil [simp]: "insertion le xs = [] \<longleftrightarrow> xs = []"
  by (metis length_insertion length_0_conv)

lemma insertion_chunks_end: "nelems \<le> lo \<Longrightarrow> insertion_chunks c nelems lo arr = Some arr"
  by (subst insertion_chunks.simps) simp

lemma runs_ok_threes: "runs_ok 3 (map (insertion le) (threes xs))"
proof (induction xs rule: threes.induct)
  case (1 x y z xs)
  have "length (insertion le [x, y, z]) = 3" by simp
  then show ?case using 1 by (simp add: runs_ok_Cons)
qed auto

lemma insertion_chunks_segment:
  assumes c: "c = (\<lambda>x y. Some (le x y))"
  shows "insertion_chunks c (length p + length xs) (length p) (p @ xs) = Some (p @ concat (map (insertion le) (threes xs)))"
proof (induction xs arbitrary: p rule: threes.induct)
  case (1 x y z xs)
  have "insert_chunk c (length p) [length p + length [x]..<length p + length [x] + length [y, z]] (p @ rev [x] @ [y, z] @ xs) =
      Some (p @ insertion le [x, y, z] @ xs)"
    unfolding insertion_Cons by (rule insert_chunk_segment [OF _ c]) simp
  then have chunk: "insert_chunk c (length p) [Suc (length p)..<length p + 3] (p @ x # y # z # xs) = Some (p @ insertion le [x, y, z] @ xs)"
    by (simp add: numeral_3_eq_3)
  have len: "length (insertion le [x, y, z]) = 3" by simp
  have "insertion_chunks c (length (p @ insertion le [x, y, z]) + length xs) (length (p @ insertion le [x, y, z])) ((p @ insertion le [x, y, z]) @ xs) =
      Some ((p @ insertion le [x, y, z]) @ concat (map (insertion le) (threes xs)))"
    by (rule "1.IH")
  then have "insertion_chunks c (length p + length (x # y # z # xs)) (length p + 3) (p @ insertion le [x, y, z] @ xs) =
      Some (p @ concat (map (insertion le) (threes (x # y # z # xs))))"
    by (simp add: len numeral_3_eq_3)
  moreover have "(if length p + length (x # y # z # xs) \<le> length p + 3 then length p + length (x # y # z # xs) else length p + 3) = length p + 3"
    by simp
  ultimately show ?case
    using chunk
    by (subst insertion_chunks.simps) (simp only: INS_SORT_LIMIT_def Let_def, simp del: upt_Suc threes.simps)
next
  case 2
  then show ?case by (subst insertion_chunks.simps) simp
next
  case (3 x)
  then show ?case
    by (subst insertion_chunks.simps) (simp add: insertion_chunks_end INS_SORT_LIMIT_def Let_def insertion_def)
next
  case (4 x y)
  have "insert_chunk c (length p) [length p + length [x]..<length p + length [x] + length [y]] (p @ rev [x] @ [y] @ []) =
      Some (p @ insertion le [x, y] @ [])"
    unfolding insertion_Cons by (rule insert_chunk_segment [OF _ c]) simp
  then show ?case
    by (subst insertion_chunks.simps) (simp add: insertion_chunks_end INS_SORT_LIMIT_def Let_def)
qed

definition merge_sort :: "('a \<Rightarrow> 'a \<Rightarrow> bool) \<Rightarrow> 'a list \<Rightarrow> 'a list" where
  "merge_sort le xs = merge_all le (map (insertion le) (threes xs))"

lemma length_concat_insertions [simp]: "length (concat (map (insertion le) rs)) = length (concat rs)"
  by (induction rs) auto

lemma merge_sort_small: "length xs \<le> 1 \<Longrightarrow> merge_sort le xs = xs"
  by (cases xs; cases "tl xs") (auto simp: merge_sort_def insertion_def)

text \<open>The array sort is the sort of lists.\<close>

lemma MergeSort_runs:
  assumes c: "c = (\<lambda>x y. Some (le x y))" and len: "length scratch = length arr"
  shows "MergeSort c arr (length arr) scratch = Some (merge_sort le arr)"
proof (cases "length arr \<le> 1")
  case False
  let ?rs = "map (insertion le) (threes arr)"
  have chunks: "insertion_chunks c (length arr) 0 arr = Some (concat ?rs)"
    using insertion_chunks_segment [OF c, of "[]" arr] by simp
  have lens: "length (concat ?rs) = length arr" by simp
  obtain sc v1 v2 where passes: "merge_passes c (length arr) 3 False (concat ?rs) scratch = Some (sc, v1, v2)"
      and v: "v1 = merge_sort le arr" "length v1 = length arr" "length v2 = length arr"
    using merge_passes_runs [OF runs_ok_threes [of le arr] _ _ c, of scratch False] len by (auto simp: merge_sort_def)
  have "v1 \<noteq> []" using v(2) False by auto
  then have "CopyNonEmptyArray v2 0 v1 0 (length arr) = Some v1"
    using CopyNonEmptyArray_segment [of v1 v2 "[]" "[]" "[]" "[]"] v by simp
  then show ?thesis
    using False chunks passes v by (auto simp: MergeSort_def INS_SORT_LIMIT_def)
qed (simp add: MergeSort_def merge_sort_small)

section \<open>A permutation, and for keys the stable sort\<close>

lemma mset_concat_pairs: "mset (concat (merge_pairs le rs)) = mset (concat rs)"
  by (induction le rs rule: merge_pairs.induct) (auto simp: mset_merge_runs)

lemma mset_merge_all: "mset (merge_all le rs) = mset (concat rs)"
proof (induction le rs rule: merge_all.induct)
  case (3 le r s rs)
  then show ?case unfolding merge_all.simps mset_concat_pairs by simp
qed auto

lemma mset_merge_sort: "mset (merge_sort le xs) = mset xs"
proof -
  have "mset (concat (map (insertion le) rs)) = mset (concat rs)" for rs :: "'a list list"
    by (induction rs) (auto simp: mset_insertion)
  then show ?thesis by (simp add: merge_sort_def mset_merge_all)
qed

text \<open>Below, \<open>le\<close> compares by a key.\<close>

abbreviation (input) by_key :: "('a \<Rightarrow> 'k :: linorder) \<Rightarrow> 'a \<Rightarrow> 'a \<Rightarrow> bool" where
  "by_key f x y \<equiv> f x \<le> f y"

lemma set_merge [simp]: "set (merge le xs ys) = set xs \<union> set ys"
  by (metis mset_merge set_mset_mset set_mset_union)

lemma sorted_merge: "sorted (map f xs) \<Longrightarrow> sorted (map f ys) \<Longrightarrow> sorted (map f (merge (by_key f) xs ys))"
  by (induction "by_key f" xs ys rule: merge.induct) (auto simp: not_le intro: order_trans less_imp_le)

lemma filter_below: "sorted (map f (y # ys)) \<Longrightarrow> k < f y \<Longrightarrow> filter (\<lambda>x. k = f x) ys = []"
  by (auto simp: filter_empty_conv)

lemma stable_merge:
  "sorted (map f xs) \<Longrightarrow> sorted (map f ys) \<Longrightarrow>
   filter (\<lambda>x. k = f x) (merge (by_key f) xs ys) = filter (\<lambda>x. k = f x) xs @ filter (\<lambda>x. k = f x) ys"
proof (induction "by_key f" xs ys rule: merge.induct)
  case (3 x xs y ys)
  show ?case
  proof (cases "f x \<le> f y")
    case False
    have "filter (\<lambda>z. f y = f z) (x # xs) = []"
      using 3(3) False by (auto simp: filter_empty_conv)
    then show ?thesis using False 3 by auto
  qed (use 3 in auto)
qed auto

lemma merge_runs_key:
  assumes "xs \<noteq> []" and "ys \<noteq> []"
  shows "merge_runs (by_key f) (sort_key f xs) (sort_key f ys) = sort_key f (xs @ ys)"
proof (rule properties_for_sort_key [symmetric])
  let ?xs = "sort_key f xs" and ?ys = "sort_key f ys"
  have ne: "?xs \<noteq> []" "?ys \<noteq> []" using assms by (metis set_empty set_sort)+
  show "mset (merge_runs (by_key f) ?xs ?ys) = mset (xs @ ys)" by (simp add: mset_merge_runs)
  show "filter (\<lambda>x. f k = f x) (merge_runs (by_key f) ?xs ?ys) = filter (\<lambda>x. f k = f x) (xs @ ys)" for k
  proof -
    have "filter (\<lambda>x. f k = f x) (sort_key f us) = filter (\<lambda>x. f k = f x) us" for us
      using sort_key_stable [of f "f k" us] by (simp add: eq_commute)
    then show ?thesis by (simp add: merge_runs_def stable_merge)
  qed
  have "sorted (map f (?xs @ ?ys))" if "f (last ?xs) \<le> f (hd ?ys)"
  proof -
    have "f x \<le> f (last ?xs)" if "x \<in> set ?xs" for x
    proof -
      obtain us u where us: "?xs = us @ [u]" using ne(1) by (cases "?xs" rule: rev_cases) auto
      have "sorted (map f (us @ [u]))" using sorted_sort_key [of f xs] us by simp
      then show ?thesis using that us by (auto simp: sorted_append)
    qed
    moreover have "f (hd ?ys) \<le> f y" if "y \<in> set ?ys" for y
    proof -
      obtain v vs where vs: "?ys = v # vs" using ne(2) by (cases "?ys") auto
      have "sorted (map f (v # vs))" using sorted_sort_key [of f ys] vs by simp
      then show ?thesis using that vs by auto
    qed
    ultimately show ?thesis using that by (auto simp: sorted_append) (meson order_trans)
  qed
  then show "sorted (map f (merge_runs (by_key f) ?xs ?ys))"
    by (simp add: merge_runs_def sorted_merge)
qed

fun pairs :: "'a list list \<Rightarrow> 'a list list" where
  "pairs (r # s # rs) = (r @ s) # pairs rs"
| "pairs rs = rs"

lemma concat_pairs: "concat (pairs rs) = concat rs"
  by (induction rs rule: pairs.induct) auto

lemma pairs_ne: "[] \<notin> set rs \<Longrightarrow> [] \<notin> set (pairs rs)"
  by (induction rs rule: pairs.induct) auto

lemma merge_pairs_key: "[] \<notin> set rs \<Longrightarrow> merge_pairs (by_key f) (map (sort_key f) rs) = map (sort_key f) (pairs rs)"
  by (induction rs rule: pairs.induct) (auto simp: merge_runs_key)

lemma length_pairs: "length (pairs rs) = (length rs + 1) div 2"
  by (induction rs rule: pairs.induct) auto

lemma merge_all_key: "[] \<notin> set rs \<Longrightarrow> merge_all (by_key f) (map (sort_key f) rs) = sort_key f (concat rs)"
proof (induction "length rs" arbitrary: rs rule: less_induct)
  case less
  show ?case
  proof (cases rs rule: pairs.cases)
    case (1 r s rs')
    have "merge_all (by_key f) (map (sort_key f) rs) = merge_all (by_key f) (merge_pairs (by_key f) (map (sort_key f) rs))"
      by (simp only: 1 list.map merge_all.simps)
    also have "\<dots> = merge_all (by_key f) (map (sort_key f) (pairs rs))"
      by (simp only: merge_pairs_key [OF less.prems])
    also have "\<dots> = sort_key f (concat (pairs rs))"
      by (rule less.hyps) (use 1 less.prems pairs_ne in \<open>auto simp: length_pairs\<close>)
    finally show ?thesis by (simp only: concat_pairs)
  qed auto
qed

lemma set_ins_rev [simp]: "set (ins_rev le x ys) = insert x (set ys)"
  by (induction ys) auto

lemma ins_rev_key: "rev (ins_rev (by_key f) x (rev (sort_key f xs))) = sort_key f (xs @ [x])"
proof (rule properties_for_sort_key [symmetric])
  have sorted: "sorted (map f (rev (ins_rev (by_key f) x ys)))" if "sorted (map f (rev ys))" for ys
    using that
  proof (induction ys)
    case (Cons y ys)
    then show ?case by (auto simp: sorted_append not_le intro: order_trans less_imp_le)
  qed simp
  show "sorted (map f (rev (ins_rev (by_key f) x (rev (sort_key f xs)))))"
    by (rule sorted) simp
  have stable: "filter (\<lambda>z. k = f z) (rev (ins_rev (by_key f) x ys)) = filter (\<lambda>z. k = f z) (rev ys) @ filter (\<lambda>z. k = f z) [x]"
    if "sorted (map f (rev ys))" for k ys
    using that by (induction ys) (auto simp: sorted_append)
  show "filter (\<lambda>z. f k = f z) (rev (ins_rev (by_key f) x (rev (sort_key f xs)))) = filter (\<lambda>z. f k = f z) (xs @ [x])" for k
    using stable [of "rev (sort_key f xs)" "f k"] sort_key_stable [of f "f k" xs] by (simp add: eq_commute)
qed simp

lemma insertion_key: "insertion (by_key f) xs = sort_key f xs"
proof -
  have "rev (fold (ins_rev (by_key f)) ys (rev (sort_key f xs))) = sort_key f (xs @ ys)" for xs ys
  proof (induction ys arbitrary: xs)
    case (Cons y ys)
    have "ins_rev (by_key f) y (rev (sort_key f xs)) = rev (sort_key f (xs @ [y]))"
      using ins_rev_key [of f y xs] by (metis rev_rev_ident)
    then show ?case using Cons.IH [of "xs @ [y]"] by simp
  qed simp
  from this [of xs "[]"] this [of "[]" xs] show ?thesis by (simp add: insertion_def)
qed

lemma merge_sort_key: "merge_sort (by_key f) xs = sort_key f xs"
proof -
  have "[] \<notin> set (threes xs)" by (induction xs rule: threes.induct) auto
  moreover have "insertion (by_key f) = sort_key f" by (rule ext) (rule insertion_key)
  ultimately show ?thesis using merge_all_key [of "threes xs" f] by (simp add: merge_sort_def)
qed

text \<open>
  C27. With any comparator that does not fail, however inconsistent, the sort never reads or writes past the array or
  the scratch array, it ends, and the array then holds the same elements.
\<close>

theorem MergeSort_permutes:
  assumes "\<And>x y. c x y \<noteq> None" and "length scratch = length arr"
  shows "\<exists>sorted_arr. MergeSort c arr (length arr) scratch = Some sorted_arr \<and> mset sorted_arr = mset arr"
proof -
  have "c = (\<lambda>x y. Some (the (c x y)))" using assms(1) by auto
  from MergeSort_runs [OF this assms(2)] show ?thesis by (simp add: mset_merge_sort)
qed

theorem MergeSort_permutes_witness:
  "\<exists>sorted_arr. MergeSort (\<lambda>x y. Some False) [1, 2, 3, 4 :: nat] 4 [0, 0, 0, 0] = Some sorted_arr \<and> mset sorted_arr = mset [1, 2, 3, 4]"
  using MergeSort_permutes [of "\<lambda>x y. Some False" "[0, 0, 0, 0]" "[1, 2, 3, 4 :: nat]"] by (simp add: numeral_eq_Suc)

text \<open>Only the comparisons of the elements matter.\<close>

lemma merge_cong:
  "(\<And>x y. x \<in> set xs \<union> set ys \<Longrightarrow> y \<in> set xs \<union> set ys \<Longrightarrow> le x y = le' x y) \<Longrightarrow> merge le xs ys = merge le' xs ys"
  by (induction le xs ys rule: merge.induct) auto

lemma merge_pairs_cong:
  assumes "[] \<notin> set rs" and "\<And>x y. x \<in> set (concat rs) \<Longrightarrow> y \<in> set (concat rs) \<Longrightarrow> le x y = le' x y"
  shows "merge_pairs le rs = merge_pairs le' rs"
  using assms
proof (induction le rs rule: merge_pairs.induct)
  case (1 le r s rs)
  have "le (last r) (hd s) = le' (last r) (hd s)" using 1(2) by (intro 1(3)) (auto simp: last_in_set hd_in_set)
  moreover have "merge le r s = merge le' r s" by (rule merge_cong) (use 1(3) in auto)
  moreover have "merge_pairs le rs = merge_pairs le' rs" by (rule 1(1)) (use 1(2,3) in auto)
  ultimately show ?case by (simp add: merge_runs_def)
qed auto

lemma merge_pairs_ne: "[] \<notin> set rs \<Longrightarrow> [] \<notin> set (merge_pairs le rs)"
  by (induction le rs rule: merge_pairs.induct) (auto simp: merge_runs_def dest: arg_cong [of _ _ length])

lemma set_concat_pairs: "set (concat (merge_pairs le rs)) = set (concat rs)"
  by (metis mset_concat_pairs set_mset_mset)

lemma merge_all_cong:
  assumes "[] \<notin> set rs" and "\<And>x y. x \<in> set (concat rs) \<Longrightarrow> y \<in> set (concat rs) \<Longrightarrow> le x y = le' x y"
  shows "merge_all le rs = merge_all le' rs"
  using assms
proof (induction le rs rule: merge_all.induct)
  case (3 le r s rs)
  let ?rs = "r # s # rs"
  have "merge_pairs le ?rs = merge_pairs le' ?rs" by (rule merge_pairs_cong) (use 3(2,3) in auto)
  moreover have "merge_all le (merge_pairs le ?rs) = merge_all le' (merge_pairs le ?rs)"
    using 3(2,3) unfolding set_concat_pairs [symmetric, of ?rs le] by (intro 3(1) merge_pairs_ne)
  ultimately show ?case by (simp only: merge_all.simps)
qed auto

lemma insertion_cong:
  assumes "\<And>x y. x \<in> set xs \<Longrightarrow> y \<in> set xs \<Longrightarrow> le x y = le' x y"
  shows "insertion le xs = insertion le' xs"
proof -
  have ins: "ins_rev le x ys = ins_rev le' x ys" if "x \<in> set xs" "set ys \<subseteq> set xs" for x ys
    using that assms by (induction ys) auto
  have "fold (ins_rev le) zs ys = fold (ins_rev le') zs ys" if "set zs \<subseteq> set xs" "set ys \<subseteq> set xs" for zs ys
    using that
  proof (induction zs arbitrary: ys)
    case (Cons z zs)
    moreover have "set (ins_rev le' z ys) \<subseteq> set xs" using Cons.prems by (metis insert_subset list.simps(15) mset_ins_rev set_mset_add_mset_insert set_mset_mset)
    ultimately show ?case by (simp add: ins)
  qed simp
  then show ?thesis by (simp add: insertion_def)
qed

lemma merge_sort_cong:
  assumes "\<And>x y. x \<in> set xs \<Longrightarrow> y \<in> set xs \<Longrightarrow> le x y = le' x y"
  shows "merge_sort le xs = merge_sort le' xs"
proof -
  let ?rs = "\<lambda>le. map (insertion le) (threes xs)"
  have "insertion le r = insertion le' r" if "r \<in> set (threes xs)" for r
  proof (rule insertion_cong)
    have "set r \<subseteq> set xs" using that concat_threes [of xs] by (metis UN_upper set_concat)
    then show "le x y = le' x y" if "x \<in> set r" "y \<in> set r" for x y using that assms by auto
  qed
  then have rs: "?rs le = ?rs le'" by simp
  have ne: "[] \<notin> set (threes xs)" by (induction xs rule: threes.induct) auto
  have set_ins: "mset (insertion le' r) = mset r" for r by (rule mset_insertion)
  have "merge_all le (?rs le') = merge_all le' (?rs le')"
  proof (rule merge_all_cong)
    show "[] \<notin> set (?rs le')" using ne set_ins by (auto dest: arg_cong [of _ _ mset])
    have "set (concat (?rs le')) = set (concat (threes xs))" by (simp only: set_concat set_map image_image mset_eq_setD [OF set_ins])
    then show "le x y = le' x y" if "x \<in> set (concat (?rs le'))" "y \<in> set (concat (?rs le'))" for x y
      using that assms by (simp only: concat_threes)
  qed
  then show ?thesis unfolding merge_sort_def rs .
qed

lemma MergeSort_sorts:
  assumes "length scratch = length arr" and "\<And>x y. c x y \<noteq> None"
    and "\<And>x y. x \<in> set arr \<Longrightarrow> y \<in> set arr \<Longrightarrow> c x y = Some (f x \<le> f y)"
  shows "MergeSort c arr (length arr) scratch = Some (sort_key f arr)"
proof -
  have "c = (\<lambda>x y. Some (the (c x y)))" using assms(2) by auto
  moreover have "merge_sort (\<lambda>x y. the (c x y)) arr = merge_sort (by_key f) arr"
    by (rule merge_sort_cong) (simp add: assms(3))
  ultimately show ?thesis using MergeSort_runs [of c "\<lambda>x y. the (c x y)" scratch arr] assms(1) by (simp add: merge_sort_key)
qed

text \<open>
  C26. With a comparator that compares a key of the elements, the merge sort over arrays is the library's stable
  sort by that key.
\<close>

theorem MergeSort_sort_key:
  assumes "length scratch = length arr" and "\<And>x y. c x y \<noteq> None"
    and "\<And>x y. x \<in> set arr \<Longrightarrow> y \<in> set arr \<Longrightarrow> c x y = Some (f x \<le> f y)"
  shows "MergeSort c arr (length arr) scratch = Some (sort_key f arr)"
  using assms by (rule MergeSort_sorts)

theorem MergeSort_sort_key_witness:
  "MergeSort (\<lambda>x y. Some (fst x \<le> fst y)) [(3, 1), (1, 1), (3, 0), (2, 5), (1, 0)] 5 (replicate 5 (0, 0)) =
    Some [(1 :: nat, 1 :: nat), (1, 0), (2, 5), (3, 1), (3, 0)]"
  using MergeSort_sort_key [of "replicate 5 (0, 0)" "[(3, 1), (1, 1), (3, 0), (2, 5), (1 :: nat, 0 :: nat)]"
      "\<lambda>x y. Some (fst x \<le> fst y)" fst] by (simp add: numeral_eq_Suc)

end
