(* ===== verification/ArraySortCorrect.thy ===== *)
theory ArraySortCorrect
  imports Reorder SortCorrect "HOL-Library.List_Lexorder"
begin

text \<open>
  \<open>Array.prototype.sort\<close>: its comparators are orders, the integers are compared as their decimal strings would be, the
  elements follow their keys in place, and the whole is the stable sort, undefined elements and holes last.
\<close>

section \<open>Strings\<close>

text \<open>The order of strings is the lexicographic one on their units.\<close>

lemma CompareChars_Nil: "CompareChars [] t = - int (length t)" "CompareChars s [] = int (length s)"
  by (cases t; simp) (cases s; simp)

lemma CompareChars_le: "CompareChars s t \<le> 0 \<longleftrightarrow> s \<le> t"
proof (induction s t rule: CompareChars.induct)
  case (1 c1 s1 c2 s2)
  have "uint c1 - uint c2 = 0 \<longleftrightarrow> c1 = c2" by (metis eq_iff_diff_eq_0 word_eq_iff_unsigned)
  moreover have "uint c1 - uint c2 \<le> 0 \<longleftrightarrow> c1 \<le> c2" by (simp add: word_le_def)
  ultimately show ?case
    using 1 by (cases "c1 = c2") (auto simp: Let_def less_le)
qed (auto simp: CompareChars_Nil)

section \<open>Integers as strings\<close>

lemma leading_digit:
  fixes a b N :: nat
  assumes "a < N" and "b < N"
  shows "d * N + a < e * N + b \<longleftrightarrow> d < e \<or> d = e \<and> a < b" and "d * N + a \<le> e * N + b \<longleftrightarrow> d < e \<or> d = e \<and> a \<le> b"
proof -
  have less: "d * N + a < e * N + b" if "d < e" "a < N" for d e a b
  proof -
    have "d * N + a < Suc d * N" using that(2) by simp
    also have "\<dots> \<le> e * N" using that(1) by (intro mult_right_mono) auto
    finally show ?thesis by simp
  qed
  show "d * N + a < e * N + b \<longleftrightarrow> d < e \<or> d = e \<and> a < b" "d * N + a \<le> e * N + b \<longleftrightarrow> d < e \<or> d = e \<and> a \<le> b"
    using less [of d e a b] less [of e d b a] assms by (cases d e rule: linorder_cases; auto)+
qed

text \<open>Digit lists in lexicographic order, as the code compares the numbers.\<close>

lemma digits_le:
  assumes "list_all (\<lambda>d. d < 10) ds" and "list_all (\<lambda>d. d < 10) es"
  shows "length ds = length es \<Longrightarrow> ds \<le> es \<longleftrightarrow> dec_value ds \<le> dec_value es"
    and "length es < length ds \<Longrightarrow> ds \<le> es \<longleftrightarrow> dec_value ds < dec_value es * 10 ^ (length ds - length es)"
    and "length ds < length es \<Longrightarrow> ds \<le> es \<longleftrightarrow> dec_value ds * 10 ^ (length es - length ds) \<le> dec_value es"
  using assms
proof (induction ds es rule: list_induct2')
  case (4 d ds e es)
  note less = dec_value_less [of ds] dec_value_less [of es]
  {
    case 1
    then show ?case using "4.IH"(1) less by (simp add: dec_value_Cons leading_digit)
  next
    case 2
    then have len: "length ds = length es + (length ds - length es)" by simp
    have "dec_value es * 10 ^ (length ds - length es) < 10 ^ length es * 10 ^ (length ds - length es)"
      using less(2) 2 by (intro mult_strict_right_mono) auto
    then have *: "dec_value es * 10 ^ (length ds - length es) < 10 ^ length ds" by (subst len) (simp add: power_add)
    have **: "e * 10 ^ length es * 10 ^ (length ds - length es) = e * 10 ^ length ds"
      by (subst (2) len) (simp add: power_add)
    show ?case
      using 2 "4.IH"(2) leading_digit(1) [OF less(1) *, of d e] by (simp add: dec_value_Cons add_mult_distrib **)
  next
    case 3
    then have len: "length es = length ds + (length es - length ds)" by simp
    have "dec_value ds * 10 ^ (length es - length ds) < 10 ^ length ds * 10 ^ (length es - length ds)"
      using less(1) 3 by (intro mult_strict_right_mono) auto
    then have *: "dec_value ds * 10 ^ (length es - length ds) < 10 ^ length es" by (subst len) (simp add: power_add)
    have **: "d * 10 ^ length ds * 10 ^ (length es - length ds) = d * 10 ^ length es"
      by (subst (2) len) (simp add: power_add)
    show ?case
      using 3 "4.IH"(3) leading_digit(2) [OF * less(2), of d e] by (simp add: dec_value_Cons add_mult_distrib **)
  }
qed auto

section \<open>The number of digits\<close>

lemma length_dec_digits_eq:
  assumes "n < 10 ^ Suc k" and "k = 0 \<or> 10 ^ k \<le> n"
  shows "length (dec_digits n) = Suc k"
  using assms
proof (induction k arbitrary: n)
  case 0
  then show ?case by (simp add: dec_digits.simps)
next
  case (Suc k)
  have "(10 :: nat) \<le> 10 ^ Suc k" using power_increasing [of 1 "Suc k" "10 :: nat"] by simp
  then have "10 \<le> n" using Suc.prems(2) le_trans by blast
  then have "\<not> n < 10" by simp
  then have "dec_digits n = dec_digits (n div 10) @ [n mod 10]" by (simp add: dec_digits.simps [of n])
  moreover have "length (dec_digits (n div 10)) = Suc k"
    by (rule Suc.IH) (use Suc.prems in \<open>auto simp: less_mult_imp_div_less mult.commute less_eq_div_iff_mult_less_eq\<close>)
  ultimately show ?case by simp
qed

lemma top_bit:
  fixes m :: u32
  assumes "0 < unat m" and "unat m < 2 ^ N" and "z = length (takeWhile (\<lambda>i. \<not> bit m i) (rev [0..<N]))"
  shows "z < N \<and> 2 ^ (N - 1 - z) \<le> unat m \<and> unat m < 2 ^ (N - z)"
  using assms
proof (induction N arbitrary: z)
  case (Suc N)
  have bit: "bit m N \<longleftrightarrow> 2 ^ N \<le> unat m"
  proof -
    have "unat m div 2 ^ N = (if 2 ^ N \<le> unat m then 1 else 0)"
      using Suc.prems(2) by (auto simp: div_eq_range)
    moreover have "bit m N \<longleftrightarrow> bit (unat m) N" by (simp add: bit_unsigned_iff)
    ultimately show ?thesis by (simp add: bit_iff_odd)
  qed
  show ?case
  proof (cases "bit m N")
    case False
    then show ?thesis using Suc.IH [OF Suc.prems(1) _ refl] Suc.prems(3) bit by (auto simp: not_le)
  qed (use Suc.prems bit in simp)
qed simp


lemma CeilingLog2_spec:
  assumes "2 \<le> unat n"
  shows "1 \<le> CeilingLog2 n \<and> CeilingLog2 n \<le> 32 \<and> 2 ^ (CeilingLog2 n - 1) < unat n \<and> unat n \<le> 2 ^ CeilingLog2 n"
proof -
  have big: "\<not> n \<le> 1" using assms by (simp add: word_le_nat_alt)
  have m: "unat (n - 1) = unat n - 1" using assms by (subst unat_sub) (simp_all add: word_le_nat_alt)
  define z where "z = CountLeadingZeroes32 (n - 1)"
  have "z < 32 \<and> 2 ^ (32 - 1 - z) \<le> unat (n - 1) \<and> unat (n - 1) < 2 ^ (32 - z)"
    by (rule top_bit) (use assms m unsigned_less [of "n - 1", where 'a = nat] in \<open>auto simp: z_def CountLeadingZeroes32_def\<close>)
  moreover have "CeilingLog2 n = 32 - z" using big by (simp add: CeilingLog2_def z_def)
  moreover have "32 - 1 - z = 32 - z - 1" by simp
  ultimately show ?thesis using m assms by auto
qed

lemma powersOf10_nth:
  assumes "k < 10"
  shows "unat (powersOf10 ! k) = 10 ^ k"
proof -
  have "k \<in> {0, 1, 2, 3, 4, 5, 6, 7, 8, 9}" using assms by auto
  then show ?thesis by (elim insertE) (simp_all add: powersOf10_def)
qed

text \<open>The multiplication by 1233 / 4096 gives the number of digits or one less, for every power of two.\<close>

lemma log10_table:
  assumes "1 \<le> c" and "c \<le> 32"
  shows "c * 1233 div 2 ^ 12 < 10 \<and> (2::nat) ^ c < 10 ^ Suc (c * 1233 div 2 ^ 12) \<and>
    (0 < c * 1233 div 2 ^ 12 \<longrightarrow> (10::nat) ^ (c * 1233 div 2 ^ 12 - 1) \<le> Suc (2 ^ (c - 1)))"
proof -
  have "c \<in> {1, 2, 3, 4, 5, 6, 7, 8, 9, 10, 11, 12, 13, 14, 15, 16, 17, 18, 19, 20, 21, 22, 23, 24, 25, 26, 27, 28, 29, 30, 31, 32}"
    using assms unfolding insert_iff empty_iff by presburger
  then show ?thesis by (elim insertE) simp_all
qed

lemma unat_ucast_64 [simp]: "unat (ucast (n :: u32) :: u64) = unat n"
proof -
  have "unat n < 2 ^ 64" by (rule order_less_le_trans [OF unsigned_less]) simp
  then show ?thesis by (simp add: unsigned_ucast_eq take_bit_nat_eq_self)
qed

lemma NumDigitsBase10_digits: "NumDigitsBase10 n = (if n = 0 then 0 else length (dec_digits (unat n)))"
proof -
  consider "n = 0" | "n = 1" | "2 \<le> unat n" by (metis One_nat_def Suc_leI le_neq_implies_less not_less_eq_eq numeral_2_eq_2 unat_eq_zero unat_1 word_unat_eq_iff less_one linorder_not_le)
  then show ?thesis
  proof cases
    case 1
    then show ?thesis by (simp add: NumDigitsBase10_def CeilingLog2_def powersOf10_def)
  next
    case 2
    then show ?thesis by (simp add: NumDigitsBase10_def CeilingLog2_def powersOf10_def dec_digits.simps)
  next
    case 3
    define c t where "c = CeilingLog2 n" and "t = c * 1233 div 2 ^ 12"
    note c = CeilingLog2_spec [OF 3, folded c_def]
    note t = log10_table [of c, folded t_def]
    have less: "ucast n < powersOf10 ! t \<longleftrightarrow> unat n < 10 ^ t"
      using t c by (simp add: word_less_nat_alt powersOf10_nth)
    have hi: "unat n < 10 ^ Suc t" using t c by (meson order_le_less_trans)
    have num: "NumDigitsBase10 n = nat (int t - (if unat n < 10 ^ t then 1 else 0) + 1)"
      unfolding NumDigitsBase10_def Let_def c_def [symmetric] t_def [symmetric] less by (rule refl)
    show ?thesis
    proof (cases "unat n < 10 ^ t")
      case True
      then have "t \<noteq> 0" using 3 by (intro notI) simp
      then obtain k where k: "t = Suc k" by (cases t) auto
      have "10 ^ k \<le> unat n" using t c k by simp
      then show ?thesis using True num k length_dec_digits_eq [of "unat n" k] 3 by auto
    next
      case False
      then show ?thesis using hi num length_dec_digits_eq [of "unat n" t] 3 by auto
    qed
  qed
qed


lemma NumDigitsBase10_le: "NumDigitsBase10 n \<le> 10"
proof (cases "n = 0")
  case False
  have "\<exists>k \<le> 9. unat n < 10 ^ Suc k \<and> (k = 0 \<or> 10 ^ k \<le> unat n)"
  proof -
    let ?k = "LEAST k. unat n < 10 ^ Suc k"
    have "unat n < 2 ^ 32" using unsigned_less [of n, where 'a = nat] by simp
    also have "(2::nat) ^ 32 < 10 ^ Suc 9" by simp
    finally have nine: "unat n < 10 ^ Suc 9" .
    then have "unat n < 10 ^ Suc ?k" by (rule LeastI)
    moreover have "?k \<le> 9" using nine by (rule Least_le)
    moreover
    have "10 ^ ?k \<le> unat n" if k: "?k = Suc j" for j
      using not_less_Least [of j "\<lambda>k. unat n < 10 ^ Suc k"] k by (simp add: not_less)
    then have "?k = 0 \<or> 10 ^ ?k \<le> unat n" by (cases ?k) blast+
    ultimately show ?thesis by blast
  qed
  then obtain k where k: "k \<le> 9" "unat n < 10 ^ Suc k" "k = 0 \<or> 10 ^ k \<le> unat n" by blast
  then have "length (dec_digits (unat n)) = Suc k" using length_dec_digits_eq by blast
  then show ?thesis using False k(1) by (simp add: NumDigitsBase10_digits)
qed (simp add: NumDigitsBase10_digits)

lemma unat_digit: "k < 10 \<Longrightarrow> unat (0x30 + of_nat k :: u16) = 0x30 + k"
  by (subst unat_add_lem [THEN iffD1]) (simp_all add: unat_of_nat take_bit_nat_eq_self)

lemma digit_units_le:
  "list_all (\<lambda>d. d < 10) ds \<Longrightarrow> list_all (\<lambda>d. d < 10) es \<Longrightarrow> digit_units ds \<le> digit_units es \<longleftrightarrow> ds \<le> es"
proof (induction ds es rule: list_induct2')
  case (4 d ds e es)
  note u = unat_digit
  have "(0x30 + of_nat d :: u16) < 0x30 + of_nat e \<longleftrightarrow> d < e" "(0x30 + of_nat d :: u16) = 0x30 + of_nat e \<longleftrightarrow> d = e"
    using 4 u by (simp_all add: word_less_nat_alt word_unat_eq_iff)
  then show ?case using 4 by (simp add: digit_units_def)
qed (auto simp: digit_units_def)

text \<open>The comparison of two different magnitudes.\<close>

lemma compare_magnitudes:
  fixes a b :: u32
  assumes "a \<noteq> b"
  shows "(if NumDigitsBase10 a = NumDigitsBase10 b then unat a \<le> unat b
      else if NumDigitsBase10 b < NumDigitsBase10 a then unat a < unat b * 10 ^ (NumDigitsBase10 a - NumDigitsBase10 b)
      else unat a * 10 ^ (NumDigitsBase10 b - NumDigitsBase10 a) \<le> unat b) \<longleftrightarrow>
    dec_digits (unat a) \<le> dec_digits (unat b)"
proof -
  note le = digits_le [OF dec_digits_range [of "unat a"] dec_digits_range [of "unat b"], unfolded dec_value_digits]
  have one: "length (dec_digits n) = 1 \<or> 1 < length (dec_digits n)" for n
    using dec_digits_not_Nil [of n] by (cases "dec_digits n") (auto simp: Suc_lessI)
  consider "a = 0" "b \<noteq> 0" | "a \<noteq> 0" "b = 0" | "a \<noteq> 0" "b \<noteq> 0" using assms by blast
  then show ?thesis
  proof cases
    case 1
    then show ?thesis
      using le one [of "unat b"] by (elim disjE) (simp_all add: NumDigitsBase10_digits)
  next
    case 2
    then have "0 < unat a" by (simp add: unat_gt_0)
    then show ?thesis
      using le one [of "unat a"] 2 by (elim disjE) (simp_all add: NumDigitsBase10_digits)
  next
    case 3
    then show ?thesis
      using le
      by (cases "length (dec_digits (unat a))" "length (dec_digits (unat b))" rule: linorder_cases) (simp_all add: NumDigitsBase10_digits)
  qed
qed

lemma scaled:
  fixes b :: u32
  assumes "unat b \<le> 2 ^ 31" and "k < 10"
  shows "unat (ucast b * powersOf10 ! k :: u64) = unat b * 10 ^ k"
proof -
  have "unat b * 10 ^ k \<le> 2 ^ 31 * 10 ^ 9"
    using assms by (intro mult_mono power_increasing) auto
  also have "\<dots> < (2::nat) ^ 64" by simp
  finally show ?thesis using assms(2) by (subst unat_mult_lem [THEN iffD1]) (simp_all add: powersOf10_nth)
qed

text \<open>A minus sign is below every digit.\<close>

lemma minus_less_digits: "0x2D # s < digit_units (dec_digits n)" "\<not> digit_units (dec_digits n) \<le> 0x2D # s"
proof -
  obtain d ds where d: "dec_digits n = d # ds" using dec_digits_not_Nil [of n] by (cases "dec_digits n") auto
  then have "d < 10" using dec_digits_range [of n] by simp
  moreover define v where "v = (0x30 + of_nat d :: u16)"
  ultimately have "0x2D < v" by (simp add: word_less_nat_alt unat_digit)
  moreover have "digit_units (dec_digits n) = v # digit_units ds" by (simp add: d digit_units_def v_def)
  ultimately show "0x2D # s < digit_units (dec_digits n)" "\<not> digit_units (dec_digits n) \<le> 0x2D # s"
    by auto
qed

lemma Int32ToCString_sign:
  "Int32ToCString i = (if i < 0 then [0x2D] else []) @ digit_units (dec_digits (nat \<bar>i\<bar>))"
  by (simp add: Int32ToCString_def ascii_u16_def)

lemma CompareLexicographicInt32_strings:
  assumes "- (2 ^ 31) \<le> a" and "a < 2 ^ 31" and "- (2 ^ 31) \<le> b" and "b < 2 ^ 31"
  shows "CompareLexicographicInt32 a b = Some (CompareChars (Int32ToCString a) (Int32ToCString b) \<le> 0)"
proof -
  let ?a = "word_of_int \<bar>a\<bar> :: u32" and ?b = "word_of_int \<bar>b\<bar> :: u32"
  have u: "unat ?a = nat \<bar>a\<bar>" "unat ?b = nat \<bar>b\<bar>"
    using assms by (simp_all add: unat_eq_nat_uint take_bit_int_eq_self unsigned_of_int)
  have small: "unat ?a \<le> 2 ^ 31" "unat ?b \<le> 2 ^ 31" using assms by (simp_all add: u nat_le_iff)
  have diff: "NumDigitsBase10 m - NumDigitsBase10 n < 10" if "n \<noteq> 0" for m n
  proof -
    have "0 < length (dec_digits (unat n))" by simp
    then have "0 < NumDigitsBase10 n" using that by (simp add: NumDigitsBase10_digits)
    then show ?thesis using NumDigitsBase10_le [of m] by linarith
  qed
  consider "a = b" | "a < 0" "0 \<le> b" | "0 \<le> a" "b < 0" | "a \<noteq> b" "a < 0 \<longleftrightarrow> b < 0" by linarith
  then show ?thesis
  proof cases
    case 2
    then show ?thesis
      using minus_less_digits(1) [of "digit_units (dec_digits (nat \<bar>a\<bar>))" "nat \<bar>b\<bar>"]
      by (simp add: CompareLexicographicInt32_def CompareChars_le Int32ToCString_sign less_imp_le)
  next
    case 3
    then show ?thesis
      using minus_less_digits(2) [of "nat \<bar>a\<bar>" "digit_units (dec_digits (nat \<bar>b\<bar>))"]
      by (simp add: CompareLexicographicInt32_def CompareChars_le Int32ToCString_sign)
  next
    case 4
    then have "nat \<bar>a\<bar> \<noteq> nat \<bar>b\<bar>" by linarith
    then have ne: "?a \<noteq> ?b" using u by metis
    have code: "CompareLexicographicInt32 a b = Some (
        if NumDigitsBase10 ?a = NumDigitsBase10 ?b then unat ?a \<le> unat ?b
        else if NumDigitsBase10 ?b < NumDigitsBase10 ?a then unat ?a < unat ?b * 10 ^ (NumDigitsBase10 ?a - NumDigitsBase10 ?b)
        else unat ?a * 10 ^ (NumDigitsBase10 ?b - NumDigitsBase10 ?a) \<le> unat ?b)"
    proof -
      have scale: "NumDigitsBase10 m - NumDigitsBase10 n < 10" if "NumDigitsBase10 n < NumDigitsBase10 m" "n \<noteq> 0" for m n
        using diff that by simp
      have "unat (ucast ?b * powersOf10 ! (NumDigitsBase10 ?a - NumDigitsBase10 ?b) :: u64) =
          unat ?b * 10 ^ (NumDigitsBase10 ?a - NumDigitsBase10 ?b)"
        using scaled [OF small(2)] diff [of ?b ?a] by (cases "?b = 0") simp_all
      moreover have "unat (ucast ?a * powersOf10 ! (NumDigitsBase10 ?b - NumDigitsBase10 ?a) :: u64) =
          unat ?a * 10 ^ (NumDigitsBase10 ?b - NumDigitsBase10 ?a)"
        using scaled [OF small(1)] diff [of ?a ?b] by (cases "?a = 0") simp_all
      moreover have "\<not> (a < 0 \<and> 0 \<le> b)" "\<not> (0 \<le> a \<and> b < 0)" using 4 by auto
      ultimately show ?thesis
        using 4(1) unfolding CompareLexicographicInt32_def Let_def word_le_nat_alt word_less_nat_alt unat_ucast_64
        by (simp only: if_False if_True HOL.if_distrib [of Some] simp_thms)
    qed
    have "digit_units (dec_digits (nat \<bar>a\<bar>)) \<le> digit_units (dec_digits (nat \<bar>b\<bar>)) \<longleftrightarrow>
        dec_digits (nat \<bar>a\<bar>) \<le> dec_digits (nat \<bar>b\<bar>)"
      by (rule digit_units_le [OF dec_digits_range dec_digits_range])
    then have "Int32ToCString a \<le> Int32ToCString b \<longleftrightarrow> dec_digits (unat ?a) \<le> dec_digits (unat ?b)"
      using 4(2) by (auto simp: Int32ToCString_sign u)
    then show ?thesis unfolding code compare_magnitudes [OF ne] CompareChars_le by simp
  qed (simp add: CompareLexicographicInt32_def CompareChars_le)
qed

text \<open>
  C28. Without converting them to strings, \<open>CompareLexicographicInt32\<close> compares two 32-bit integers as their decimal
  strings compare: by their signs, their numbers of digits and a scaling by a power of ten that cannot overflow 64
  bits.
\<close>

theorem lexicographic_int32:
  assumes "- (2 ^ 31) \<le> a" and "a < 2 ^ 31" and "- (2 ^ 31) \<le> b" and "b < 2 ^ 31"
  shows "CompareLexicographicInt32 a b = Some (CompareChars (Int32ToCString a) (Int32ToCString b) \<le> 0)"
  using assms by (rule CompareLexicographicInt32_strings)

theorem lexicographic_int32_witness:
  "CompareLexicographicInt32 10 9 = Some (CompareChars (Int32ToCString 10) (Int32ToCString 9) \<le> 0)"
proof -
  have "- (2 ^ 31) \<le> (10 :: int)" "(10 :: int) < 2 ^ 31" "- (2 ^ 31) \<le> (9 :: int)" "(9 :: int) < 2 ^ 31" by simp_all
  then show ?thesis by (rule lexicographic_int32)
qed

section \<open>Sorting by keys\<close>

text \<open>Only the comparisons of the elements matter to a stable sort.\<close>

lemma insort_key_cong:
  "(\<And>y. y \<in> set ys \<Longrightarrow> f x \<le> f y \<longleftrightarrow> g x \<le> g y) \<Longrightarrow> insort_key f x ys = insort_key g x ys"
  by (induction ys) auto

lemma sort_key_cong_order:
  "(\<And>x y. x \<in> set xs \<Longrightarrow> y \<in> set xs \<Longrightarrow> f x \<le> f y \<longleftrightarrow> g x \<le> g y) \<Longrightarrow> sort_key f xs = sort_key g xs"
  by (induction xs) (auto intro!: insort_key_cong)

lemma map_insort_key: "map h (insort_key (\<lambda>a. f (h a)) x xs) = insort_key f (h x) (map h xs)"
  by (induction xs) auto

lemma map_sort_key: "map h (sort_key (\<lambda>a. f (h a)) xs) = sort_key f (map h xs)"
  by (induction xs) (auto simp: map_insort_key)

text \<open>The keys of a vector: each with the index of its element.\<close>

abbreviation keyed :: "(nat \<Rightarrow> 'k) \<Rightarrow> nat \<Rightarrow> ('k \<times> nat) list" where
  "keyed k n \<equiv> map (\<lambda>i. (k i, i)) [0..<n]"

lemma keyed_permutation:
  assumes "mset keys = mset (keyed k n)"
  shows "distinct (map snd keys) \<and> snd ` set keys = {..<length keys} \<and> length keys = n"
proof -
  have "mset (map snd keys) = mset [0..<n]"
    using arg_cong [OF assms, of "image_mset snd"] by (simp add: comp_def flip: mset_map)
  then have "distinct (map snd keys)" "set (map snd keys) = {..<n}"
    by (metis distinct_upt mset_eq_imp_distinct_iff) (metis \<open>mset (map snd keys) = mset [0..<n]\<close> atLeast_upt mset_eq_setD)
  moreover have "length keys = n" using assms by (metis length_map length_upt minus_nat.diff_0 size_mset)
  ultimately show ?thesis by simp
qed

lemma map_keyed: "map (\<lambda>key. vec ! snd key) (keyed k (length vec)) = vec"
  by (simp add: comp_def map_nth)

lemma MergeSortByKey_permutes:
  assumes "\<And>a b. c a b \<noteq> None" and "length scratch = length vec"
  shows "\<exists>res. MergeSortByKey (keyed k (length vec)) (length vec) scratch c vec = Some res \<and> mset res = mset vec"
proof -
  obtain keys where sort: "MergeSort c (keyed k (length vec)) (length vec) scratch = Some keys"
      and perm: "mset keys = mset (keyed k (length vec))"
    using MergeSort_runs [of c "\<lambda>a b. the (c a b)" scratch "keyed k (length vec)"] assms by (auto simp: mset_merge_sort)
  note kp = keyed_permutation [OF perm]
  have "reorder [0..<length vec] keys vec = Some (map (\<lambda>key. vec ! snd key) keys)"
    using reorder_keys [of keys vec] kp by simp
  moreover have "mset (map (\<lambda>key. vec ! snd key) keys) = mset vec"
    using arg_cong [OF map_keyed [of vec k], of mset] by (simp only: mset_map perm)
  ultimately show ?thesis using sort by (simp add: MergeSortByKey_def)
qed

lemma MergeSortByKey_sort_key:
  assumes len: "length scratch = length vec" and total: "\<And>a b. c a b \<noteq> None"
    and c: "\<And>i j. i < length vec \<Longrightarrow> j < length vec \<Longrightarrow> c (k i, i) (k j, j) = Some (g (vec ! i) \<le> g (vec ! j))"
  shows "MergeSortByKey (keyed k (length vec)) (length vec) scratch c vec = Some (sort_key g vec)"
proof -
  let ?h = "\<lambda>key. vec ! snd key"
  let ?keys = "sort_key (\<lambda>key. g (?h key)) (keyed k (length vec))"
  have "MergeSort c (keyed k (length vec)) (length (keyed k (length vec))) scratch = Some ?keys"
    by (rule MergeSort_sorts) (use len total c in auto)
  then have sort: "MergeSort c (keyed k (length vec)) (length vec) scratch = Some ?keys" by simp
  have "mset ?keys = mset (keyed k (length vec))" by simp
  note kp = keyed_permutation [OF this]
  have "reorder [0..<length vec] ?keys vec = Some (map ?h ?keys)"
    using reorder_keys [of ?keys vec] kp by simp
  moreover have "map ?h ?keys = sort_key g vec" by (simp only: map_sort_key [of ?h g] map_keyed)
  ultimately show ?thesis using sort by (simp add: MergeSortByKey_def)
qed

section \<open>The elements collected and put back\<close>

definition sort_values :: "jsval option list \<Rightarrow> jsval list" where
  "sort_values elems = filter (\<lambda>v. v \<noteq> Undefined) (List.map_filter (\<lambda>e. e) elems)"

abbreviation undefined_count :: "jsval option list \<Rightarrow> nat" where
  "undefined_count elems \<equiv> count_list elems (Some Undefined)"

abbreviation hole_count :: "jsval option list \<Rightarrow> nat" where
  "hole_count elems \<equiv> count_list elems None"

text \<open>The array with its defined elements replaced: undefined elements after them, then the holes.\<close>

definition with_values :: "jsval option list \<Rightarrow> jsval list \<Rightarrow> jsval option list" where
  "with_values elems vs =
     map Some vs @ replicate (undefined_count elems) (Some Undefined) @ replicate (hole_count elems) None"

lemma sort_values_simps [simp]:
  "sort_values [] = []"
  "sort_values (None # es) = sort_values es"
  "sort_values (Some v # es) = (if v = Undefined then sort_values es else v # sort_values es)"
  by (simp_all add: sort_values_def List.map_filter_def)

lemma collect_elements:
  "fold collect_element elems c =
    c\<lparr>vec_values := vec_values c @ sort_values elems, undefs := undefs c + undefined_count elems,
      allStrings := allStrings c \<and> list_all isString (sort_values elems),
      allInts := allInts c \<and> list_all isInt32 (sort_values elems)\<rparr>"
proof (induction elems arbitrary: c)
  case (Cons e es)
  then show ?case by (cases e) (auto simp: collect_element_def)
qed simp

lemma length_parts: "length elems = length (sort_values elems) + undefined_count elems + hole_count elems"
proof (induction elems)
  case (Cons e es)
  then show ?case by (cases e) auto
qed simp

lemma mset_with_values:
  assumes "mset vs = mset (sort_values elems)"
  shows "mset (with_values elems vs) = mset elems"
proof -
  have "mset (with_values elems (sort_values elems)) = mset elems"
  proof (induction elems)
    case (Cons e es)
    then show ?case by (cases e) (auto simp: with_values_def)
  qed (simp add: with_values_def)
  then show ?thesis using assms by (simp add: with_values_def)
qed

lemma set_undefs_segment:
  "u \<le> length t \<Longrightarrow> set_undefs u (length p) (p @ t) = (length p + u, p @ replicate u (Some Undefined) @ drop u t)"
proof (induction u arbitrary: p t)
  case (Suc u)
  then obtain e t' where t: "t = e # t'" by (cases t) auto
  have "set_undefs u (length (p @ [Some Undefined])) ((p @ [Some Undefined]) @ t') =
      (length (p @ [Some Undefined]) + u, (p @ [Some Undefined]) @ replicate u (Some Undefined) @ drop u t')"
    using Suc.prems t by (intro Suc.IH) simp
  then show ?case by (simp add: t)
qed simp

lemma make_holes_segment:
  "make_holes (length p + length t) (length p) (p @ t @ s) = p @ replicate (length t) None @ s"
proof (induction t arbitrary: s rule: rev_induct)
  case Nil
  then show ?case by (cases p) simp_all
next
  case (snoc e t)
  have "make_holes (length p + length (t @ [e])) (length p) (p @ (t @ [e]) @ s) =
      make_holes (length p + length t) (length p) (p @ t @ None # s)"
    by (simp add: list_update_append)
  also have "\<dots> = p @ replicate (length t) None @ None # s" by (rule snoc.IH)
  finally show ?case by (simp add: replicate_append_same [symmetric])
qed

lemma put_back:
  assumes "length vs = length (sort_values elems)"
  shows "(let elems' = InitArrayElements elems vs; (n, elems') = set_undefs (undefined_count elems) (length vs) elems'
          in Sorted (make_holes (length elems) n elems')) = Sorted (with_values elems vs)"
proof -
  let ?u = "undefined_count elems"
  let ?t = "drop (length vs) elems"
  have len: "length elems = length vs + ?u + hole_count elems" using length_parts [of elems] assms by simp
  let ?p = "map Some vs @ replicate ?u (Some Undefined)"
  have und: "set_undefs ?u (length vs) (InitArrayElements elems vs) = (length ?p, ?p @ drop ?u ?t)"
    using set_undefs_segment [of ?u ?t "map Some vs"] len by (simp add: InitArrayElements_def overwrite_def)
  have "length elems = length ?p + length (drop ?u ?t)" using len by simp
  then have "make_holes (length elems) (length ?p) (?p @ drop ?u ?t) = ?p @ replicate (hole_count elems) None"
    using make_holes_segment [of ?p "drop ?u ?t" "[]"] len by simp
  then show ?thesis by (simp add: und with_values_def)
qed

section \<open>The sort of the vector\<close>

text \<open>The elements as the code converts them: slices of one buffer, and numbers.\<close>

definition slice :: "u16 list list \<Rightarrow> nat \<Rightarrow> nat \<times> nat" where
  "slice ss i = (length (concat (take i ss)), length (concat (take (Suc i) ss)))"

lemma stringify_slices:
  assumes "map tos vs = map Some ss"
  shows "stringify tos i vs (concat pre) =
    Some (concat (pre @ ss), map (\<lambda>j. (slice (pre @ ss) (length pre + j), i + j)) [0..<length ss])"
  using assms
proof (induction vs arbitrary: i pre ss)
  case (Cons v vs)
  then obtain s ss' where ss: "ss = s # ss'" "tos v = Some s" "map tos vs = map Some ss'" by (cases ss) auto
  have "stringify tos (i + 1) vs (concat (pre @ [s])) =
      Some (concat ((pre @ [s]) @ ss'), map (\<lambda>j. (slice ((pre @ [s]) @ ss') (length (pre @ [s]) + j), i + 1 + j)) [0..<length ss'])"
    by (rule Cons.IH [OF ss(3)])
  moreover have "[0..<length ss] = 0 # map Suc [0..<length ss']"
    unfolding ss(1) map_Suc_upt by (simp add: upt_conv_Cons del: upt_Suc)
  ultimately show ?case using ss by (simp add: slice_def comp_def)
qed simp

lemma slice_chars:
  assumes "i < length ss"
  shows "take (snd (slice ss i) - fst (slice ss i)) (drop (fst (slice ss i)) (concat ss)) = ss ! i"
proof -
  have "ss = take i ss @ ss ! i # drop (Suc i) ss" using assms by (rule id_take_nth_drop)
  then have cat: "concat ss = concat (take i ss) @ ss ! i @ concat (drop (Suc i) ss)"
    by (metis concat.simps(2) concat_append)
  have "length (concat (take (Suc i) ss)) = length (concat (take i ss)) + length (ss ! i)"
    using assms by (simp add: take_Suc_conv_app_nth)
  then show ?thesis unfolding slice_def by (simp add: cat)
qed

lemma stringify_runs:
  assumes "map tos vec = map Some ss"
  shows "SortLexicographically tos vec (length vec) =
    MergeSortByKey (keyed (slice ss) (length vec)) (length vec) (replicate (length vec) ((0, 0), 0))
      (SortComparatorStringifiedElements (concat ss)) vec"
proof -
  have "length ss = length vec" using assms by (metis length_map)
  then show ?thesis using stringify_slices [of tos vec ss 0 "[]"] assms by (simp add: SortLexicographically_def)
qed

lemma SortComparatorStringifiedElements_slices:
  "i < length ss \<Longrightarrow> j < length ss \<Longrightarrow>
    SortComparatorStringifiedElements (concat ss) (slice ss i, i) (slice ss j, j) = Some (ss ! i \<le> ss ! j)"
  by (simp add: SortComparatorStringifiedElements_def slice_chars CompareSubStringValues_def CompareChars_le)

lemma SortLexicographically_sort_key:
  assumes "\<And>v. v \<in> set vec \<Longrightarrow> tos v \<noteq> None"
  shows "SortLexicographically tos vec (length vec) = Some (sort_key (\<lambda>v. the (tos v)) vec)"
proof -
  let ?ss = "map (\<lambda>v. the (tos v)) vec"
  have "map tos vec = map Some ?ss" using assms by auto
  then have "SortLexicographically tos vec (length vec) =
      MergeSortByKey (keyed (slice ?ss) (length vec)) (length vec) (replicate (length vec) ((0, 0), 0))
        (SortComparatorStringifiedElements (concat ?ss)) vec"
    by (rule stringify_runs)
  also have "\<dots> = Some (sort_key (\<lambda>v. the (tos v)) vec)"
  proof (rule MergeSortByKey_sort_key)
    show "SortComparatorStringifiedElements (concat ?ss) a b \<noteq> None" for a b
      by (simp add: SortComparatorStringifiedElements_def CompareSubStringValues_def Let_def)
    show "SortComparatorStringifiedElements (concat ?ss) (slice ?ss i, i) (slice ?ss j, j) =
        Some (the (tos (vec ! i)) \<le> the (tos (vec ! j)))" if "i < length vec" "j < length vec" for i j
      using SortComparatorStringifiedElements_slices [of i ?ss j] that by simp
  qed simp
  finally show ?thesis .
qed

lemma numericize_keyed:
  "map ton vs = map Some ds \<Longrightarrow> numericize ton i vs = Some (map (\<lambda>j. (ds ! j, i + j)) [0..<length ds])"
proof (induction vs arbitrary: i ds)
  case (Cons v vs)
  then obtain d ds' where ds: "ds = d # ds'" "ton v = Some d" "map ton vs = map Some ds'" by (cases ds) auto
  have "[0..<length ds] = 0 # map Suc [0..<length ds']"
    unfolding ds(1) map_Suc_upt by (simp add: upt_conv_Cons del: upt_Suc)
  then show ?case using ds Cons.IH [OF ds(3), of "i + 1"] by (simp add: comp_def)
qed simp

lemma SortNumerically_runs:
  assumes "map ton vec = map Some ds"
  shows "SortNumerically ton vec (length vec) cmp =
    MergeSortByKey (keyed (\<lambda>i. ds ! i) (length vec)) (length vec) (replicate (length vec) (DInt 0, 0))
      (\<lambda>a b. SortComparatorNumerics cmp (fst a) (fst b)) vec"
proof -
  have "length ds = length vec" using assms by (metis length_map)
  then show ?thesis using numericize_keyed [of ton vec ds 0] assms by (simp add: SortNumerically_def)
qed

section \<open>The whole sort\<close>

definition sort_vector ::
  "conversions \<Rightarrow> bool \<Rightarrow> ComparatorMatchResult \<Rightarrow> jsval list \<Rightarrow> jsval list option" where
  "sort_vector conv compares cmp vec =
     (if \<not> compares then
        (if list_all isString vec then MergeSort CompareStringValues vec (length vec) (replicate (length vec) Undefined)
         else if list_all isInt32 vec then
           MergeSort SortComparatorLexicographicInt32 vec (length vec) (replicate (length vec) Undefined)
         else SortLexicographically (to_string conv) vec (length vec))
      else
        (if list_all isInt32 vec then
           MergeSort (SortComparatorInt32s cmp) vec (length vec) (replicate (length vec) Undefined)
         else SortNumerically (to_number conv) vec (length vec) cmp))"

definition compare_function :: "compare_arg \<Rightarrow> compare_fun option" where
  "compare_function arg0 = (case arg0 of Comparefn f \<Rightarrow> Some f | _ \<Rightarrow> None)"

lemma array_sort_vector:
  "array_sort conv memory arg0 elems =
     (if arg0 = PrimitiveArg then Failed
      else if MatchNumericComparator (compare_function arg0) = Match_Failure then Failed
      else if compare_function arg0 \<noteq> None \<and> MatchNumericComparator (compare_function arg0) = Match_None then CallsSelfHosted
      else if length elems < 2 then Sorted elems
      else if (2 ^ 32 - 1) div 16 < int (length elems) then Failed
      else if \<not> memory then Failed
      else if length (sort_values elems) = 0 \<and> undefined_count elems = 0 then Sorted elems
      else case sort_vector conv (compare_function arg0 \<noteq> None) (MatchNumericComparator (compare_function arg0)) (sort_values elems) of
          None \<Rightarrow> Failed
        | Some vs \<Rightarrow>
            (let elems' = InitArrayElements elems vs;
                 (n, elems') = set_undefs (undefined_count elems) (length (sort_values elems)) elems'
             in Sorted (make_holes (length elems) n elems')))"
  unfolding array_sort_def sort_vector_def compare_function_def [symmetric] Let_def collect_elements
  by (simp only: collected.simps collected.update_convs append_Nil add_0 simp_thms if_not_P cong: if_cong option.case_cong)

lemma with_values_few: "length elems < 2 \<Longrightarrow> with_values elems (sort_values elems) = elems"
  by (cases elems; cases "tl elems"; cases "hd elems") (auto simp: with_values_def)

lemma with_values_holes:
  "sort_values elems = [] \<Longrightarrow> undefined_count elems = 0 \<Longrightarrow> with_values elems [] = elems"
proof (induction elems)
  case (Cons e es)
  then show ?case by (cases e) (auto simp: with_values_def split: if_splits)
qed (simp add: with_values_def)

lemma mset_few: "mset xs = mset ys \<Longrightarrow> length ys < 2 \<Longrightarrow> xs = ys"
  by (cases ys; cases "tl ys") auto

lemma array_sort_Sorted:
  assumes "arg0 \<noteq> PrimitiveArg" and "MatchNumericComparator (compare_function arg0) = cmp"
    and "if compare_function arg0 = None then cmp = Match_None else cmp \<in> {Match_LeftMinusRight, Match_RightMinusLeft}"
    and "int (length elems) \<le> (2 ^ 32 - 1) div 16"
    and vs: "sort_vector conv (compare_function arg0 \<noteq> None) cmp (sort_values elems) = Some vs"
    and perm: "mset vs = mset (sort_values elems)"
  shows "array_sort conv True arg0 elems = Sorted (with_values elems vs)"
proof -
  have len: "length vs = length (sort_values elems)" using perm by (metis size_mset)
  have few: "vs = sort_values elems" if "length elems < 2"
    using mset_few [OF perm] length_parts [of elems] that by simp
  show ?thesis
    using assms(1-4) vs put_back [OF len] few with_values_few [of elems] with_values_holes [of elems] perm
    by (auto simp: array_sort_vector len split: if_splits)
qed

lemma mset_MergeSort:
  assumes "MergeSort c arr (length arr) (replicate (length arr) x) = Some res" and "\<And>x y. c x y \<noteq> None"
  shows "mset res = mset arr"
proof -
  have "c = (\<lambda>x y. Some (the (c x y)))" using assms(2) by auto
  then show ?thesis using MergeSort_runs [of c "\<lambda>x y. the (c x y)" "replicate (length arr) x" arr] assms(1)
    by (simp add: mset_merge_sort)
qed

lemma map_Some_of: "\<forall>v \<in> set vs. f v \<noteq> None \<Longrightarrow> map f vs = map Some (map (\<lambda>v. the (f v)) vs)"
  by auto

lemma stringify_Some: "stringify tos i vs sb = Some r \<Longrightarrow> \<forall>v \<in> set vs. tos v \<noteq> None"
  by (induction vs arbitrary: i sb r) (auto simp: Let_def split: bind_splits)

lemma numericize_Some: "numericize ton i vs = Some r \<Longrightarrow> \<forall>v \<in> set vs. ton v \<noteq> None"
  by (induction vs arbitrary: i r) (auto split: bind_splits)

lemma mset_SortLexicographically:
  assumes "SortLexicographically tos vec (length vec) = Some res"
  shows "mset res = mset vec"
proof -
  have "\<forall>v \<in> set vec. tos v \<noteq> None"
    using assms stringify_Some [of tos 0 vec "[]"] by (auto simp: SortLexicographically_def split: bind_splits)
  from SortLexicographically_sort_key [of vec tos] this assms show ?thesis by simp
qed

lemma mset_SortNumerically:
  assumes "SortNumerically ton vec (length vec) cmp = Some res" and "\<And>a b. SortComparatorNumerics cmp a b \<noteq> None"
  shows "mset res = mset vec"
proof -
  have "\<forall>v \<in> set vec. ton v \<noteq> None"
    using assms(1) numericize_Some [of ton 0 vec] by (auto simp: SortNumerically_def split: bind_splits)
  note runs = SortNumerically_runs [OF map_Some_of [OF this], of cmp]
  show ?thesis
    using MergeSortByKey_permutes [of "\<lambda>a b. SortComparatorNumerics cmp (fst a) (fst b)" "replicate (length vec) (DInt 0, 0)" vec
        "\<lambda>i. map (\<lambda>v. the (ton v)) vec ! i"] assms runs by auto
qed

lemma comparators_total [simp]:
  "CompareStringValues a b \<noteq> None" "SortComparatorLexicographicInt32 a b \<noteq> None"
  "cmp \<in> {Match_LeftMinusRight, Match_RightMinusLeft} \<Longrightarrow> SortComparatorInt32s cmp a b \<noteq> None"
  "cmp \<in> {Match_LeftMinusRight, Match_RightMinusLeft} \<Longrightarrow> SortComparatorNumerics cmp d e \<noteq> None"
  by (auto simp: CompareStringValues_def SortComparatorLexicographicInt32_def CompareLexicographicInt32_def Let_def
      ComparatorInt32LeftMinusRight_def ComparatorInt32RightMinusLeft_def ComparatorNumericLeftMinusRight_def
      ComparatorNumericRightMinusLeft_def)

lemma sort_vector_permutes:
  assumes run: "sort_vector conv compares cmp vec = Some vs"
    and cmp: "compares \<Longrightarrow> cmp \<in> {Match_LeftMinusRight, Match_RightMinusLeft}"
  shows "mset vs = mset vec"
proof (cases compares)
  case True
  note total = comparators_total(3,4) [OF cmp [OF True]]
  show ?thesis
    using run True mset_MergeSort [OF _ total(1)] mset_SortNumerically [OF _ total(2)]
    by (cases "list_all isInt32 vec") (simp_all add: sort_vector_def)
next
  case False
  then show ?thesis
    using run mset_MergeSort [OF _ comparators_total(1)] mset_MergeSort [OF _ comparators_total(2)] mset_SortLexicographically
    by (cases "list_all isString vec"; cases "list_all isInt32 vec") (simp_all add: sort_vector_def)
qed

text \<open>
  C25. Whatever the compare function and the conversions do, NaN included, a sort that returns has only permuted the
  array, with the undefined elements after the defined ones and the holes at the end; so none is lost, none appears
  twice, and no hole becomes an element.
\<close>

theorem array_sort_permutes:
  assumes "array_sort conv memory arg0 elems = Sorted res"
  shows "mset res = mset elems \<and> (2 \<le> length elems \<longrightarrow> (\<exists>vs. Undefined \<notin> set vs \<and>
    res = map Some vs @ replicate (count_list elems (Some Undefined)) (Some Undefined) @ replicate (count_list elems None) None))"
proof -
  let ?cmp = "MatchNumericComparator (compare_function arg0)"
  have shape: "\<exists>vs. mset vs = mset (sort_values elems) \<and> res = with_values elems vs"
  proof (cases "length elems < 2 \<or> sort_values elems = [] \<and> undefined_count elems = 0")
    case True
    then have "res = elems" using assms by (auto simp: array_sort_vector split: if_splits)
    then show ?thesis using True with_values_few with_values_holes by metis
  next
    case False
    have cmp: "compare_function arg0 \<noteq> None \<Longrightarrow> ?cmp \<noteq> Match_None" "?cmp \<noteq> Match_Failure"
      using assms False by (auto simp: array_sort_vector split: if_splits)
    obtain vs where vs: "sort_vector conv (compare_function arg0 \<noteq> None) ?cmp (sort_values elems) = Some vs"
        and stored: "(let elems' = InitArrayElements elems vs;
            (n, elems') = set_undefs (undefined_count elems) (length (sort_values elems)) elems'
          in Sorted (make_holes (length elems) n elems')) = Sorted res"
      using assms False by (auto simp: array_sort_vector split: if_splits option.splits intro: that)
    have "?cmp \<in> {Match_LeftMinusRight, Match_RightMinusLeft}" if "compare_function arg0 \<noteq> None"
      using cmp that by (cases ?cmp) auto
    then have perm: "mset vs = mset (sort_values elems)" using sort_vector_permutes [OF vs] by blast
    then have "length vs = length (sort_values elems)" by (metis size_mset)
    from put_back [OF this] stored this perm show ?thesis by auto
  qed
  moreover have "Undefined \<notin> set (sort_values elems)" by (simp add: sort_values_def)
  ultimately show ?thesis
    using mset_with_values unfolding with_values_def by (metis mset_eq_setD)
qed

definition primitive_conversions :: conversions where
  "primitive_conversions =
     \<lparr>to_string = ToString (\<lambda>d. []) (\<lambda>n. None), to_number = (\<lambda>v. case v of Number d \<Rightarrow> Some d | _ \<Rightarrow> None)\<rparr>"

definition subtraction :: "bool \<Rightarrow> compare_fun" where
  "subtraction swapped = Scripted False (Some
     [JSOP_GETARG, 0, if swapped then 1 else 0, JSOP_GETARG, 0, if swapped then 0 else 1, JSOP_SUB, JSOP_RETURN, 153])"

theorem array_sort_permutes_witness:
  "\<exists>res. array_sort primitive_conversions True (Comparefn (subtraction False))
      [Some (Number (DInt 2)), Some Undefined, Some (Number DoubleNaN), None, Some (Number (DInt 1))] = Sorted res \<and>
    mset res = mset [Some (Number (DInt 2)), Some Undefined, Some (Number DoubleNaN), None, Some (Number (DInt 1))]"
proof -
  have "\<exists>res. array_sort primitive_conversions True (Comparefn (subtraction False))
      [Some (Number (DInt 2)), Some Undefined, Some (Number DoubleNaN), None, Some (Number (DInt 1))] = Sorted res"
    by (rule exI [of _ "[Some (Number (DInt 1)), Some (Number DoubleNaN), Some (Number (DInt 2)), Some Undefined, None]"]) code_simp
  then show ?thesis using array_sort_permutes by blast
qed

section \<open>The default order and the numeric ones\<close>

lemma sort_vector_default:
  assumes "\<And>v. v \<in> set vec \<Longrightarrow> ToString shortest to_primitive v \<noteq> None"
    and conv: "to_string conv = ToString shortest to_primitive"
  shows "sort_vector conv False cmp vec = Some (sort_key (\<lambda>v. the (ToString shortest to_primitive v)) vec)"
proof -
  let ?str = "\<lambda>v. the (ToString shortest to_primitive v)"
  let ?scratch = "replicate (length vec) Undefined"
  have strings: "MergeSort CompareStringValues vec (length vec) ?scratch = Some (sort_key ?str vec)" if "list_all isString vec"
  proof (rule MergeSort_sorts)
    fix v w assume "v \<in> set vec" "w \<in> set vec"
    then have "isString v" "isString w" using that by (auto simp: list_all_iff)
    then show "CompareStringValues v w = Some (?str v \<le> ?str w)"
      by (cases v; cases w) (simp_all add: CompareStringValues_def CompareChars_le ToString_def)
  qed simp_all
  have ints: "MergeSort SortComparatorLexicographicInt32 vec (length vec) ?scratch = Some (sort_key ?str vec)" if "list_all isInt32 vec"
  proof (rule MergeSort_sorts)
    have int: "\<exists>i. v = Number (DInt i) \<and> - (2 ^ 31) \<le> i \<and> i < 2 ^ 31" if "isInt32 v" for v
      using that by (cases v rule: isInt32.cases; simp; cases "case v of Number d \<Rightarrow> d") auto
    fix v w assume "v \<in> set vec" "w \<in> set vec"
    then have "isInt32 v" "isInt32 w" using that by (auto simp: list_all_iff)
    then obtain i j where "v = Number (DInt i)" "- (2 ^ 31) \<le> i" "i < 2 ^ 31" "w = Number (DInt j)" "- (2 ^ 31) \<le> j" "j < 2 ^ 31"
      using int by metis
    then show "SortComparatorLexicographicInt32 v w = Some (?str v \<le> ?str w)"
      by (simp add: SortComparatorLexicographicInt32_def CompareLexicographicInt32_strings CompareChars_le ToString_def)
  qed simp_all
  show ?thesis
    using strings ints SortLexicographically_sort_key [of vec "ToString shortest to_primitive"] assms by (simp add: sort_vector_def)
qed

text \<open>
  C23. Without a compare function the sort is the stable sort by the strings of the elements, in the lexicographic
  order of their units, whichever of the three paths the elements select; undefined elements follow, then the holes.
\<close>

theorem array_sort_default:
  assumes "to_string conv = ToString shortest to_primitive" and "int (length elems) \<le> (2 ^ 32 - 1) div 16"
    and "\<And>v. v \<in> set (sort_values elems) \<Longrightarrow> ToString shortest to_primitive v \<noteq> None"
  shows "array_sort conv True NoComparefn elems =
    Sorted (with_values elems (sort_key (\<lambda>v. the (ToString shortest to_primitive v)) (sort_values elems)))"
proof (rule array_sort_Sorted)
  show "sort_vector conv (compare_function NoComparefn \<noteq> None) Match_None (sort_values elems) =
      Some (sort_key (\<lambda>v. the (ToString shortest to_primitive v)) (sort_values elems))"
    using sort_vector_default [OF assms(3,1)] by (simp add: compare_function_def)
qed (use assms in \<open>simp_all add: compare_function_def MatchNumericComparator_def\<close>)

definition mixed_elements :: "jsval option list" where
  "mixed_elements =
     [Some (Number (DInt 10)), Some (Str [0x62]), None, Some (Number (DInt 9)), Some Undefined, Some (Str [0x31, 0x30])]"

theorem array_sort_default_witness:
  "array_sort primitive_conversions True NoComparefn mixed_elements =
    Sorted (with_values mixed_elements
      (sort_key (\<lambda>v. the (ToString (\<lambda>d. []) (\<lambda>n. None) v)) (sort_values mixed_elements)))"
proof (rule array_sort_default)
  show "ToString (\<lambda>d. []) (\<lambda>n. None) v \<noteq> None" if "v \<in> set (sort_values mixed_elements)" for v
    using that by (auto simp: mixed_elements_def ToString_def)
qed (simp_all add: primitive_conversions_def mixed_elements_def)

definition number_place :: "conversions \<Rightarrow> ComparatorMatchResult \<Rightarrow> jsval \<Rightarrow> int" where
  "number_place conv cmp v = (if cmp = Match_LeftMinusRight then 1 else - 1) * dbl_order (the (to_number conv v))"

lemma sort_vector_numeric:
  assumes cmp: "cmp \<in> {Match_LeftMinusRight, Match_RightMinusLeft}"
    and numbers: "\<And>v. v \<in> set vec \<Longrightarrow> \<exists>d. to_number conv v = Some d \<and> \<not> IsNaN d"
    and conv: "\<And>d. to_number conv (Number d) = Some d"
  shows "sort_vector conv True cmp vec = Some (sort_key (number_place conv cmp) vec)"
proof -
  have ints: "MergeSort (SortComparatorInt32s cmp) vec (length vec) (replicate (length vec) Undefined) =
      Some (sort_key (number_place conv cmp) vec)" if "list_all isInt32 vec"
  proof (rule MergeSort_sorts)
    have int: "\<exists>i. v = Number (DInt i) \<and> \<bar>i\<bar> < 2 ^ 53" if "isInt32 v" for v
      using that by (cases v rule: isInt32.cases; simp; cases "case v of Number d \<Rightarrow> d") auto
    fix v w assume "v \<in> set vec" "w \<in> set vec"
    then have "isInt32 v" "isInt32 w" using that by (auto simp: list_all_iff)
    then obtain i j where ij: "v = Number (DInt i)" "\<bar>i\<bar> < 2 ^ 53" "w = Number (DInt j)" "\<bar>j\<bar> < 2 ^ 53"
      using int by metis
    have "dbl_order (DInt i) \<le> dbl_order (DInt j) \<longleftrightarrow> i \<le> j" "dbl_order (DInt j) \<le> dbl_order (DInt i) \<longleftrightarrow> j \<le> i"
      using dbl_le_integers [OF ij(2,4)] dbl_le_integers [OF ij(4,2)] by (simp_all add: dbl_le_def del: dbl_order.simps)
    then show "SortComparatorInt32s cmp v w = Some (number_place conv cmp v \<le> number_place conv cmp w)"
      using cmp conv ij by (auto simp: number_place_def ComparatorInt32LeftMinusRight_def ComparatorInt32RightMinusLeft_def
          simp del: dbl_order.simps)
  qed (use cmp in simp_all)
  let ?ds = "map (\<lambda>v. the (to_number conv v)) vec"
  have "map (to_number conv) vec = map Some ?ds" using numbers by (intro map_Some_of) auto
  then have "SortNumerically (to_number conv) vec (length vec) cmp =
      MergeSortByKey (keyed (\<lambda>i. ?ds ! i) (length vec)) (length vec) (replicate (length vec) (DInt 0, 0))
        (\<lambda>a b. SortComparatorNumerics cmp (fst a) (fst b)) vec"
    by (rule SortNumerically_runs)
  also have "\<dots> = Some (sort_key (number_place conv cmp) vec)"
  proof (rule MergeSortByKey_sort_key)
    fix i j assume "i < length vec" "j < length vec"
    then have "\<not> IsNaN (?ds ! i)" "\<not> IsNaN (?ds ! j)" using numbers [of "vec ! i"] numbers [of "vec ! j"] by auto
    then show "SortComparatorNumerics cmp (fst (?ds ! i, i)) (fst (?ds ! j, j)) =
        Some (number_place conv cmp (vec ! i) \<le> number_place conv cmp (vec ! j))"
      using cmp \<open>i < length vec\<close> \<open>j < length vec\<close>
      by (auto simp: number_place_def dbl_le_def ComparatorNumericLeftMinusRight_def ComparatorNumericRightMinusLeft_def)
  qed (use cmp in simp_all)
  finally show ?thesis using ints by (simp add: sort_vector_def)
qed

text \<open>
  C24. With a compare function whose bytecode is \<open>a - b\<close> or \<open>b - a\<close>, which is then never called, the sort is the stable
  sort by the numbers of the elements, upwards or downwards, as long as none is NaN.
\<close>

theorem array_sort_numeric:
  assumes "MatchNumericComparator (Some f) = cmp" and "cmp \<in> {Match_LeftMinusRight, Match_RightMinusLeft}"
    and "int (length elems) \<le> (2 ^ 32 - 1) div 16" and "\<And>d. to_number conv (Number d) = Some d"
    and "\<And>v. v \<in> set (sort_values elems) \<Longrightarrow> \<exists>d. to_number conv v = Some d \<and> \<not> IsNaN d"
  shows "array_sort conv True (Comparefn f) elems = Sorted (with_values elems (sort_key (number_place conv cmp) (sort_values elems)))"
proof (rule array_sort_Sorted)
  show "sort_vector conv (compare_function (Comparefn f) \<noteq> None) cmp (sort_values elems) =
      Some (sort_key (number_place conv cmp) (sort_values elems))"
    using sort_vector_numeric [OF assms(2,5,4)] by (simp add: compare_function_def)
qed (use assms in \<open>simp_all add: compare_function_def\<close>)

definition number_elements :: "jsval option list" where
  "number_elements = [Some (Number (DInt 1)), None, Some (Number (DInt 3)), Some Undefined, Some (Number (DInt 2))]"

theorem array_sort_numeric_witness:
  "array_sort primitive_conversions True (Comparefn (subtraction True)) number_elements =
    Sorted (with_values number_elements
      (sort_key (number_place primitive_conversions Match_RightMinusLeft) (sort_values number_elements)))"
proof (rule array_sort_numeric)
  show "MatchNumericComparator (Some (subtraction True)) = Match_RightMinusLeft" by code_simp
  show "\<exists>d. to_number primitive_conversions v = Some d \<and> \<not> IsNaN d" if "v \<in> set (sort_values number_elements)" for v
    using that by (auto simp: number_elements_def primitive_conversions_def)
qed (simp_all add: primitive_conversions_def number_elements_def)

end
