(* ===== verification/HashTable.thy ===== *)
theory HashTable
  imports HashFunctions
begin

text \<open>
  \<open>HashTable\<close> of \<open>js/public/HashTable.h\<close>, the open-addressed table below \<open>HashMap\<close> and \<open>HashSet\<close>, with double
  hashing, removed sentinels and collision bits.

  \<^item> The hash policy, a template parameter, is the record \<open>table_policy\<close>. \<open>hasHash\<close> and \<open>ensureHash\<close> are the default
    ones, which always succeed.
  \<^item> The entry store is a list, empty for the null pointer, and pointers to entries are indices. Hash codes are 32-bit
    words; counts and capacities are below \<open>2\<^sup>3\<^sup>2\<close>, as the invariant of the next theory shows, and are natural numbers.
  \<^item> A wild read is \<open>None\<close>, and so is a probe sequence that never ends.
  \<^item> The argument of type \<open>alloc_policy\<close> says whether the allocation of an operation succeeds, and whether a simulated
    failure is due. Debug counters are left out.
\<close>

section \<open>Entries\<close>

record ('l, 'k, 't) table_policy =
  policy_hash :: "'l \<Rightarrow> u32"
  policy_match :: "'k \<Rightarrow> 'l \<Rightarrow> bool"
  policy_getKey :: "'t \<Rightarrow> 'k"
  policy_setKey :: "'t \<Rightarrow> 'k \<Rightarrow> 't"

record 't HashTableEntry =
  e_keyHash :: u32
  e_mem :: "'t option"

definition sFreeKey :: u32 where "sFreeKey = 0"
definition sRemovedKey :: u32 where "sRemovedKey = 1"
definition sCollisionBit :: u32 where "sCollisionBit = 1"

definition isLiveHash :: "u32 \<Rightarrow> bool" where "isLiveHash hash \<longleftrightarrow> sRemovedKey < hash"
definition isFree :: "'t HashTableEntry \<Rightarrow> bool" where "isFree e \<longleftrightarrow> e_keyHash e = sFreeKey"
definition isRemoved :: "'t HashTableEntry \<Rightarrow> bool" where "isRemoved e \<longleftrightarrow> e_keyHash e = sRemovedKey"
definition isLive :: "'t HashTableEntry \<Rightarrow> bool" where "isLive e \<longleftrightarrow> isLiveHash (e_keyHash e)"
definition hasCollision :: "'t HashTableEntry \<Rightarrow> bool" where "hasCollision e \<longleftrightarrow> e_keyHash e AND sCollisionBit \<noteq> 0"

definition setCollision :: "'t HashTableEntry \<Rightarrow> 't HashTableEntry" where
  "setCollision e = e\<lparr>e_keyHash := e_keyHash e OR sCollisionBit\<rparr>"

definition unsetCollision :: "'t HashTableEntry \<Rightarrow> 't HashTableEntry" where
  "unsetCollision e = e\<lparr>e_keyHash := e_keyHash e AND NOT sCollisionBit\<rparr>"

definition matchHash :: "'t HashTableEntry \<Rightarrow> u32 \<Rightarrow> bool" where
  "matchHash e hn \<longleftrightarrow> e_keyHash e AND NOT sCollisionBit = hn"

definition getKeyHash :: "'t HashTableEntry \<Rightarrow> u32" where
  "getKeyHash e = e_keyHash e AND NOT sCollisionBit"

definition setLive :: "u32 \<Rightarrow> 't \<Rightarrow> 't HashTableEntry \<Rightarrow> 't HashTableEntry" where
  "setLive hn x e = e\<lparr>e_keyHash := hn, e_mem := Some x\<rparr>"

definition clearLive :: "'t HashTableEntry \<Rightarrow> 't HashTableEntry" where
  "clearLive e = e\<lparr>e_keyHash := sFreeKey, e_mem := None\<rparr>"

definition clear_entry :: "'t HashTableEntry \<Rightarrow> 't HashTableEntry" where
  "clear_entry e = e\<lparr>e_keyHash := sFreeKey, e_mem := (if isLive e then None else e_mem e)\<rparr>"

definition removeLive :: "'t HashTableEntry \<Rightarrow> 't HashTableEntry" where
  "removeLive e = e\<lparr>e_keyHash := sRemovedKey, e_mem := None\<rparr>"

text \<open>\<open>src->swap(other)\<close>, the entries at two indices.\<close>

definition swap_entries :: "nat \<Rightarrow> nat \<Rightarrow> 't HashTableEntry list \<Rightarrow> 't HashTableEntry list option" where
  "swap_entries self other es =
     (if self = other then Some es
      else
        do { e \<leftarrow> rd es self;
             f \<leftarrow> rd es other;
             es \<leftarrow> wr es self \<lparr>e_keyHash = e_keyHash f, e_mem = (if isLive f then e_mem f else None)\<rparr>;
             wr es other \<lparr>e_keyHash = e_keyHash e, e_mem = e_mem e\<rparr> })"

section \<open>The table\<close>

record 't HashTable =
  gen :: "56 word"
  hash_shift :: nat
  entry_table :: "'t HashTableEntry list"
  entryCount :: nat
  removedCount :: nat

record alloc_policy =
  pod_calloc_ok :: bool
  simulated_ok :: bool

definition CAP_BITS :: nat where "CAP_BITS = 30"
definition sMinCapacityLog2 :: nat where "sMinCapacityLog2 = 2"
definition sMinCapacity :: nat where "sMinCapacity = 2 ^ sMinCapacityLog2"
definition sMaxInit :: nat where "sMaxInit = 2 ^ (CAP_BITS - 1)"
definition sMaxCapacity :: nat where "sMaxCapacity = 2 ^ CAP_BITS"
definition sHashBits :: nat where "sHashBits = 32"
definition sAlphaDenominator :: nat where "sAlphaDenominator = 4"
definition sMinAlphaNumerator :: nat where "sMinAlphaNumerator = 1"
definition sMaxAlphaNumerator :: nat where "sMaxAlphaNumerator = 3"

definition setTableSizeLog2 :: "nat \<Rightarrow> 't HashTable \<Rightarrow> 't HashTable" where
  "setTableSizeLog2 sizeLog2 t = t\<lparr>hash_shift := sHashBits - sizeLog2\<rparr>"

definition HashTable_prepareHash :: "('l, 'k, 't) table_policy \<Rightarrow> 'l \<Rightarrow> u32" where
  "HashTable_prepareHash pol l =
     (let keyHash = ScrambleHashCode (policy_hash pol l);
          keyHash = (if \<not> isLiveHash keyHash then keyHash - (sRemovedKey + 1) else keyHash)
      in keyHash AND NOT sCollisionBit)"

definition createTable :: "bool \<Rightarrow> nat \<Rightarrow> 't HashTableEntry list option" where
  "createTable ok capacity = (if ok then Some (replicate capacity \<lparr>e_keyHash = sFreeKey, e_mem = None\<rparr>) else None)"

definition new_HashTable :: "'t HashTable" where
  "new_HashTable = \<lparr>gen = 0, hash_shift = sHashBits, entry_table = [], entryCount = 0, removedCount = 0\<rparr>"

text \<open>The loop of \<open>init\<close> that rounds up; \<open>roundUp\<close> starts above zero.\<close>

function round_up :: "nat \<Rightarrow> nat \<Rightarrow> nat \<Rightarrow> nat \<times> nat" where
  "round_up newCapacity roundUp roundUpLog2 =
     (if 0 < roundUp \<and> roundUp < newCapacity then round_up newCapacity (roundUp * 2) (roundUpLog2 + 1)
      else (roundUp, roundUpLog2))"
  by pat_completeness auto
termination
  by (relation "measure (\<lambda>(newCapacity, roundUp, roundUpLog2). newCapacity - roundUp)") auto

definition HashTable_init :: "alloc_policy \<Rightarrow> nat \<Rightarrow> 't HashTable \<Rightarrow> bool \<times> 't HashTable" where
  "HashTable_init ap len t =
     (if sMaxInit < len then (False, t)
      else
        let newCapacity = (len * sAlphaDenominator + sMaxAlphaNumerator - 1) div sMaxAlphaNumerator;
            newCapacity = (if newCapacity < sMinCapacity then sMinCapacity else newCapacity);
            (roundUp, roundUpLog2) = round_up newCapacity sMinCapacity sMinCapacityLog2;
            newCapacity = roundUp
        in case createTable (pod_calloc_ok ap) newCapacity of
             None \<Rightarrow> (False, t\<lparr>entry_table := []\<rparr>)
           | Some es \<Rightarrow> (True, setTableSizeLog2 roundUpLog2 (t\<lparr>entry_table := es\<rparr>)))"

definition HashTable_capacity :: "'t HashTable \<Rightarrow> nat" where
  "HashTable_capacity t = 2 ^ (sHashBits - hash_shift t)"

section \<open>Probing\<close>

record DoubleHash =
  h2 :: u32
  sizeMask :: u32

definition hash1 :: "nat \<Rightarrow> u32 \<Rightarrow> u32" where
  "hash1 shift hash0 = drop_bit shift hash0"

definition hash2 :: "nat \<Rightarrow> u32 \<Rightarrow> DoubleHash" where
  "hash2 shift curKeyHash =
     (let sizeLog2 = sHashBits - shift
      in \<lparr>h2 = drop_bit shift (push_bit sizeLog2 curKeyHash) OR 1, sizeMask = push_bit sizeLog2 1 - 1\<rparr>)"

definition applyDoubleHash :: "u32 \<Rightarrow> DoubleHash \<Rightarrow> u32" where
  "applyDoubleHash h1 dh = (h1 - h2 dh) AND sizeMask dh"

definition is_overloaded :: "'t HashTable \<Rightarrow> bool" where
  "is_overloaded t \<longleftrightarrow> HashTable_capacity t * sMaxAlphaNumerator div sAlphaDenominator \<le> entryCount t + removedCount t"

definition wouldBeUnderloaded :: "nat \<Rightarrow> nat \<Rightarrow> bool" where
  "wouldBeUnderloaded capacity entry_count \<longleftrightarrow>
     sMinCapacity < capacity \<and> entry_count \<le> capacity * sMinAlphaNumerator div sAlphaDenominator"

definition is_underloaded :: "'t HashTable \<Rightarrow> bool" where
  "is_underloaded t \<longleftrightarrow> wouldBeUnderloaded (HashTable_capacity t) (entryCount t)"

text \<open>\<open>entry->matchHash(keyHash) && match(*entry, l)\<close>: the element is read only when the hash codes agree.\<close>

definition match_entry :: "('l, 'k, 't) table_policy \<Rightarrow> 't HashTableEntry \<Rightarrow> u32 \<Rightarrow> 'l \<Rightarrow> bool option" where
  "match_entry pol e keyHash l =
     (if matchHash e keyHash then do { x \<leftarrow> e_mem e; Some (policy_match pol (policy_getKey pol x) l) }
      else Some False)"

text \<open>The loop of \<open>lookup\<close>; \<open>collision\<close> says that \<open>collisionBit\<close> is set.\<close>

partial_function (option) lookup_loop ::
  "('l, 'k, 't) table_policy \<Rightarrow> 'l \<Rightarrow> u32 \<Rightarrow> bool \<Rightarrow> DoubleHash \<Rightarrow> u32 \<Rightarrow> nat option \<Rightarrow> 't HashTableEntry list \<Rightarrow>
    ('t HashTableEntry list \<times> nat) option" where
  "lookup_loop pol l keyHash collision dh h1 firstRemoved es =
     do { entry \<leftarrow> rd es (unat h1);
          let firstRemoved =
            (if isRemoved entry then (case firstRemoved of None \<Rightarrow> Some (unat h1) | Some r \<Rightarrow> Some r) else firstRemoved);
          let es = (if \<not> isRemoved entry \<and> collision then es[unat h1 := setCollision entry] else es);
          let h1 = applyDoubleHash h1 dh;
          entry \<leftarrow> rd es (unat h1);
          if isFree entry then Some (es, case firstRemoved of Some r \<Rightarrow> r | None \<Rightarrow> unat h1)
          else
            do { found \<leftarrow> match_entry pol entry keyHash l;
                 if found then Some (es, unat h1)
                 else lookup_loop pol l keyHash collision dh h1 firstRemoved es } }"

declare lookup_loop.simps [code]

definition lookup_entry ::
  "('l, 'k, 't) table_policy \<Rightarrow> 'l \<Rightarrow> u32 \<Rightarrow> bool \<Rightarrow> 't HashTable \<Rightarrow> ('t HashTable \<times> nat) option" where
  "lookup_entry pol l keyHash collision t =
     do { let h1 = hash1 (hash_shift t) keyHash;
          entry \<leftarrow> rd (entry_table t) (unat h1);
          if isFree entry then Some (t, unat h1)
          else
            do { found \<leftarrow> match_entry pol entry keyHash l;
                 if found then Some (t, unat h1)
                 else
                   do { (es, i) \<leftarrow>
                          lookup_loop pol l keyHash collision (hash2 (hash_shift t) keyHash) h1 None (entry_table t);
                        Some (t\<lparr>entry_table := es\<rparr>, i) } } }"

partial_function (option) find_free_loop ::
  "DoubleHash \<Rightarrow> u32 \<Rightarrow> 't HashTableEntry list \<Rightarrow> ('t HashTableEntry list \<times> nat) option" where
  "find_free_loop dh h1 es =
     do { entry \<leftarrow> rd es (unat h1);
          es \<leftarrow> wr es (unat h1) (setCollision entry);
          let h1 = applyDoubleHash h1 dh;
          entry \<leftarrow> rd es (unat h1);
          if \<not> isLive entry then Some (es, unat h1) else find_free_loop dh h1 es }"

declare find_free_loop.simps [code]

definition findFreeEntry :: "nat \<Rightarrow> u32 \<Rightarrow> 't HashTableEntry list \<Rightarrow> ('t HashTableEntry list \<times> nat) option" where
  "findFreeEntry shift keyHash es =
     do { let h1 = hash1 shift keyHash;
          entry \<leftarrow> rd es (unat h1);
          if \<not> isLive entry then Some (es, unat h1) else find_free_loop (hash2 shift keyHash) h1 es }"

section \<open>Changing the size\<close>

datatype RebuildStatus = NotOverloaded | Rehashed | RehashFailed

text \<open>The loop of \<open>changeTableSize\<close> over the old entries.\<close>

fun move_live :: "nat \<Rightarrow> 't HashTableEntry list \<Rightarrow> 't HashTableEntry list \<Rightarrow> 't HashTableEntry list option" where
  "move_live shift [] es = Some es"
| "move_live shift (src # srcs) es =
     (if isLive src then
        do { let hn = getKeyHash src;
             (es, i) \<leftarrow> findFreeEntry shift hn es;
             x \<leftarrow> e_mem src;
             entry \<leftarrow> rd es i;
             es \<leftarrow> wr es i (setLive hn x entry);
             move_live shift srcs es }
      else move_live shift srcs es)"

definition changeTableSize :: "alloc_policy \<Rightarrow> int \<Rightarrow> 't HashTable \<Rightarrow> (RebuildStatus \<times> 't HashTable) option" where
  "changeTableSize ap deltaLog2 t =
     (let newLog2 = nat (int (sHashBits - hash_shift t) + deltaLog2);
          newCapacity = 2 ^ newLog2
      in if sMaxCapacity < newCapacity then Some (RehashFailed, t)
         else
           case createTable (pod_calloc_ok ap) newCapacity of
             None \<Rightarrow> Some (RehashFailed, t)
           | Some newTable \<Rightarrow>
               let oldTable = entry_table t;
                   t = (setTableSizeLog2 newLog2 t)\<lparr>removedCount := 0, gen := gen t + 1\<rparr>
               in do { es \<leftarrow> move_live (hash_shift t) oldTable newTable;
                       Some (Rehashed, t\<lparr>entry_table := es\<rparr>) })"

definition shouldCompressTable :: "'t HashTable \<Rightarrow> bool" where
  "shouldCompressTable t \<longleftrightarrow> HashTable_capacity t div 2 ^ 2 \<le> removedCount t"

definition checkOverloaded :: "alloc_policy \<Rightarrow> 't HashTable \<Rightarrow> (RebuildStatus \<times> 't HashTable) option" where
  "checkOverloaded ap t =
     (if \<not> is_overloaded t then Some (NotOverloaded, t)
      else changeTableSize ap (if shouldCompressTable t then 0 else 1) t)"

text \<open>\<open>rehashTableInPlace\<close>: the search for a target without collision bit, and the loop over the entries.\<close>

partial_function (option) find_target :: "DoubleHash \<Rightarrow> u32 \<Rightarrow> 't HashTableEntry list \<Rightarrow> nat option" where
  "find_target dh h1 es =
     do { tgt \<leftarrow> rd es (unat h1);
          if \<not> hasCollision tgt then Some (unat h1) else find_target dh (applyDoubleHash h1 dh) es }"

declare find_target.simps [code]

partial_function (option) in_place_loop ::
  "nat \<Rightarrow> nat \<Rightarrow> nat \<Rightarrow> 't HashTableEntry list \<Rightarrow> 't HashTableEntry list option" where
  "in_place_loop shift capacity i es =
     (if i < capacity then
        do { src \<leftarrow> rd es i;
             if \<not> isLive src \<or> hasCollision src then in_place_loop shift capacity (i + 1) es
             else
               do { let keyHash = getKeyHash src;
                    j \<leftarrow> find_target (hash2 shift keyHash) (hash1 shift keyHash) es;
                    es \<leftarrow> swap_entries i j es;
                    tgt \<leftarrow> rd es j;
                    es \<leftarrow> wr es j (setCollision tgt);
                    in_place_loop shift capacity i es } }
      else Some es)"

declare in_place_loop.simps [code]

definition rehashTableInPlace :: "'t HashTable \<Rightarrow> 't HashTable option" where
  "rehashTableInPlace t =
     do { es \<leftarrow> in_place_loop (hash_shift t) (HashTable_capacity t) 0 (map unsetCollision (entry_table t));
          Some (t\<lparr>removedCount := 0, entry_table := es\<rparr>) }"

definition checkOverRemoved :: "alloc_policy \<Rightarrow> 't HashTable \<Rightarrow> 't HashTable option" where
  "checkOverRemoved ap t =
     (if is_overloaded t then
        do { (status, t) \<leftarrow> checkOverloaded ap t;
             if status = RehashFailed then rehashTableInPlace t else Some t }
      else Some t)"

section \<open>Removing\<close>

definition remove_entry :: "nat \<Rightarrow> 't HashTable \<Rightarrow> 't HashTable option" where
  "remove_entry i t =
     do { e \<leftarrow> rd (entry_table t) i;
          let t = (if hasCollision e then t\<lparr>entry_table := (entry_table t)[i := removeLive e], removedCount := removedCount t + 1\<rparr>
                   else t\<lparr>entry_table := (entry_table t)[i := clearLive e]\<rparr>);
          Some (t\<lparr>entryCount := entryCount t - 1\<rparr>) }"

definition checkUnderloaded :: "alloc_policy \<Rightarrow> 't HashTable \<Rightarrow> 't HashTable option" where
  "checkUnderloaded ap t = (if is_underloaded t then map_option snd (changeTableSize ap (- 1) t) else Some t)"

function compact_log2 :: "nat \<Rightarrow> nat \<Rightarrow> int \<Rightarrow> int" where
  "compact_log2 entry_count newCapacity resizeLog2 =
     (if wouldBeUnderloaded newCapacity entry_count then compact_log2 entry_count (newCapacity div 2) (resizeLog2 - 1)
      else resizeLog2)"
  by pat_completeness auto
termination
  by (relation "measure (\<lambda>(n, newCapacity, r). newCapacity)") (auto simp: wouldBeUnderloaded_def sMinCapacity_def)

definition compactIfUnderloaded :: "alloc_policy \<Rightarrow> 't HashTable \<Rightarrow> 't HashTable option" where
  "compactIfUnderloaded ap t =
     (let resizeLog2 = compact_log2 (entryCount t) (HashTable_capacity t) 0
      in if resizeLog2 \<noteq> 0 then map_option snd (changeTableSize ap resizeLog2 t) else Some t)"

section \<open>Operations\<close>

definition putNewInfallibleInternal :: "('l, 'k, 't) table_policy \<Rightarrow> 'l \<Rightarrow> 't \<Rightarrow> 't HashTable \<Rightarrow> 't HashTable option" where
  "putNewInfallibleInternal pol l x t =
     do { let keyHash = HashTable_prepareHash pol l;
          (es, i) \<leftarrow> findFreeEntry (hash_shift t) keyHash (entry_table t);
          entry \<leftarrow> rd es i;
          let (t, keyHash) =
            (if isRemoved entry then (t\<lparr>removedCount := removedCount t - 1\<rparr>, keyHash OR sCollisionBit) else (t, keyHash));
          Some (t\<lparr>entry_table := es[i := setLive keyHash x entry], entryCount := entryCount t + 1\<rparr>) }"

definition HashTable_clear :: "'t HashTable \<Rightarrow> 't HashTable" where
  "HashTable_clear t = t\<lparr>entry_table := map clear_entry (entry_table t), removedCount := 0, entryCount := 0\<rparr>"

definition HashTable_finish :: "'t HashTable \<Rightarrow> 't HashTable" where
  "HashTable_finish t =
     (if entry_table t = [] then t else t\<lparr>entry_table := [], gen := gen t + 1, entryCount := 0, removedCount := 0\<rparr>)"

text \<open>A \<open>Ptr\<close> is an index; it is \<open>found\<close> when the entry is live.\<close>

definition Ptr_found :: "'t HashTable \<Rightarrow> nat \<Rightarrow> bool" where
  "Ptr_found t p \<longleftrightarrow> p < length (entry_table t) \<and> isLive (entry_table t ! p)"

definition HashTable_lookup :: "('l, 'k, 't) table_policy \<Rightarrow> 'l \<Rightarrow> 't HashTable \<Rightarrow> nat option" where
  "HashTable_lookup pol l t = map_option snd (lookup_entry pol l (HashTable_prepareHash pol l) False t)"

record AddPtr =
  ptr_entry :: nat
  ptr_keyHash :: u32

definition lookupForAdd :: "('l, 'k, 't) table_policy \<Rightarrow> 'l \<Rightarrow> 't HashTable \<Rightarrow> (AddPtr \<times> 't HashTable) option" where
  "lookupForAdd pol l t =
     do { let keyHash = HashTable_prepareHash pol l;
          (t, i) \<leftarrow> lookup_entry pol l keyHash True t;
          Some (\<lparr>ptr_entry = i, ptr_keyHash = keyHash\<rparr>, t) }"

definition HashTable_add :: "alloc_policy \<Rightarrow> AddPtr \<Rightarrow> 't \<Rightarrow> 't HashTable \<Rightarrow> (bool \<times> AddPtr \<times> 't HashTable) option" where
  "HashTable_add ap p x t =
     (let live = (\<lambda>p t. do { entry \<leftarrow> rd (entry_table t) (ptr_entry p);
                             Some (True, p, t\<lparr>entry_table := (entry_table t)[ptr_entry p := setLive (ptr_keyHash p) x entry],
                                              entryCount := entryCount t + 1\<rparr>) })
      in do { entry \<leftarrow> rd (entry_table t) (ptr_entry p);
              if isRemoved entry then
                if \<not> simulated_ok ap then Some (False, p, t)
                else live (p\<lparr>ptr_keyHash := ptr_keyHash p OR sCollisionBit\<rparr>) (t\<lparr>removedCount := removedCount t - 1\<rparr>)
              else
                do { (status, t) \<leftarrow> checkOverloaded ap t;
                     if status = RehashFailed then Some (False, p, t)
                     else if status = NotOverloaded \<and> \<not> simulated_ok ap then Some (False, p, t)
                     else if status = Rehashed then
                       do { (es, i) \<leftarrow> findFreeEntry (hash_shift t) (ptr_keyHash p) (entry_table t);
                            live (p\<lparr>ptr_entry := i\<rparr>) (t\<lparr>entry_table := es\<rparr>) }
                     else live p t } })"

definition putNew :: "('l, 'k, 't) table_policy \<Rightarrow> alloc_policy \<Rightarrow> 'l \<Rightarrow> 't \<Rightarrow> 't HashTable \<Rightarrow> (bool \<times> 't HashTable) option" where
  "putNew pol ap l x t =
     (if \<not> simulated_ok ap then Some (False, t)
      else
        do { (status, t) \<leftarrow> checkOverloaded ap t;
             if status = RehashFailed then Some (False, t)
             else do { t \<leftarrow> putNewInfallibleInternal pol l x t; Some (True, t) } })"

definition relookupOrAdd ::
  "('l, 'k, 't) table_policy \<Rightarrow> alloc_policy \<Rightarrow> AddPtr \<Rightarrow> 'l \<Rightarrow> 't \<Rightarrow> 't HashTable \<Rightarrow> (bool \<times> AddPtr \<times> 't HashTable) option" where
  "relookupOrAdd pol ap p l x t =
     do { (t, i) \<leftarrow> lookup_entry pol l (ptr_keyHash p) True t;
          let p = p\<lparr>ptr_entry := i\<rparr>;
          if Ptr_found t i then Some (True, p, t) else HashTable_add ap p x t }"

definition HashTable_remove :: "alloc_policy \<Rightarrow> nat \<Rightarrow> 't HashTable \<Rightarrow> 't HashTable option" where
  "HashTable_remove ap p t = do { t \<leftarrow> remove_entry p t; checkUnderloaded ap t }"

definition rekeyWithoutRehash ::
  "('l, 'k, 't) table_policy \<Rightarrow> nat \<Rightarrow> 'l \<Rightarrow> 'k \<Rightarrow> 't HashTable \<Rightarrow> 't HashTable option" where
  "rekeyWithoutRehash pol p l k t =
     do { entry \<leftarrow> rd (entry_table t) p;
          x \<leftarrow> e_mem entry;
          let x = policy_setKey pol x k;
          t \<leftarrow> remove_entry p t;
          putNewInfallibleInternal pol l x t }"

definition rekeyAndMaybeRehash ::
  "('l, 'k, 't) table_policy \<Rightarrow> alloc_policy \<Rightarrow> nat \<Rightarrow> 'l \<Rightarrow> 'k \<Rightarrow> 't HashTable \<Rightarrow> 't HashTable option" where
  "rekeyAndMaybeRehash pol ap p l k t = do { t \<leftarrow> rekeyWithoutRehash pol p l k t; checkOverRemoved ap t }"

section \<open>Enumeration\<close>

text \<open>\<open>Range\<close>: the constructor and \<open>popFront\<close> skip what is not live; \<open>end\<close> is the capacity.\<close>

fun skip_dead :: "'t HashTableEntry list \<Rightarrow> nat \<Rightarrow> nat" where
  "skip_dead [] cur = cur"
| "skip_dead (e # es) cur = (if \<not> isLive e then skip_dead es (cur + 1) else cur)"

definition HashTable_all :: "'t HashTable \<Rightarrow> nat" where
  "HashTable_all t = skip_dead (entry_table t) 0"

definition Range_empty :: "'t HashTable \<Rightarrow> nat \<Rightarrow> bool" where
  "Range_empty t cur \<longleftrightarrow> cur = HashTable_capacity t"

definition Range_front :: "'t HashTable \<Rightarrow> nat \<Rightarrow> 't option" where
  "Range_front t cur = do { entry \<leftarrow> rd (entry_table t) cur; e_mem entry }"

definition Range_popFront :: "'t HashTable \<Rightarrow> nat \<Rightarrow> nat" where
  "Range_popFront t cur = skip_dead (drop (cur + 1) (entry_table t)) (cur + 1)"

record Enum =
  enum_cur :: nat
  enum_rekeyed :: bool
  enum_removed :: bool

definition new_Enum :: "'t HashTable \<Rightarrow> Enum" where
  "new_Enum t = \<lparr>enum_cur = HashTable_all t, enum_rekeyed = False, enum_removed = False\<rparr>"

definition removeFront :: "Enum \<Rightarrow> 't HashTable \<Rightarrow> (Enum \<times> 't HashTable) option" where
  "removeFront e t = do { t \<leftarrow> remove_entry (enum_cur e) t; Some (e\<lparr>enum_removed := True\<rparr>, t) }"

definition Enum_rekeyFront ::
  "('l, 'k, 't) table_policy \<Rightarrow> 'l \<Rightarrow> 'k \<Rightarrow> Enum \<Rightarrow> 't HashTable \<Rightarrow> (Enum \<times> 't HashTable) option" where
  "Enum_rekeyFront pol l k e t =
     do { t \<leftarrow> rekeyWithoutRehash pol (enum_cur e) l k t; Some (e\<lparr>enum_rekeyed := True\<rparr>, t) }"

definition delete_Enum :: "alloc_policy \<Rightarrow> Enum \<Rightarrow> 't HashTable \<Rightarrow> 't HashTable option" where
  "delete_Enum ap e t =
     do { t \<leftarrow> (if enum_rekeyed e then checkOverRemoved ap (t\<lparr>gen := gen t + 1\<rparr>) else Some t);
          if enum_removed e then compactIfUnderloaded ap t else Some t }"

end
