(* ===== verification/HashTableProbe.thy ===== *)
theory HashTableProbe
  imports HashTable
begin

text \<open>
  The probe sequence of the double hashing visits every slot of the table once, so a search along it ends as soon as
  the table has an entry of the kind it looks for.
\<close>

section \<open>The sequence\<close>

abbreviation size_ok :: "nat \<Rightarrow> bool" where
  "size_ok shift \<equiv> 2 \<le> shift \<and> shift \<le> 30"

abbreviation slots :: "nat \<Rightarrow> nat" where
  "slots shift \<equiv> 2 ^ (32 - shift)"

definition probe :: "nat \<Rightarrow> u32 \<Rightarrow> nat \<Rightarrow> u32" where
  "probe shift hn n = ((\<lambda>h. applyDoubleHash h (hash2 shift hn)) ^^ n) (hash1 shift hn)"

definition slot :: "nat \<Rightarrow> u32 \<Rightarrow> nat \<Rightarrow> nat" where
  "slot shift hn n = unat (probe shift hn n)"

lemma probe_0 [simp]: "probe shift hn 0 = hash1 shift hn"
  by (simp add: probe_def)

lemma probe_Suc: "probe shift hn (Suc n) = applyDoubleHash (probe shift hn n) (hash2 shift hn)"
  by (simp add: probe_def)

lemma h2_odd: "odd (uint (h2 (hash2 shift hn)))"
proof -
  have "bit (h2 (hash2 shift hn)) 0" by (simp add: hash2_def Let_def bit_simps)
  then show ?thesis by (simp add: bit_uint_iff flip: bit_0)
qed

lemma uint_probe:
  assumes "size_ok shift"
  shows "uint (probe shift hn n) = (uint (hash1 shift hn) - int n * uint (h2 (hash2 shift hn))) mod 2 ^ (32 - shift)"
proof (induction n)
  case 0
  have "(2 :: nat) ^ 32 = 2 ^ (32 - shift) * 2 ^ shift" using assms by (simp flip: power_add)
  then have "unat hn < 2 ^ (32 - shift) * 2 ^ shift" using unsigned_less [of hn] by simp
  then have "unat (hash1 shift hn) < slots shift" unfolding hash1_def unat_drop by (rule less_mult_imp_div_less)
  then have "int (unat (hash1 shift hn)) < int (slots shift)" by (simp only: of_nat_less_iff)
  then have "uint (hash1 shift hn) < 2 ^ (32 - shift)" by (simp only: uint_nat of_nat_power of_nat_numeral)
  then show ?case by simp
next
  case (Suc n)
  let ?m = "2 ^ (32 - shift) :: int"
  have mask: "sizeMask (hash2 shift hn) = mask (32 - shift)"
    by (simp add: hash2_def Let_def mask_eq_exp_minus_1 push_bit_eq_mult sHashBits_def)
  have dvd: "?m dvd 2 ^ 32" using assms by (intro le_imp_power_dvd) simp
  have "uint (probe shift hn (Suc n)) = (uint (probe shift hn n) - uint (h2 (hash2 shift hn))) mod 2 ^ 32 mod ?m"
    unfolding probe_Suc applyDoubleHash_def mask take_bit_eq_mask [symmetric] unsigned_take_bit_eq
    by (simp add: take_bit_eq_mod uint_word_ariths)
  also have "\<dots> = (uint (probe shift hn n) - uint (h2 (hash2 shift hn))) mod ?m" using dvd by (rule mod_mod_cancel)
  finally show ?case unfolding Suc.IH by (simp add: mod_simps algebra_simps)
qed

lemma slot_less: "size_ok shift \<Longrightarrow> slot shift hn n < slots shift"
  using uint_probe [of shift hn n] by (simp add: slot_def unat_eq_nat_uint nat_less_iff)

lemma slot_inj:
  assumes ok: "size_ok shift" and "m < slots shift" and "n < slots shift" and eq: "slot shift hn m = slot shift hn n"
  shows "m = n"
proof -
  let ?h = "uint (h2 (hash2 shift hn))" and ?m = "2 ^ (32 - shift) :: int"
  have "uint (probe shift hn m) = uint (probe shift hn n)" using eq by (metis slot_def word_eq_iff_unsigned)
  then have "?m dvd (uint (hash1 shift hn) - int m * ?h) - (uint (hash1 shift hn) - int n * ?h)"
    unfolding uint_probe [OF ok] by (simp add: mod_eq_dvd_iff)
  then have "?m dvd (int n - int m) * ?h" by (simp add: algebra_simps)
  moreover have "coprime ?m ?h" using h2_odd [of shift hn] by simp
  ultimately have "?m dvd int n - int m" by (simp add: coprime_dvd_mult_left_iff)
  moreover have "int m < int (slots shift)" "int n < int (slots shift)" using assms(2,3) by (simp_all only: of_nat_less_iff)
  then have "int m < ?m" "int n < ?m" by (simp_all only: of_nat_power of_nat_numeral)
  then have "\<bar>int n - int m\<bar> < ?m" by linarith
  ultimately show ?thesis using dvd_imp_le_int [of "int n - int m" ?m] by auto
qed

lemma slot_surj:
  assumes ok: "size_ok shift" and "i < slots shift"
  shows "\<exists>n < slots shift. slot shift hn n = i"
proof -
  have "inj_on (slot shift hn) {..<slots shift}" using slot_inj [OF ok] by (auto intro: inj_onI)
  moreover have "slot shift hn ` {..<slots shift} \<subseteq> {..<slots shift}" using slot_less [OF ok] by auto
  ultimately have "slot shift hn ` {..<slots shift} = {..<slots shift}" by (intro endo_inj_surj) auto
  then show ?thesis using assms(2) by (metis imageE lessThan_iff)
qed

text \<open>The first slot with a property that some slot has.\<close>

lemma first_slot:
  assumes "size_ok shift" and "i < slots shift" and "P i"
  obtains n where "n < slots shift" and "P (slot shift hn n)" and "\<And>j. j < n \<Longrightarrow> \<not> P (slot shift hn j)"
proof -
  obtain m where m: "m < slots shift" "P (slot shift hn m)" using slot_surj [OF assms(1,2)] assms(3) by metis
  define n where "n = (LEAST n. P (slot shift hn n))"
  note least = LeastI [of "\<lambda>n. P (slot shift hn n)" m, OF m(2)] Least_le [of "\<lambda>n. P (slot shift hn n)" m, OF m(2)]
  have "\<not> P (slot shift hn j)" if "j < n" for j
    using not_less_Least [of j "\<lambda>n. P (slot shift hn n)"] that by (simp add: n_def)
  then show thesis using that [of n] least m(1) by (simp add: n_def [symmetric])
qed

section \<open>Entries\<close>

lemma keyHash_lsb: "(w :: u32) AND 1 \<noteq> 0 \<longleftrightarrow> bit w 0"
  by (simp only: bit_iff_and_push_bit_not_eq_0 push_bit_0_id id_apply)

lemmas entry_defs = isFree_def isRemoved_def isLive_def isLiveHash_def hasCollision_def sFreeKey_def sRemovedKey_def
  sCollisionBit_def keyHash_lsb

end
