(* ===== verification/HashTableSearch.thy ===== *)
theory HashTableSearch
  imports HashTableProbe "HOL-Library.Multiset"
begin

text \<open>
  The entries of a \<open>HashTable\<close>, their contents, and the searches: the loops of \<open>findFreeEntry\<close> and \<open>lookup\<close> end at the
  first slot of the probe sequence that stops them, with the collision bits set on the way.
\<close>

section \<open>Hash codes of entries\<close>

lemma live_hash: "(1 :: u32) < w \<longleftrightarrow> drop_bit (Suc 0) w \<noteq> 0"
proof -
  have "unat (drop_bit (Suc 0) w) = unat w div 2" by (simp only: unat_drop power_Suc0_right)
  then have "drop_bit (Suc 0) w \<noteq> 0 \<longleftrightarrow> unat w div 2 \<noteq> 0" by (metis unat_0 word_eq_iff_unsigned)
  then show ?thesis by (simp add: word_less_nat_alt) linarith
qed

text \<open>A hash code with the collision bit, and without.\<close>

definition with_bit :: "u32 \<Rightarrow> u32" where "with_bit w = w OR sCollisionBit"
definition sans_bit :: "u32 \<Rightarrow> u32" where "sans_bit w = w AND NOT sCollisionBit"

lemma bit_with_bit: "bit (with_bit w) n \<longleftrightarrow> bit w n \<or> n = 0"
  by (auto simp only: with_bit_def sCollisionBit_def bit_or_iff bit_1_iff)

lemma bit_sans_bit: "bit (sans_bit w) n \<longleftrightarrow> bit w n \<and> n \<noteq> 0"
  by (simp only: sans_bit_def sCollisionBit_def bit_and_iff bit_not_iff bit_1_iff) (auto dest: bit_imp_le_length)

lemma hash_bits [simp]:
  "drop_bit (Suc 0) (with_bit w) = drop_bit (Suc 0) w" "drop_bit (Suc 0) (sans_bit w) = drop_bit (Suc 0) w"
  "sans_bit (with_bit w) = sans_bit w" "with_bit (with_bit w) = with_bit w" "sans_bit (sans_bit w) = sans_bit w"
  "bit (with_bit w) 0" "\<not> bit (sans_bit w) 0"
  by (auto intro!: bit_word_eqI simp: bit_drop_bit_eq bit_with_bit bit_sans_bit simp del: bit_0 drop_bit_Suc)

lemma dead_hash: "\<not> (1 :: u32) < w \<longleftrightarrow> w = 0 \<or> w = 1"
  by (auto simp: word_less_nat_alt word_unat_eq_iff)

lemma hasCollision_hash: "hasCollision e \<longleftrightarrow> bit (e_keyHash e) 0"
  by (simp only: hasCollision_def sCollisionBit_def keyHash_lsb)

lemmas hash_defs = with_bit_def [symmetric] sans_bit_def [symmetric]

lemma isLive_simps [simp]:
  "isLive (setCollision e) \<longleftrightarrow> isLive e" "isLive (unsetCollision e) \<longleftrightarrow> isLive e" "\<not> isLive (clearLive e)" "\<not> isLive (removeLive e)"
  "\<not> isLive (clear_entry e)" "isLive (setLive hn x e) \<longleftrightarrow> isLiveHash hn"
  by (simp_all add: setCollision_def unsetCollision_def clearLive_def removeLive_def clear_entry_def setLive_def isLive_def
      isLiveHash_def sRemovedKey_def hash_defs live_hash sFreeKey_def)

lemma e_mem_simps [simp]:
  "e_mem (setCollision e) = e_mem e" "e_mem (unsetCollision e) = e_mem e" "e_mem (setLive hn x e) = Some x"
  by (simp_all add: setCollision_def unsetCollision_def setLive_def)

lemma getKeyHash_simps [simp]:
  "getKeyHash (setCollision e) = getKeyHash e" "getKeyHash (unsetCollision e) = getKeyHash e"
  "getKeyHash (setLive hn x e) = sans_bit hn"
  by (simp_all add: getKeyHash_def setCollision_def unsetCollision_def setLive_def hash_defs)

lemma hasCollision_simps [simp]:
  "hasCollision (setCollision e)" "\<not> hasCollision (unsetCollision e)" "\<not> hasCollision (clearLive e)" "hasCollision (removeLive e)"
  "hasCollision (setLive hn x e) \<longleftrightarrow> bit hn 0"
  by (simp_all add: hasCollision_hash setCollision_def unsetCollision_def clearLive_def removeLive_def setLive_def
      hash_defs sFreeKey_def sRemovedKey_def)

lemma dead_cases: "\<not> isLive e \<longleftrightarrow> isFree e \<or> isRemoved e"
  by (simp add: entry_defs dead_hash)

lemma isRemoved_simps [simp]:
  "isRemoved (removeLive e)" "\<not> isRemoved (clearLive e)" "\<not> isRemoved (clear_entry e)" "\<not> isRemoved (unsetCollision e)"
  by (auto simp: isRemoved_def removeLive_def clearLive_def clear_entry_def unsetCollision_def sRemovedKey_def sFreeKey_def
      sCollisionBit_def dest: arg_cong [of _ _ "\<lambda>w. bit w 0"] simp: bit_simps)

lemma isFree_not: "isFree e \<Longrightarrow> \<not> isLive e" "isFree e \<Longrightarrow> \<not> isRemoved e" "isFree e \<Longrightarrow> \<not> hasCollision e"
  "isRemoved e \<Longrightarrow> \<not> isLive e" "isRemoved e \<Longrightarrow> hasCollision e"
  by (auto simp: entry_defs)

lemma setCollision_removed: "isRemoved e \<Longrightarrow> setCollision e = e"
  by (simp add: isRemoved_def setCollision_def sRemovedKey_def sCollisionBit_def)

lemma isRemoved_setCollision: "\<not> isFree e \<Longrightarrow> isRemoved (setCollision e) \<longleftrightarrow> isRemoved e"
  by (metis dead_cases isFree_not(4) isLive_simps(1) setCollision_removed)

lemma setCollision_idem [simp]: "setCollision (setCollision e) = setCollision e"
  by (simp add: setCollision_def hash_defs)

lemma matchHash_key: "matchHash e hn \<longleftrightarrow> getKeyHash e = hn"
  by (simp add: matchHash_def getKeyHash_def)

lemma getKeyHash_live: "isLive e \<longleftrightarrow> isLiveHash (getKeyHash e)"
  by (simp add: isLive_def isLiveHash_def getKeyHash_def sRemovedKey_def hash_defs live_hash)

lemma getKeyHash_even [simp]: "\<not> bit (getKeyHash e) 0" "sans_bit (getKeyHash e) = getKeyHash e"
  by (simp_all add: getKeyHash_def hash_defs)


section \<open>The contents\<close>

definition content :: "'t HashTableEntry \<Rightarrow> 't multiset" where
  "content e = (if isLive e then {#the (e_mem e)#} else {#})"

abbreviation contents :: "'t HashTableEntry list \<Rightarrow> 't multiset" where
  "contents es \<equiv> sum_list (map content es)"

abbreviation removed_entries :: "'t HashTableEntry list \<Rightarrow> nat" where
  "removed_entries es \<equiv> length (filter isRemoved es)"

lemma content_simps [simp]:
  "content (setCollision e) = content e" "content (unsetCollision e) = content e" "\<not> isLive e \<Longrightarrow> content e = {#}"
  "isLive e \<Longrightarrow> content e = {#the (e_mem e)#}" "isLiveHash hn \<Longrightarrow> content (setLive hn x e) = {#x#}"
  by (simp_all add: content_def)

lemma sum_list_replicate_empty [simp]: "sum_list (replicate n {#}) = {#}"
  by (induction n) simp_all

lemma contents_update: "i < length es \<Longrightarrow> contents (es[i := e]) + content (es ! i) = contents es + content e"
  by (induction es arbitrary: i) (auto split: nat.split simp: ac_simps)

lemma contents_update_same: "content e = content (es ! i) \<Longrightarrow> contents (es[i := e]) = contents es"
  using contents_update [of i es e] by (cases "i < length es") (simp_all add: list_update_beyond)

lemma removed_update:
  "i < length es \<Longrightarrow> removed_entries (es[i := e]) + of_bool (isRemoved (es ! i)) = removed_entries es + of_bool (isRemoved e)"
proof (induction es arbitrary: i)
  case (Cons f es)
  then show ?case using Cons.IH [of "i - 1"] by (cases i) auto
qed simp

lemma contents_in: "x \<in># contents es \<longleftrightarrow> (\<exists>i < length es. isLive (es ! i) \<and> x = the (e_mem (es ! i)))"
proof -
  have "x \<in># contents es \<longleftrightarrow> (\<exists>e \<in> set es. isLive e \<and> x = the (e_mem e))" by (induction es) (auto simp: content_def)
  then show ?thesis by (metis in_set_conv_nth)
qed

lemma size_contents: "size (contents es) = length (filter isLive es)"
  by (induction es) (auto simp: content_def)

lemma count_entries: "length (filter isLive es) + removed_entries es + length (filter isFree es) = length es"
  by (induction es) (auto simp: isFree_not dead_cases)

lemma free_entry:
  assumes "size (contents es) + removed_entries es < length es"
  obtains i where "i < length es" and "isFree (es ! i)"
proof -
  have "filter isFree es \<noteq> []" using assms count_entries [of es] by (auto simp: size_contents)
  then show thesis using that by (metis filter_empty_conv in_set_conv_nth)
qed

lemma dead_entry:
  assumes "size (contents es) < length es"
  obtains i where "i < length es" and "\<not> isLive (es ! i)"
proof -
  have "filter isLive es \<noteq> es" using assms by (metis less_irrefl size_contents)
  then show thesis using that by (metis filter_True in_set_conv_nth)
qed

section \<open>Marking a path\<close>

definition mark :: "nat \<Rightarrow> u32 \<Rightarrow> nat \<Rightarrow> 't HashTableEntry list \<Rightarrow> 't HashTableEntry list" where
  "mark shift hn n es = map (\<lambda>i. if i \<in> slot shift hn ` {..<n} then setCollision (es ! i) else es ! i) [0..<length es]"

lemma length_mark [simp]: "length (mark shift hn n es) = length es"
  by (simp add: mark_def)

lemma mark_nth: "i < length es \<Longrightarrow> mark shift hn n es ! i = (if i \<in> slot shift hn ` {..<n} then setCollision (es ! i) else es ! i)"
  by (simp add: mark_def)

lemma mark_0 [simp]: "mark shift hn 0 es = es"
  by (simp add: mark_def map_nth)

lemma mark_Suc:
  "slot shift hn n < length es \<Longrightarrow>
    (mark shift hn n es)[slot shift hn n := setCollision (mark shift hn n es ! slot shift hn n)] = mark shift hn (Suc n) es"
  by (rule nth_equalityI) (auto simp: mark_nth nth_list_update lessThan_Suc)

lemma mark_fresh:
  assumes "size_ok shift" and "length es = slots shift" and "n \<le> j" and "j < slots shift"
  shows "mark shift hn n es ! slot shift hn j = es ! slot shift hn j"
proof -
  have "slot shift hn k \<noteq> slot shift hn j" if "k < n" for k using slot_inj [OF assms(1), of k j hn] assms(3,4) that by auto
  then have "slot shift hn j \<notin> slot shift hn ` {..<n}" by (metis imageE lessThan_iff)
  then show ?thesis using slot_less [OF assms(1)] assms(2) by (simp add: mark_nth)
qed

section \<open>Searches\<close>

lemma find_free_loop_finds:
  assumes ok: "size_ok shift" "length es = slots shift" and "n < m" and "m < slots shift"
    and live: "\<And>j. j < m \<Longrightarrow> isLive (es ! slot shift hn j)" and dead: "\<not> isLive (es ! slot shift hn m)"
  shows "find_free_loop (hash2 shift hn) (probe shift hn n) (mark shift hn n es) = Some (mark shift hn m es, slot shift hn m)"
  using \<open>n < m\<close>
proof (induction "m - n" arbitrary: n)
  case (Suc d)
  have less: "slot shift hn j < length es" for j using slot_less [OF ok(1)] ok(2) by simp
  have "isLive (mark shift hn (Suc n) es ! slot shift hn (Suc n)) \<longleftrightarrow> isLive (es ! slot shift hn (Suc n))"
    using less by (simp add: mark_nth)
  moreover have "isLive (es ! slot shift hn (Suc n)) \<longleftrightarrow> Suc n < m"
    using live [of "Suc n"] dead Suc.prems by (cases "Suc n = m") auto
  moreover have "find_free_loop (hash2 shift hn) (probe shift hn n) (mark shift hn n es) =
      (if \<not> isLive (mark shift hn (Suc n) es ! slot shift hn (Suc n)) then Some (mark shift hn (Suc n) es, slot shift hn (Suc n))
       else find_free_loop (hash2 shift hn) (probe shift hn (Suc n)) (mark shift hn (Suc n) es))"
    using less mark_Suc [of shift hn n es, OF less]
    by (subst find_free_loop.simps) (simp add: rd_def wr_def slot_def Let_def flip: probe_Suc)
  moreover have "find_free_loop (hash2 shift hn) (probe shift hn (Suc n)) (mark shift hn (Suc n) es) =
      Some (mark shift hn m es, slot shift hn m)" if "Suc n < m"
    using Suc.hyps that by simp
  moreover have "m = Suc n" if "\<not> Suc n < m" using Suc.prems that by simp
  ultimately show ?case by (cases "Suc n < m") simp_all
qed simp

lemma findFreeEntry_finds:
  assumes "size_ok shift" and "length es = slots shift" and "m < slots shift"
    and "\<And>j. j < m \<Longrightarrow> isLive (es ! slot shift hn j)" and "\<not> isLive (es ! slot shift hn m)"
  shows "findFreeEntry shift hn es = Some (mark shift hn m es, slot shift hn m)"
proof (cases m)
  case 0
  then show ?thesis using assms slot_less [OF assms(1), of hn 0] by (simp add: findFreeEntry_def rd_def slot_def Let_def)
next
  case (Suc k)
  then have "find_free_loop (hash2 shift hn) (probe shift hn 0) (mark shift hn 0 es) = Some (mark shift hn m es, slot shift hn m)"
    by (intro find_free_loop_finds [OF assms(1,2)]) (use assms in simp_all)
  then show ?thesis
    using assms(4) [of 0] Suc slot_less [OF assms(1), of hn 0] assms(2) by (simp add: findFreeEntry_def rd_def slot_def Let_def)
qed

abbreviation stops :: "('l, 'k, 't) table_policy \<Rightarrow> 'l \<Rightarrow> u32 \<Rightarrow> 't HashTableEntry \<Rightarrow> bool" where
  "stops pol l hn e \<equiv> isFree e \<or> match_entry pol e hn l = Some True"

abbreviation misses :: "('l, 'k, 't) table_policy \<Rightarrow> 'l \<Rightarrow> u32 \<Rightarrow> 't HashTableEntry \<Rightarrow> bool" where
  "misses pol l hn e \<equiv> \<not> isFree e \<and> match_entry pol e hn l = Some False"

definition first_removed :: "nat \<Rightarrow> u32 \<Rightarrow> nat \<Rightarrow> 't HashTableEntry list \<Rightarrow> nat option" where
  "first_removed shift hn n es = find (\<lambda>i. isRemoved (es ! i)) (map (slot shift hn) [0..<n])"

lemma find_snoc: "find P (xs @ [x]) = (case find P xs of None \<Rightarrow> if P x then Some x else None | Some y \<Rightarrow> Some y)"
  by (induction xs) auto

lemma first_removed_Suc:
  "first_removed shift hn (Suc n) es =
    (if isRemoved (es ! slot shift hn n) then
       (case first_removed shift hn n es of None \<Rightarrow> Some (slot shift hn n) | Some r \<Rightarrow> Some r)
     else first_removed shift hn n es)"
  by (auto simp: first_removed_def find_snoc split: option.split)

lemma first_removed_0 [simp]: "first_removed shift hn 0 es = None"
  by (simp add: first_removed_def)

definition hit_place :: "nat \<Rightarrow> u32 \<Rightarrow> nat \<Rightarrow> 't HashTableEntry list \<Rightarrow> nat" where
  "hit_place shift hn m es =
     (if isFree (es ! slot shift hn m) then (case first_removed shift hn m es of Some r \<Rightarrow> r | None \<Rightarrow> slot shift hn m)
      else slot shift hn m)"

lemma match_entry_setCollision [simp]: "match_entry pol (setCollision e) hn l = match_entry pol e hn l"
  by (simp add: match_entry_def matchHash_key)

lemma lookup_loop_finds:
  assumes ok: "size_ok shift" "length es = slots shift" and "n < m" and m: "m < slots shift"
    and misses: "\<And>j. j < m \<Longrightarrow> misses pol l hn (es ! slot shift hn j)" and stops: "stops pol l hn (es ! slot shift hn m)"
  shows "lookup_loop pol l hn collision (hash2 shift hn) (probe shift hn n) (first_removed shift hn n es)
      (if collision then mark shift hn n es else es) =
    Some (if collision then mark shift hn m es else es, hit_place shift hn m es)"
  using \<open>n < m\<close>
proof (induction "m - n" arbitrary: n)
  case (Suc d)
  let ?e = "es ! slot shift hn n"
  define E where "E n = (if collision then mark shift hn n es else es)" for n
  have less: "slot shift hn j < length es" for j using slot_less [OF ok(1)] ok(2) by simp
  have bound: "slot shift hn j < length (E k)" for j k using less by (simp add: E_def)
  have entry: "E k ! slot shift hn j = es ! slot shift hn j" if "k \<le> j" "j \<le> m" for k j
    using mark_fresh [OF ok that(1)] that(2) m by (simp add: E_def)
  have here: "E n ! slot shift hn n = ?e" "E (Suc n) ! slot shift hn (Suc n) = es ! slot shift hn (Suc n)"
    using entry [of n n] entry [of "Suc n" "Suc n"] Suc.prems by simp_all
  have "mark shift hn n es ! slot shift hn n = ?e" using mark_fresh [OF ok, of n n hn] Suc.prems m by simp
  then have marks: "(mark shift hn n es)[slot shift hn n := setCollision ?e] = mark shift hn (Suc n) es"
    using mark_Suc [of shift hn n es, OF less] by (simp only:)
  have "mark shift hn n es = mark shift hn (Suc n) es" if "isRemoved ?e"
    using marks list_update_id [of "mark shift hn n es" "slot shift hn n"] that
      \<open>mark shift hn n es ! slot shift hn n = ?e\<close> by (simp only: setCollision_removed)
  then have step: "(if \<not> isRemoved ?e \<and> collision then (E n)[slot shift hn n := setCollision ?e] else E n) = E (Suc n)"
    using marks by (cases collision; cases "isRemoved ?e") (simp_all add: E_def)
  have loop: "lookup_loop pol l hn collision (hash2 shift hn) (probe shift hn (Suc n)) (first_removed shift hn (Suc n) es) (E (Suc n)) =
      Some (E m, hit_place shift hn m es)" if "Suc n < m"
    using Suc.hyps that by (simp add: E_def)
  have "lookup_loop pol l hn collision (hash2 shift hn) (probe shift hn n) (first_removed shift hn n es) (E n) =
      (if isFree (es ! slot shift hn (Suc n)) then
         Some (E (Suc n), case first_removed shift hn (Suc n) es of Some r \<Rightarrow> r | None \<Rightarrow> slot shift hn (Suc n))
       else
         do { found \<leftarrow> match_entry pol (es ! slot shift hn (Suc n)) hn l;
              if found then Some (E (Suc n), slot shift hn (Suc n))
              else lookup_loop pol l hn collision (hash2 shift hn) (probe shift hn (Suc n)) (first_removed shift hn (Suc n) es) (E (Suc n)) })"
    unfolding first_removed_Suc
    by (subst lookup_loop.simps)
      (simp only: rd_def Let_def slot_def [symmetric] probe_Suc [symmetric] bound if_True bind.bind_lunit here step)
  moreover have "m = Suc n" if "\<not> Suc n < m" using Suc.prems that by simp
  ultimately show ?case
    unfolding E_def [symmetric] using misses [of "Suc n"] stops loop by (cases "Suc n < m") (auto simp: hit_place_def)
qed simp

end
