(* ===== verification/HashTableCorrect.thy ===== *)
theory HashTableCorrect
  imports HashTableSearch
begin

text \<open>
  The hash table of \<open>js/public/HashTable.h\<close> is the multiset of its live elements: a lookup ends, and finds the element
  that matches or a place for it; every operation keeps the invariant of the collision bits and acts on the elements as
  its name says, whether it allocates, fails to, or rehashes in place.
\<close>

section \<open>The invariant\<close>

text \<open>An entry is reached when all slots of its probe sequence before it have the collision bit.\<close>

definition reach :: "nat \<Rightarrow> u32 \<Rightarrow> nat \<Rightarrow> 't HashTableEntry list \<Rightarrow> bool" where
  "reach shift hn i es \<longleftrightarrow> (\<exists>n < slots shift. slot shift hn n = i \<and> (\<forall>j < n. hasCollision (es ! slot shift hn j)))"

definition hashes :: "('l, 'k, 't) table_policy \<Rightarrow> 't \<Rightarrow> u32 \<Rightarrow> bool" where
  "hashes pol x hn \<longleftrightarrow> (\<forall>l. policy_match pol (policy_getKey pol x) l \<longrightarrow> HashTable_prepareHash pol l = hn)"

definition entry_ok :: "('l, 'k, 't) table_policy \<Rightarrow> 't HashTableEntry \<Rightarrow> bool" where
  "entry_ok pol e \<longleftrightarrow> (isLive e \<longrightarrow> (\<exists>x. e_mem e = Some x \<and> hashes pol x (getKeyHash e)))"

definition entries_ok :: "('l, 'k, 't) table_policy \<Rightarrow> nat \<Rightarrow> 't HashTableEntry list \<Rightarrow> bool" where
  "entries_ok pol shift es \<longleftrightarrow>
     length es = slots shift \<and> (\<forall>e \<in> set es. entry_ok pol e) \<and>
     (\<forall>i < length es. isLive (es ! i) \<longrightarrow> reach shift (getKeyHash (es ! i)) i es)"

definition matching :: "('l, 'k, 't) table_policy \<Rightarrow> 'l \<Rightarrow> 't multiset \<Rightarrow> 't multiset" where
  "matching pol l M = filter_mset (\<lambda>x. policy_match pol (policy_getKey pol x) l) M"

definition unique_keys :: "('l, 'k, 't) table_policy \<Rightarrow> 't multiset \<Rightarrow> bool" where
  "unique_keys pol M \<longleftrightarrow> (\<forall>l. size (matching pol l M) \<le> 1)"

abbreviation elements :: "'t HashTable \<Rightarrow> 't multiset" where
  "elements t \<equiv> contents (entry_table t)"

definition table_wf :: "('l, 'k, 't) table_policy \<Rightarrow> 't HashTable \<Rightarrow> bool" where
  "table_wf pol t \<longleftrightarrow>
     size_ok (hash_shift t) \<and> entries_ok pol (hash_shift t) (entry_table t) \<and> unique_keys pol (elements t) \<and>
     entryCount t = size (elements t) \<and> removedCount t = removed_entries (entry_table t)"

definition load_ok :: "'t HashTable \<Rightarrow> bool" where
  "load_ok t \<longleftrightarrow> entryCount t + removedCount t \<le> HashTable_capacity t * 3 div 4"

abbreviation table_ok :: "('l, 'k, 't) table_policy \<Rightarrow> 't HashTable \<Rightarrow> bool" where
  "table_ok pol t \<equiv> table_wf pol t \<and> load_ok t"

lemma capacity_slots: "HashTable_capacity t = slots (hash_shift t)"
  by (simp add: HashTable_capacity_def sHashBits_def)

lemma table_wfD:
  assumes "table_wf pol t"
  shows "size_ok (hash_shift t)" "length (entry_table t) = slots (hash_shift t)"
    "\<And>i. i < slots (hash_shift t) \<Longrightarrow> entry_ok pol (entry_table t ! i)"
    "entryCount t = size (elements t)" "removedCount t = removed_entries (entry_table t)" "unique_keys pol (elements t)"
  using assms by (auto simp: table_wf_def entries_ok_def)

lemma reach_mono:
  assumes "reach shift hn i es" and "\<And>j. hasCollision (es ! slot shift hn j) \<Longrightarrow> hasCollision (es' ! slot shift hn j)"
  shows "reach shift hn i es'"
  using assms unfolding reach_def by blast

section \<open>Marking keeps it\<close>

lemma length_filter_cong:
  assumes "length xs = length ys" and "\<And>i. i < length xs \<Longrightarrow> P (xs ! i) \<longleftrightarrow> P (ys ! i)"
  shows "length (filter P xs) = length (filter P ys)"
proof -
  have "map P xs = map P ys" using assms by (auto intro: nth_equalityI)
  then have "length (filter id (map P xs)) = length (filter id (map P ys))" by simp
  then show ?thesis by (simp add: filter_map comp_def)
qed

lemma contents_cong:
  assumes "length es = length es'" and "\<And>i. i < length es \<Longrightarrow> content (es ! i) = content (es' ! i)"
  shows "contents es = contents es'"
proof -
  have "map content es = map content es'" using assms by (auto intro: nth_equalityI)
  then show ?thesis by simp
qed

lemma marked:
  assumes nonfree: "\<And>j. j < m \<Longrightarrow> \<not> isFree (es ! slot shift hn j)"
  shows "contents (mark shift hn m es) = contents es" "removed_entries (mark shift hn m es) = removed_entries es"
proof -
  show "contents (mark shift hn m es) = contents es" by (rule contents_cong) (simp_all add: mark_nth)
  show "removed_entries (mark shift hn m es) = removed_entries es"
    by (rule length_filter_cong) (use nonfree in \<open>auto simp: mark_nth isRemoved_setCollision\<close>)
qed

lemma mark_collisions: "i < length es \<Longrightarrow> hasCollision (es ! i) \<Longrightarrow> hasCollision (mark shift hn m es ! i)"
  by (simp add: mark_nth)

lemma entries_ok_mark:
  assumes ok: "size_ok shift" and es: "entries_ok pol shift es"
  shows "entries_ok pol shift (mark shift hn m es)"
  unfolding entries_ok_def
proof (intro conjI ballI allI impI)
  have len: "length es = slots shift" using es by (simp add: entries_ok_def)
  then show "length (mark shift hn m es) = slots shift" by simp
  show "entry_ok pol e" if "e \<in> set (mark shift hn m es)" for e
    using that es by (auto simp: mark_def entries_ok_def entry_ok_def)
  fix i assume i: "i < length (mark shift hn m es)" "isLive (mark shift hn m es ! i)"
  then have "isLive (es ! i)" "getKeyHash (mark shift hn m es ! i) = getKeyHash (es ! i)" by (auto simp: mark_nth split: if_splits)
  then have "reach shift (getKeyHash (mark shift hn m es ! i)) i es" using es i by (simp add: entries_ok_def)
  then show "reach shift (getKeyHash (mark shift hn m es ! i)) i (mark shift hn m es)"
    by (rule reach_mono) (use slot_less [OF ok] len in \<open>simp add: mark_collisions\<close>)
qed

section \<open>What a lookup finds\<close>

lemma match_entry_cases:
  assumes "entry_ok pol e" and "isLiveHash hn"
  shows "stops pol l hn e \<or> misses pol l hn e"
  using assms getKeyHash_live [of e] by (auto simp: match_entry_def matchHash_key entry_ok_def)

lemma prepareHash_live: "isLiveHash (HashTable_prepareHash pol l)" "sans_bit (HashTable_prepareHash pol l) = HashTable_prepareHash pol l"
proof -
  let ?h = "ScrambleHashCode (policy_hash pol l)"
  have "(1 :: u32) < - 2" "(1 :: u32) < - 1" by code_simp+
  then have "isLiveHash (if \<not> isLiveHash ?h then ?h - (sRemovedKey + 1) else ?h)"
    using dead_hash [of ?h] by (auto simp: isLiveHash_def sRemovedKey_def)
  then show "isLiveHash (HashTable_prepareHash pol l)"
    by (simp add: HashTable_prepareHash_def Let_def hash_defs isLiveHash_def sRemovedKey_def live_hash)
  show "sans_bit (HashTable_prepareHash pol l) = HashTable_prepareHash pol l"
    by (simp add: HashTable_prepareHash_def Let_def hash_defs)
qed

lemma slots_length: "entries_ok pol shift es \<Longrightarrow> size_ok shift \<Longrightarrow> slot shift hn j < length es"
  using slot_less by (simp add: entries_ok_def)

lemma entry_ok_nth: "entries_ok pol shift es \<Longrightarrow> i < length es \<Longrightarrow> entry_ok pol (es ! i)"
  by (simp add: entries_ok_def)

text \<open>The search ends, at the first slot that stops it.\<close>

lemma lookup_entry_finds:
  assumes ok: "size_ok (hash_shift t)" and es: "entries_ok pol (hash_shift t) (entry_table t)"
    and free: "i < length (entry_table t)" "isFree (entry_table t ! i)" and hn: "isLiveHash hn"
  obtains m where "m < slots (hash_shift t)" and "\<And>j. j < m \<Longrightarrow> misses pol l hn (entry_table t ! slot (hash_shift t) hn j)"
    and "stops pol l hn (entry_table t ! slot (hash_shift t) hn m)"
    and "lookup_entry pol l hn collision t =
      Some (t\<lparr>entry_table := (if collision then mark (hash_shift t) hn m (entry_table t) else entry_table t)\<rparr>,
        hit_place (hash_shift t) hn m (entry_table t))"
proof -
  let ?shift = "hash_shift t" and ?es = "entry_table t"
  have len: "length ?es = slots ?shift" using es by (simp add: entries_ok_def)
  obtain m where m: "m < slots ?shift" "stops pol l hn (?es ! slot ?shift hn m)"
      "\<And>j. j < m \<Longrightarrow> \<not> stops pol l hn (?es ! slot ?shift hn j)"
    using first_slot [OF ok, of i "\<lambda>i. stops pol l hn (?es ! i)" hn] free len by auto
  have misses: "misses pol l hn (?es ! slot ?shift hn j)" if "j < m" for j
    using match_entry_cases [OF entry_ok_nth [OF es slots_length [OF es ok]] hn] m(3) [OF that] by blast
  have less: "unat (hash1 ?shift hn) < length ?es" using slots_length [OF es ok, of hn 0] by (simp add: slot_def)
  have "lookup_entry pol l hn collision t =
      Some (t\<lparr>entry_table := (if collision then mark ?shift hn m ?es else ?es)\<rparr>, hit_place ?shift hn m ?es)"
  proof (cases m)
    case 0
    then show ?thesis using m(2) less by (auto simp: lookup_entry_def rd_def slot_def hit_place_def Let_def)
  next
    case (Suc k)
    have "lookup_loop pol l hn collision (hash2 ?shift hn) (probe ?shift hn 0) (first_removed ?shift hn 0 ?es)
        (if collision then mark ?shift hn 0 ?es else ?es) =
        Some (if collision then mark ?shift hn m ?es else ?es, hit_place ?shift hn m ?es)"
      by (rule lookup_loop_finds [OF ok len _ m(1) misses m(2)]) (simp_all add: Suc)
    then show ?thesis using misses [of 0] less Suc by (simp add: lookup_entry_def rd_def slot_def Let_def cong: if_cong)
  qed
  then show thesis using that m(1,2) misses by blast
qed

lemma reach_mark: "m < slots shift \<Longrightarrow> j \<le> m \<Longrightarrow> size_ok shift \<Longrightarrow> length es = slots shift \<Longrightarrow> reach shift hn (slot shift hn j) (mark shift hn m es)"
  unfolding reach_def using slot_less [of shift hn] by (intro exI [of _ j]) (auto simp: mark_nth)

lemma find_Some_nth: "find P xs = Some x \<Longrightarrow> \<exists>i < length xs. x = xs ! i \<and> P x"
  by (metis find_Some_iff)

lemma hit_place_found:
  assumes ok: "size_ok shift" and es: "entries_ok pol shift es" and m: "m < slots shift"
    and misses: "\<And>j. j < m \<Longrightarrow> misses pol l (HashTable_prepareHash pol l) (es ! slot shift (HashTable_prepareHash pol l) j)"
    and stops: "stops pol l (HashTable_prepareHash pol l) (es ! slot shift (HashTable_prepareHash pol l) m)"
  defines "hn \<equiv> HashTable_prepareHash pol l" and "i \<equiv> hit_place shift (HashTable_prepareHash pol l) m es"
  shows "i < length es \<and> (if isLive (es ! i) then \<exists>x. e_mem (es ! i) = Some x \<and> policy_match pol (policy_getKey pol x) l
    else matching pol l (contents es) = {#} \<and> reach shift hn i (mark shift hn m es))"
proof -
  have len: "length es = slots shift" using es by (simp add: entries_ok_def)
  show ?thesis
  proof (cases "isFree (es ! slot shift hn m)")
    case False
    then have "i = slot shift hn m" by (simp add: i_def hit_place_def hn_def)
    moreover have "match_entry pol (es ! slot shift hn m) hn l = Some True" using stops False by (simp add: hn_def)
    then obtain x where "e_mem (es ! slot shift hn m) = Some x" "policy_match pol (policy_getKey pol x) l" "getKeyHash (es ! slot shift hn m) = hn"
      by (auto simp: match_entry_def matchHash_key split: if_splits bind_splits)
    moreover have "isLive (es ! slot shift hn m)" using calculation prepareHash_live(1) by (simp add: getKeyHash_live hn_def)
    ultimately show ?thesis using slots_length [OF es ok, of hn m] by simp
  next
    case True
    have "\<not> policy_match pol (policy_getKey pol x) l" if x: "x \<in># contents es" for x
    proof
      assume match: "policy_match pol (policy_getKey pol x) l"
      obtain k where k: "k < length es" "isLive (es ! k)" "x = the (e_mem (es ! k))" using iffD1 [OF contents_in x] by blast
      then have mem: "e_mem (es ! k) = Some x" "getKeyHash (es ! k) = hn"
        using entry_ok_nth [OF es k(1)] match by (auto simp: entry_ok_def hashes_def hn_def)
      then have "reach shift hn k es" using es k(1,2) by (auto simp: entries_ok_def)
      then obtain n where n: "slot shift hn n = k" "\<And>j. j < n \<Longrightarrow> hasCollision (es ! slot shift hn j)" by (auto simp: reach_def)
      have hit: "match_entry pol (es ! k) hn l = Some True" using mem match by (simp add: match_entry_def matchHash_key)
      consider "n < m" | "n = m" | "m < n" by linarith
      then show False
        using misses [of n, folded hn_def] n hit True k(2) isFree_not by cases auto
    qed
    then have none: "matching pol l (contents es) = {#}" by (simp add: matching_def filter_mset_eq_mempty_iff)
    show ?thesis
    proof (cases "first_removed shift hn m es")
      case None
      then have "i = slot shift hn m" using True by (simp add: i_def hit_place_def hn_def)
      then show ?thesis using none isFree_not(1) [OF True] slots_length [OF es ok] reach_mark [OF m _ ok len, of m] by simp
    next
      case (Some r)
      then obtain j where "j < length (map (slot shift hn) [0..<m])" "r = map (slot shift hn) [0..<m] ! j" "isRemoved (es ! r)"
        unfolding first_removed_def using find_Some_nth [of "\<lambda>i. isRemoved (es ! i)" "map (slot shift hn) [0..<m]" r] by blast
      then have "j < m" "r = slot shift hn j" by simp_all
      moreover have "i = r" using True Some by (simp add: i_def hit_place_def hn_def)
      moreover have "\<not> isLive (es ! r)" using \<open>isRemoved (es ! r)\<close> by (rule isFree_not(4))
      ultimately show ?thesis using none slots_length [OF es ok] reach_mark [OF m _ ok len, of j] by simp
    qed
  qed
qed


section \<open>Writing an entry\<close>

text \<open>An element put at a dead entry that its probe sequence reaches; the collision bit is kept.\<close>

lemma entries_ok_insert:
  assumes ok: "size_ok shift" and es: "entries_ok pol shift es" and i: "i < length es" "\<not> isLive (es ! i)"
    and hn: "isLiveHash w" "sans_bit w = hn" and bit: "hasCollision (es ! i) \<Longrightarrow> bit w 0"
    and reach: "reach shift hn i es" and x: "hashes pol x hn"
  shows "entries_ok pol shift (es[i := setLive w x e]) \<and> contents (es[i := setLive w x e]) = add_mset x (contents es) \<and>
    removed_entries (es[i := setLive w x e]) = removed_entries es - of_bool (isRemoved (es ! i))"
proof (intro conjI)
  let ?es = "es[i := setLive w x e]"
  have bits: "hasCollision (es ! k) \<Longrightarrow> hasCollision (?es ! k)" for k
    using bit i by (cases "k = i") (auto simp: nth_list_update)
  have live: "isLive (setLive w x e)" using hn(1) by simp
  show "entries_ok pol shift ?es" unfolding entries_ok_def
  proof (intro conjI ballI allI impI)
    show "length ?es = slots shift" using es by (simp add: entries_ok_def)
    show "entry_ok pol f" if "f \<in> set ?es" for f
      using that es x hn(2) by (auto simp: entries_ok_def entry_ok_def dest!: subsetD [OF set_update_subset_insert])
    fix k assume k: "k < length ?es" "isLive (?es ! k)"
    have "reach shift (getKeyHash (?es ! k)) k es"
      using k reach es hn(2) by (cases "k = i") (auto simp: entries_ok_def)
    then show "reach shift (getKeyHash (?es ! k)) k ?es" by (rule reach_mono) (rule bits)
  qed
  show "contents ?es = add_mset x (contents es)" using contents_update [OF i(1), of "setLive w x e"] i(2) hn(1) by simp
  have "\<not> isRemoved (setLive w x e)" using live isFree_not(4) by blast
  then show "removed_entries ?es = removed_entries es - of_bool (isRemoved (es ! i))"
    using removed_update [OF i(1), of "setLive w x e"] by simp
qed

text \<open>An element taken away; a collision bit is kept.\<close>

lemma entries_ok_delete:
  assumes ok: "size_ok shift" and es: "entries_ok pol shift es" and i: "i < length es" "isLive (es ! i)"
    and e: "\<not> isLive e" "hasCollision e \<longleftrightarrow> hasCollision (es ! i)"
  shows "entries_ok pol shift (es[i := e]) \<and> contents es = add_mset (the (e_mem (es ! i))) (contents (es[i := e])) \<and>
    removed_entries (es[i := e]) = removed_entries es + of_bool (isRemoved e)"
proof (intro conjI)
  let ?es = "es[i := e]"
  have bits: "hasCollision (es ! k) \<Longrightarrow> hasCollision (?es ! k)" for k
    using e(2) i by (cases "k = i") (auto simp: nth_list_update)
  show "entries_ok pol shift ?es" unfolding entries_ok_def
  proof (intro conjI ballI allI impI)
    show "length ?es = slots shift" using es by (simp add: entries_ok_def)
    show "entry_ok pol f" if "f \<in> set ?es" for f
      using that es e(1) by (auto simp: entries_ok_def entry_ok_def dest!: subsetD [OF set_update_subset_insert])
    fix k assume k: "k < length ?es" "isLive (?es ! k)"
    have "k \<noteq> i" using k e(1) i(1) by auto
    then have "reach shift (getKeyHash (?es ! k)) k es" using k es by (auto simp: entries_ok_def)
    then show "reach shift (getKeyHash (?es ! k)) k ?es" by (rule reach_mono) (rule bits)
  qed
  show "contents es = add_mset (the (e_mem (es ! i))) (contents ?es)"
    using contents_update [OF i(1), of e] e(1) i(2) by (simp add: content_def)
  have "\<not> isRemoved (es ! i)" using i(2) isFree_not(4) by blast
  then show "removed_entries ?es = removed_entries es + of_bool (isRemoved e)" using removed_update [OF i(1), of e] by simp
qed

lemma findFreeEntry_ok:
  assumes ok: "size_ok shift" and es: "entries_ok pol shift es" and dead: "size (contents es) < length es"
  obtains i es' where "findFreeEntry shift hn es = Some (es', i)" and "entries_ok pol shift es'" and "contents es' = contents es"
    and "removed_entries es' = removed_entries es" and "i < length es'" and "\<not> isLive (es' ! i)" and "reach shift hn i es'"
proof -
  have len: "length es = slots shift" using es by (simp add: entries_ok_def)
  obtain k where k: "k < length es" "\<not> isLive (es ! k)" using dead_entry [OF dead] by blast
  obtain m where m: "m < slots shift" "\<not> isLive (es ! slot shift hn m)" "\<And>j. j < m \<Longrightarrow> isLive (es ! slot shift hn j)"
    using first_slot [OF ok, of k "\<lambda>i. \<not> isLive (es ! i)" hn] k len by auto
  have less: "slot shift hn m < length es" by (rule slots_length [OF es ok])
  show thesis
  proof (rule that)
    show "findFreeEntry shift hn es = Some (mark shift hn m es, slot shift hn m)"
      by (rule findFreeEntry_finds [OF ok len m(1)]) (use m in auto)
    show "entries_ok pol shift (mark shift hn m es)" by (rule entries_ok_mark [OF ok es])
    show "contents (mark shift hn m es) = contents es" "removed_entries (mark shift hn m es) = removed_entries es"
      using marked [of m es shift hn] m(3) isFree_not by blast+
    show "\<not> isLive (mark shift hn m es ! slot shift hn m)" using m(2) less by (simp add: mark_nth)
  qed (use less reach_mark [OF m(1) order_refl ok len] in simp_all)
qed

section \<open>Changing the size\<close>

lemma move_live_ok:
  assumes ok: "size_ok shift" and "entries_ok pol shift es" and "removed_entries es = 0"
    and "\<And>e. e \<in> set srcs \<Longrightarrow> entry_ok pol e" and "size (contents srcs) + size (contents es) < slots shift"
  obtains es' where "move_live shift srcs es = Some es'" and "entries_ok pol shift es'" and "removed_entries es' = 0"
    and "contents es' = contents srcs + contents es"
  using assms(2-)
proof (induction srcs arbitrary: es thesis)
  case (Cons src srcs)
  show ?case
  proof (cases "isLive src")
    case False
    then show ?thesis using Cons.IH [of es] Cons.prems by auto
  next
    case True
    then obtain x where x: "e_mem src = Some x" "hashes pol x (getKeyHash src)" using Cons.prems(4) by (auto simp: entry_ok_def)
    have len: "length es = slots shift" using Cons.prems(2) by (simp add: entries_ok_def)
    have dead: "size (contents es) < length es" using Cons.prems(5) True len by simp
    obtain i es' where find: "findFreeEntry shift (getKeyHash src) es = Some (es', i)" and es': "entries_ok pol shift es'"
        "contents es' = contents es" "removed_entries es' = removed_entries es" "i < length es'" "\<not> isLive (es' ! i)"
        "reach shift (getKeyHash src) i es'"
      using findFreeEntry_ok [OF ok Cons.prems(2) dead] by blast
    have "\<not> isRemoved (es' ! i)" using es'(3,4) Cons.prems(3) by (metis filter_empty_conv length_0_conv nth_mem)
    then have "\<not> hasCollision (es' ! i)" using es'(5) dead_cases isFree_not(3) by blast
    let ?es = "es'[i := setLive (getKeyHash src) x (es' ! i)]"
    have ins: "entries_ok pol shift ?es" "contents ?es = add_mset x (contents es)" "removed_entries ?es = 0"
      using entries_ok_insert [OF ok es'(1,4,5), of "getKeyHash src" "getKeyHash src" x "es' ! i"] True x es' Cons.prems(3)
        \<open>\<not> hasCollision (es' ! i)\<close> by (simp_all add: getKeyHash_live)
    obtain es'' where "move_live shift srcs ?es = Some es''" "entries_ok pol shift es''" "removed_entries es'' = 0"
        "contents es'' = contents srcs + contents ?es"
      using Cons.IH [OF _ ins(1,3)] Cons.prems(4,5) True ins(2) x(1) by auto
    then show ?thesis
      using Cons.prems(1) find x(1) es'(4) ins(2) True by (simp add: rd_def wr_def)
  qed
qed simp

lemma new_entry [simp]:
  "\<not> isLive \<lparr>e_keyHash = sFreeKey, e_mem = None\<rparr>" "\<not> isRemoved \<lparr>e_keyHash = sFreeKey, e_mem = None\<rparr>"
  using isFree_not [of "\<lparr>e_keyHash = sFreeKey, e_mem = None\<rparr>"] by (simp_all add: isFree_def)

lemma new_entries:
  "entries_ok pol shift (replicate (slots shift) \<lparr>e_keyHash = sFreeKey, e_mem = None\<rparr>)"
  "contents (replicate n \<lparr>e_keyHash = sFreeKey, e_mem = None\<rparr>) = {#}"
  "removed_entries (replicate n \<lparr>e_keyHash = sFreeKey, e_mem = None\<rparr>) = 0"
  by (auto simp: entries_ok_def entry_ok_def)

text \<open>A change of the size that fails changes nothing; otherwise the elements are the same and no entry is removed.\<close>

lemma changeTableSize_ok:
  assumes wf: "table_wf pol t" and new: "newLog2 = int (32 - hash_shift t) + deltaLog2" "2 \<le> newLog2"
    and fits: "size (elements t) < 2 ^ nat newLog2"
  obtains status t' where "changeTableSize ap deltaLog2 t = Some (status, t')"
    and "status = RehashFailed \<and> t' = t \<and> (pod_calloc_ok ap \<longrightarrow> 30 < nat newLog2) \<or>
      status = Rehashed \<and> pod_calloc_ok ap \<and> table_wf pol t' \<and> elements t' = elements t \<and> removedCount t' = 0 \<and>
        HashTable_capacity t' = 2 ^ nat newLog2"
proof -
  let ?new = "replicate (2 ^ nat newLog2) \<lparr>e_keyHash = sFreeKey, e_mem = None\<rparr>"
  have log2: "nat (int (sHashBits - hash_shift t) + deltaLog2) = nat newLog2" using new(1) by (simp add: sHashBits_def)
  show thesis
  proof (cases "sMaxCapacity < 2 ^ nat newLog2 \<or> \<not> pod_calloc_ok ap")
    case True
    then have "changeTableSize ap deltaLog2 t = Some (RehashFailed, t)"
      by (auto simp: changeTableSize_def log2 Let_def createTable_def)
    moreover have "30 < nat newLog2" if "pod_calloc_ok ap"
    proof -
      have "(2 :: nat) ^ 30 < 2 ^ nat newLog2" using True that unfolding sMaxCapacity_def CAP_BITS_def by blast
      then show ?thesis by (rule power_less_imp_less_exp [rotated]) simp
    qed
    ultimately show thesis using that by blast
  next
    case False
    then have "\<not> (2 :: nat) ^ 30 < 2 ^ nat newLog2" unfolding sMaxCapacity_def CAP_BITS_def by blast
    then have "nat newLog2 \<le> 30" by (metis linorder_not_less one_less_numeral_iff power_strict_increasing semiring_norm(76))
    then have shift: "size_ok (32 - nat newLog2)" "32 - (32 - nat newLog2) = nat newLog2" using new(2) by auto
    have old: "entry_ok pol e" if "e \<in> set (entry_table t)" for e
      using wf that by (auto simp: table_wf_def entries_ok_def)
    have "size (elements t) + size (contents ?new) < slots (32 - nat newLog2)" unfolding shift(2) using fits by simp
    then obtain es where "move_live (32 - nat newLog2) (entry_table t) ?new = Some es" "entries_ok pol (32 - nat newLog2) es"
        "removed_entries es = 0" "contents es = elements t + contents ?new"
      using move_live_ok [OF shift(1) new_entries(1) new_entries(3) old] unfolding shift(2) by blast
    then have es: "move_live (32 - nat newLog2) (entry_table t) ?new = Some es" "entries_ok pol (32 - nat newLog2) es"
        "removed_entries es = 0" "contents es = elements t" by simp_all
    let ?t = "t\<lparr>hash_shift := 32 - nat newLog2, removedCount := 0, gen := gen t + 1, entry_table := es\<rparr>"
    have "changeTableSize ap deltaLog2 t = Some (Rehashed, ?t)"
      unfolding changeTableSize_def Let_def log2
      using False es(1) by (simp add: createTable_def setTableSizeLog2_def sHashBits_def)
    moreover have "table_wf pol ?t" using wf es shift(1) by (simp add: table_wf_def)
    moreover have "HashTable_capacity ?t = 2 ^ nat newLog2" using shift(2) by (simp add: capacity_slots)
    ultimately show thesis using that False es(4) by auto
  qed
qed


section \<open>Rehashing in place\<close>

text \<open>
  While the table is rehashed, the entries with the collision bit have been inserted, and the live ones without it are
  pending; an inserted entry is reached over inserted entries.
\<close>

definition in_place_ok :: "('l, 'k, 't) table_policy \<Rightarrow> nat \<Rightarrow> nat \<Rightarrow> 't HashTableEntry list \<Rightarrow> bool" where
  "in_place_ok pol shift i es \<longleftrightarrow>
     length es = slots shift \<and> (\<forall>e \<in> set es. entry_ok pol e \<and> (hasCollision e \<longrightarrow> isLive e) \<and> \<not> isRemoved e) \<and>
     (\<forall>j < length es. hasCollision (es ! j) \<longrightarrow> reach shift (getKeyHash (es ! j)) j es) \<and>
     (\<forall>j < i. j < length es \<and> isLive (es ! j) \<longrightarrow> hasCollision (es ! j))"

abbreviation unmarked :: "'t HashTableEntry list \<Rightarrow> nat" where
  "unmarked es \<equiv> length (filter (\<lambda>e. \<not> hasCollision e) es)"

lemma unmarked_update:
  "i < length es \<Longrightarrow> \<not> hasCollision (es ! i) \<Longrightarrow> hasCollision e \<Longrightarrow> unmarked (es[i := e]) < unmarked es"
proof (induction es arbitrary: i)
  case (Cons f es)
  then show ?case using Cons.IH [of "i - 1"] by (cases i) auto
qed simp

lemma unmarked_update_same: "hasCollision e = hasCollision (es ! i) \<Longrightarrow> unmarked (es[i := e]) = unmarked es"
proof (induction es arbitrary: i)
  case (Cons f es)
  then show ?case using Cons.IH [of "i - 1"] by (cases i) auto
qed simp

text \<open>Swapping a pending entry into its place and marking it there.\<close>

lemma find_target_finds:
  assumes "size_ok shift" and "length es = slots shift" and "m < slots shift" and "n \<le> m"
    and "\<And>j. j < m \<Longrightarrow> hasCollision (es ! slot shift hn j)" and "\<not> hasCollision (es ! slot shift hn m)"
  shows "find_target (hash2 shift hn) (probe shift hn n) es = Some (slot shift hn m)"
  using \<open>n \<le> m\<close>
proof (induction "m - n" arbitrary: n)
  case 0
  then have "n = m" by simp
  then show ?case using assms slot_less [OF assms(1), of hn m] by (subst find_target.simps) (simp add: rd_def slot_def)
next
  case (Suc d)
  then have "n < m" by simp
  then have "find_target (hash2 shift hn) (probe shift hn n) es = find_target (hash2 shift hn) (probe shift hn (Suc n)) es"
    using assms(2) assms(5) [of n] slot_less [OF assms(1), of hn n]
    by (subst find_target.simps) (simp add: rd_def slot_def flip: probe_Suc)
  then show ?case using Suc by simp
qed

lemma swap_step:
  assumes ok: "size_ok shift" and inv: "in_place_ok pol shift i es" and i: "i < length es"
    and pending: "isLive (es ! i)" "\<not> hasCollision (es ! i)" and m: "m < slots shift"
    and path: "\<And>n. n < m \<Longrightarrow> hasCollision (es ! slot shift (getKeyHash (es ! i)) n)"
    and target: "j = slot shift (getKeyHash (es ! i)) m" "\<not> hasCollision (es ! j)"
  obtains es' where "swap_entries i j es = Some es'" and "in_place_ok pol shift i (es'[j := setCollision (es' ! j)])"
    and "contents (es'[j := setCollision (es' ! j)]) = contents es" and "j < length es'"
    and "unmarked (es'[j := setCollision (es' ! j)]) < unmarked es"
proof -
  have len: "length es = slots shift" using inv by (simp add: in_place_ok_def)
  have j: "j < length es" using slot_less [OF ok] len target(1) by simp
  define f where "f = \<lparr>e_keyHash = e_keyHash (es ! j), e_mem = (if isLive (es ! j) then e_mem (es ! j) else None)\<rparr>"
  define es' where "es' = (if i = j then es else es[i := f, j := \<lparr>e_keyHash = e_keyHash (es ! i), e_mem = e_mem (es ! i)\<rparr>])"
  have same: "\<lparr>e_keyHash = e_keyHash (es ! i), e_mem = e_mem (es ! i)\<rparr> = es ! i" by simp
  have swap: "swap_entries i j es = Some es'" using i j by (simp add: swap_entries_def rd_def wr_def es'_def f_def)
  let ?es = "es'[j := setCollision (es' ! j)]"
  have f: "isLive f \<longleftrightarrow> isLive (es ! j)" "\<not> hasCollision f" "entry_ok pol f" "\<not> isRemoved f" "content f = content (es ! j)"
    "getKeyHash f = getKeyHash (es ! j)"
    using target(2) inv j by (auto simp: f_def isLive_def hasCollision_def entry_ok_def getKeyHash_def isRemoved_def in_place_ok_def content_def)
  have es: "?es = (if i = j then es[j := setCollision (es ! i)] else es[i := f, j := setCollision (es ! i)])"
    using i j by (simp add: es'_def same)
  have nth: "?es ! k = (if k = j then setCollision (es ! i) else if k = i then f else es ! k)" if "k < length es" for k
    using that i j by (auto simp: es nth_list_update)
  have lenE: "length ?es = length es" by (simp add: es'_def)
  have bits: "hasCollision (?es ! k)" if "hasCollision (es ! k)" for k
  proof -
    have "k \<noteq> i" "k \<noteq> j" using that pending(2) target(2) by auto
    then show ?thesis using that by (simp add: es)
  qed
  have "in_place_ok pol shift i ?es" unfolding in_place_ok_def
  proof (intro conjI ballI allI impI; (elim conjE)?)
    show "length ?es = slots shift" using len lenE by simp
    show "entry_ok pol e" "hasCollision e \<Longrightarrow> isLive e" "\<not> isRemoved e" if "e \<in> set ?es" for e
    proof -
      obtain k where "k < length es" "e = ?es ! k" using \<open>e \<in> set ?es\<close> lenE by (metis in_set_conv_nth)
      then have "e = setCollision (es ! i) \<or> e = f \<or> e \<in> set es" using nth by auto
      moreover have "\<not> isRemoved (setCollision (es ! i))" using pending(1) isFree_not(4) isLive_simps(1) by blast
      ultimately show "entry_ok pol e" "hasCollision e \<Longrightarrow> isLive e" "\<not> isRemoved e"
        using f inv i pending(1) by (auto simp: in_place_ok_def entry_ok_def)
    qed
    fix k assume k: "k < length ?es" "hasCollision (?es ! k)"
    have "reach shift (getKeyHash (?es ! k)) k es"
    proof (cases "k = j")
      case True
      then have "getKeyHash (?es ! k) = getKeyHash (es ! i)" using nth [of j] j by simp
      then show ?thesis using True m path target(1) by (auto simp: reach_def)
    next
      case False
      then have "?es ! k = es ! k" using nth [of k] k f(2) lenE by (auto split: if_splits)
      then show ?thesis using k inv lenE by (simp add: in_place_ok_def)
    qed
    then show "reach shift (getKeyHash (?es ! k)) k ?es" by (rule reach_mono) (rule bits)
  next
    fix k assume k: "k < i" "k < length ?es" "isLive (?es ! k)"
    then show "hasCollision (?es ! k)"
      using nth [of k] inv lenE by (auto simp: in_place_ok_def split: if_splits)
  qed
  moreover have "contents ?es = contents es"
  proof (cases "i = j")
    case True
    then show ?thesis unfolding es by (simp add: contents_update_same)
  next
    case False
    have "contents (es[i := f]) + content (es ! i) = contents es + content f" using i by (rule contents_update)
    moreover have "contents (es[i := f, j := setCollision (es ! i)]) + content (es ! j) = contents (es[i := f]) + content (es ! i)"
      using contents_update [of j "es[i := f]" "setCollision (es ! i)"] j False by simp
    ultimately show ?thesis unfolding es using False f(5) by simp
  qed
  moreover have "unmarked ?es < unmarked es"
  proof (cases "i = j")
    case True
    then show ?thesis unfolding es using unmarked_update [OF j target(2)] by simp
  next
    case False
    then have "unmarked (es[i := f, j := setCollision (es ! i)]) < unmarked (es[i := f])"
      using unmarked_update [of j "es[i := f]"] j target(2) by simp
    then show ?thesis unfolding es using unmarked_update_same [of f es i] f(2) pending(2) False by simp
  qed
  ultimately show thesis using that swap j by (simp add: es'_def)
qed

lemma in_place_loop_ok:
  assumes ok: "size_ok shift" and "in_place_ok pol shift i es"
  obtains es' where "in_place_loop shift (slots shift) i es = Some es'" and "entries_ok pol shift es'"
    and "contents es' = contents es" and "removed_entries es' = 0"
  using assms(2)
proof (induction "unmarked es * Suc (slots shift) + (slots shift - i)" arbitrary: i es thesis rule: less_induct)
  case less
  note inv = less.prems(2)
  have len: "length es = slots shift" using inv by (simp add: in_place_ok_def)
  consider (finished) "slots shift \<le> i" | (skip) "i < slots shift" "\<not> isLive (es ! i) \<or> hasCollision (es ! i)"
    | (pending) "i < slots shift" "isLive (es ! i)" "\<not> hasCollision (es ! i)" by linarith
  then show ?case
  proof cases
    case finished
    have "entries_ok pol shift es" using inv finished by (auto simp: in_place_ok_def entries_ok_def)
    moreover have "removed_entries es = 0" using inv by (simp add: in_place_ok_def filter_empty_conv)
    ultimately show ?thesis using less.prems(1) finished by (subst (asm) in_place_loop.simps) simp
  next
    case skip
    have "in_place_ok pol shift (i + 1) es" using inv skip by (auto simp: in_place_ok_def less_Suc_eq)
    moreover have "unmarked es * Suc (slots shift) + (slots shift - (i + 1)) < unmarked es * Suc (slots shift) + (slots shift - i)"
      using skip(1) by simp
    ultimately obtain es' where "in_place_loop shift (slots shift) (i + 1) es = Some es'" "entries_ok pol shift es'"
        "contents es' = contents es" "removed_entries es' = 0"
      using less.hyps by blast
    moreover have "in_place_loop shift (slots shift) i es = in_place_loop shift (slots shift) (i + 1) es"
      using skip len by (subst in_place_loop.simps) (simp add: rd_def)
    ultimately show ?thesis using less.prems(1) by simp
  next
    case pending
    let ?hn = "getKeyHash (es ! i)"
    obtain m where m: "m < slots shift" "\<not> hasCollision (es ! slot shift ?hn m)"
        "\<And>n. n < m \<Longrightarrow> hasCollision (es ! slot shift ?hn n)"
      using first_slot [OF ok pending(1), of "\<lambda>i. \<not> hasCollision (es ! i)" ?hn] pending(3) by auto
    have i: "i < length es" using pending(1) len by simp
    obtain es' where es': "swap_entries i (slot shift ?hn m) es = Some es'" "slot shift ?hn m < length es'"
        "in_place_ok pol shift i (es'[slot shift ?hn m := setCollision (es' ! slot shift ?hn m)])"
        "contents (es'[slot shift ?hn m := setCollision (es' ! slot shift ?hn m)]) = contents es"
        "unmarked (es'[slot shift ?hn m := setCollision (es' ! slot shift ?hn m)]) < unmarked es"
      by (rule swap_step [OF ok inv i pending(2,3) m(1) m(3) refl m(2)]) blast+
    let ?es = "es'[slot shift ?hn m := setCollision (es' ! slot shift ?hn m)]"
    have "Suc (unmarked ?es) * Suc (slots shift) \<le> unmarked es * Suc (slots shift)" using es'(5) by (intro mult_right_mono) auto
    then have "unmarked ?es * Suc (slots shift) + (slots shift - i) < unmarked es * Suc (slots shift) + (slots shift - i)" by simp
    then obtain es'' where es'': "in_place_loop shift (slots shift) i ?es = Some es''" "entries_ok pol shift es''"
        "contents es'' = contents ?es" "removed_entries es'' = 0"
      using less.hyps [of ?es i] es'(3) by blast
    have "find_target (hash2 shift ?hn) (probe shift ?hn 0) es = Some (slot shift ?hn m)"
      by (rule find_target_finds [OF ok len m(1)]) (use m in auto)
    then have "in_place_loop shift (slots shift) i es = in_place_loop shift (slots shift) i ?es"
      using pending i es'(1,2) by (subst in_place_loop.simps) (simp add: rd_def wr_def Let_def)
    then show ?thesis using less.prems(1) es'' es'(4) by simp
  qed
qed


lemma rehashTableInPlace_ok:
  assumes wf: "table_wf pol t"
  obtains t' where "rehashTableInPlace t = Some t'" and "table_wf pol t'" and "elements t' = elements t" and "removedCount t' = 0"
    and "hash_shift t' = hash_shift t"
proof -
  note wfs = table_wfD [OF wf]
  let ?es = "map unsetCollision (entry_table t)"
  have "in_place_ok pol (hash_shift t) 0 ?es"
    using wfs(2,3) by (auto simp: in_place_ok_def entry_ok_def in_set_conv_nth)
  then obtain es' where es': "in_place_loop (hash_shift t) (slots (hash_shift t)) 0 ?es = Some es'" "entries_ok pol (hash_shift t) es'"
      "contents es' = contents ?es" "removed_entries es' = 0"
    using in_place_loop_ok [OF wfs(1)] by blast
  have "contents ?es = elements t" by (rule contents_cong) simp_all
  then show thesis
    using that [of "t\<lparr>removedCount := 0, entry_table := es'\<rparr>"] es' wf
    by (simp add: rehashTableInPlace_def capacity_slots table_wf_def)
qed

section \<open>The load\<close>

lemma quarter:
  assumes "size_ok shift"
  obtains q where "slots shift = 4 * q" and "0 < q" and "slots shift \<noteq> 4 \<Longrightarrow> even q"
proof -
  have "32 - shift = 2 + (30 - shift)" using assms by arith
  then have four: "slots shift = 4 * 2 ^ (30 - shift)" by (simp only: power_add) simp
  then have "slots shift \<noteq> 4 \<Longrightarrow> even ((2 :: nat) ^ (30 - shift))" by (cases "30 - shift") simp_all
  then show thesis using that [OF four] by simp
qed

lemma elements_same: "table_wf pol t \<Longrightarrow> table_wf pol t' \<Longrightarrow> elements t' = elements t \<Longrightarrow> entryCount t' = entryCount t"
  by (simp add: table_wf_def)

lemma checkOverloaded_ok:
  assumes wf: "table_wf pol t" and few: "entryCount t \<le> HashTable_capacity t * 3 div 4"
  obtains status t' where "checkOverloaded ap t = Some (status, t')"
    and "status = RehashFailed \<and> t' = t \<and> (pod_calloc_ok ap \<longrightarrow> HashTable_capacity t = 2 ^ 30) \<or> status = NotOverloaded \<and> t' = t \<and> \<not> is_overloaded t \<or>
      status = Rehashed \<and> pod_calloc_ok ap \<and> table_wf pol t' \<and> elements t' = elements t \<and> removedCount t' = 0 \<and> load_ok t' \<and>
        (load_ok t \<longrightarrow> \<not> is_overloaded t')"
proof (cases "is_overloaded t")
  case False
  then show thesis using that by (simp add: checkOverloaded_def)
next
  case True
  note wfs = table_wfD [OF wf]
  let ?delta = "if shouldCompressTable t then 0 else 1 :: int"
  obtain q where q: "slots (hash_shift t) = 4 * q" "0 < q" using quarter [OF wfs(1)] by blast
  have log2: "2 \<le> int (32 - hash_shift t) + ?delta" using wfs(1) by auto
  have "entryCount t < 4 * q" using few q unfolding capacity_slots by simp
  have pow: "2 ^ nat (int (32 - hash_shift t) + ?delta) = (if shouldCompressTable t then 4 * q else 8 * q)"
    using q(1) by (simp add: nat_add_distrib)
  then have "size (elements t) < 2 ^ nat (int (32 - hash_shift t) + ?delta)" using \<open>entryCount t < 4 * q\<close> wfs(4) by simp
  from changeTableSize_ok [OF wf refl log2 this] obtain status t' where change: "changeTableSize ap ?delta t = Some (status, t')"
      and res: "status = RehashFailed \<and> t' = t \<and> (pod_calloc_ok ap \<longrightarrow> 30 < nat (int (32 - hash_shift t) + ?delta)) \<or> status = Rehashed \<and> pod_calloc_ok ap \<and> table_wf pol t' \<and>
        elements t' = elements t \<and> removedCount t' = 0 \<and> HashTable_capacity t' = 2 ^ nat (int (32 - hash_shift t) + ?delta)"
    by blast
  have load: "load_ok t' \<and> (load_ok t \<longrightarrow> \<not> is_overloaded t')" if "status = Rehashed"
  proof -
    have t': "entryCount t' = entryCount t" "removedCount t' = 0" "HashTable_capacity t' = (if shouldCompressTable t then 4 * q else 8 * q)"
      using that res elements_same [OF wf] pow by auto
    have "load_ok t \<Longrightarrow> shouldCompressTable t \<Longrightarrow> entryCount t \<le> 2 * q"
      using q(1) by (simp add: load_ok_def shouldCompressTable_def capacity_slots)
    then show ?thesis
      using few t' q by (auto simp: load_ok_def is_overloaded_def sMaxAlphaNumerator_def sAlphaDenominator_def capacity_slots)
  qed
  have "HashTable_capacity t = 2 ^ 30" if "30 < nat (int (32 - hash_shift t) + ?delta)"
  proof -
    have "32 - hash_shift t = 30" using that wfs(1) by (simp split: if_splits)
    then show ?thesis by (simp only: capacity_slots)
  qed
  then show thesis using that [of status t'] change res load True by (auto simp: checkOverloaded_def)
qed

lemma checkOverRemoved_ok:
  assumes wf: "table_wf pol t" and few: "entryCount t \<le> HashTable_capacity t * 3 div 4"
  obtains t' where "checkOverRemoved ap t = Some t'" and "table_ok pol t'" and "elements t' = elements t"
proof (cases "is_overloaded t")
  case False
  then show thesis
    using that [of t] wf by (simp add: checkOverRemoved_def load_ok_def is_overloaded_def sMaxAlphaNumerator_def sAlphaDenominator_def)
next
  case True
  obtain status t' where check: "checkOverloaded ap t = Some (status, t')"
      and res: "status = RehashFailed \<and> t' = t \<and> (pod_calloc_ok ap \<longrightarrow> HashTable_capacity t = 2 ^ 30) \<or> status = NotOverloaded \<and> t' = t \<and> \<not> is_overloaded t \<or>
      status = Rehashed \<and> pod_calloc_ok ap \<and> table_wf pol t' \<and> elements t' = elements t \<and> removedCount t' = 0 \<and> load_ok t' \<and>
        (load_ok t \<longrightarrow> \<not> is_overloaded t')"
    using checkOverloaded_ok [OF wf few] by blast
  obtain t'' where place: "rehashTableInPlace t = Some t''" "table_wf pol t''" "elements t'' = elements t" "removedCount t'' = 0"
      "hash_shift t'' = hash_shift t"
    using rehashTableInPlace_ok [OF wf] by blast
  have "load_ok t''" using place elements_same [OF wf place(2,3)] few by (simp add: load_ok_def capacity_slots)
  then show thesis using that [of "if status = RehashFailed then t'' else t'"] check res place True by (auto simp: checkOverRemoved_def)
qed

lemma checkUnderloaded_ok:
  assumes ok: "table_ok pol t"
  obtains t' where "checkUnderloaded ap t = Some t'" and "table_ok pol t'" and "elements t' = elements t"
proof (cases "is_underloaded t")
  case False
  then show thesis using that [of t] ok by (simp add: checkUnderloaded_def)
next
  case True
  note wfs = table_wfD [OF ok [THEN conjunct1]]
  obtain q where q: "slots (hash_shift t) = 4 * q" "0 < q" "slots (hash_shift t) \<noteq> 4 \<Longrightarrow> even q" using quarter [OF wfs(1)] by blast
  have more: "slots (hash_shift t) \<noteq> 4" "entryCount t \<le> q"
    using True q(1) by (auto simp: is_underloaded_def wouldBeUnderloaded_def capacity_slots sMinCapacity_def sMinCapacityLog2_def
        sMinAlphaNumerator_def sAlphaDenominator_def)
  have "32 - hash_shift t \<noteq> 2" using more(1) by auto
  then have log2: "2 \<le> int (32 - hash_shift t) + - 1" using wfs(1) by auto
  have "slots (hash_shift t) = 2 * 2 ^ nat (int (32 - hash_shift t) + - 1)"
  proof -
    have "nat (int (32 - hash_shift t) + - 1) = 31 - hash_shift t" by arith
    moreover have "32 - hash_shift t = Suc (31 - hash_shift t)" using wfs(1) by arith
    ultimately show ?thesis by (simp only: power_Suc)
  qed
  then have half: "2 ^ nat (int (32 - hash_shift t) + - 1) = 2 * q" using q(1) by simp
  then have "size (elements t) < 2 ^ nat (int (32 - hash_shift t) + - 1)" using more(2) q(2) wfs(4) by simp
  from changeTableSize_ok [OF ok [THEN conjunct1] refl log2 this, of ap] obtain status t' where
      change: "changeTableSize ap (- 1) t = Some (status, t')"
      and res: "status = RehashFailed \<and> t' = t \<and> (pod_calloc_ok ap \<longrightarrow> 30 < nat (int (32 - hash_shift t) + - 1)) \<or> status = Rehashed \<and> pod_calloc_ok ap \<and> table_wf pol t' \<and>
        elements t' = elements t \<and> removedCount t' = 0 \<and> HashTable_capacity t' = 2 ^ nat (int (32 - hash_shift t) + - 1)"
    by blast
  have "load_ok t'" if "status = Rehashed"
    using that res elements_same [OF ok [THEN conjunct1]] more q(3) unfolding load_ok_def half by (auto elim!: evenE)
  then show thesis using that [of t'] change res ok True by (auto simp: checkUnderloaded_def)
qed

end
