(* ===== verification/HashTableOps.thy ===== *)
theory HashTableOps
  imports HashTableCorrect
begin

text \<open>
  The operations of the hash table for any policy that obeys two laws: what the table promises to \<open>HashMap\<close> and
  \<open>HashSet\<close>.
\<close>

section \<open>Shrinking after an enumeration\<close>

lemma compact_log2_bounds:
  assumes "2 \<le> n"
  obtains k where "compact_log2 e (2 ^ n) r = r - int k" and "k \<le> n - 2" and "0 < k \<longrightarrow> e \<le> 2 ^ (n - k) div 2"
  using assms
proof (induction n arbitrary: r thesis)
  case (Suc n)
  show ?case
  proof (cases "wouldBeUnderloaded (2 ^ Suc n) e")
    case False
    then show ?thesis using Suc.prems(1) [of 0] by (simp del: power_Suc add: compact_log2.simps [of e "2 ^ Suc n"])
  next
    case True
    then have under: "4 < (2 :: nat) ^ Suc n" "e \<le> 2 ^ Suc n div 4"
      by (auto simp: wouldBeUnderloaded_def sMinCapacity_def sMinCapacityLog2_def sMinAlphaNumerator_def sAlphaDenominator_def)
    have "Suc n \<noteq> 2" using under(1) by auto
    then have n: "2 \<le> n" using Suc.prems(2) by simp
    obtain k where k: "compact_log2 e (2 ^ n) (r - 1) = r - 1 - int k" "k \<le> n - 2" "0 < k \<longrightarrow> e \<le> 2 ^ (n - k) div 2"
      using Suc.IH n by blast
    have "compact_log2 e (2 ^ Suc n) r = r - int (Suc k)"
      using True k(1) by (subst compact_log2.simps) simp
    moreover have "e \<le> 2 ^ (Suc n - Suc k) div 2" using k(3) under(2) by (cases k) simp_all
    ultimately show ?thesis using Suc.prems(1) [of "Suc k"] k(2) n by simp
  qed
qed simp

lemma compactIfUnderloaded_ok:
  assumes ok: "table_ok pol t"
  obtains t' where "compactIfUnderloaded ap t = Some t'" and "table_ok pol t'" and "elements t' = elements t"
proof -
  note wf = ok [THEN conjunct1]
  note wfs = table_wfD [OF wf]
  let ?n = "32 - hash_shift t" and ?r = "compact_log2 (entryCount t) (HashTable_capacity t) 0"
  have "2 \<le> ?n" using wfs(1) by arith
  then obtain k where "?r = 0 - int k" and k: "k \<le> ?n - 2" "0 < k \<longrightarrow> entryCount t \<le> 2 ^ (?n - k) div 2"
    unfolding capacity_slots using compact_log2_bounds by blast
  then have r: "?r = - int k" by simp
  show thesis
  proof (cases "k = 0")
    case True
    then show thesis using that [of t] ok r by (simp add: compactIfUnderloaded_def)
  next
    case False
    have log2: "2 \<le> int ?n + - int k" "nat (int ?n + - int k) = ?n - k" using k(1) \<open>2 \<le> ?n\<close> by arith+
    have "entryCount t < 2 ^ (?n - k)"
      using k(2) False by (metis div_less_dividend gr0I le_less_trans one_less_numeral_iff semiring_norm(76) zero_less_numeral zero_less_power)
    then have "size (elements t) < 2 ^ nat (int ?n + - int k)" unfolding log2(2) using wfs(4) by simp
    from changeTableSize_ok [OF wf refl log2(1) this, of ap] obtain status t' where
        change: "changeTableSize ap (- int k) t = Some (status, t')"
        and res: "status = RehashFailed \<and> t' = t \<and> (pod_calloc_ok ap \<longrightarrow> 30 < nat (int ?n + - int k)) \<or> status = Rehashed \<and> pod_calloc_ok ap \<and> table_wf pol t' \<and>
          elements t' = elements t \<and> removedCount t' = 0 \<and> HashTable_capacity t' = 2 ^ nat (int ?n + - int k)"
      by blast
    have "load_ok t'" if "status = Rehashed"
    proof -
      have "entryCount t' = entryCount t" "removedCount t' = 0" "HashTable_capacity t' = 2 ^ (?n - k)"
        using that res elements_same [OF wf] log2(2) by auto
      then show ?thesis using k(2) False by (simp add: load_ok_def)
    qed
    then show thesis using that [of t'] change res ok r False by (auto simp: compactIfUnderloaded_def)
  qed
qed

section \<open>Lookups\<close>

lemma table_ok_free:
  assumes "table_ok pol t"
  obtains i where "i < length (entry_table t)" and "isFree (entry_table t ! i)"
proof -
  note wfs = table_wfD [OF assms [THEN conjunct1]]
  obtain q where "slots (hash_shift t) = 4 * q" "0 < q" using quarter [OF wfs(1)] by blast
  then have "size (elements t) + removed_entries (entry_table t) < length (entry_table t)"
    using assms wfs by (simp add: load_ok_def capacity_slots)
  then show thesis using free_entry that by blast
qed

definition found_at :: "('l, 'k, 't) table_policy \<Rightarrow> 'l \<Rightarrow> 't HashTable \<Rightarrow> nat \<Rightarrow> 't \<Rightarrow> bool" where
  "found_at pol l t p x \<longleftrightarrow>
     p < length (entry_table t) \<and> isLive (entry_table t ! p) \<and> e_mem (entry_table t ! p) = Some x \<and>
     policy_match pol (policy_getKey pol x) l"

lemma found_at_element: "found_at pol l t p x \<Longrightarrow> x \<in># elements t"
  unfolding found_at_def by (rule iffD2 [OF contents_in]) (metis option.sel)

lemma lookup_entry_ok:
  assumes ok: "table_ok pol t"
  obtains t' p where "lookup_entry pol l (HashTable_prepareHash pol l) collision t = Some (t', p)"
    and "table_ok pol t'" and "elements t' = elements t" and "entryCount t' = entryCount t" and "removedCount t' = removedCount t"
    and "hash_shift t' = hash_shift t" and "\<not> collision \<Longrightarrow> t' = t" and "p < length (entry_table t')"
    and "if Ptr_found t' p then \<exists>x. found_at pol l t' p x else matching pol l (elements t) = {#} \<and>
      (collision \<longrightarrow> reach (hash_shift t') (HashTable_prepareHash pol l) p (entry_table t'))"
proof -
  note wf = ok [THEN conjunct1]
  note wfs = table_wfD [OF wf]
  let ?hn = "HashTable_prepareHash pol l" and ?shift = "hash_shift t" and ?es = "entry_table t"
  have es: "entries_ok pol ?shift ?es" using wf by (simp add: table_wf_def)
  obtain i where free: "i < length ?es" "isFree (?es ! i)" using table_ok_free [OF ok] by blast
  obtain m where m: "m < slots ?shift" "\<And>j. j < m \<Longrightarrow> misses pol l ?hn (?es ! slot ?shift ?hn j)" "stops pol l ?hn (?es ! slot ?shift ?hn m)"
      "lookup_entry pol l ?hn collision t =
        Some (t\<lparr>entry_table := (if collision then mark ?shift ?hn m ?es else ?es)\<rparr>, hit_place ?shift ?hn m ?es)"
    by (rule lookup_entry_finds [where l = l and collision = collision and hn = ?hn, OF wfs(1) es free prepareHash_live(1)]) blast
  let ?es' = "if collision then mark ?shift ?hn m ?es else ?es" and ?p = "hit_place ?shift ?hn m ?es"
  let ?t = "t\<lparr>entry_table := ?es'\<rparr>"
  have marks: "contents ?es' = contents ?es" "removed_entries ?es' = removed_entries ?es" "entries_ok pol ?shift ?es'"
    using marked [of m ?es ?shift ?hn] m(2) entries_ok_mark [OF wfs(1) es] es by auto
  have found: "?p < length ?es" "if isLive (?es ! ?p) then \<exists>x. e_mem (?es ! ?p) = Some x \<and> policy_match pol (policy_getKey pol x) l
      else matching pol l (contents ?es) = {#} \<and> reach ?shift ?hn ?p (mark ?shift ?hn m ?es)"
    using hit_place_found [OF wfs(1) es m(1,2,3)] by blast+
  have entry: "isLive (?es' ! ?p) \<longleftrightarrow> isLive (?es ! ?p)" "e_mem (?es' ! ?p) = e_mem (?es ! ?p)" "length ?es' = length ?es"
    using found(1) by (auto simp: mark_nth)
  show thesis
  proof (rule that [OF m(4)])
    show "table_ok pol ?t" using ok marks by (simp add: table_wf_def load_ok_def capacity_slots)
    show "if Ptr_found ?t ?p then \<exists>x. found_at pol l ?t ?p x else matching pol l (elements t) = {#} \<and>
        (collision \<longrightarrow> reach (hash_shift ?t) ?hn ?p (entry_table ?t))"
      using found entry by (auto simp: Ptr_found_def found_at_def split: if_splits)
    show "elements ?t = elements t" using marks(1) by simp
    show "?p < length (entry_table ?t)" using found(1) entry(3) by simp
  qed simp_all
qed

lemma HashTable_lookup_ok:
  assumes "table_ok pol t"
  obtains p where "HashTable_lookup pol l t = Some p"
    and "if Ptr_found t p then \<exists>x. found_at pol l t p x else matching pol l (elements t) = {#}"
proof -
  obtain t' p where "lookup_entry pol l (HashTable_prepareHash pol l) False t = Some (t', p)" "\<not> False \<Longrightarrow> t' = t"
      "if Ptr_found t' p then \<exists>x. found_at pol l t' p x else matching pol l (elements t) = {#} \<and>
        (False \<longrightarrow> reach (hash_shift t') (HashTable_prepareHash pol l) p (entry_table t'))"
    using lookup_entry_ok [OF assms, of l False] by blast
  then show thesis using that [of p] by (simp add: HashTable_lookup_def split: if_splits)
qed

section \<open>Removing\<close>

lemma remove_live_ok:
  assumes wf: "table_wf pol t" and p: "p < length (entry_table t)" "isLive (entry_table t ! p)" "e_mem (entry_table t ! p) = Some x"
  obtains t' where "remove_entry p t = Some t'" and "table_wf pol t'" and "elements t = add_mset x (elements t')"
    and "entryCount t' + removedCount t' \<le> entryCount t + removedCount t" and "hash_shift t' = hash_shift t"
proof -
  note wfs = table_wfD [OF wf]
  let ?e = "entry_table t ! p"
  let ?f = "if hasCollision ?e then removeLive ?e else clearLive ?e"
  let ?t = "t\<lparr>entry_table := (entry_table t)[p := ?f], removedCount := removedCount t + of_bool (hasCollision ?e), entryCount := entryCount t - 1\<rparr>"
  have del: "entries_ok pol (hash_shift t) ((entry_table t)[p := ?f])" "elements t = add_mset x (contents ((entry_table t)[p := ?f]))"
    "removed_entries ((entry_table t)[p := ?f]) = removed_entries (entry_table t) + of_bool (isRemoved ?f)"
    using entries_ok_delete [OF wfs(1), of pol "entry_table t" p ?f] wf p by (auto simp: table_wf_def)
  have "unique_keys pol (contents ((entry_table t)[p := ?f]))"
    unfolding unique_keys_def
  proof
    fix l
    have "size (matching pol l (contents ((entry_table t)[p := ?f]))) \<le> size (matching pol l (elements t))"
      unfolding del(2) by (simp add: matching_def)
    then show "size (matching pol l (contents ((entry_table t)[p := ?f]))) \<le> 1"
      using wfs(6) unfolding unique_keys_def by (meson le_trans)
  qed
  then have "table_wf pol ?t" using del wf by (auto simp: table_wf_def)
  moreover have "remove_entry p t = Some ?t" using p by (simp add: remove_entry_def rd_def Let_def)
  moreover have "0 < entryCount t" using wfs(4) del(2) by simp
  ultimately show thesis using that [of ?t] del(2) by simp
qed

lemma remove_entry_ok:
  assumes "table_wf pol t" and "found_at pol l t p x"
  obtains t' where "remove_entry p t = Some t'" and "table_wf pol t'" and "elements t = add_mset x (elements t')"
    and "entryCount t' + removedCount t' \<le> entryCount t + removedCount t" and "hash_shift t' = hash_shift t"
  using remove_live_ok [OF assms(1)] assms(2) unfolding found_at_def by blast

lemma HashTable_remove_ok:
  assumes ok: "table_ok pol t" and p: "found_at pol l t p x"
  obtains t' where "HashTable_remove ap p t = Some t'" and "table_ok pol t'" and "elements t = add_mset x (elements t')"
proof -
  obtain t1 where t1: "remove_entry p t = Some t1" "table_wf pol t1" "elements t = add_mset x (elements t1)"
      "entryCount t1 + removedCount t1 \<le> entryCount t + removedCount t" "hash_shift t1 = hash_shift t"
    using remove_entry_ok [OF ok [THEN conjunct1] p] by blast
  then have "table_ok pol t1" using ok by (simp add: load_ok_def capacity_slots)
  then obtain t2 where "checkUnderloaded ap t1 = Some t2" "table_ok pol t2" "elements t2 = elements t1"
    using checkUnderloaded_ok by blast
  then show thesis using that [of t2] t1 by (simp add: HashTable_remove_def)
qed

text \<open>An element replaced by one with the same key.\<close>

lemma replace_element:
  assumes wf: "table_wf pol t" and p: "found_at pol l t p x" and key: "policy_getKey pol y = policy_getKey pol x"
  defines "t' \<equiv> t\<lparr>entry_table := (entry_table t)[p := (entry_table t ! p)\<lparr>e_mem := Some y\<rparr>]\<rparr>"
  shows "table_wf pol t' \<and> elements t' = add_mset y (elements t - {#x#}) \<and> found_at pol l t' p y"
proof -
  note wfs = table_wfD [OF wf]
  let ?e = "entry_table t ! p"
  let ?f = "?e\<lparr>e_mem := Some y\<rparr>" and ?es = "(entry_table t)[p := ?e\<lparr>e_mem := Some y\<rparr>]"
  have es: "entries_ok pol (hash_shift t) (entry_table t)" using wf by (simp add: table_wf_def)
  have pl: "p < length (entry_table t)" "isLive ?e" "e_mem ?e = Some x" using p by (simp_all add: found_at_def)
  have f: "isLive ?f" "getKeyHash ?f = getKeyHash ?e" "hasCollision ?f = hasCollision ?e" "isRemoved ?f = isRemoved ?e"
    using pl(2) by (simp_all add: isLive_def getKeyHash_def hasCollision_def isRemoved_def)
  have same: "hasCollision (entry_table t ! k) \<Longrightarrow> hasCollision (?es ! k)" for k
    using f(3) pl(1) by (cases "k = p") auto
  have "entries_ok pol (hash_shift t) ?es" unfolding entries_ok_def
  proof (intro conjI ballI allI impI)
    show "length ?es = slots (hash_shift t)" using wfs(2) by simp
    have "entry_ok pol ?f" using entry_ok_nth [OF es pl(1)] pl f key by (auto simp: entry_ok_def hashes_def)
    then show "entry_ok pol e" if "e \<in> set ?es" for e
      using that es by (auto simp: entries_ok_def dest!: subsetD [OF set_update_subset_insert])
    fix k assume k: "k < length ?es" "isLive (?es ! k)"
    have "reach (hash_shift t) (getKeyHash (?es ! k)) k (entry_table t)"
      using k es f pl by (cases "k = p") (auto simp: entries_ok_def)
    then show "reach (hash_shift t) (getKeyHash (?es ! k)) k ?es" by (rule reach_mono) (rule same)
  qed
  moreover have sum: "contents ?es + {#x#} = elements t + {#y#}"
    using contents_update [OF pl(1), of ?f] f(1) pl(2,3) by simp
  obtain N where N: "elements t = add_mset x N" using multi_member_split [OF found_at_element [OF p]] by blast
  then have el: "contents ?es = add_mset y N" using sum by simp
  moreover have "size (matching pol l (add_mset y N)) = size (matching pol l (elements t))" for l
    using key by (simp add: N matching_def)
  then have "unique_keys pol (add_mset y N)" using wfs(6) by (simp add: unique_keys_def)
  moreover have "removed_entries ?es = removed_entries (entry_table t)" using removed_update [OF pl(1), of ?f] f(4) by simp
  ultimately have "table_wf pol t'" using wf N unfolding t'_def table_wf_def by simp
  moreover have "found_at pol l t' p y" using p f(1) key by (simp add: t'_def found_at_def)
  ultimately show ?thesis using el N by (simp add: t'_def)
qed

section \<open>Adding\<close>

text \<open>
  The laws of a policy: the lookups a key matches have one hash code, and a lookup of a key is matched by the keys that
  match its other lookups.
\<close>

locale hash_table =
  fixes pol :: "('l, 'k, 't) table_policy"
  assumes hash_law: "policy_match pol k l \<Longrightarrow> policy_match pol k l' \<Longrightarrow> policy_hash pol l = policy_hash pol l'"
    and match_law: "policy_match pol k l \<Longrightarrow> policy_match pol k l' \<Longrightarrow> policy_match pol k' l' \<Longrightarrow> policy_match pol k' l"
begin

abbreviation has_key :: "'t \<Rightarrow> 'l \<Rightarrow> bool" where
  "has_key x l \<equiv> policy_match pol (policy_getKey pol x) l"

lemma hashes_lookup: "has_key x l \<Longrightarrow> hashes pol x (HashTable_prepareHash pol l)"
  unfolding hashes_def HashTable_prepareHash_def using hash_law by metis

lemma unique_keys_add:
  assumes "unique_keys pol M" and "matching pol l M = {#}" and "has_key x l"
  shows "unique_keys pol (add_mset x M)"
  unfolding unique_keys_def
proof
  fix l'
  show "size (matching pol l' (add_mset x M)) \<le> 1"
  proof (cases "has_key x l'")
    case True
    have "\<not> has_key y l'" if "y \<in># M" for y
      using match_law [OF assms(3) True, of "policy_getKey pol y"] assms(2) that by (auto simp: matching_def)
    then have "matching pol l' M = {#}" by (simp add: matching_def)
    moreover have "matching pol l' (add_mset x M) = add_mset x (matching pol l' M)" using True by (simp add: matching_def)
    ultimately show ?thesis by simp
  next
    case False
    then show ?thesis using assms(1) by (simp add: matching_def unique_keys_def)
  qed
qed

text \<open>An element written at a dead entry its probe sequence reaches.\<close>

lemma write_element:
  assumes wf: "table_wf pol t" and p: "p < length (entry_table t)" "\<not> isLive (entry_table t ! p)"
    and reach: "reach (hash_shift t) (HashTable_prepareHash pol l) p (entry_table t)" and x: "has_key x l"
    and none: "matching pol l (elements t) = {#}"
    and w: "w = (if isRemoved (entry_table t ! p) then HashTable_prepareHash pol l OR sCollisionBit else HashTable_prepareHash pol l)"
  defines "t' \<equiv> t\<lparr>entry_table := (entry_table t)[p := setLive w x (entry_table t ! p)], entryCount := entryCount t + 1,
    removedCount := removedCount t - of_bool (isRemoved (entry_table t ! p))\<rparr>"
  shows "table_wf pol t' \<and> elements t' = add_mset x (elements t) \<and> isLiveHash w"
proof -
  note wfs = table_wfD [OF wf]
  let ?hn = "HashTable_prepareHash pol l"
  have w2: "isLiveHash w" "sans_bit w = ?hn"
    using prepareHash_live [of pol l] by (auto simp: w hash_defs isLiveHash_def sRemovedKey_def live_hash)
  have bit: "bit w 0" if "hasCollision (entry_table t ! p)"
    using that p(2) dead_cases isFree_not(3) by (auto simp: w hash_defs)
  have es: "entries_ok pol (hash_shift t) (entry_table t)" using wf by (simp add: table_wf_def)
  note ins = entries_ok_insert [OF wfs(1) es p w2 bit reach hashes_lookup [OF x], of "entry_table t ! p"]
  then show ?thesis
    using wf wfs(4,5) unique_keys_add [OF wfs(6) none x] w2(1) unfolding t'_def table_wf_def by auto
qed

lemma Ptr_found_write: "p < length (entry_table t) \<Longrightarrow> isLiveHash w \<Longrightarrow> has_key x l \<Longrightarrow>
    found_at pol l (t\<lparr>entry_table := (entry_table t)[p := setLive w x e], entryCount := n, removedCount := r\<rparr>) p x"
  by (simp add: found_at_def)

lemma putNewInfallibleInternal_ok:
  assumes wf: "table_wf pol t" and room: "size (elements t) < length (entry_table t)" and x: "has_key x l"
    and none: "matching pol l (elements t) = {#}"
  obtains t' where "putNewInfallibleInternal pol l x t = Some t'" and "table_wf pol t'" and "elements t' = add_mset x (elements t)"
    and "entryCount t' + removedCount t' \<le> entryCount t + removedCount t + 1" and "hash_shift t' = hash_shift t"
proof -
  note wfs = table_wfD [OF wf]
  let ?hn = "HashTable_prepareHash pol l"
  have es: "entries_ok pol (hash_shift t) (entry_table t)" using wf by (simp add: table_wf_def)
  obtain i es where find: "findFreeEntry (hash_shift t) ?hn (entry_table t) = Some (es, i)" and es': "entries_ok pol (hash_shift t) es"
      "contents es = elements t" "removed_entries es = removed_entries (entry_table t)" "i < length es" "\<not> isLive (es ! i)"
      "reach (hash_shift t) ?hn i es"
    using findFreeEntry_ok [OF wfs(1) es room] by blast
  have wf1: "table_wf pol (t\<lparr>entry_table := es\<rparr>)" using wf es' by (simp add: table_wf_def)
  let ?w = "if isRemoved (es ! i) then ?hn OR sCollisionBit else ?hn"
  let ?t = "t\<lparr>entry_table := es[i := setLive ?w x (es ! i)], entryCount := entryCount t + 1,
    removedCount := removedCount t - of_bool (isRemoved (es ! i))\<rparr>"
  have "table_wf pol ?t" "elements ?t = add_mset x (elements t)"
    using write_element [OF wf1, of i l x ?w] es' x none by simp_all
  moreover have "putNewInfallibleInternal pol l x t = Some ?t"
    using find es'(4) by (simp add: putNewInfallibleInternal_def rd_def Let_def)
  ultimately show thesis using that [of ?t] by simp
qed

text \<open>\<open>lookupForAdd\<close> gives the entry of the element, or a place for one.\<close>

definition addable :: "'l \<Rightarrow> AddPtr \<Rightarrow> 't HashTable \<Rightarrow> bool" where
  "addable l p t \<longleftrightarrow>
     ptr_keyHash p = HashTable_prepareHash pol l \<and> ptr_entry p < length (entry_table t) \<and>
     (if Ptr_found t (ptr_entry p) then \<exists>x. found_at pol l t (ptr_entry p) x
      else matching pol l (elements t) = {#} \<and> reach (hash_shift t) (HashTable_prepareHash pol l) (ptr_entry p) (entry_table t))"

lemma lookupForAdd_ok:
  assumes ok: "table_ok pol t"
  obtains p t' where "lookupForAdd pol l t = Some (p, t')" and "table_ok pol t'" and "elements t' = elements t" and "addable l p t'"
    and "HashTable_capacity t' = HashTable_capacity t"
proof -
  obtain t' i where "lookup_entry pol l (HashTable_prepareHash pol l) True t = Some (t', i)" "table_ok pol t'" "elements t' = elements t"
      "hash_shift t' = hash_shift t" "i < length (entry_table t')"
      "if Ptr_found t' i then \<exists>x. found_at pol l t' i x else matching pol l (elements t) = {#} \<and>
        (True \<longrightarrow> reach (hash_shift t') (HashTable_prepareHash pol l) i (entry_table t'))"
    by (rule lookup_entry_ok [OF ok, where l = l and collision = True]) blast
  then show thesis
    using that [of "\<lparr>ptr_entry = i, ptr_keyHash = HashTable_prepareHash pol l\<rparr>" t']
    by (simp add: lookupForAdd_def addable_def capacity_slots split: if_splits)
qed

text \<open>Adding fails only when there is no memory, or the table would become too large, and then changes nothing.\<close>

lemma HashTable_add_ok:
  assumes ok: "table_ok pol t" and p: "addable l p t" "\<not> Ptr_found t (ptr_entry p)" and x: "has_key x l"
  obtains added p' t' where "HashTable_add ap p x t = Some (added, p', t')" and "table_ok pol t'"
    and "if added then elements t' = add_mset x (elements t) \<and> found_at pol l t' (ptr_entry p') x else t' = t \<and> p' = p \<and>
      (pod_calloc_ok ap \<and> simulated_ok ap \<longrightarrow> HashTable_capacity t = 2 ^ 30)"
proof -
  note wf = ok [THEN conjunct1]
  note wfs = table_wfD [OF wf]
  let ?hn = "HashTable_prepareHash pol l" and ?i = "ptr_entry p"
  let ?e = "entry_table t ! ?i"
  have i: "?i < length (entry_table t)" "\<not> isLive ?e" and hn: "ptr_keyHash p = ?hn" and none: "matching pol l (elements t) = {#}"
      and reach: "reach (hash_shift t) ?hn ?i (entry_table t)"
    using p by (auto simp: addable_def Ptr_found_def)
  show thesis
  proof (cases "isRemoved ?e")
    case removed: True
    show thesis
    proof (cases "simulated_ok ap")
      case False
      then show thesis using that [of False p t] ok removed i(1) by (simp add: HashTable_add_def rd_def)
    next
      case True
      let ?t = "t\<lparr>entry_table := (entry_table t)[?i := setLive (?hn OR sCollisionBit) x ?e], entryCount := entryCount t + 1,
        removedCount := removedCount t - 1\<rparr>"
      have w: "table_wf pol ?t" "elements ?t = add_mset x (elements t)" "isLiveHash (?hn OR sCollisionBit)"
        using write_element [OF wf i reach x none, of "?hn OR sCollisionBit"] removed by simp_all
      have "?e \<in> set (filter isRemoved (entry_table t))" using removed i(1) by simp
      then have "0 < removedCount t" unfolding wfs(5) by (metis length_pos_if_in_set)
      then have "table_ok pol ?t" using w(1) ok by (simp add: load_ok_def capacity_slots)
      moreover have "HashTable_add ap p x t = Some (True, p\<lparr>ptr_keyHash := ?hn OR sCollisionBit\<rparr>, ?t)"
        using removed True i(1) hn by (simp add: HashTable_add_def rd_def Let_def)
      moreover have "found_at pol l ?t ?i x" by (rule Ptr_found_write [OF i(1) w(3) x])
      ultimately show thesis using that [of True "p\<lparr>ptr_keyHash := ?hn OR sCollisionBit\<rparr>" ?t] w(2) by simp
    qed
  next
    case False
    have few: "entryCount t \<le> HashTable_capacity t * 3 div 4" using ok by (simp add: load_ok_def)
    obtain status t1 where check: "checkOverloaded ap t = Some (status, t1)"
        and res: "status = RehashFailed \<and> t1 = t \<and> (pod_calloc_ok ap \<longrightarrow> HashTable_capacity t = 2 ^ 30) \<or> status = NotOverloaded \<and> t1 = t \<and> \<not> is_overloaded t \<or>
        status = Rehashed \<and> pod_calloc_ok ap \<and> table_wf pol t1 \<and> elements t1 = elements t \<and> removedCount t1 = 0 \<and> load_ok t1 \<and>
          (load_ok t \<longrightarrow> \<not> is_overloaded t1)"
      using checkOverloaded_ok [OF wf few, of ap] by blast
    have room: "load_ok t'" if "\<not> is_overloaded t0" "entryCount t' = entryCount t0 + 1" "removedCount t' = removedCount t0"
        "hash_shift t' = hash_shift t0" for t0 t' :: "'t HashTable"
      using that by (simp add: is_overloaded_def load_ok_def capacity_slots sMaxAlphaNumerator_def sAlphaDenominator_def)
    consider "status = RehashFailed \<or> status = NotOverloaded \<and> \<not> simulated_ok ap"
      | (fits) "status = NotOverloaded" "t1 = t" "\<not> is_overloaded t" "simulated_ok ap" | (moved) "status = Rehashed"
      using res by blast
    then show thesis
    proof cases
      case 1
      then have "t1 = t" "pod_calloc_ok ap \<and> simulated_ok ap \<longrightarrow> HashTable_capacity t = 2 ^ 30" using res by blast+
      then show thesis using that [of False p t] ok 1 False i(1) check by (auto simp: HashTable_add_def rd_def)
    next
      case fits
      let ?t = "t\<lparr>entry_table := (entry_table t)[?i := setLive ?hn x ?e], entryCount := entryCount t + 1, removedCount := removedCount t\<rparr>"
      have w: "table_wf pol ?t" "elements ?t = add_mset x (elements t)" "isLiveHash ?hn"
        using write_element [OF wf i reach x none, of ?hn] False by simp_all
      have "table_ok pol ?t" using w(1) room [OF fits(3), of ?t] by simp
      moreover have "HashTable_add ap p x t = Some (True, p, ?t)"
        using False fits i(1) hn check by (simp add: HashTable_add_def rd_def Let_def)
      moreover have "found_at pol l ?t ?i x" by (rule Ptr_found_write [OF i(1) w(3) x])
      ultimately show thesis using that [of True p ?t] w(2) by simp
    next
      case moved
      then have t1: "table_wf pol t1" "elements t1 = elements t" "removedCount t1 = 0" "\<not> is_overloaded t1"
        using res ok by auto
      note wfs1 = table_wfD [OF t1(1)]
      have es1: "entries_ok pol (hash_shift t1) (entry_table t1)" using t1(1) by (simp add: table_wf_def)
      have "size (elements t1) < length (entry_table t1)"
        using t1(4) wfs1(2,4) by (simp add: is_overloaded_def capacity_slots sMaxAlphaNumerator_def sAlphaDenominator_def)
      then obtain j es where find: "findFreeEntry (hash_shift t1) ?hn (entry_table t1) = Some (es, j)"
          and es: "entries_ok pol (hash_shift t1) es" "contents es = elements t1" "removed_entries es = removed_entries (entry_table t1)"
            "j < length es" "\<not> isLive (es ! j)" "reach (hash_shift t1) ?hn j es"
        using findFreeEntry_ok [OF wfs1(1) es1] by blast
      have "removed_entries es = 0" using es(3) t1(3) wfs1(5) by simp
      then have nr: "\<not> isRemoved (es ! j)" using es(4) by (metis filter_empty_conv length_0_conv nth_mem)
      let ?t1 = "t1\<lparr>entry_table := es\<rparr>"
      let ?t = "t1\<lparr>entry_table := es[j := setLive ?hn x (es ! j)], entryCount := entryCount t1 + 1, removedCount := removedCount t1\<rparr>"
      have wf1: "table_wf pol ?t1" using t1(1) es by (simp add: table_wf_def)
      have w: "table_wf pol ?t" "elements ?t = add_mset x (elements t)" "isLiveHash ?hn"
        using write_element [OF wf1, of j l x ?hn] es x none nr t1(2) by simp_all
      have "table_ok pol ?t" using w(1) room [OF t1(4), of ?t] by simp
      moreover have "HashTable_add ap p x t = Some (True, p\<lparr>ptr_entry := j\<rparr>, ?t)"
        using False moved i(1) hn check find es(4) by (simp add: HashTable_add_def rd_def Let_def)
      moreover have "found_at pol l ?t j x" using es(4) w(3) x by (simp add: found_at_def)
      ultimately show thesis using that [of True "p\<lparr>ptr_entry := j\<rparr>" ?t] w(2) by simp
    qed
  qed
qed

section \<open>Changing keys\<close>

text \<open>
  During an enumeration the table may lose its last free entry; the element still finds a place, where another was
  removed.
\<close>

lemma rekeyWithoutRehash_ok:
  assumes wf: "table_wf pol t" and p: "found_at pol l0 t p x" and key: "has_key (policy_setKey pol x k) l"
    and none: "matching pol l (elements t - {#x#}) = {#}"
  obtains t' where "rekeyWithoutRehash pol p l k t = Some t'" and "table_wf pol t'"
    and "elements t' = add_mset (policy_setKey pol x k) (elements t - {#x#})" and "hash_shift t' = hash_shift t"
proof -
  note wfs = table_wfD [OF wf]
  obtain t1 where t1: "remove_entry p t = Some t1" "table_wf pol t1" "elements t = add_mset x (elements t1)" "hash_shift t1 = hash_shift t"
    using remove_entry_ok [OF wf p] by blast
  note wfs1 = table_wfD [OF t1(2)]
  have "size (elements t) \<le> length (entry_table t)" by (simp add: size_contents)
  then have "size (elements t1) < length (entry_table t1)" using t1(3,4) wfs(2) wfs1(2) by simp
  then obtain t2 where t2: "putNewInfallibleInternal pol l (policy_setKey pol x k) t1 = Some t2" "table_wf pol t2"
      "elements t2 = add_mset (policy_setKey pol x k) (elements t1)" "hash_shift t2 = hash_shift t1"
    using putNewInfallibleInternal_ok [OF t1(2) _ key] none t1(3) by auto
  have "rekeyWithoutRehash pol p l k t = Some t2" using p t1(1) t2(1) by (simp add: rekeyWithoutRehash_def rd_def found_at_def)
  then show thesis using that [of t2] t1 t2 by simp
qed

lemma rekeyAndMaybeRehash_ok:
  assumes ok: "table_ok pol t" and p: "found_at pol l0 t p x" and key: "has_key (policy_setKey pol x k) l"
    and none: "matching pol l (elements t - {#x#}) = {#}"
  obtains t' where "rekeyAndMaybeRehash pol ap p l k t = Some t'" and "table_ok pol t'"
    and "elements t' = add_mset (policy_setKey pol x k) (elements t - {#x#})"
proof -
  note wf = ok [THEN conjunct1]
  obtain t1 where t1: "rekeyWithoutRehash pol p l k t = Some t1" "table_wf pol t1"
      "elements t1 = add_mset (policy_setKey pol x k) (elements t - {#x#})" "hash_shift t1 = hash_shift t"
    using rekeyWithoutRehash_ok [OF wf p key none] by blast
  obtain N where "elements t = add_mset x N" using multi_member_split [OF found_at_element [OF p]] by blast
  then have "size (elements t1) = size (elements t)" by (simp add: t1(3))
  then have "entryCount t1 \<le> HashTable_capacity t1 * 3 div 4"
    using ok t1(4) table_wfD(4) [OF wf] table_wfD(4) [OF t1(2)] by (simp add: load_ok_def capacity_slots)
  then obtain t2 where "checkOverRemoved ap t1 = Some t2" "table_ok pol t2" "elements t2 = elements t1"
    using checkOverRemoved_ok [OF t1(2)] by blast
  then show thesis using that [of t2] t1 by (simp add: rekeyAndMaybeRehash_def)
qed

end

section \<open>Making and clearing\<close>

lemma fresh_table_ok:
  assumes "2 \<le> k" and "k \<le> 30"
  shows "table_ok pol \<lparr>gen = g, hash_shift = 32 - k, entry_table = replicate (2 ^ k) \<lparr>e_keyHash = sFreeKey, e_mem = None\<rparr>,
    entryCount = 0, removedCount = 0\<rparr>"
  using assms new_entries(1) [of pol "32 - k"] by (auto simp: table_wf_def load_ok_def unique_keys_def matching_def)

lemma HashTable_clear_ok:
  assumes "table_wf pol t"
  shows "table_ok pol (HashTable_clear t) \<and> elements (HashTable_clear t) = {#}"
proof -
  have dead: "\<not> isLive e \<and> \<not> isRemoved e" if "e \<in> set (map clear_entry (entry_table t))" for e using that by auto
  then have "filter isRemoved (map clear_entry (entry_table t)) = []" by (simp add: filter_empty_conv)
  moreover have "contents (map clear_entry es) = {#}" for es :: "'c HashTableEntry list" by (induction es) simp_all
  moreover have "entries_ok pol (hash_shift t) (map clear_entry (entry_table t))"
    using table_wfD(2) [OF assms] by (auto simp: entries_ok_def entry_ok_def)
  ultimately show ?thesis
    using table_wfD(1) [OF assms] by (auto simp: HashTable_clear_def table_wf_def load_ok_def unique_keys_def matching_def)
qed

lemma round_up_bounds:
  assumes "newCapacity \<le> 2 ^ 30" and "k \<le> 30"
  obtains n where "round_up newCapacity (2 ^ k) k = (2 ^ n, n)" and "k \<le> n" and "n \<le> 30" and "newCapacity \<le> 2 ^ n"
  using assms
proof (induction "30 - k" arbitrary: k thesis)
  case 0
  then have "k = 30" by simp
  then have "round_up newCapacity (2 ^ k) k = (2 ^ k, k)" using 0(3) by (subst round_up.simps) simp
  then show ?case using 0(2) [of k] 0(3) \<open>k = 30\<close> by simp
next
  case (Suc d)
  show ?case
  proof (cases "2 ^ k < newCapacity")
    case True
    have "d = 30 - Suc k" "Suc k \<le> 30" using Suc.hyps(2) by simp_all
    then obtain n where n: "round_up newCapacity (2 ^ Suc k) (Suc k) = (2 ^ n, n)" "Suc k \<le> n" "n \<le> 30" "newCapacity \<le> 2 ^ n"
      using Suc.hyps(1) [of "Suc k"] Suc.prems(2) by blast
    have "round_up newCapacity (2 ^ k) k = round_up newCapacity (2 ^ Suc k) (Suc k)"
      using True by (subst round_up.simps) (simp add: mult.commute)
    then show ?thesis using Suc.prems(1) [of n] n by simp
  next
    case False
    then have "round_up newCapacity (2 ^ k) k = (2 ^ k, k)" by (subst round_up.simps) simp
    then show ?thesis using Suc.prems(1) [of k] Suc.prems(3) False by simp
  qed
qed

text \<open>A table made for \<open>length\<close> elements has room for them without rehashing.\<close>

lemma HashTable_init_ok:
  fixes t :: "'t HashTable"
  assumes "HashTable_init ap n new_HashTable = (True, t)"
  shows "table_ok pol t \<and> elements t = {#} \<and> n \<le> HashTable_capacity t * 3 div 4"
proof -
  define cap where "cap = (if (n * sAlphaDenominator + sMaxAlphaNumerator - 1) div sMaxAlphaNumerator < sMinCapacity then sMinCapacity
    else (n * sAlphaDenominator + sMaxAlphaNumerator - 1) div sMaxAlphaNumerator)"
  then have cap: "cap = (if (n * 4 + 2) div 3 < 4 then 4 else (n * 4 + 2) div 3)"
    by (simp add: sMinCapacity_def sMinCapacityLog2_def sMaxAlphaNumerator_def sAlphaDenominator_def)
  have n: "\<not> sMaxInit < n" using assms by (auto simp: HashTable_init_def)
  then have "n \<le> 2 ^ 29" by (simp add: sMaxInit_def CAP_BITS_def)
  then have "cap \<le> 2 ^ 30" by (simp add: cap) presburger
  then obtain k where k: "round_up cap sMinCapacity sMinCapacityLog2 = (2 ^ k, k)" "2 \<le> k" "k \<le> 30" "cap \<le> 2 ^ k"
    using round_up_bounds [of cap 2] unfolding sMinCapacity_def sMinCapacityLog2_def by auto
  have init: "HashTable_init ap n (new_HashTable :: 't HashTable) =
      (case createTable (pod_calloc_ok ap) (2 ^ k) of None \<Rightarrow> (False, new_HashTable\<lparr>entry_table := []\<rparr>)
        | Some es \<Rightarrow> (True, setTableSizeLog2 k (new_HashTable\<lparr>entry_table := es\<rparr>)))"
    unfolding HashTable_init_def Let_def cap_def [symmetric] k(1) using n by (simp only: if_False prod.case)
  have t: "t = \<lparr>gen = 0, hash_shift = 32 - k, entry_table = replicate (2 ^ k) \<lparr>e_keyHash = sFreeKey, e_mem = None\<rparr>,
      entryCount = 0, removedCount = 0\<rparr>"
    using init [unfolded assms] by (auto simp: createTable_def new_HashTable_def setTableSizeLog2_def sHashBits_def split: if_splits)
  have "n \<le> 2 ^ k * 3 div 4" using k(4) unfolding cap by (simp split: if_splits)
  then show ?thesis using fresh_table_ok [OF k(2,3)] k(3) by (simp add: t capacity_slots)
qed

end
