(* ===== verification/HashMap.thy ===== *)
theory HashMap
  imports HashTable
begin

text \<open>
  \<open>HashMap\<close> and \<open>HashSet\<close> of \<open>js/public/HashTable.h\<close>: the table with a hasher, and their shorthand operations. Keys are
  their own lookups. The methods that only pass a call on to the table are the operations of the table.
\<close>

section \<open>Hashers\<close>

record 'k hasher =
  hasher_hash :: "'k \<Rightarrow> u32"
  hasher_match :: "'k \<Rightarrow> 'k \<Rightarrow> bool"

text \<open>\<open>PointerHasher\<close> with \<open>zeroBits\<close> on 32-bit pointers and on 64-bit ones, \<open>DefaultHasher\<close> for integers and doubles.\<close>

definition PointerHasher32 :: "nat \<Rightarrow> u32 hasher" where
  "PointerHasher32 zeroBits = \<lparr>hasher_hash = (\<lambda>l. drop_bit zeroBits l), hasher_match = (\<lambda>k l. k = l)\<rparr>"

definition PointerHasher64 :: "nat \<Rightarrow> u64 hasher" where
  "PointerHasher64 zeroBits =
     \<lparr>hasher_hash = (\<lambda>l. let word = drop_bit zeroBits l in ucast (drop_bit 32 word XOR word)), hasher_match = (\<lambda>k l. k = l)\<rparr>"

definition DefaultHasher :: "u32 hasher" where
  "DefaultHasher = \<lparr>hasher_hash = (\<lambda>l. l), hasher_match = (\<lambda>k l. k = l)\<rparr>"

definition DoubleHasher :: "u64 hasher" where
  "DoubleHasher = \<lparr>hasher_hash = (\<lambda>u. ucast (u XOR drop_bit 32 u)), hasher_match = (\<lambda>lhs rhs. lhs = rhs)\<rparr>"

definition MapHashPolicy :: "'k hasher \<Rightarrow> ('k, 'k, 'k \<times> 'v) table_policy" where
  "MapHashPolicy h =
     \<lparr>policy_hash = hasher_hash h, policy_match = hasher_match h, policy_getKey = fst, policy_setKey = (\<lambda>e k. (k, snd e))\<rparr>"

definition SetHashPolicy :: "'k hasher \<Rightarrow> ('k, 'k, 'k) table_policy" where
  "SetHashPolicy h =
     \<lparr>policy_hash = hasher_hash h, policy_match = hasher_match h, policy_getKey = (\<lambda>t. t), policy_setKey = (\<lambda>t k. k)\<rparr>"

section \<open>Operations of both\<close>

definition Hash_has :: "('k, 'k, 't) table_policy \<Rightarrow> 'k \<Rightarrow> 't HashTable \<Rightarrow> bool option" where
  "Hash_has pol l t = do { p \<leftarrow> HashTable_lookup pol l t; Some (Ptr_found t p) }"

definition Hash_remove :: "('k, 'k, 't) table_policy \<Rightarrow> alloc_policy \<Rightarrow> 'k \<Rightarrow> 't HashTable \<Rightarrow> 't HashTable option" where
  "Hash_remove pol ap l t =
     do { p \<leftarrow> HashTable_lookup pol l t; if Ptr_found t p then HashTable_remove ap p t else Some t }"

definition Hash_rekeyAs ::
  "('k, 'k, 't) table_policy \<Rightarrow> alloc_policy \<Rightarrow> 'k \<Rightarrow> 'k \<Rightarrow> 'k \<Rightarrow> 't HashTable \<Rightarrow> (bool \<times> 't HashTable) option" where
  "Hash_rekeyAs pol ap old_lookup new_lookup new_key t =
     do { p \<leftarrow> HashTable_lookup pol old_lookup t;
          if Ptr_found t p then do { t \<leftarrow> rekeyAndMaybeRehash pol ap p new_lookup new_key t; Some (True, t) }
          else Some (False, t) }"

definition Hash_rekeyIfMoved :: "('k, 'k, 't) table_policy \<Rightarrow> alloc_policy \<Rightarrow> 'k \<Rightarrow> 'k \<Rightarrow> 't HashTable \<Rightarrow> 't HashTable option" where
  "Hash_rekeyIfMoved pol ap old_key new_key t =
     (if old_key \<noteq> new_key then map_option snd (Hash_rekeyAs pol ap old_key new_key new_key t) else Some t)"

section \<open>HashMap\<close>

definition HashMap_get :: "'k hasher \<Rightarrow> 'k \<Rightarrow> ('k \<times> 'v) HashTable \<Rightarrow> 'v option option" where
  "HashMap_get h l t =
     do { p \<leftarrow> HashTable_lookup (MapHashPolicy h) l t;
          if Ptr_found t p then do { x \<leftarrow> e_mem (entry_table t ! p); Some (Some (snd x)) } else Some None }"

text \<open>\<open>p->value() = v\<close>\<close>

definition assign_value :: "nat \<Rightarrow> 'v \<Rightarrow> ('k \<times> 'v) HashTable \<Rightarrow> ('k \<times> 'v) HashTable option" where
  "assign_value p v t =
     do { entry \<leftarrow> rd (entry_table t) p;
          x \<leftarrow> e_mem entry;
          Some (t\<lparr>entry_table := (entry_table t)[p := entry\<lparr>e_mem := Some (fst x, v)\<rparr>]\<rparr>) }"

definition HashMap_put :: "'k hasher \<Rightarrow> alloc_policy \<Rightarrow> 'k \<Rightarrow> 'v \<Rightarrow> ('k \<times> 'v) HashTable \<Rightarrow> (bool \<times> ('k \<times> 'v) HashTable) option" where
  "HashMap_put h ap k v t =
     do { (p, t) \<leftarrow> lookupForAdd (MapHashPolicy h) k t;
          if Ptr_found t (ptr_entry p) then do { t \<leftarrow> assign_value (ptr_entry p) v t; Some (True, t) }
          else do { (ok, p, t) \<leftarrow> HashTable_add ap p (k, v) t; Some (ok, t) } }"

text \<open>\<open>lookupWithDefault\<close>: the value the pointer it returns leads to, if it is found.\<close>

definition lookupWithDefault ::
  "'k hasher \<Rightarrow> alloc_policy \<Rightarrow> 'k \<Rightarrow> 'v \<Rightarrow> ('k \<times> 'v) HashTable \<Rightarrow> ('v option \<times> ('k \<times> 'v) HashTable) option" where
  "lookupWithDefault h ap k defaultValue t =
     do { (p, t) \<leftarrow> lookupForAdd (MapHashPolicy h) k t;
          (p, t) \<leftarrow>
            (if Ptr_found t (ptr_entry p) then Some (p, t)
             else do { (ok, p, t) \<leftarrow> HashTable_add ap p (k, defaultValue) t; Some (p, t) });
          Some (if Ptr_found t (ptr_entry p) then map_option snd (e_mem (entry_table t ! ptr_entry p)) else None, t) }"

section \<open>HashSet\<close>

definition HashSet_put :: "'k hasher \<Rightarrow> alloc_policy \<Rightarrow> 'k \<Rightarrow> 'k HashTable \<Rightarrow> (bool \<times> 'k HashTable) option" where
  "HashSet_put h ap u t =
     do { (p, t) \<leftarrow> lookupForAdd (SetHashPolicy h) u t;
          if Ptr_found t (ptr_entry p) then Some (True, t)
          else do { (ok, p, t) \<leftarrow> HashTable_add ap p u t; Some (ok, t) } }"

end
