(* ===== verification/HashMapCorrect.thy ===== *)
theory HashMapCorrect
  imports HashTableOps HashMap
begin

text \<open>
  \<open>HashMap\<close> is a finite map: a script of calls on it gets the answers of the map, whatever the hash function and
  whichever allocations fail. An enumeration meets every element once, also when it removes what it meets.
\<close>

section \<open>Hashers that compare keys by equality\<close>

locale equality_hasher =
  fixes h :: "'k hasher"
  assumes match_eq: "hasher_match h k l \<longleftrightarrow> k = l"

sublocale equality_hasher < map_table: hash_table "MapHashPolicy h :: ('k, 'k, 'k \<times> 'v) table_policy"
  by unfold_locales (auto simp: MapHashPolicy_def match_eq)

sublocale equality_hasher < set_table: hash_table "SetHashPolicy h"
  by unfold_locales (auto simp: SetHashPolicy_def match_eq)

interpretation integers: equality_hasher DefaultHasher
  by unfold_locales (simp add: DefaultHasher_def)

interpretation pointers32: equality_hasher "PointerHasher32 zeroBits" for zeroBits
  by unfold_locales (simp add: PointerHasher32_def)

interpretation pointers64: equality_hasher "PointerHasher64 zeroBits" for zeroBits
  by unfold_locales (simp add: PointerHasher64_def)

interpretation doubles: equality_hasher DoubleHasher
  by unfold_locales (simp add: DoubleHasher_def)

section \<open>Scripts\<close>

datatype ('k, 'v) map_call =
  Get 'k | Has 'k | Put alloc_policy 'k 'v | GetOrAdd alloc_policy 'k 'v | Remove alloc_policy 'k | Rekey alloc_policy 'k 'k | Clear | Count

datatype 'v map_answer = Value "'v option" | Answer bool | Number_of nat | Nothing

text \<open>A key is changed only when the new one is not in use.\<close>

fun run_map_call :: "'k hasher \<Rightarrow> ('k, 'v) map_call \<Rightarrow> ('k \<times> 'v) HashTable \<Rightarrow> ('v map_answer \<times> ('k \<times> 'v) HashTable) option" where
  "run_map_call h (Get k) t = do { v \<leftarrow> HashMap_get h k t; Some (Value v, t) }"
| "run_map_call h (Has k) t = do { b \<leftarrow> Hash_has (MapHashPolicy h) k t; Some (Answer b, t) }"
| "run_map_call h (Put ap k v) t = do { (ok, t) \<leftarrow> HashMap_put h ap k v t; Some (Answer ok, t) }"
| "run_map_call h (GetOrAdd ap k v) t = do { (w, t) \<leftarrow> lookupWithDefault h ap k v t; Some (Value w, t) }"
| "run_map_call h (Remove ap k) t = do { t \<leftarrow> Hash_remove (MapHashPolicy h) ap k t; Some (Nothing, t) }"
| "run_map_call h (Rekey ap k k') t =
     do { used \<leftarrow> Hash_has (MapHashPolicy h) k' t;
          if used then Some (Answer False, t)
          else do { (ok, t) \<leftarrow> Hash_rekeyAs (MapHashPolicy h) ap k k' k' t; Some (Answer ok, t) } }"
| "run_map_call h Clear t = Some (Nothing, HashTable_clear t)"
| "run_map_call h Count t = Some (Number_of (entryCount t), t)"

fun run_map_calls ::
  "'k hasher \<Rightarrow> ('k, 'v) map_call list \<Rightarrow> ('k \<times> 'v) HashTable \<Rightarrow> ('v map_answer list \<times> ('k \<times> 'v) HashTable) option" where
  "run_map_calls h [] t = Some ([], t)"
| "run_map_calls h (c # cs) t =
     do { (a, t) \<leftarrow> run_map_call h c t; (as, t) \<leftarrow> run_map_calls h cs t; Some (a # as, t) }"

text \<open>What the answer of a call means for a map; \<open>None\<close> when no map gives it. Only adding a key may fail.\<close>

fun replay_call :: "('k, 'v) map_call \<Rightarrow> 'v map_answer \<Rightarrow> ('k \<rightharpoonup> 'v) \<Rightarrow> ('k \<rightharpoonup> 'v) option" where
  "replay_call (Get k) a m = (if a = Value (m k) then Some m else None)"
| "replay_call (Has k) a m = (if a = Answer (m k \<noteq> None) then Some m else None)"
| "replay_call (Put ap k v) a m =
     (if a = Answer True then Some (m(k \<mapsto> v)) else if a = Answer False \<and> m k = None then Some m else None)"
| "replay_call (GetOrAdd ap k v) a m =
     (if m k \<noteq> None then (if a = Value (m k) then Some m else None)
      else if a = Value (Some v) then Some (m(k \<mapsto> v)) else if a = Value None then Some m else None)"
| "replay_call (Remove ap k) a m = (if a = Nothing then Some (m(k := None)) else None)"
| "replay_call (Rekey ap k k') a m =
     (if a = Answer (m k \<noteq> None \<and> m k' = None) then Some (if m k \<noteq> None \<and> m k' = None then m(k := None, k' := m k) else m)
      else None)"
| "replay_call Clear a m = (if a = Nothing then Some Map.empty else None)"
| "replay_call Count a m = (if a = Number_of (card (dom m)) then Some m else None)"

fun replay_calls :: "(('k, 'v) map_call \<times> 'v map_answer) list \<Rightarrow> ('k \<rightharpoonup> 'v) \<Rightarrow> ('k \<rightharpoonup> 'v) option" where
  "replay_calls [] m = Some m"
| "replay_calls ((c, a) # cs) m = do { m \<leftarrow> replay_call c a m; replay_calls cs m }"

section \<open>The map of a table\<close>

definition represents :: "'k hasher \<Rightarrow> ('k \<times> 'v) HashTable \<Rightarrow> ('k \<rightharpoonup> 'v) \<Rightarrow> bool" where
  "represents h t m \<longleftrightarrow> table_ok (MapHashPolicy h) t \<and> finite (dom m) \<and> elements t = mset_set (Map.graph m)"

lemma graph_iff: "(k, v) \<in> Map.graph m \<longleftrightarrow> m k = Some v"
  by (simp add: Map.graph_def)

lemma graph_add: "m k = None \<Longrightarrow> Map.graph (m(k \<mapsto> v)) = insert (k, v) (Map.graph m)"
  by (auto simp: graph_iff split: if_splits)

lemma mset_graph_add:
  assumes "finite (dom m)" and "m k = None"
  shows "mset_set (Map.graph (m(k \<mapsto> v))) = add_mset (k, v) (mset_set (Map.graph m))"
proof -
  have "finite (Map.graph m)" using assms(1) by (simp add: finite_graph_iff_finite_dom)
  moreover have "(k, v) \<notin> Map.graph m" using assms(2) by (simp add: graph_iff)
  ultimately show ?thesis unfolding graph_add [of m k, OF assms(2)] by (rule mset_set.insert)
qed

lemma mset_graph_remove:
  assumes "finite (dom m)" and "m k = Some v"
  shows "mset_set (Map.graph m) = add_mset (k, v) (mset_set (Map.graph (m(k := None))))"
  using mset_graph_add [of "m(k := None)" k v] assms by (simp add: fun_upd_triv fun_upd_idem)

context equality_hasher
begin

lemma matching_graph: "finite (dom m) \<Longrightarrow> matching (MapHashPolicy h) k (mset_set (Map.graph m)) = {#} \<longleftrightarrow> m k = None"
proof -
  assume "finite (dom m)"
  then have "x \<in># mset_set (Map.graph m) \<longleftrightarrow> x \<in> Map.graph m" for x by (simp add: finite_graph_iff_finite_dom)
  then have "matching (MapHashPolicy h) k (mset_set (Map.graph m)) = {#} \<longleftrightarrow> (\<forall>x. x \<in> Map.graph m \<longrightarrow> fst x \<noteq> k)"
    by (simp add: matching_def MapHashPolicy_def match_eq)
  also have "\<dots> \<longleftrightarrow> m k = None" by (auto simp: graph_iff)
  finally show ?thesis .
qed

lemma found_value:
  assumes "represents h t m" and "found_at (MapHashPolicy h) k t p x"
  shows "x = (k, snd x)" and "m k = Some (snd x)"
proof -
  have "fst x = k" using assms(2) by (simp add: found_at_def MapHashPolicy_def match_eq)
  then show x: "x = (k, snd x)" by (metis prod.collapse)
  have rep: "elements t = mset_set (Map.graph m)" "finite (dom m)" using assms(1) by (simp_all add: represents_def)
  have "x \<in># mset_set (Map.graph m)" using found_at_element [OF assms(2)] unfolding rep(1) .
  then have "(k, snd x) \<in> Map.graph m" using rep(2) x by (simp add: finite_graph_iff_finite_dom)
  then show "m k = Some (snd x)" by (simp add: graph_iff)
qed

lemma lookup_represents:
  assumes "represents h t m"
  obtains p where "HashTable_lookup (MapHashPolicy h) k t = Some p" and "Ptr_found t p \<longleftrightarrow> m k \<noteq> None"
    and "m k \<noteq> None \<Longrightarrow> found_at (MapHashPolicy h) k t p (k, the (m k))"
proof -
  have ok: "table_ok (MapHashPolicy h) t" using assms by (simp add: represents_def)
  obtain p where p: "HashTable_lookup (MapHashPolicy h) k t = Some p"
      "if Ptr_found t p then \<exists>x. found_at (MapHashPolicy h) k t p x else matching (MapHashPolicy h) k (elements t) = {#}"
    by (rule HashTable_lookup_ok [OF ok, of k]) blast
  show thesis
  proof (cases "Ptr_found t p")
    case True
    then obtain x where "found_at (MapHashPolicy h) k t p x" using p(2) by auto
    then show thesis using that [OF p(1)] True found_value [OF assms] by (metis option.distinct(1) option.sel)
  next
    case False
    then have "m k = None" using p(2) assms matching_graph [of m k] by (simp add: represents_def)
    then show thesis using that [OF p(1)] False by simp
  qed
qed

lemma get_represents: "represents h t m \<Longrightarrow> HashMap_get h k t = Some (m k)"
  by (rule lookup_represents [of t m k]) (auto simp: HashMap_get_def found_at_def)

lemma has_represents: "represents h t m \<Longrightarrow> Hash_has (MapHashPolicy h) k t = Some (m k \<noteq> None)"
  by (rule lookup_represents [of t m k]) (auto simp: Hash_has_def)

lemma remove_represents:
  assumes "represents h t m"
  obtains t' where "Hash_remove (MapHashPolicy h) ap k t = Some t'" and "represents h t' (m(k := None))"
proof -
  obtain p where p: "HashTable_lookup (MapHashPolicy h) k t = Some p" "Ptr_found t p \<longleftrightarrow> m k \<noteq> None"
      "m k \<noteq> None \<Longrightarrow> found_at (MapHashPolicy h) k t p (k, the (m k))"
    by (rule lookup_represents [OF assms]) blast
  show thesis
  proof (cases "m k")
    case None
    then show thesis using that [of t] p(1,2) assms by (simp add: Hash_remove_def fun_upd_idem)
  next
    case (Some v)
    have ok: "table_ok (MapHashPolicy h) t" and fin: "finite (dom m)" using assms by (simp_all add: represents_def)
    have "found_at (MapHashPolicy h) k t p (k, v)" using p(3) Some by simp
    then obtain t' where "HashTable_remove ap p t = Some t'" "table_ok (MapHashPolicy h) t'" "elements t = add_mset (k, v) (elements t')"
      using HashTable_remove_ok [OF ok] by blast
    then show thesis using that [of t'] p(1,2) Some assms mset_graph_remove [OF fin Some] by (simp add: Hash_remove_def represents_def)
  qed
qed

lemma rekey_represents:
  assumes "represents h t m" and "m k' = None"
  obtains t' where "Hash_rekeyAs (MapHashPolicy h) ap k k' k' t = Some (m k \<noteq> None, t')"
    and "represents h t' (if m k \<noteq> None then m(k := None, k' := m k) else m)"
proof -
  obtain p where p: "HashTable_lookup (MapHashPolicy h) k t = Some p" "Ptr_found t p \<longleftrightarrow> m k \<noteq> None"
      "m k \<noteq> None \<Longrightarrow> found_at (MapHashPolicy h) k t p (k, the (m k))"
    by (rule lookup_represents [OF assms(1)]) blast
  show thesis
  proof (cases "m k")
    case None
    then show thesis using that [of t] p(1,2) assms by (simp add: Hash_rekeyAs_def)
  next
    case (Some v)
    have ok: "table_ok (MapHashPolicy h) t" and fin: "finite (dom m)" and el: "elements t = mset_set (Map.graph m)"
      using assms by (simp_all add: represents_def)
    let ?m = "m(k := None)"
    have rest: "elements t - {#(k, v)#} = mset_set (Map.graph ?m)" unfolding el mset_graph_remove [OF fin Some] by simp
    have key: "policy_match (MapHashPolicy h) (policy_getKey (MapHashPolicy h) (policy_setKey (MapHashPolicy h) (k, v) k')) k'"
      "policy_setKey (MapHashPolicy h) (k, v) k' = (k', v)"
      by (simp_all add: MapHashPolicy_def match_eq)
    have none: "matching (MapHashPolicy h) k' (elements t - {#(k, v)#}) = {#}"
      unfolding rest using matching_graph [of ?m k'] assms(2) fin by simp
    have "found_at (MapHashPolicy h) k t p (k, v)" using p(3) Some by simp
    then obtain t' where "rekeyAndMaybeRehash (MapHashPolicy h) ap p k' k' t = Some t'" "table_ok (MapHashPolicy h) t'"
        "elements t' = add_mset (k', v) (elements t - {#(k, v)#})"
      using map_table.rekeyAndMaybeRehash_ok [OF ok _ key(1) none] unfolding key(2) by blast
    moreover have "mset_set (Map.graph (?m(k' \<mapsto> v))) = add_mset (k', v) (mset_set (Map.graph ?m))"
      using assms(2) fin by (intro mset_graph_add) auto
    ultimately show thesis using that [of t'] p(1,2) Some fin rest by (simp add: Hash_rekeyAs_def represents_def)
  qed
qed

lemma add_represents:
  assumes rep: "represents h t m" and m: "m k = None"
  obtains added p' t1 t2 p where "lookupForAdd (MapHashPolicy h) k t = Some (p, t1)" and "\<not> Ptr_found t1 (ptr_entry p)"
    and "HashTable_add ap p (k, v) t1 = Some (added, p', t2)"
    and "if added then represents h t2 (m(k \<mapsto> v)) \<and> found_at (MapHashPolicy h) k t2 (ptr_entry p') (k, v)
      else represents h t2 m \<and> \<not> Ptr_found t2 (ptr_entry p') \<and>
        (pod_calloc_ok ap \<and> simulated_ok ap \<longrightarrow> HashTable_capacity t = 2 ^ 30)"
proof -
  have ok: "table_ok (MapHashPolicy h) t" and fin: "finite (dom m)" and el: "elements t = mset_set (Map.graph m)"
    using rep by (simp_all add: represents_def)
  obtain p t1 where look: "lookupForAdd (MapHashPolicy h) k t = Some (p, t1)" "table_ok (MapHashPolicy h) t1" "elements t1 = elements t"
      "map_table.addable k p t1" "HashTable_capacity t1 = HashTable_capacity t"
    by (rule map_table.lookupForAdd_ok [OF ok, of k]) blast
  have rep1: "represents h t1 m" using look fin el by (simp add: represents_def)
  have none: "\<not> Ptr_found t1 (ptr_entry p)" using look(4) found_value [OF rep1] m by (auto simp: map_table.addable_def split: if_splits)
  have key: "policy_match (MapHashPolicy h) (policy_getKey (MapHashPolicy h) (k, v)) k" by (simp add: MapHashPolicy_def match_eq)
  obtain added p' t2 where "HashTable_add ap p (k, v) t1 = Some (added, p', t2)" "table_ok (MapHashPolicy h) t2"
      "if added then elements t2 = add_mset (k, v) (elements t1) \<and> found_at (MapHashPolicy h) k t2 (ptr_entry p') (k, v)
       else t2 = t1 \<and> p' = p \<and> (pod_calloc_ok ap \<and> simulated_ok ap \<longrightarrow> HashTable_capacity t1 = 2 ^ 30)"
    by (rule map_table.HashTable_add_ok [OF look(2,4) none key, of ap]) blast
  then show thesis
    using that [OF look(1) none] rep1 none look(3,5) el fin mset_graph_add [OF fin m, of v]
    by (auto simp: represents_def split: if_splits)
qed

lemma lookupForAdd_represents:
  assumes rep: "represents h t m" and m: "m k = Some w"
  obtains p t1 where "lookupForAdd (MapHashPolicy h) k t = Some (p, t1)" and "represents h t1 m"
    and "Ptr_found t1 (ptr_entry p)" and "found_at (MapHashPolicy h) k t1 (ptr_entry p) (k, w)"
proof -
  have ok: "table_ok (MapHashPolicy h) t" and fin: "finite (dom m)" and el: "elements t = mset_set (Map.graph m)"
    using rep by (simp_all add: represents_def)
  obtain p t1 where look: "lookupForAdd (MapHashPolicy h) k t = Some (p, t1)" "table_ok (MapHashPolicy h) t1" "elements t1 = elements t"
      "map_table.addable k p t1" "HashTable_capacity t1 = HashTable_capacity t"
    by (rule map_table.lookupForAdd_ok [OF ok, of k]) blast
  have rep1: "represents h t1 m" using look fin el by (simp add: represents_def)
  have "matching (MapHashPolicy h) k (elements t1) \<noteq> {#}" using matching_graph [OF fin, of k] m look(3) el by simp
  then have found: "Ptr_found t1 (ptr_entry p)" using look(4) by (auto simp: map_table.addable_def split: if_splits)
  then obtain x where x: "found_at (MapHashPolicy h) k t1 (ptr_entry p) x" using look(4) by (auto simp: map_table.addable_def)
  have "x = (k, w)" using found_value [OF rep1 x] m by simp
  then show thesis using that [OF look(1) rep1 found] x by simp
qed

lemma put_represents:
  assumes rep: "represents h t m"
  obtains added t' where "HashMap_put h ap k v t = Some (added, t')"
    and "represents h t' (if added then m(k \<mapsto> v) else m)"
    and "\<not> added \<Longrightarrow> m k = None \<and> (pod_calloc_ok ap \<and> simulated_ok ap \<longrightarrow> HashTable_capacity t = 2 ^ 30)"
proof (cases "m k")
  case None
  obtain added p' t1 t2 p where "lookupForAdd (MapHashPolicy h) k t = Some (p, t1)" "\<not> Ptr_found t1 (ptr_entry p)"
      "HashTable_add ap p (k, v) t1 = Some (added, p', t2)"
      "if added then represents h t2 (m(k \<mapsto> v)) \<and> found_at (MapHashPolicy h) k t2 (ptr_entry p') (k, v)
       else represents h t2 m \<and> \<not> Ptr_found t2 (ptr_entry p') \<and> (pod_calloc_ok ap \<and> simulated_ok ap \<longrightarrow> HashTable_capacity t = 2 ^ 30)"
    by (rule add_represents [OF rep None, of ap v]) blast
  then show thesis using that [of added t2] None by (simp add: HashMap_put_def split: if_splits)
next
  case (Some w)
  obtain p t1 where look: "lookupForAdd (MapHashPolicy h) k t = Some (p, t1)" "represents h t1 m" "Ptr_found t1 (ptr_entry p)"
      "found_at (MapHashPolicy h) k t1 (ptr_entry p) (k, w)"
    by (rule lookupForAdd_represents [OF rep Some]) blast
  have ok: "table_ok (MapHashPolicy h) t1" and fin: "finite (dom m)" and el: "elements t1 = mset_set (Map.graph m)"
    using look(2) by (simp_all add: represents_def)
  let ?e = "entry_table t1 ! ptr_entry p"
  let ?t = "t1\<lparr>entry_table := (entry_table t1)[ptr_entry p := ?e\<lparr>e_mem := Some (k, v)\<rparr>]\<rparr>"
  have new: "table_wf (MapHashPolicy h) ?t" "elements ?t = add_mset (k, v) (elements t1 - {#(k, w)#})"
    using replace_element [OF ok [THEN conjunct1] look(4), of "(k, v)"] by (simp_all add: MapHashPolicy_def)
  have "m(k \<mapsto> v) = (m(k := None))(k \<mapsto> v)" by simp
  then have "elements ?t = mset_set (Map.graph (m(k \<mapsto> v)))"
    unfolding new(2) el mset_graph_remove [OF fin Some] using mset_graph_add [of "m(k := None)" k v] fin by simp
  then have "represents h ?t (m(k \<mapsto> v))" using new(1) ok fin by (simp add: represents_def load_ok_def capacity_slots)
  moreover have "HashMap_put h ap k v t = Some (True, ?t)"
    using look by (simp add: HashMap_put_def assign_value_def rd_def found_at_def)
  ultimately show thesis using that [of True ?t] by simp
qed

lemma default_represents:
  assumes rep: "represents h t m"
  obtains w t' where "lookupWithDefault h ap k v t = Some (w, t')"
    and "represents h t' (if m k = None \<and> w = Some v then m(k \<mapsto> v) else m)" and "w = m k \<or> m k = None \<and> w = Some v"
proof (cases "m k")
  case None
  obtain added p' t1 t2 p where "lookupForAdd (MapHashPolicy h) k t = Some (p, t1)" "\<not> Ptr_found t1 (ptr_entry p)"
      "HashTable_add ap p (k, v) t1 = Some (added, p', t2)"
      "if added then represents h t2 (m(k \<mapsto> v)) \<and> found_at (MapHashPolicy h) k t2 (ptr_entry p') (k, v)
       else represents h t2 m \<and> \<not> Ptr_found t2 (ptr_entry p') \<and> (pod_calloc_ok ap \<and> simulated_ok ap \<longrightarrow> HashTable_capacity t = 2 ^ 30)"
    by (rule add_represents [OF rep None, of ap v]) blast
  then show thesis
    using that [of "if added then Some v else None" t2] None by (auto simp: lookupWithDefault_def found_at_def Ptr_found_def split: if_splits)
next
  case (Some w)
  obtain p t1 where look: "lookupForAdd (MapHashPolicy h) k t = Some (p, t1)" "represents h t1 m" "Ptr_found t1 (ptr_entry p)"
      "found_at (MapHashPolicy h) k t1 (ptr_entry p) (k, w)"
    by (rule lookupForAdd_represents [OF rep Some]) blast
  then show thesis using that [of "Some w" t1] Some by (simp add: lookupWithDefault_def found_at_def)
qed

lemma clear_represents: "represents h t m \<Longrightarrow> represents h (HashTable_clear t) Map.empty"
  using HashTable_clear_ok [of "MapHashPolicy h" t] by (simp add: represents_def)

lemma count_represents:
  assumes "represents h t m"
  shows "entryCount t = card (dom m)"
proof -
  have "entryCount t = card (Map.graph m)"
    using assms table_wfD(4) [of "MapHashPolicy h" t] by (simp add: represents_def)
  also have "\<dots> = card (dom m)"
  proof (rule bij_betw_same_card [of fst], rule bij_betw_imageI)
    show "inj_on fst (Map.graph m)" by (rule inj_onI) (auto simp: graph_iff)
    show "fst ` Map.graph m = dom m" by (force simp: Map.graph_def)
  qed
  finally show ?thesis .
qed

lemma call_represents:
  assumes rep: "represents h t m"
  obtains a t' m' where "run_map_call h c t = Some (a, t')" and "replay_call c a m = Some m'" and "represents h t' m'"
proof (cases c)
  case (Get k)
  then show thesis using that [of "Value (m k)" t m] get_represents [OF rep, of k] rep by simp
next
  case (Has k)
  then show thesis using that [of "Answer (m k \<noteq> None)" t m] has_represents [OF rep, of k] rep by simp
next
  case (Put ap k v)
  obtain added t' where "HashMap_put h ap k v t = Some (added, t')" "represents h t' (if added then m(k \<mapsto> v) else m)"
      "\<not> added \<Longrightarrow> m k = None \<and> (pod_calloc_ok ap \<and> simulated_ok ap \<longrightarrow> HashTable_capacity t = 2 ^ 30)"
    by (rule put_represents [OF rep, of ap k v]) blast
  then show thesis using that [of "Answer added" t' "if added then m(k \<mapsto> v) else m"] Put by (cases added) simp_all
next
  case (GetOrAdd ap k v)
  obtain w t' where "lookupWithDefault h ap k v t = Some (w, t')"
      "represents h t' (if m k = None \<and> w = Some v then m(k \<mapsto> v) else m)" "w = m k \<or> m k = None \<and> w = Some v"
    by (rule default_represents [OF rep, of ap k v]) blast
  then show thesis
    using that [of "Value w" t' "if m k = None \<and> w = Some v then m(k \<mapsto> v) else m"] GetOrAdd by (cases "m k"; cases w) auto
next
  case (Remove ap k)
  obtain t' where "Hash_remove (MapHashPolicy h) ap k t = Some t'" "represents h t' (m(k := None))"
    by (rule remove_represents [OF rep, of ap k]) blast
  then show thesis using that [of Nothing t' "m(k := None)"] Remove by simp
next
  case (Rekey ap k k')
  note has = has_represents [OF rep, of k']
  show thesis
  proof (cases "m k'")
    case None
    obtain t' where "Hash_rekeyAs (MapHashPolicy h) ap k k' k' t = Some (m k \<noteq> None, t')"
        "represents h t' (if m k \<noteq> None then m(k := None, k' := m k) else m)"
      by (rule rekey_represents [OF rep None, of ap k]) blast
    then show thesis
      using that [of "Answer (m k \<noteq> None)" t' "if m k \<noteq> None then m(k := None, k' := m k) else m"] Rekey has None by simp
  next
    case (Some v)
    then show thesis using that [of "Answer False" t m] Rekey has rep by simp
  qed
next
  case Clear
  then show thesis using that [of Nothing "HashTable_clear t" Map.empty] clear_represents [OF rep] by simp
next
  case Count
  then show thesis using that [of "Number_of (entryCount t)" t m] count_represents [OF rep] rep by simp
qed

lemma calls_represent:
  assumes "represents h t m"
  shows "\<exists>as t' m'. run_map_calls h cs t = Some (as, t') \<and> length as = length cs \<and> replay_calls (zip cs as) m = Some m' \<and> represents h t' m'"
  using assms
proof (induction cs arbitrary: t m)
  case (Cons c cs)
  obtain a t1 m1 where c: "run_map_call h c t = Some (a, t1)" "replay_call c a m = Some m1" "represents h t1 m1"
    by (rule call_represents [OF Cons.prems, of c]) blast
  obtain as t2 m2 where "run_map_calls h cs t1 = Some (as, t2)" "length as = length cs" "replay_calls (zip cs as) m1 = Some m2" "represents h t2 m2"
    using Cons.IH [OF c(3)] by blast
  then show ?case using c by (intro exI [of _ "a # as"] exI [of _ t2] exI [of _ m2]) simp
qed simp

end

section \<open>Enumeration\<close>

text \<open>
  \<open>for (Enum e(t); !e.empty(); e.popFront()) if (P(e.front())) e.removeFront();\<close> with the elements it meets, and then
  the destructor of \<open>e\<close>.
\<close>

partial_function (option) enum_loop :: "('t \<Rightarrow> bool) \<Rightarrow> Enum \<Rightarrow> 't HashTable \<Rightarrow> ('t list \<times> Enum \<times> 't HashTable) option" where
  "enum_loop P e t =
     (if Range_empty t (enum_cur e) then Some ([], e, t)
      else
        do { x \<leftarrow> Range_front t (enum_cur e);
             (e, t) \<leftarrow> (if P x then removeFront e t else Some (e, t));
             (xs, e, t) \<leftarrow> enum_loop P (e\<lparr>enum_cur := Range_popFront t (enum_cur e)\<rparr>) t;
             Some (x # xs, e, t) })"

declare enum_loop.simps [code]

definition enum_removing :: "('t \<Rightarrow> bool) \<Rightarrow> alloc_policy \<Rightarrow> 't HashTable \<Rightarrow> ('t list \<times> 't HashTable) option" where
  "enum_removing P ap t =
     do { (xs, e, t) \<leftarrow> enum_loop P (new_Enum t) t; t \<leftarrow> delete_Enum ap e t; Some (xs, t) }"

lemma skip_dead_spec:
  "n \<le> skip_dead es n \<and> skip_dead es n \<le> n + length es \<and>
    contents (drop (skip_dead es n - n) es) = contents es \<and>
    (skip_dead es n < n + length es \<longrightarrow> isLive (es ! (skip_dead es n - n)))"
proof (induction es arbitrary: n)
  case (Cons e es)
  show ?case
  proof (cases "isLive e")
    case False
    moreover have "Suc n \<le> skip_dead es (Suc n)" using Cons.IH [of "Suc n"] by blast
    then obtain d where "skip_dead es (Suc n) = Suc n + d" using le_Suc_ex by blast
    ultimately show ?thesis using Cons.IH [of "Suc n"] by simp
  qed simp
qed simp

lemma skip_dead_drop:
  assumes "c \<le> length es"
  defines "n \<equiv> skip_dead (drop c es) c"
  shows "c \<le> n" "n \<le> length es" "contents (drop n es) = contents (drop c es)" "n < length es \<Longrightarrow> isLive (es ! n)"
  using skip_dead_spec [of c "drop c es"] assms by (auto simp: add.commute)

lemma enum_loop_ok:
  assumes "table_wf pol t" and "enum_cur e \<le> length (entry_table t)"
    and "enum_cur e < length (entry_table t) \<Longrightarrow> isLive (entry_table t ! enum_cur e)" and "\<not> enum_rekeyed e"
  obtains xs e' t' where "enum_loop P e t = Some (xs, e', t')" and "table_wf pol t'" and "\<not> enum_rekeyed e'"
    and "entryCount t' + removedCount t' \<le> entryCount t + removedCount t" and "hash_shift t' = hash_shift t"
    and "mset xs = contents (drop (enum_cur e) (entry_table t))"
    and "elements t = elements t' + filter_mset P (mset xs)" and "enum_removed e' \<longleftrightarrow> enum_removed e \<or> (\<exists>x \<in> set xs. P x)"
  using assms
proof (induction "length (entry_table t) - enum_cur e" arbitrary: e t thesis rule: less_induct)
  case less
  note wfs = table_wfD [OF less.prems(2)]
  let ?c = "enum_cur e"
  show ?case
  proof (cases "?c < length (entry_table t)")
    case False
    then have "enum_loop P e t = Some ([], e, t)"
      using less.prems(3) wfs(2) by (subst enum_loop.simps) (simp add: Range_empty_def capacity_slots)
    then show ?thesis using less.prems False by simp
  next
    case True
    let ?e = "entry_table t ! ?c"
    have live: "isLive ?e" using less.prems(4) True by blast
    then obtain x where x: "e_mem ?e = Some x" using wfs(2,3) True by (auto simp: entry_ok_def)
    have suffix: "contents (drop ?c (entry_table t)) = add_mset x (contents (drop (?c + 1) (entry_table t)))"
      using live x by (simp add: Cons_nth_drop_Suc [OF True, symmetric])
    obtain e1 t1 where act: "(if P x then removeFront e t else Some (e, t)) = Some (e1, t1)" and t1: "table_wf pol t1"
        "entryCount t1 + removedCount t1 \<le> entryCount t + removedCount t" "hash_shift t1 = hash_shift t"
        "elements t = elements t1 + (if P x then {#x#} else {#})" "drop (?c + 1) (entry_table t1) = drop (?c + 1) (entry_table t)"
        "enum_cur e1 = ?c" "enum_rekeyed e1 = enum_rekeyed e" "enum_removed e1 \<longleftrightarrow> enum_removed e \<or> P x"
    proof (cases "P x")
      case False
      then show ?thesis using that [of e t] less.prems(2) by simp
    next
      case remove: True
      have wf: "table_wf pol t" by (rule less.prems(2))
      let ?f = "if hasCollision ?e then removeLive ?e else clearLive ?e"
      obtain t1 where t1: "remove_entry ?c t = Some t1" "table_wf pol t1" "elements t = add_mset x (elements t1)"
          "entryCount t1 + removedCount t1 \<le> entryCount t + removedCount t" "hash_shift t1 = hash_shift t"
        by (rule remove_live_ok [OF wf True live x])
      moreover have "drop (?c + 1) (entry_table t1) = drop (?c + 1) (entry_table t)"
        using t1(1) True by (auto simp: remove_entry_def rd_def Let_def)
      ultimately show ?thesis
        using that [of "e\<lparr>enum_removed := True\<rparr>" t1] remove by (simp add: removeFront_def)
    qed
    let ?e1 = "e1\<lparr>enum_cur := Range_popFront t1 (enum_cur e1)\<rparr>"
    note wfs1 = table_wfD [OF t1(1)]
    have len: "length (entry_table t1) = length (entry_table t)" using wfs(2) wfs1(2) t1(3) by simp
    have c1: "?c + 1 \<le> length (entry_table t1)" using True len by simp
    have cur: "enum_cur ?e1 = skip_dead (drop (?c + 1) (entry_table t1)) (?c + 1)" by (simp add: Range_popFront_def t1(6))
    note skip = skip_dead_drop [OF c1, folded cur]
    have "length (entry_table t1) - enum_cur ?e1 < length (entry_table t) - ?c" using skip(1) len True by simp
    moreover have "\<not> enum_rekeyed ?e1" using t1(7) less.prems(5) by simp
    ultimately obtain xs e2 t2 where rec: "enum_loop P ?e1 t1 = Some (xs, e2, t2)" "table_wf pol t2" "\<not> enum_rekeyed e2"
        "entryCount t2 + removedCount t2 \<le> entryCount t1 + removedCount t1" "hash_shift t2 = hash_shift t1"
        "mset xs = contents (drop (enum_cur ?e1) (entry_table t1))"
        "elements t1 = elements t2 + filter_mset P (mset xs)" "enum_removed e2 \<longleftrightarrow> enum_removed ?e1 \<or> (\<exists>x \<in> set xs. P x)"
      using less.hyps [of t1 ?e1] t1(1) skip(2,4) by blast
    have "enum_loop P e t = Some (x # xs, e2, t2)"
      using True wfs(2) x act rec(1)
      by (subst enum_loop.simps) (simp add: Range_empty_def capacity_slots Range_front_def rd_def)
    moreover have "mset (x # xs) = contents (drop ?c (entry_table t))" using rec(6) skip(3) t1(5) suffix by simp
    moreover have "elements t = elements t2 + filter_mset P (mset (x # xs))" using t1(4) rec(7) by simp
    ultimately show ?thesis
      using less.prems(1) [of "x # xs" e2 t2] rec(2,3,4,5,8) t1(2,3,8) by simp
  qed
qed

lemma enum_removing_ok:
  assumes ok: "table_ok pol t"
  obtains xs t' where "enum_removing P ap t = Some (xs, t')" and "table_ok pol t'" and "mset xs = elements t"
    and "elements t = elements t' + filter_mset P (elements t)"
proof -
  note wf = ok [THEN conjunct1]
  note skip = skip_dead_drop [of 0 "entry_table t", simplified]
  have cur: "enum_cur (new_Enum t) = skip_dead (entry_table t) 0" by (simp add: new_Enum_def HashTable_all_def)
  obtain xs e t1 where loop: "enum_loop P (new_Enum t) t = Some (xs, e, t1)" "table_wf pol t1" "\<not> enum_rekeyed e"
      "entryCount t1 + removedCount t1 \<le> entryCount t + removedCount t" "hash_shift t1 = hash_shift t"
      "mset xs = contents (drop (enum_cur (new_Enum t)) (entry_table t))" "elements t = elements t1 + filter_mset P (mset xs)"
  proof (rule enum_loop_ok [OF wf, of "new_Enum t" P])
    show "enum_cur (new_Enum t) \<le> length (entry_table t)" unfolding cur by (rule skip(2))
    show "isLive (entry_table t ! enum_cur (new_Enum t))" if "enum_cur (new_Enum t) < length (entry_table t)"
      using that unfolding cur by (rule skip(4))
    show "\<not> enum_rekeyed (new_Enum t)" by (simp add: new_Enum_def)
  qed (rule that)
  have load: "table_ok pol t1" using loop(2,4,5) ok by (simp add: load_ok_def capacity_slots)
  obtain t2 where compact: "compactIfUnderloaded ap t1 = Some t2" "table_ok pol t2" "elements t2 = elements t1"
    by (rule compactIfUnderloaded_ok [OF load, of ap])
  have "delete_Enum ap e t1 = Some (if enum_removed e then t2 else t1)" using compact(1) loop(3) by (simp add: delete_Enum_def)
  moreover define t' where "t' = (if enum_removed e then t2 else t1)"
  ultimately have t2: "delete_Enum ap e t1 = Some t'" "table_ok pol t'" "elements t' = elements t1"
    using compact(2,3) load by simp_all
  have xs: "mset xs = elements t" using loop(6) skip(3) by (simp add: cur)
  show thesis
  proof (rule that)
    show "enum_removing P ap t = Some (xs, t')" using loop(1) t2(1) by (simp add: enum_removing_def)
    show "elements t = elements t' + filter_mset P (elements t)" using loop(7) unfolding xs t2(3) .
  qed (rule t2(2) xs)+
qed

section \<open>Properties\<close>

lemma calls_represent_init:
  assumes "\<And>k l. hasher_match h k l \<longleftrightarrow> k = l" and "HashTable_init ap n new_HashTable = (True, t)"
  obtains as t' m where "run_map_calls h cs t = Some (as, t')" and "length as = length cs"
    and "replay_calls (zip cs as) Map.empty = Some m" and "represents h t' m"
proof -
  have "represents h t Map.empty" using HashTable_init_ok [OF assms(2), of "MapHashPolicy h"] by (simp add: represents_def)
  then show thesis using equality_hasher.calls_represent [of h] assms(1) that unfolding equality_hasher_def by blast
qed

text \<open>For the examples: an empty table, and calls on keys that all have the same hash code.\<close>

abbreviation example_policy :: alloc_policy where
  "example_policy \<equiv> \<lparr>pod_calloc_ok = True, simulated_ok = True\<rparr>"

abbreviation same_hash :: "u32 hasher" where
  "same_hash \<equiv> \<lparr>hasher_hash = (\<lambda>k. 7), hasher_match = (=)\<rparr>"

definition example_table :: "(u32 \<times> char) HashTable" where
  "example_table = snd (HashTable_init example_policy 0 new_HashTable)"

definition example_calls :: "(u32, char) map_call list" where
  "example_calls =
     [Put (example_policy\<lparr>pod_calloc_ok := False\<rparr>) 1 CHR ''a'', Put example_policy 2 CHR ''b'', Remove example_policy 1]"

lemma example_init: "HashTable_init example_policy 0 new_HashTable = (True, example_table)"
  by (simp add: example_table_def HashTable_init_def sMaxInit_def sMinCapacity_def sMinCapacityLog2_def sMaxAlphaNumerator_def
      sAlphaDenominator_def createTable_def)

definition example_end :: "(u32 \<times> char) HashTable" where
  "example_end = snd (the (run_map_calls same_hash example_calls example_table))"

lemma example_end_eq:
  "\<exists>as. run_map_calls same_hash example_calls example_table = Some (as, example_end)"
  "table_ok (MapHashPolicy same_hash) example_end"
proof -
  obtain as t' m where "run_map_calls same_hash example_calls example_table = Some (as, t')" "represents same_hash t' m"
    by (rule calls_represent_init [of same_hash, OF _ example_init, of example_calls]) auto
  then show "\<exists>as. run_map_calls same_hash example_calls example_table = Some (as, example_end)"
    "table_ok (MapHashPolicy same_hash) example_end"
    by (simp_all add: example_end_def represents_def)
qed

text \<open>
  C29. \<open>HashMap\<close> is a finite map: on a table that \<open>init\<close> made, any script of \<open>get\<close>, \<open>has\<close>, \<open>put\<close>,
  \<open>lookupWithDefault\<close>, \<open>remove\<close>, \<open>rekeyAs\<close>, \<open>clear\<close> and \<open>count\<close> returns, whatever the hash function and whichever
  allocations fail on the way, and its answers are those of a map that starts empty. Only adding a key may report failure,
  and then the map is as before.
\<close>

theorem hashmap_scripts:
  assumes "\<And>k l. hasher_match h k l \<longleftrightarrow> k = l" and "HashTable_init ap n new_HashTable = (True, t)"
  shows "\<exists>as t' m. run_map_calls h cs t = Some (as, t') \<and> length as = length cs \<and> replay_calls (zip cs as) Map.empty = Some m"
  by (rule calls_represent_init [OF assms, of cs]) blast

lemma hashmap_scripts_witness:
  "\<exists>as t' m. run_map_calls same_hash example_calls example_table = Some (as, t') \<and>
    length as = length example_calls \<and> replay_calls (zip example_calls as) Map.empty = Some m"
  by (rule hashmap_scripts [OF _ example_init]) simp

text \<open>
  C32. After any script, as long as the capacity is below its maximum \<open>2\<^sup>3\<^sup>0\<close>, \<open>put\<close> succeeds when memory can be allocated,
  and \<open>get\<close> then returns the value.
\<close>

theorem put_succeeds:
  assumes "\<And>k l. hasher_match h k l \<longleftrightarrow> k = l" and "HashTable_init ap n new_HashTable = (True, t)"
    and "run_map_calls h cs t = Some (as, t')" and "HashTable_capacity t' < 2 ^ 30" and "pod_calloc_ok ap'" and "simulated_ok ap'"
  shows "\<exists>t''. HashMap_put h ap' k v t' = Some (True, t'') \<and> HashMap_get h k t'' = Some (Some v)"
proof -
  have eq: "equality_hasher h" using assms(1) by (simp add: equality_hasher_def)
  obtain as' t1 m where "run_map_calls h cs t = Some (as', t1)" "represents h t1 m"
    by (rule calls_represent_init [OF assms(1,2), of cs]) blast
  then have "represents h t' m" using assms(3) by simp
  then obtain added t'' where put: "HashMap_put h ap' k v t' = Some (added, t'')" "represents h t'' (if added then m(k \<mapsto> v) else m)"
      "\<not> added \<Longrightarrow> HashTable_capacity t' = 2 ^ 30"
    using equality_hasher.put_represents [OF eq] assms(5,6) by metis
  then have added using assms(4) by force
  then show ?thesis using put(1,2) equality_hasher.get_represents [OF eq, of t'' _ k] by simp
qed

lemma put_succeeds_witness:
  "\<exists>t''. HashMap_put same_hash example_policy 5 CHR ''z'' (HashTable_clear example_table) = Some (True, t'') \<and>
    HashMap_get same_hash 5 t'' = Some (Some CHR ''z'')"
proof (rule put_succeeds [OF _ example_init])
  show "run_map_calls same_hash [Clear, Count] example_table =
      Some ([Nothing, Number_of (entryCount (HashTable_clear example_table))], HashTable_clear example_table)" by simp
  show "HashTable_capacity (HashTable_clear example_table) < 2 ^ 30"
    by (simp add: example_table_def HashTable_init_def sMaxInit_def sMinCapacity_def sMinCapacityLog2_def sMaxAlphaNumerator_def
        sAlphaDenominator_def createTable_def HashTable_clear_def HashTable_capacity_def setTableSizeLog2_def sHashBits_def)
qed simp_all

text \<open>
  C33. After any script, live and removed entries together fill at most three quarters of the store, whose size is a power of
  two from 4 to \<open>2\<^sup>3\<^sup>0\<close>; so an entry is free and every probe sequence ends. \<open>entryCount\<close> and \<open>removedCount\<close> are exact.
\<close>

theorem hashmap_load:
  assumes "\<And>k l. hasher_match h k l \<longleftrightarrow> k = l" and "HashTable_init ap n new_HashTable = (True, t)"
    and "run_map_calls h cs t = Some (as, t')"
  shows "entryCount t' + removedCount t' \<le> HashTable_capacity t' * 3 div 4 \<and> length (entry_table t') = HashTable_capacity t' \<and>
    (\<exists>j. 2 \<le> j \<and> j \<le> 30 \<and> HashTable_capacity t' = 2 ^ j) \<and> (\<exists>e \<in> set (entry_table t'). isFree e) \<and>
    entryCount t' = length (filter isLive (entry_table t')) \<and> removedCount t' = length (filter isRemoved (entry_table t'))"
proof -
  obtain as' t1 m where "run_map_calls h cs t = Some (as', t1)" "represents h t1 m"
    by (rule calls_represent_init [OF assms(1,2), of cs]) blast
  then have ok: "table_ok (MapHashPolicy h) t'" using assms(3) by (simp add: represents_def)
  note wfs = table_wfD [OF ok [THEN conjunct1]]
  have j: "2 \<le> 32 - hash_shift t'" "32 - hash_shift t' \<le> 30" using wfs(1) by arith+
  obtain i where "i < length (entry_table t')" "isFree (entry_table t' ! i)" by (rule table_ok_free [OF ok])
  then have "\<exists>e \<in> set (entry_table t'). isFree e" using nth_mem by blast
  then show ?thesis using ok wfs(2,4,5) j by (auto simp: load_ok_def capacity_slots size_contents)
qed

lemma hashmap_load_witness:
  "entryCount example_end + removedCount example_end \<le> HashTable_capacity example_end * 3 div 4 \<and>
    length (entry_table example_end) = HashTable_capacity example_end \<and>
    (\<exists>j. 2 \<le> j \<and> j \<le> 30 \<and> HashTable_capacity example_end = 2 ^ j) \<and> (\<exists>e \<in> set (entry_table example_end). isFree e) \<and>
    entryCount example_end = length (filter isLive (entry_table example_end)) \<and>
    removedCount example_end = length (filter isRemoved (entry_table example_end))"
proof -
  obtain as where "run_map_calls same_hash example_calls example_table = Some (as, example_end)" using example_end_eq(1) by blast
  then show ?thesis by (rule hashmap_load [OF _ example_init, rotated]) simp
qed

text \<open>
  C31. \<open>rehashTableInPlace\<close> returns: it keeps the elements and the size, leaves no removed entry, and every element is found
  again by the probe sequence of its key.
\<close>

theorem rehash_in_place:
  assumes "table_wf pol t"
  shows "\<exists>t'. rehashTableInPlace t = Some t' \<and> table_wf pol t' \<and> elements t' = elements t \<and> removedCount t' = 0 \<and>
    HashTable_capacity t' = HashTable_capacity t"
  by (rule rehashTableInPlace_ok [OF assms]) (auto simp: capacity_slots)

lemma rehash_in_place_witness:
  "\<exists>t'. rehashTableInPlace example_end = Some t' \<and> table_wf (MapHashPolicy same_hash) t' \<and> elements t' = elements example_end \<and>
    removedCount t' = 0 \<and> HashTable_capacity t' = HashTable_capacity example_end"
  by (rule rehash_in_place [OF example_end_eq(2) [THEN conjunct1]])

text \<open>
  C30. An enumeration that removes the elements that satisfy \<open>P\<close> returns, meets every element of the table once, and leaves
  those that do not satisfy \<open>P\<close>, also when the destructor shrinks the table, or fails to.
\<close>

theorem enum_removes:
  assumes "table_ok pol t"
  shows "\<exists>xs t'. enum_removing P ap t = Some (xs, t') \<and> table_ok pol t' \<and> mset xs = elements t \<and>
    elements t' = filter_mset (\<lambda>x. \<not> P x) (elements t)"
proof -
  obtain xs t' where "enum_removing P ap t = Some (xs, t')" "table_ok pol t'" "mset xs = elements t"
      "elements t = elements t' + filter_mset P (elements t)"
    by (rule enum_removing_ok [OF assms, of P ap])
  moreover have "filter_mset P (elements t) + filter_mset (\<lambda>x. \<not> P x) (elements t) = elements t" by (rule multiset_partition [symmetric])
  ultimately show ?thesis by (metis add.commute add_right_cancel)
qed

lemma enum_removes_witness:
  "\<exists>xs t'. enum_removing (\<lambda>x. snd x = CHR ''b'') example_policy example_end = Some (xs, t') \<and>
    table_ok (MapHashPolicy same_hash) t' \<and> mset xs = elements example_end \<and>
    elements t' = filter_mset (\<lambda>x. \<not> snd x = CHR ''b'') (elements example_end)"
  by (rule enum_removes [OF example_end_eq(2)])

end
