(* ===== verification/UriCoding.thy ===== *)
theory UriCoding
  imports JsonParser CharacterEncoding
begin

text \<open>
  The global string functions of \<open>js/src/jsstr.cpp\<close>: \<open>escape\<close>, \<open>unescape\<close>, \<open>encodeURI\<close>, \<open>decodeURI\<close> and their
  \<open>Component\<close> variants, on the code units of the argument; the copies for Latin-1 and two-byte strings are one.

  \<^item> A \<open>StringBuffer\<close> is the list of what was appended. Whether it can grow to a length is the argument of type
    \<open>room\<close>.
  \<^item> The block \<open>Escape\<close> allocates comes from \<open>pod_malloc\<close>, an argument, with unknown contents; writes to it are checked
    against its length.
\<close>

section \<open>String buffers\<close>

type_synonym room = "nat \<Rightarrow> bool"

definition sb_append :: "room \<Rightarrow> u16 list \<Rightarrow> u16 list \<Rightarrow> u16 list option" where
  "sb_append room buf chars = (if room (length buf + length chars) then Some (buf @ chars) else None)"

definition HexDigits :: "u16 list" where
  "HexDigits = u16s ''0123456789ABCDEF''"

section \<open>escape\<close>

definition shouldPassThrough :: "u16 \<Rightarrow> bool" where
  "shouldPassThrough ch \<longleftrightarrow>
     ch = 0x2A \<or> ch = 0x2B \<or> (0x2D \<le> ch \<and> ch \<le> 0x39) \<or> (0x40 \<le> ch \<and> ch \<le> 0x5A) \<or> ch = 0x5F \<or> (0x61 \<le> ch \<and> ch \<le> 0x7A)"

text \<open>The first pass.\<close>

fun escaped_length :: "u16 list \<Rightarrow> nat \<Rightarrow> nat" where
  "escaped_length [] newLength = newLength"
| "escaped_length (ch # chars) newLength =
     (if ch < 128 \<and> shouldPassThrough ch then escaped_length chars newLength
      else escaped_length chars (newLength + (if ch < 256 then 2 else 5)))"

definition write_all :: "u16 list \<Rightarrow> nat \<Rightarrow> u16 list \<Rightarrow> (u16 list \<times> nat) option" where
  "write_all newChars ni chars =
     foldl (\<lambda>r c. do { (newChars, ni) \<leftarrow> r; newChars \<leftarrow> wr newChars ni c; Some (newChars, ni + 1) }) (Some (newChars, ni)) chars"

definition hex_digit :: "u16 \<Rightarrow> u16" where
  "hex_digit d = HexDigits ! unat d"

definition escape_unit :: "u16 \<Rightarrow> u16 list" where
  "escape_unit ch =
     (if ch < 128 \<and> shouldPassThrough ch then [ch]
      else if ch < 256 then [ascii_u16 CHR ''%'', hex_digit (drop_bit 4 ch), hex_digit (ch AND 0xF)]
      else [ascii_u16 CHR ''%'', ascii_u16 CHR ''u'', hex_digit (drop_bit 12 ch), hex_digit (drop_bit 8 (ch AND 0xF00)),
            hex_digit (drop_bit 4 (ch AND 0xF0)), hex_digit (ch AND 0xF)])"

text \<open>The second pass.\<close>

fun escape_loop :: "u16 list \<Rightarrow> u16 list \<Rightarrow> nat \<Rightarrow> (u16 list \<times> nat) option" where
  "escape_loop [] newChars ni = Some (newChars, ni)"
| "escape_loop (ch # chars) newChars ni =
     do { (newChars, ni) \<leftarrow> write_all newChars ni (escape_unit ch); escape_loop chars newChars ni }"

text \<open>\<open>Escape\<close>: a write past the block is \<open>None\<close>, a failed allocation \<open>Some None\<close>; else the block and \<open>*newLengthOut\<close>.\<close>

definition Escape :: "(nat \<Rightarrow> u16 list option) \<Rightarrow> u16 list \<Rightarrow> (u16 list \<times> nat) option option" where
  "Escape pod_malloc chars =
     (let newLength = escaped_length chars (length chars)
      in case pod_malloc (newLength + 1) of
           None \<Rightarrow> Some None
         | Some newChars \<Rightarrow>
             do { (newChars, ni) \<leftarrow> escape_loop chars newChars 0;
                  newChars \<leftarrow> wr newChars newLength 0;
                  Some (Some (newChars, newLength)) })"

text \<open>\<open>NewString(cx, newChars.get(), newLength)\<close> takes the first \<open>newLength\<close> units.\<close>

definition str_escape :: "(nat \<Rightarrow> u16 list option) \<Rightarrow> u16 list \<Rightarrow> u16 list option option" where
  "str_escape pod_malloc str = map_option (map_option (\<lambda>(newChars, newLength). take newLength newChars)) (Escape pod_malloc str)"

section \<open>unescape\<close>

definition Unhex4 :: "u16 list \<Rightarrow> u16 option" where
  "Unhex4 chars =
     (let a = chars ! 0; b = chars ! 1; c = chars ! 2; d = chars ! 3
      in if \<not> (JS7_ISHEX a \<and> JS7_ISHEX b \<and> JS7_ISHEX c \<and> JS7_ISHEX d) then None
         else Some (push_bit 4 (push_bit 4 (push_bit 4 (JS7_UNHEX a) + JS7_UNHEX b) + JS7_UNHEX c) + JS7_UNHEX d))"

definition Unhex2 :: "u16 list \<Rightarrow> u16 option" where
  "Unhex2 chars =
     (let a = chars ! 0; b = chars ! 1
      in if \<not> (JS7_ISHEX a \<and> JS7_ISHEX b) then None else Some (push_bit 4 (JS7_UNHEX a) + JS7_UNHEX b))"

text \<open>Steps 7 to 17: the unit to append and how far \<open>k\<close> moves before step 19, and whether an escape was read.\<close>

definition unescape_at :: "u16 list \<Rightarrow> nat \<Rightarrow> u16 \<times> nat \<times> bool" where
  "unescape_at chars k =
     (let c = chars ! k;
          step_14 =
            (if length chars < k + 3 then (c, k, False)
             else case Unhex2 (drop (k + 1) chars) of None \<Rightarrow> (c, k, False) | Some c \<Rightarrow> (c, k + 2, True))
      in if c \<noteq> ascii_u16 CHR ''%'' then (c, k, False)
         else if length chars < k + 6 then step_14
         else if chars ! (k + 1) \<noteq> ascii_u16 CHR ''u'' then step_14
         else case Unhex4 (drop (k + 2) chars) of None \<Rightarrow> step_14 | Some c \<Rightarrow> (c, k + 5, True))"

text \<open>The loop; \<open>None\<close> is a failed \<open>reserve\<close> or \<open>append\<close>. The macro \<open>ENSURE_BUILDING\<close> copies what precedes the first escape.\<close>

lemma unescape_at_ge: "unescape_at chars k = (c, k', escaped) \<Longrightarrow> k \<le> k'"
  by (auto simp: unescape_at_def Let_def split: if_splits option.splits)

function Unescape :: "room \<Rightarrow> u16 list \<Rightarrow> nat \<Rightarrow> bool \<Rightarrow> u16 list \<Rightarrow> (bool \<times> u16 list) option" where
  "Unescape room chars k building buf =
     (if length chars \<le> k then Some (building, buf)
      else
        case unescape_at chars k of
          (c, k', escaped) \<Rightarrow>
            (if escaped \<and> \<not> building \<and> \<not> room (length chars) then None
             else
               let buf = (if escaped \<and> \<not> building then take k chars else buf);
                   building = (building \<or> escaped)
               in if building
                  then (case sb_append room buf [c] of None \<Rightarrow> None | Some buf \<Rightarrow> Unescape room chars (k' + 1) building buf)
                  else Unescape room chars (k' + 1) building buf))"
  by pat_completeness auto
termination
  by (relation "measure (\<lambda>(room, chars, k, building, buf). length chars - k)") (auto dest: unescape_at_ge [OF sym])

declare Unescape.simps [simp del]

definition str_unescape :: "room \<Rightarrow> u16 list \<Rightarrow> u16 list option" where
  "str_unescape room str =
     do { (building, buf) \<leftarrow> Unescape room str 0 False []; Some (if buf \<noteq> [] then buf else str) }"

section \<open>Encode\<close>

definition js_isUriReservedPlusPound :: "u16 \<Rightarrow> bool" where
  "js_isUriReservedPlusPound c \<longleftrightarrow>
     c = 35 \<or> c = 36 \<or> c = 38 \<or> c = 43 \<or> c = 44 \<or> c = 47 \<or> c = 58 \<or> c = 59 \<or> c = 61 \<or> c = 63 \<or> c = 64"

definition js_isUriUnescaped :: "u16 \<Rightarrow> bool" where
  "js_isUriUnescaped c \<longleftrightarrow>
     c = 33 \<or> (39 \<le> c \<and> c \<le> 42) \<or> c = 45 \<or> c = 46 \<or> (48 \<le> c \<and> c \<le> 57) \<or> (65 \<le> c \<and> c \<le> 90) \<or> c = 95 \<or>
     (97 \<le> c \<and> c \<le> 122) \<or> c = 126"

definition IsLeadSurrogate :: "u16 \<Rightarrow> bool" where
  "IsLeadSurrogate c \<longleftrightarrow> 0xD800 \<le> c \<and> c \<le> 0xDBFF"

definition IsTrailSurrogate :: "u16 \<Rightarrow> bool" where
  "IsTrailSurrogate c \<longleftrightarrow> 0xDC00 \<le> c \<and> c \<le> 0xDFFF"

definition UTF16Decode :: "u16 \<Rightarrow> u16 \<Rightarrow> u32" where
  "UTF16Decode lead trail = push_bit 10 (ucast lead) + ucast trail + (0x10000 - push_bit 10 0xD800 - 0xDC00)"

definition LeadSurrogate :: "u32 \<Rightarrow> u16" where
  "LeadSurrogate codePoint = ucast (drop_bit 10 codePoint + (0xD800 - drop_bit 10 0x10000))"

definition TrailSurrogate :: "u32 \<Rightarrow> u16" where
  "TrailSurrogate codePoint = ucast ((codePoint AND 0x3FF) OR 0xDC00)"

datatype EncodeResult = Encode_Failure | Encode_BadUri | Encode_Success

text \<open>The loop over the bytes of a code point.\<close>

definition hex_bytes :: "u8 \<Rightarrow> u16 list" where
  "hex_bytes b = [ascii_u16 CHR ''%'', hex_digit (ucast (drop_bit 4 b)), hex_digit (ucast (b AND 0xF))]"

fun append_bytes :: "room \<Rightarrow> u8 list \<Rightarrow> u16 list \<Rightarrow> u16 list option" where
  "append_bytes room [] buf = Some buf"
| "append_bytes room (b # utf8buf) buf = do { buf \<leftarrow> sb_append room buf (hex_bytes b); append_bytes room utf8buf buf }"

definition utf8_bytes :: "u32 \<Rightarrow> u8 list" where
  "utf8_bytes v = (let (utf8buf, L) = OneUcs4ToUtf8Char [0, 0, 0, 0] v in take L utf8buf)"

fun Encode :: "room \<Rightarrow> (u16 \<Rightarrow> bool) \<Rightarrow> (u16 \<Rightarrow> bool) option \<Rightarrow> u16 list \<Rightarrow> u16 list \<Rightarrow> EncodeResult \<times> u16 list" where
  "Encode room unescapedSet unescapedSet2 [] buf = (Encode_Success, buf)"
| "Encode room unescapedSet unescapedSet2 (c # chars) buf =
     (if c < 128 \<and> (unescapedSet c \<or> (case unescapedSet2 of None \<Rightarrow> False | Some S \<Rightarrow> S c))
      then (case sb_append room buf [c] of
              None \<Rightarrow> (Encode_Failure, buf)
            | Some buf \<Rightarrow> Encode room unescapedSet unescapedSet2 chars buf)
      else if IsTrailSurrogate c then (Encode_BadUri, buf)
      else if \<not> IsLeadSurrogate c
      then (case append_bytes room (utf8_bytes (ucast c)) buf of
              None \<Rightarrow> (Encode_Failure, buf)
            | Some buf \<Rightarrow> Encode room unescapedSet unescapedSet2 chars buf)
      else
        (case chars of
           [] \<Rightarrow> (Encode_BadUri, buf)
         | c2 # chars' \<Rightarrow>
             if \<not> IsTrailSurrogate c2 then (Encode_BadUri, buf)
             else (case append_bytes room (utf8_bytes (UTF16Decode c c2)) buf of
                     None \<Rightarrow> (Encode_Failure, buf)
                   | Some buf \<Rightarrow> Encode room unescapedSet unescapedSet2 chars' buf)))"

text \<open>The function around it and the four natives. \<open>Inl\<close> is an exception: out of memory or a malformed URI.\<close>

datatype uri_error = OutOfMemory | MalformedUri

definition Encode_string :: "room \<Rightarrow> u16 list \<Rightarrow> (u16 \<Rightarrow> bool) \<Rightarrow> (u16 \<Rightarrow> bool) option \<Rightarrow> uri_error + u16 list" where
  "Encode_string room str unescapedSet unescapedSet2 =
     (if length str = 0 then Inr []
      else if \<not> room (length str) then Inl OutOfMemory
      else case Encode room unescapedSet unescapedSet2 str [] of
             (Encode_Failure, buf) \<Rightarrow> Inl OutOfMemory
           | (Encode_BadUri, buf) \<Rightarrow> Inl MalformedUri
           | (Encode_Success, buf) \<Rightarrow> Inr buf)"

section \<open>Decode\<close>

datatype DecodeResult = Decode_Failure | Decode_BadUri | Decode_Success

text \<open>
  The loop over the continuation bytes; \<open>rest\<close> starts after the last digit read. The test before the loop makes the
  characters it reads exist.
\<close>

fun read_octets :: "nat \<Rightarrow> u16 list \<Rightarrow> u8 list \<Rightarrow> (u8 list \<times> u16 list) option" where
  "read_octets 0 rest octets = Some (octets, rest)"
| "read_octets (Suc n) rest octets =
     (case rest of
        p # d # e # rest' \<Rightarrow>
          if p \<noteq> ascii_u16 CHR ''%'' then None
          else if \<not> JS7_ISHEX d \<or> \<not> JS7_ISHEX e then None
          else let B = ucast (JS7_UNHEX d) * 16 + ucast (JS7_UNHEX e) :: u32
               in if B AND 0xC0 \<noteq> 0x80 then None else read_octets n rest' (octets @ [ucast B])
      | _ \<Rightarrow> None)"

text \<open>
  What follows a \<open>%\<close>: the lead surrogate to append first, if any, the unit \<open>c\<close>, and the characters after the escape;
  \<open>None\<close> is \<open>Decode_BadUri\<close>.
\<close>

definition decode_escape :: "u16 list \<Rightarrow> (u16 list \<times> u16 \<times> u16 list) option" where
  "decode_escape rest =
     (case rest of
        d # e # rest' \<Rightarrow>
          if \<not> JS7_ISHEX d \<or> \<not> JS7_ISHEX e then None
          else
            let B = ucast (JS7_UNHEX d) * 16 + ucast (JS7_UNHEX e) :: u32
            in if B AND 0x80 = 0 then Some ([], ucast B, rest')
               else
                 let n = lead_ones B 1
                 in if n = 1 \<or> 4 < n then None
                    else if length rest' < 3 * (n - 1) then None
                    else
                      do { (octets, rest') \<leftarrow> read_octets (n - 1) rest' [ucast B];
                           let v = Utf8ToOneUcs4Char octets n;
                           if 0x10000 \<le> v then
                             if 0x10FFFF < v then None else Some ([LeadSurrogate v], TrailSurrogate v, rest')
                           else Some ([], ucast v, rest') }
      | _ \<Rightarrow> None)"

lemma read_octets_rest: "read_octets n rest octets = Some (os, rest') \<Longrightarrow> length rest' \<le> length rest"
proof (induction n arbitrary: rest octets)
  case (Suc n)
  from Suc.prems show ?case by (auto simp: Let_def split: list.splits if_splits dest!: Suc.IH)
qed simp

lemma decode_escape_rest: "decode_escape rest = Some (lead, c, rest') \<Longrightarrow> length rest' < length rest"
  by (auto simp: decode_escape_def Let_def bind_eq_Some_conv split: list.splits if_splits dest: read_octets_rest)

function Decode :: "room \<Rightarrow> (u16 \<Rightarrow> bool) option \<Rightarrow> u16 list \<Rightarrow> u16 list \<Rightarrow> DecodeResult \<times> u16 list" where
  "Decode room reservedSet [] buf = (Decode_Success, buf)"
| "Decode room reservedSet (c # rest) buf =
     (if c \<noteq> ascii_u16 CHR ''%''
      then (case sb_append room buf [c] of None \<Rightarrow> (Decode_Failure, buf) | Some buf \<Rightarrow> Decode room reservedSet rest buf)
      else
        case decode_escape rest of
          None \<Rightarrow> (Decode_BadUri, buf)
        | Some (lead, d, rest') \<Rightarrow>
            (case (if lead = [] then Some buf else sb_append room buf lead) of
               None \<Rightarrow> (Decode_Failure, buf)
             | Some buf \<Rightarrow>
                 (case (if d < 128 \<and> (case reservedSet of None \<Rightarrow> False | Some R \<Rightarrow> R d)
                        then sb_append room buf (take (length (c # rest) - length rest') (c # rest))
                        else sb_append room buf [d]) of
                    None \<Rightarrow> (Decode_Failure, buf)
                  | Some buf \<Rightarrow> Decode room reservedSet rest' buf)))"
  by pat_completeness auto
termination
  by (relation "measure (\<lambda>(room, reservedSet, chars, buf). length chars)") (auto dest: decode_escape_rest)

definition Decode_string :: "room \<Rightarrow> u16 list \<Rightarrow> (u16 \<Rightarrow> bool) option \<Rightarrow> uri_error + u16 list" where
  "Decode_string room str reservedSet =
     (if length str = 0 then Inr []
      else case Decode room reservedSet str [] of
             (Decode_Failure, buf) \<Rightarrow> Inl OutOfMemory
           | (Decode_BadUri, buf) \<Rightarrow> Inl MalformedUri
           | (Decode_Success, buf) \<Rightarrow> Inr buf)"

definition str_decodeURI :: "room \<Rightarrow> u16 list \<Rightarrow> uri_error + u16 list" where
  "str_decodeURI room str = Decode_string room str (Some js_isUriReservedPlusPound)"

definition str_decodeURI_Component :: "room \<Rightarrow> u16 list \<Rightarrow> uri_error + u16 list" where
  "str_decodeURI_Component room str = Decode_string room str None"

definition str_encodeURI :: "room \<Rightarrow> u16 list \<Rightarrow> uri_error + u16 list" where
  "str_encodeURI room str = Encode_string room str js_isUriUnescaped (Some js_isUriReservedPlusPound)"

definition str_encodeURI_Component :: "room \<Rightarrow> u16 list \<Rightarrow> uri_error + u16 list" where
  "str_encodeURI_Component room str = Encode_string room str js_isUriUnescaped None"

end
