(* ===== verification/UriCodingCorrect.thy ===== *)
theory UriCodingCorrect
  imports UriCoding CharacterEncodingCorrect
begin

text \<open>
  \<open>decodeURI\<close> undoes \<open>encodeURI\<close>, also for the \<open>Component\<close> variants; encoding fails exactly on lone surrogates.
  \<open>unescape\<close> undoes \<open>escape\<close>, whose first pass computes the length the second fills.
\<close>

section \<open>Hexadecimal digits\<close>

lemma digit_cases:
  assumes "unat (d :: u16) < 16"
  shows "d \<in> set [0, 1, 2, 3, 4, 5, 6, 7, 8, 9, 10, 11, 12, 13, 14, 15]"
proof -
  have "unat d \<in> {0, 1, 2, 3, 4, 5, 6, 7, 8, 9, 10, 11, 12, 13, 14, 15}" using assms by simp presburger
  then show ?thesis by (auto simp: word_unat_eq_iff)
qed

lemma byte_less: "unat (b :: u8) < 256"
  using unsigned_less [of b] by simp

lemma unat_byte_u16: "unat (ucast (b :: u8) :: u16) = unat b"
  by (simp add: unsigned_ucast_eq take_bit_nat_eq_self order_less_trans [OF unsigned_less])

lemma hex_digit_facts:
  assumes "unat d < 16"
  shows "JS7_ISHEX (hex_digit d)" and "JS7_UNHEX (hex_digit d) = d" and "hex_digit d < 128"
    and "hex_digit d \<noteq> ascii_u16 CHR ''%''" and "hex_digit d \<noteq> ascii_u16 CHR ''u''"
proof -
  have "\<forall>d \<in> set [0, 1, 2, 3, 4, 5, 6, 7, 8, 9, 10, 11, 12, 13, 14, 15]. JS7_ISHEX (hex_digit d) \<and> JS7_UNHEX (hex_digit d) = d \<and>
      hex_digit d < 128 \<and> hex_digit d \<noteq> ascii_u16 CHR ''%'' \<and> hex_digit d \<noteq> ascii_u16 CHR ''u''"
    by code_simp
  then show "JS7_ISHEX (hex_digit d)" "JS7_UNHEX (hex_digit d) = d" "hex_digit d < 128"
    "hex_digit d \<noteq> ascii_u16 CHR ''%''" "hex_digit d \<noteq> ascii_u16 CHR ''u''"
    using digit_cases [OF assms] by blast+
qed

lemma unat_and_F: "unat (w AND 0xF :: 'a::len word) = unat w mod 16"
  using unat_and_mask [of w 4] by (simp add: mask_eq_exp_minus_1)

section \<open>One byte\<close>

lemma byte_digits:
  "unat (ucast (drop_bit 4 b :: u8) :: u16) = unat b div 16" "unat (ucast (b AND 0xF :: u8) :: u16) = unat b mod 16"
  "unat (b :: u8) div 16 < 16" "unat b mod 16 < 16"
proof -
  show "unat (ucast (drop_bit 4 b :: u8) :: u16) = unat b div 16" "unat (ucast (b AND 0xF :: u8) :: u16) = unat b mod 16"
    unfolding unat_byte_u16 unat_and_F unat_drop by simp_all
  show "unat b div 16 < 16" "unat b mod 16 < 16" using unsigned_less [of b] by (simp_all add: div_less_iff_less_mult)
qed

lemma read_byte:
  fixes b :: u8
  defines "hi \<equiv> hex_digit (ucast (drop_bit 4 b))" and "lo \<equiv> hex_digit (ucast (b AND 0xF))"
  shows "JS7_ISHEX hi" "JS7_ISHEX lo" "ucast (JS7_UNHEX hi) * 16 + ucast (JS7_UNHEX lo) = (ucast b :: u32)"
proof -
  have lt: "unat (ucast (drop_bit 4 b) :: u16) < 16" "unat (ucast (b AND 0xF) :: u16) < 16" by (simp_all only: byte_digits)
  show "JS7_ISHEX hi" "JS7_ISHEX lo" unfolding hi_def lo_def using hex_digit_facts(1) lt by blast+
  have b: "(unat b div 16 * 16 mod 4294967296 + unat b mod 16) mod 4294967296 = unat b"
    using div_mult_mod_eq [of "unat b" 16] byte_less [of b] by simp
  have "unat (ucast (x :: u16) :: u32) = unat x" for x by (rule unat_ucast_u16)
  then show "ucast (JS7_UNHEX hi) * 16 + ucast (JS7_UNHEX lo) = (ucast b :: u32)"
    unfolding hi_def lo_def hex_digit_facts(2) [OF lt(1)] hex_digit_facts(2) [OF lt(2)] word_unat_eq_iff unat_word_ariths
    using b by (simp add: byte_digits unat_ucast_u32 del: unsigned_ucast_eq)
qed

section \<open>One code point\<close>

abbreviation hex_text :: "u8 list \<Rightarrow> u16 list" where
  "hex_text bs \<equiv> concat (map hex_bytes bs)"

lemma append_bytes_room: "append_bytes (\<lambda>_. True) bs buf = Some (buf @ hex_text bs)"
  by (induction bs arbitrary: buf) (simp_all add: sb_append_def)

lemma utf8_bytes_eq: "utf8_bytes v = code_point_bytes v"
  by (simp add: utf8_bytes_def code_point_bytes_def OneUcs4ToUtf8Char_def)

lemma read_octets_hex:
  "\<forall>b \<in> set bs. b AND 0xC0 = 0x80 \<Longrightarrow> read_octets (length bs) (hex_text bs @ rest) os = Some (os @ bs, rest)"
proof (induction bs arbitrary: os)
  case (Cons b bs)
  have "(ucast b AND 0xC0 :: u32) = 0x80"
  proof -
    have "(ucast (b AND 0xC0) :: u32) = ucast (0x80 :: u8)" using Cons.prems by simp
    then show ?thesis by (simp add: unsigned_and_eq)
  qed
  moreover have "(ucast (ucast b :: u32) :: u8) = b"
    unfolding word_unat_eq_iff unat_ucast_u8 unat_ucast_u32 using byte_less [of b] by simp
  ultimately show ?case using Cons read_byte [of b] by (simp add: hex_bytes_def Let_def)
qed simp

lemma utf8_decodes:
  assumes v: "scalar (unat v)" "0x80 \<le> unat v"
  obtains b bs where "code_point_bytes v = b # bs" and "\<forall>b \<in> set bs. b AND 0xC0 = 0x80" and "ucast b AND 0x80 \<noteq> (0 :: u32)"
    and "lead_ones (ucast b) 1 = length bs + 1" and "1 \<le> length bs" and "length bs \<le> 3"
    and "Utf8ToOneUcs4Char (b # bs) (length bs + 1) = v"
proof -
  have spec: "map unat (code_point_bytes v) = utf8_spec (unat v)"
    using v by (intro code_point_bytes_spec) (simp add: scalar_def)
  have high: "ucast b AND 0x80 \<noteq> (0 :: u32)" if "128 \<le> unat (b :: u8)" for b
  proof -
    have "(ucast (b AND 0x80) :: u32) = ucast b AND 0x80" by (simp add: unsigned_and_eq)
    moreover have "(ucast (b AND 0x80) :: u32) \<noteq> 0" using that byte_and_80 [of b] by (simp add: word_unat_eq_iff unat_ucast_u32 del: unsigned_ucast_eq)
    ultimately show ?thesis by simp
  qed
  consider (2) "unat v < 0x800" | (3) "0x800 \<le> unat v" "unat v < 0x10000" | (4) "0x10000 \<le> unat v"
    by linarith
  then show thesis
  proof cases
    case 2
    obtain p q where d: "unat v div 64 = p" "unat v mod 64 = q" "q < 64" "unat v = p * 64 + q"
      by (rule base64_2 [of "unat v"])
    obtain b0 b1 where bs: "code_point_bytes v = [b0, b1]" and u: "unat b0 = 192 + p" "unat b1 = 128 + q"
      using spec 2 v d(1,2) by (auto simp: map_eq_Cons_conv)
    have pq: "2 \<le> p" "p < 32" using 2 v d(3,4) by linarith+
    note c = continuation_ok [OF u(2) d(3)]
    have "Utf8ToOneUcs4Char (b0 # [b1]) 2 = v"
      unfolding word_unat_eq_iff Utf8ToOneUcs4Char_unat u(1) c lead_byte_mod(1) [OF pq(2)] d(4) using pq d(3) by (simp add: ucs4_result_def)
    moreover have "lead_ones (ucast b0) 1 = 2" using u pq by (intro lead_ones_byte) simp_all
    moreover have len: "length [b1] + 1 = 2" by simp
    ultimately show thesis using that [OF bs, unfolded len] c high [of b0] u(1) by simp
  next
    case 3
    obtain p q r where d: "unat v div 4096 = p" "unat v div 64 mod 64 = q" "unat v mod 64 = r"
      "q < 64" "r < 64" "unat v = p * 4096 + q * 64 + r"
      by (rule base64_3 [of "unat v"])
    obtain b0 b1 b2 where bs: "code_point_bytes v = [b0, b1, b2]"
      and u: "unat b0 = 224 + p" "unat b1 = 128 + q" "unat b2 = 128 + r"
      using spec 3 d(1-3) by (auto simp: map_eq_Cons_conv)
    have p: "p < 16" using 3 d(4-6) by linarith
    note c = continuation_ok [OF u(2) d(4)] continuation_ok [OF u(3) d(5)]
    have "Utf8ToOneUcs4Char (b0 # [b1, b2]) 3 = v"
      unfolding word_unat_eq_iff Utf8ToOneUcs4Char_unat u(1) c lead_byte_mod(2) [OF p] d(6) [symmetric]
      using v 3 by (auto simp: ucs4_result_def scalar_def)
    moreover have "lead_ones (ucast b0) 1 = 3" using u p by (intro lead_ones_byte) simp_all
    moreover have len: "length [b1, b2] + 1 = 3" by simp
    ultimately show thesis using that [OF bs, unfolded len] c high [of b0] u(1) by simp
  next
    case 4
    obtain p q r t where d: "unat v div 262144 = p" "unat v div 4096 mod 64 = q"
      "unat v div 64 mod 64 = r" "unat v mod 64 = t"
      "q < 64" "r < 64" "t < 64" "unat v = p * 262144 + q * 4096 + r * 64 + t"
      by (rule base64_4 [of "unat v"])
    obtain b0 b1 b2 b3 where bs: "code_point_bytes v = [b0, b1, b2, b3]"
      and u: "unat b0 = 240 + p" "unat b1 = 128 + q" "unat b2 = 128 + r" "unat b3 = 128 + t"
      using spec 4 d(1-4) by (auto simp: map_eq_Cons_conv)
    have p: "p < 8" using v(1) d(8) by (simp add: scalar_def)
    note c = continuation_ok [OF u(2) d(5)] continuation_ok [OF u(3) d(6)] continuation_ok [OF u(4) d(7)]
    have "Utf8ToOneUcs4Char (b0 # [b1, b2, b3]) 4 = v"
      unfolding word_unat_eq_iff Utf8ToOneUcs4Char_unat u(1) c lead_byte_mod(3) [OF p] d(8) [symmetric]
      using v 4 by (auto simp: ucs4_result_def scalar_def)
    moreover have "lead_ones (ucast b0) 1 = 4" using u p by (intro lead_ones_byte) simp_all
    moreover have len: "length [b1, b2, b3] + 1 = 4" by simp
    ultimately show thesis using that [OF bs, unfolded len] c high [of b0] u(1) by simp
  qed
qed

text \<open>The surrogates of \<open>Unicode.h\<close> are those of the UTF-8 conversions.\<close>

lemma surrogates:
  "surrogate c \<longleftrightarrow> IsLeadSurrogate c \<or> IsTrailSurrogate c" "surrogate_pair c d \<longleftrightarrow> IsLeadSurrogate c \<and> IsTrailSurrogate d"
  "IsLeadSurrogate c \<Longrightarrow> \<not> IsTrailSurrogate c" "c < 128 \<Longrightarrow> \<not> surrogate c"
  by (auto simp: surrogate_def surrogate_pair_def IsLeadSurrogate_def IsTrailSurrogate_def u16_nat)

lemma UTF16Decode_eq: "UTF16Decode c d = join_surrogates c d"
  by (simp add: UTF16Decode_def join_surrogates_def push_bit_eq_mult algebra_simps)

lemma surrogates_of:
  assumes "scalar (unat v)" and "0x10000 \<le> v"
  shows "[LeadSurrogate v, TrailSurrogate v] = code_units_of Char16 v" and "\<not> TrailSurrogate v < 128"
proof -
  have v: "65536 \<le> unat v" "unat v < 0x110000" using assms by (simp_all add: word_le_nat_alt scalar_def)
  let ?w = "v - 0x10000"
  have w: "unat ?w = unat v - 65536" using v by (simp add: unat_sub word_le_nat_alt)
  obtain x where x: "unat v = 65536 + x" using v(1) le_Suc_ex by blast
  have nat: "unat v div 1024 = (unat v - 65536) div 1024 + 64" "unat v mod 1024 = (unat v - 65536) mod 1024"
    using div_mult_self3 [of 1024 64 x] mod_mult_self3 [of 64 1024 x] unfolding x by simp_all
  have hi: "unat (drop_bit 10 v) = unat (drop_bit 10 ?w) + 64" unfolding unat_drop w using nat(1) by simp
  have "drop_bit 10 v + (0xD800 - drop_bit 10 0x10000) = drop_bit 10 ?w + 0xD800"
  proof -
    have small: "unat (drop_bit 10 v) < 4294967296" unfolding unat_drop using v by simp
    have "drop_bit 10 v = drop_bit 10 ?w + 64" unfolding word_unat_eq_iff unat_word_ariths
      using hi small by (simp del: unat_drop_bit_eq)
    then show ?thesis by simp
  qed
  then have "LeadSurrogate v = ucast (drop_bit 10 ?w + 0xD800)" unfolding LeadSurrogate_def by (rule arg_cong)
  moreover have "(v AND 0x3FF) OR 0xDC00 = (?w AND 0x3FF) + 0xDC00"
  proof -
    have m: "unat (x AND 0x3FF :: u32) = unat x mod 1024" for x using unat_and_mask [of x 10] by (simp add: mask_eq_exp_minus_1)
    have same: "v AND 0x3FF = ?w AND 0x3FF" unfolding word_unat_eq_iff m w using nat(2) by simp
    have "push_bit 10 (0x37 :: u32) OR (?w AND 0x3FF) = push_bit 10 0x37 + (?w AND 0x3FF)" by (rule or_disjoint) (simp add: m)
    then show ?thesis unfolding same by (simp add: or.commute add.commute)
  qed
  then have trail: "TrailSurrogate v = ucast ((?w AND 0x3FF) + 0xDC00)" unfolding TrailSurrogate_def by (rule arg_cong)
  have "unat (?w AND 0x3FF) < 1024" using unat_and_mask [of ?w 10] by (simp add: mask_eq_exp_minus_1)
  then show "\<not> TrailSurrogate v < 128"
    unfolding trail word_less_nat_alt unat_ucast_u32_u16 unat_word_ariths by simp
  have "\<not> v < 0x10000" using assms(2) by simp
  ultimately show "[LeadSurrogate v, TrailSurrogate v] = code_units_of Char16 v" using trail by (simp add: code_units_of_def Let_def)
qed

section \<open>The text of an encoded string\<close>

text \<open>A UTF-16 sequence without lone surrogates.\<close>

fun lone_free :: "u16 list \<Rightarrow> bool" where
  "lone_free [] \<longleftrightarrow> True"
| "lone_free [c] \<longleftrightarrow> \<not> surrogate c"
| "lone_free (c # d # s) \<longleftrightarrow> (if surrogate_pair c d then lone_free s else \<not> surrogate c \<and> lone_free (d # s))"

lemma lone_free_iff: "lone_free s \<longleftrightarrow> to_well_formed s = s"
proof (induction s rule: lone_free.induct)
  case (2 c)
  show ?case by (auto simp: surrogate_def)
next
  case (3 c d s)
  then show ?case by (auto simp: surrogate_def)
qed simp

definition encode_point :: "(u16 \<Rightarrow> bool) \<Rightarrow> u32 \<Rightarrow> u16 list" where
  "encode_point S v = (if v < 128 \<and> S (ucast v) then [ucast v] else hex_text (code_point_bytes v))"

definition encode_text :: "(u16 \<Rightarrow> bool) \<Rightarrow> u16 list \<Rightarrow> u16 list" where
  "encode_text S s = concat (map (encode_point S) (code_points s))"

lemma encode_unit: "encode_point S (ucast c) = (if c < 128 \<and> S c then [c] else hex_text (code_point_bytes (ucast c)))"
  by (simp add: encode_point_def word_less_nat_alt unat_ucast_u16 ucast_ucast_u16 del: unsigned_ucast_eq)

abbreviation unescaped :: "(u16 \<Rightarrow> bool) \<Rightarrow> (u16 \<Rightarrow> bool) option \<Rightarrow> u16 \<Rightarrow> bool" where
  "unescaped U U2 \<equiv> \<lambda>c. U c \<or> (case U2 of None \<Rightarrow> False | Some S \<Rightarrow> S c)"

lemma not_ascii_pair: "surrogate_pair c d \<Longrightarrow> \<not> c < 128 \<and> \<not> join_surrogates c d < 128"
  using join_not_ascii [of c d] by (auto simp: word_less_nat_alt surrogate_pair_def)

lemma encode_text_simps:
  "encode_text S [] = []"
  "\<not> surrogate c \<Longrightarrow> encode_text S [c] = encode_point S (ucast c)"
  "surrogate_pair c d \<Longrightarrow> encode_text S (c # d # s) = hex_text (code_point_bytes (join_surrogates c d)) @ encode_text S s"
  "\<not> surrogate_pair c d \<Longrightarrow> \<not> surrogate c \<Longrightarrow> encode_text S (c # d # s) = encode_point S (ucast c) @ encode_text S (d # s)"
  by (simp_all add: encode_text_def read_code_point_eq encode_point_def not_ascii_pair)

lemma Encode_steps:
  "\<not> surrogate c \<Longrightarrow>
    Encode (\<lambda>_. True) U U2 (c # s) buf = Encode (\<lambda>_. True) U U2 s (buf @ encode_point (unescaped U U2) (ucast c))"
  "surrogate_pair c d \<Longrightarrow>
    Encode (\<lambda>_. True) U U2 (c # d # s) buf = Encode (\<lambda>_. True) U U2 s (buf @ hex_text (code_point_bytes (join_surrogates c d)))"
  "surrogate c \<Longrightarrow> Encode (\<lambda>_. True) U U2 [c] buf = (Encode_BadUri, buf)"
  "surrogate c \<Longrightarrow> \<not> surrogate_pair c d \<Longrightarrow> Encode (\<lambda>_. True) U U2 (c # d # s) buf = (Encode_BadUri, buf)"
proof -
  assume "\<not> surrogate c"
  then show "Encode (\<lambda>_. True) U U2 (c # s) buf = Encode (\<lambda>_. True) U U2 s (buf @ encode_point (unescaped U U2) (ucast c))"
    unfolding encode_unit by (auto simp: sb_append_def append_bytes_room utf8_bytes_eq surrogates(1))
next
  assume "surrogate_pair c d"
  then show "Encode (\<lambda>_. True) U U2 (c # d # s) buf =
      Encode (\<lambda>_. True) U U2 s (buf @ hex_text (code_point_bytes (join_surrogates c d)))"
    using not_ascii_pair [of c d] by (simp add: append_bytes_room utf8_bytes_eq UTF16Decode_eq surrogates(2,3))
next
  assume "surrogate c"
  moreover have "\<not> c < 128" using \<open>surrogate c\<close> surrogates(4) by blast
  ultimately show "Encode (\<lambda>_. True) U U2 [c] buf = (Encode_BadUri, buf)"
    "\<not> surrogate_pair c d \<Longrightarrow> Encode (\<lambda>_. True) U U2 (c # d # s) buf = (Encode_BadUri, buf)"
    by (auto simp: surrogates(1,2))
qed

declare Encode.simps(2) [simp del]

lemma Encode_lone_free:
  "lone_free s \<Longrightarrow> Encode (\<lambda>_. True) U U2 s buf = (Encode_Success, buf @ encode_text (unescaped U U2) s)"
proof (induction s arbitrary: buf rule: lone_free.induct)
  case (3 c d s)
  then show ?case by (cases "surrogate_pair c d") (simp_all add: encode_text_simps Encode_steps)
qed (simp_all add: encode_text_simps Encode_steps)

lemma Encode_lone: "\<not> lone_free s \<Longrightarrow> fst (Encode (\<lambda>_. True) U U2 s buf) = Encode_BadUri"
proof (induction s arbitrary: buf rule: lone_free.induct)
  case (3 c d s)
  moreover have "surrogate_pair c d \<Longrightarrow> surrogate c" by (auto simp: surrogates(1,2))
  ultimately show ?case by (cases "surrogate_pair c d"; cases "surrogate c") (simp_all add: Encode_steps)
qed (simp_all add: Encode_steps)

section \<open>Decoding it\<close>

definition compatible :: "(u16 \<Rightarrow> bool) \<Rightarrow> (u16 \<Rightarrow> bool) option \<Rightarrow> bool" where
  "compatible S R \<longleftrightarrow> \<not> S (ascii_u16 CHR ''%'') \<and> (case R of None \<Rightarrow> True | Some R \<Rightarrow> (\<forall>c. R c \<longrightarrow> S c))"

lemma decode_escape_byte:
  "unat b < 128 \<Longrightarrow> decode_escape (tl (hex_bytes b) @ rest) = Some ([], ucast b, rest)"
proof -
  assume b: "unat b < 128"
  have "b AND 0x80 = 0" using b byte_and_80 by blast
  moreover have "(ucast (b AND 0x80) :: u32) = ucast b AND 0x80" by (simp add: unsigned_and_eq)
  ultimately have "ucast b AND 0x80 = (0 :: u32)" by simp
  moreover have "(ucast (ucast b :: u32) :: u16) = ucast b"
    unfolding word_unat_eq_iff unat_ucast_u32_u16 unat_ucast_u32 unat_byte_u16 using byte_less [of b] by simp
  ultimately show ?thesis using read_byte [of b] by (simp add: decode_escape_def hex_bytes_def Let_def)
qed

lemma decode_escape_point:
  assumes v: "scalar (unat v)" "0x80 \<le> unat v"
  shows "decode_escape (tl (hex_text (code_point_bytes v)) @ rest) =
    Some (if 0x10000 \<le> v then ([LeadSurrogate v], TrailSurrogate v, rest) else ([], ucast v, rest))"
proof -
  obtain b bs where bs: "code_point_bytes v = b # bs" "\<forall>b \<in> set bs. b AND 0xC0 = 0x80" "ucast b AND 0x80 \<noteq> (0 :: u32)"
    "lead_ones (ucast b) 1 = length bs + 1" "1 \<le> length bs" "length bs \<le> 3" "Utf8ToOneUcs4Char (b # bs) (length bs + 1) = v"
    by (rule utf8_decodes [OF v])
  have "length (hex_text bs) = 3 * length bs" by (induction bs) (simp_all add: hex_bytes_def)
  moreover have "bs \<noteq> []" using bs(5) by auto
  moreover have "\<not> 0x10FFFF < v" using v(1) by (simp add: scalar_def word_less_nat_alt)
  moreover have "(ucast (ucast b :: u32) :: u8) = b"
    unfolding word_unat_eq_iff unat_ucast_u8 unat_ucast_u32 using byte_less [of b] by simp
  ultimately show ?thesis
    using read_byte [of b] read_octets_hex [OF bs(2), of rest "[b]"] bs(3-7)
    by (simp add: decode_escape_def bs(1) hex_bytes_def Let_def)
qed

lemma Decode_plain:
  "c \<noteq> ascii_u16 CHR ''%'' \<Longrightarrow> Decode (\<lambda>_. True) R (c # rest) buf = Decode (\<lambda>_. True) R rest (buf @ [c])"
  by (simp add: sb_append_def)

lemma Decode_escape:
  assumes "decode_escape rest = Some (lead, d, rest')" and "\<not> (d < 128 \<and> (case R of None \<Rightarrow> False | Some R \<Rightarrow> R d))"
  shows "Decode (\<lambda>_. True) R (ascii_u16 CHR ''%'' # rest) buf = Decode (\<lambda>_. True) R rest' (buf @ lead @ [d])"
  using assms by (auto simp: sb_append_def)

declare Decode.simps(2) [simp del]

lemma hex_text_Cons: "hex_text (b # bs) = ascii_u16 CHR ''%'' # tl (hex_text (b # bs))"
  by (simp add: hex_bytes_def)

lemma Decode_point:
  assumes S: "compatible S R" and v: "scalar (unat v)"
  shows "Decode (\<lambda>_. True) R (encode_point S v @ rest) buf = Decode (\<lambda>_. True) R rest (buf @ code_units_of Char16 v)"
proof (cases "unat v < 128")
  case True
  then have low: "v < 128" by (simp add: word_less_nat_alt)
  have u: "code_units_of Char16 v = [ucast v]" using True by (simp add: code_units_of_def word_less_nat_alt)
  have b: "unat (ucast v :: u8) < 128" "ucast (ucast v :: u8) = (ucast v :: u16)"
    using True by (simp_all add: unat_ucast_u8 word_unat_eq_iff unat_byte_u16 unat_ucast_u32_u16)
  show ?thesis
  proof (cases "S (ucast v)")
    case True
    then have "ucast v \<noteq> ascii_u16 CHR ''%''" using S by (auto simp: compatible_def)
    then show ?thesis using True low by (simp add: encode_point_def u Decode_plain)
  next
    case False
    then have R: "\<not> (case R of None \<Rightarrow> False | Some R \<Rightarrow> R (ucast v))" using S by (auto simp: compatible_def split: option.splits)
    have pct: "encode_point S v = ascii_u16 CHR ''%'' # tl (hex_bytes (ucast v))"
      using False by (simp add: encode_point_def bytes_ascii [OF \<open>unat v < 128\<close>] hex_bytes_def)
    show ?thesis
      unfolding pct u append_Cons using Decode_escape [OF decode_escape_byte [OF b(1), unfolded b(2)], of R] R by simp
  qed
next
  case False
  then have v2: "0x80 \<le> unat v" "\<not> v < 128" by (simp_all add: word_less_nat_alt)
  obtain b bs where bytes: "code_point_bytes v = b # bs" by (rule utf8_decodes [OF v v2(1)])
  have pct: "encode_point S v @ rest = ascii_u16 CHR ''%'' # (tl (hex_text (code_point_bytes v)) @ rest)"
    using v2(2) hex_text_Cons [of b bs] by (simp add: encode_point_def bytes)
  note esc = decode_escape_point [OF v v2(1), of rest]
  show ?thesis
  proof (cases "0x10000 \<le> v")
    case True
    show ?thesis
      unfolding pct using Decode_escape [OF esc [unfolded if_P [OF True]]] surrogates_of [OF v True] by simp
  next
    case False
    then have lt: "v < 0x10000" by simp
    then have "\<not> (ucast v :: u16) < 128"
      using v2 by (simp add: word_less_nat_alt unat_ucast_u32_u16 del: unsigned_ucast_eq)
    then show ?thesis
      unfolding pct using Decode_escape [OF esc [unfolded if_not_P [OF False]]] lt by (simp add: code_units_of_def)
  qed
qed

lemma Decode_points:
  assumes "compatible S R" and "\<forall>v \<in> set vs. scalar (unat v)"
  shows "Decode (\<lambda>_. True) R (concat (map (encode_point S) vs) @ rest) buf =
    Decode (\<lambda>_. True) R rest (buf @ concat (map (code_units_of Char16) vs))"
  using assms(2) by (induction vs arbitrary: buf) (simp_all add: Decode_point [OF assms(1)])

lemma Decode_encode_text:
  assumes "compatible S R" and "lone_free s"
  shows "Decode (\<lambda>_. True) R (encode_text S s) [] = (Decode_Success, s)"
proof -
  have "concat (map (code_units_of Char16) (code_points s)) = s"
    using assms(2) by (simp add: code_units_code_points lone_free_iff)
  then show ?thesis
    using Decode_points [OF assms(1), of "code_points s" "[]" "[]"] code_points_scalar by (simp add: encode_text_def)
qed

lemma Decode_string_encode_text:
  "compatible S R \<Longrightarrow> lone_free s \<Longrightarrow> Decode_string (\<lambda>_. True) (encode_text S s) R = Inr s"
  using Decode_encode_text [of S R s] by (auto simp: Decode_string_def)

lemma Encode_string_lone_free:
  "lone_free s \<Longrightarrow> Encode_string (\<lambda>_. True) s U U2 = Inr (encode_text (unescaped U U2) s)"
  by (simp add: Encode_string_def Encode_lone_free encode_text_simps)

lemma Encode_string_lone: "\<not> lone_free s \<Longrightarrow> Encode_string (\<lambda>_. True) s U U2 = Inl MalformedUri"
  using Encode_lone [of s U U2 "[]"] by (auto simp: Encode_string_def split: prod.splits EncodeResult.splits)

lemma uri_sets:
  "compatible (unescaped js_isUriUnescaped (Some js_isUriReservedPlusPound)) (Some js_isUriReservedPlusPound)"
  "compatible (unescaped js_isUriUnescaped (Some js_isUriReservedPlusPound)) None"
  "compatible (unescaped js_isUriUnescaped None) None"
  by (simp_all add: compatible_def js_isUriUnescaped_def js_isUriReservedPlusPound_def ascii_u16_def)

section \<open>escape and unescape\<close>

abbreviation escape_text :: "u16 list \<Rightarrow> u16 list" where
  "escape_text s \<equiv> concat (map escape_unit s)"

lemma escaped_length_text: "escaped_length s n + length s = n + length (escape_text s)"
  by (induction s arbitrary: n) (auto simp: escape_unit_def)

lemma write_all_fits:
  assumes "ni + length chars \<le> length block"
  shows "write_all block ni chars =
    Some (take ni block @ chars @ drop (ni + length chars) block, ni + length chars)"
  using assms
proof (induction chars rule: rev_induct)
  case (snoc c chars)
  let ?b = "take ni block @ chars @ drop (ni + length chars) block"
  have "write_all block ni (chars @ [c]) = do { (newChars, ni) \<leftarrow> write_all block ni chars; newChars \<leftarrow> wr newChars ni c; Some (newChars, ni + 1) }"
    by (simp add: write_all_def)
  moreover have "drop (ni + length chars) block = (block ! (ni + length chars)) # drop (ni + length chars + 1) block"
    using snoc.prems by (simp add: Cons_nth_drop_Suc)
  ultimately show ?case using snoc by (simp add: wr_def list_update_append)
qed (simp add: write_all_def)

lemma escape_loop_fits:
  "ni + length (escape_text s) \<le> length block \<Longrightarrow>
    escape_loop s block ni = Some (take ni block @ escape_text s @ drop (ni + length (escape_text s)) block, ni + length (escape_text s))"
proof (induction s arbitrary: block ni)
  case (Cons ch s)
  let ?u = "escape_unit ch"
  let ?b = "take ni block @ ?u @ drop (ni + length ?u) block"
  have fits: "ni + length ?u \<le> length block" using Cons.prems by simp
  have "escape_loop (ch # s) block ni = escape_loop s ?b (ni + length ?u)" by (simp add: write_all_fits [OF fits])
  also have "\<dots> = Some (take (ni + length ?u) ?b @ escape_text s @ drop (ni + length ?u + length (escape_text s)) ?b,
      ni + length ?u + length (escape_text s))"
    using Cons.prems by (intro Cons.IH) simp
  finally show ?case using fits by (simp add: add.assoc add.commute)
qed simp

lemma Escape_text:
  assumes "pod_malloc (length (escape_text s) + 1) = Some block" and "length block = length (escape_text s) + 1"
  shows "Escape pod_malloc s = Some (Some (escape_text s @ [0], length (escape_text s)))"
proof -
  have n: "escaped_length s (length s) = length (escape_text s)" using escaped_length_text [of s "length s"] by simp
  have "drop (length (escape_text s)) block = [block ! length (escape_text s)]"
    using assms(2) Cons_nth_drop_Suc [of "length (escape_text s)" block] by simp
  then show ?thesis
    using escape_loop_fits [of 0 s block] assms by (simp add: Escape_def n wr_def list_update_append)
qed

text \<open>The four hexadecimal digits of a unit.\<close>

lemma unat_digits:
  fixes c :: u16
  shows "unat (drop_bit 12 c) = unat c div 4096" "unat (drop_bit 8 (c AND 0xF00)) = unat c div 256 mod 16"
    "unat (drop_bit 4 (c AND 0xF0)) = unat c div 16 mod 16" "unat (c AND 0xF) = unat c mod 16"
    "unat c div 4096 < 16"
proof -
  have "push_bit 8 (mask 4) = (0xF00 :: u16)" "push_bit 4 (mask 4) = (0xF0 :: u16)" by (simp_all add: mask_eq_exp_minus_1)
  then show "unat (drop_bit 8 (c AND 0xF00)) = unat c div 256 mod 16" "unat (drop_bit 4 (c AND 0xF0)) = unat c div 16 mod 16"
    using unat_and_field [of c 8 4] unat_and_field [of c 4 4] unfolding unat_drop by simp_all
  show "unat (drop_bit 12 c) = unat c div 4096" "unat (c AND 0xF) = unat c mod 16" by (simp_all only: unat_drop unat_and_F) simp
  show "unat c div 4096 < 16" using u16_less [of c] by simp
qed

lemma digits_value:
  fixes n :: nat
  shows "n div 4096 * 16 + n div 256 mod 16 = n div 256" "n div 256 * 16 + n div 16 mod 16 = n div 16" "n div 16 * 16 + n mod 16 = n"
  using div_mult_mod_eq [of "n div 256" 16] div_mult_mod_eq [of "n div 16" 16] by (simp_all add: div_mult2_eq [symmetric])

lemma push_digit: "unat (a :: u16) < 4096 \<Longrightarrow> unat d < 16 \<Longrightarrow> unat (push_bit 4 a + d) = unat a * 16 + unat d"
  by (simp add: push_bit_eq_mult unat_word_ariths)

lemma Unhex4_digits:
  fixes c :: u16
  shows "Unhex4 (hex_digit (drop_bit 12 c) # hex_digit (drop_bit 8 (c AND 0xF00)) # hex_digit (drop_bit 4 (c AND 0xF0)) #
    hex_digit (c AND 0xF) # rest) = Some c"
proof -
  have lt: "unat (drop_bit 12 c) < 16" "unat (drop_bit 8 (c AND 0xF00)) < 16" "unat (drop_bit 4 (c AND 0xF0)) < 16" "unat (c AND 0xF) < 16"
    unfolding unat_digits by (simp_all add: unat_digits(5))
  let ?v = "push_bit 4 (push_bit 4 (push_bit 4 (drop_bit 12 c) + drop_bit 8 (c AND 0xF00)) + drop_bit 4 (c AND 0xF0)) + (c AND 0xF)"
  let ?a = "push_bit 4 (drop_bit 12 c) + drop_bit 8 (c AND 0xF00)"
  let ?b = "push_bit 4 ?a + drop_bit 4 (c AND 0xF0)"
  have 1: "unat ?a = unat c div 256"
    using push_digit [OF _ lt(2), of "drop_bit 12 c"] lt(1) unfolding unat_digits digits_value by simp
  have less: "unat c div 256 < 4096" "unat c div 16 < 4096" using u16_less [of c] by simp_all
  have 2: "unat ?b = unat c div 16"
    using push_digit [OF _ lt(3), of ?a] less(1) unfolding 1 unat_digits digits_value by simp
  have "unat ?v = unat c"
    using push_digit [OF _ lt(4), of ?b] less(2) unfolding 2 unat_digits digits_value by simp
  then have "?v = c" by (rule word_unat_eq_iff [THEN iffD2])
  then show ?thesis unfolding Unhex4_def Let_def by (simp add: hex_digit_facts(1,2) lt del: unat_drop_bit_eq drop_bit_and)
qed

lemma Unhex2_digits:
  fixes c :: u16
  assumes "c < 256"
  shows "Unhex2 (hex_digit (drop_bit 4 c) # hex_digit (c AND 0xF) # rest) = Some c"
    and "unat (drop_bit 4 c) < 16"
proof -
  have u: "unat (drop_bit 4 c) = unat c div 16" "unat (c AND 0xF) = unat c mod 16" by (simp_all only: unat_drop unat_and_F) simp
  show lt: "unat (drop_bit 4 c) < 16" unfolding u using assms by (simp add: word_less_nat_alt)
  have lo: "unat (c AND 0xF) < 16" unfolding u by simp
  have "unat (push_bit 4 (drop_bit 4 c) + (c AND 0xF)) = unat c"
    using push_digit [OF _ lo, of "drop_bit 4 c"] lt unfolding u by simp
  then have "push_bit 4 (drop_bit 4 c) + (c AND 0xF) = c" by (rule word_unat_eq_iff [THEN iffD2])
  then show "Unhex2 (hex_digit (drop_bit 4 c) # hex_digit (c AND 0xF) # rest) = Some c"
    unfolding Unhex2_def Let_def by (simp add: hex_digit_facts(1,2) lt lo del: unat_drop_bit_eq)
qed

lemma unescape_at_unit:
  "unescape_at (pre @ escape_unit ch @ rest) (length pre) =
    (ch, length pre + length (escape_unit ch) - 1, escape_unit ch \<noteq> [ch])"
proof -
  consider (pass) "ch < 128 \<and> shouldPassThrough ch" | (two) "\<not> (ch < 128 \<and> shouldPassThrough ch)" "ch < 256"
    | (four) "\<not> (ch < 128 \<and> shouldPassThrough ch)" "\<not> ch < 256" by blast
  then show ?thesis
  proof cases
    case pass
    then have "ch \<noteq> ascii_u16 CHR ''%''" by (auto simp: shouldPassThrough_def ascii_u16_def)
    then show ?thesis using pass by (simp add: escape_unit_def unescape_at_def nth_append)
  next
    case two
    have u: "hex_digit (drop_bit 4 ch) \<noteq> ascii_u16 CHR ''u''" by (rule hex_digit_facts(5) [OF Unhex2_digits(2) [OF two(2)]])
    have unit: "escape_unit ch = [ascii_u16 CHR ''%'', hex_digit (drop_bit 4 ch), hex_digit (ch AND 0xF)]"
      using two by (auto simp: escape_unit_def)
    show ?thesis
      using two(2) u by (simp add: unit unescape_at_def nth_append Unhex2_digits(1) Let_def)
  next
    case four
    have unit: "escape_unit ch = [ascii_u16 CHR ''%'', ascii_u16 CHR ''u'', hex_digit (drop_bit 12 ch), hex_digit (drop_bit 8 (ch AND 0xF00)),
        hex_digit (drop_bit 4 (ch AND 0xF0)), hex_digit (ch AND 0xF)]"
      using four by (auto simp: escape_unit_def)
    show ?thesis by (simp add: unit unescape_at_def nth_append Unhex4_digits Let_def del: drop_bit_and)
  qed
qed

lemma escape_unit_not_Nil: "escape_unit ch \<noteq> []"
  by (simp add: escape_unit_def)

lemma Unescape_text:
  assumes "\<not> building \<Longrightarrow> pre = past \<and> buf = []" and "building \<Longrightarrow> buf = past"
  shows "Unescape (\<lambda>_. True) (pre @ escape_text s) (length pre) building buf =
    (if building \<or> (\<exists>ch \<in> set s. escape_unit ch \<noteq> [ch]) then Some (True, past @ s) else Some (False, []))"
  using assms
proof (induction s arbitrary: pre past building buf)
  case Nil
  then show ?case by (auto simp: Unescape.simps)
next
  case (Cons ch s)
  let ?escaped = "escape_unit ch \<noteq> [ch]"
  note u = unescape_at_unit [of pre ch "escape_text s"]
  have len: "\<not> length (pre @ escape_text (ch # s)) \<le> length pre" using escape_unit_not_Nil [of ch] by simp
  have k: "length pre + length (escape_unit ch) - 1 + 1 = length (pre @ escape_unit ch)" using escape_unit_not_Nil [of ch] by (cases "escape_unit ch") simp_all
  have cut: "pre @ escape_text (ch # s) = (pre @ escape_unit ch) @ escape_text s" by simp
  have step: "Unescape (\<lambda>_. True) (pre @ escape_text (ch # s)) (length pre) building buf =
    Unescape (\<lambda>_. True) ((pre @ escape_unit ch) @ escape_text s) (length (pre @ escape_unit ch)) (building \<or> ?escaped)
      (if building \<or> ?escaped then past @ [ch] else [])"
    using len u Cons.prems unfolding k [symmetric] cut [symmetric]
    by (subst Unescape.simps) (auto simp: sb_append_def Let_def)
  show ?case
  proof (cases "building \<or> ?escaped")
    case True
    then show ?thesis unfolding step using Cons.IH [of True "pre @ escape_unit ch" "past @ [ch]" "past @ [ch]"] by auto
  next
    case False
    then have "pre = past" "buf = []" "escape_unit ch = [ch]" using Cons.prems by auto
    then show ?thesis unfolding step using False Cons.IH [of False "pre @ [ch]" "past @ [ch]" "[]"] by simp
  qed
qed

lemma str_unescape_text: "str_unescape (\<lambda>_. True) (escape_text s) = Some s"
proof -
  have same: "escape_text s = s" if "\<forall>ch \<in> set s. escape_unit ch = [ch]" using that by (induction s) simp_all
  show ?thesis
    using Unescape_text [of False "[]" "[]" "[]" s] same by (auto simp: str_unescape_def)
qed

section \<open>Properties\<close>

text \<open>
  C34. A string without lone surrogates survives \<open>encodeURI\<close> followed by \<open>decodeURI\<close> or \<open>decodeURIComponent\<close>, and
  \<open>encodeURIComponent\<close> followed by \<open>decodeURIComponent\<close>.
\<close>

theorem uri_round_trip:
  assumes "lone_free s"
  shows "\<exists>e e'. str_encodeURI (\<lambda>_. True) s = Inr e \<and> str_decodeURI (\<lambda>_. True) e = Inr s \<and>
    str_decodeURI_Component (\<lambda>_. True) e = Inr s \<and>
    str_encodeURI_Component (\<lambda>_. True) s = Inr e' \<and> str_decodeURI_Component (\<lambda>_. True) e' = Inr s"
  unfolding str_encodeURI_def str_encodeURI_Component_def str_decodeURI_def str_decodeURI_Component_def
    Encode_string_lone_free [OF assms]
  using Decode_string_encode_text [OF uri_sets(1) assms] Decode_string_encode_text [OF uri_sets(2) assms]
    Decode_string_encode_text [OF uri_sets(3) assms] by simp

lemma uri_round_trip_witness:
  "\<exists>e e'. str_encodeURI (\<lambda>_. True) [0x41, 0x25, 0x2F, 0x20AC, 0xD83D, 0xDE00] = Inr e \<and>
    str_decodeURI (\<lambda>_. True) e = Inr [0x41, 0x25, 0x2F, 0x20AC, 0xD83D, 0xDE00] \<and>
    str_decodeURI_Component (\<lambda>_. True) e = Inr [0x41, 0x25, 0x2F, 0x20AC, 0xD83D, 0xDE00] \<and>
    str_encodeURI_Component (\<lambda>_. True) [0x41, 0x25, 0x2F, 0x20AC, 0xD83D, 0xDE00] = Inr e' \<and>
    str_decodeURI_Component (\<lambda>_. True) e' = Inr [0x41, 0x25, 0x2F, 0x20AC, 0xD83D, 0xDE00]"
  by (rule uri_round_trip) (simp add: surrogate_def surrogate_pair_def)

text \<open>
  C35. \<open>encodeURI\<close> and \<open>encodeURIComponent\<close> throw exactly on strings with a lone surrogate; else the result is, code point
  by code point, the character itself when it is in the unescaped sets and the percent-encoded UTF-8 bytes when not.
\<close>

theorem encode_exact:
  "str_encodeURI (\<lambda>_. True) s =
    (if lone_free s then Inr (encode_text (\<lambda>c. js_isUriUnescaped c \<or> js_isUriReservedPlusPound c) s) else Inl MalformedUri) \<and>
   str_encodeURI_Component (\<lambda>_. True) s = (if lone_free s then Inr (encode_text js_isUriUnescaped s) else Inl MalformedUri)"
  by (simp add: str_encodeURI_def str_encodeURI_Component_def Encode_string_lone_free Encode_string_lone)

text \<open>
  C36. \<open>escape\<close> never writes outside the block it allocates, which its first pass measures exactly, and \<open>unescape\<close> gives the
  string back, whatever it is.
\<close>

theorem escape_round_trip:
  assumes "\<And>n block. pod_malloc n = Some block \<Longrightarrow> length block = n"
  shows "Escape pod_malloc s = Some None \<or>
    Escape pod_malloc s = Some (Some (escape_text s @ [0], length (escape_text s))) \<and>
    str_escape pod_malloc s = Some (Some (escape_text s)) \<and> str_unescape (\<lambda>_. True) (escape_text s) = Some s"
proof (cases "pod_malloc (length (escape_text s) + 1)")
  case None
  then show ?thesis using escaped_length_text [of s "length s"] by (simp add: Escape_def)
next
  case (Some block)
  have "Escape pod_malloc s = Some (Some (escape_text s @ [0], length (escape_text s)))"
    by (rule Escape_text [of pod_malloc s block]) (use Some assms in auto)
  moreover have "str_unescape (\<lambda>_. True) (escape_text s) = Some s" by (rule str_unescape_text)
  ultimately show ?thesis by (simp add: str_escape_def)
qed

lemma escape_round_trip_witness:
  "Escape (\<lambda>n. Some (replicate n 7)) [0x41, 0x25, 0x20AC] = Some None \<or>
    Escape (\<lambda>n. Some (replicate n 7)) [0x41, 0x25, 0x20AC] =
      Some (Some (escape_text [0x41, 0x25, 0x20AC] @ [0], length (escape_text [0x41, 0x25, 0x20AC]))) \<and>
    str_escape (\<lambda>n. Some (replicate n 7)) [0x41, 0x25, 0x20AC] = Some (Some (escape_text [0x41, 0x25, 0x20AC])) \<and>
    str_unescape (\<lambda>_. True) (escape_text [0x41, 0x25, 0x20AC]) = Some [0x41, 0x25, 0x20AC]"
  by (rule escape_round_trip) auto

end
