(* ===== verification/StringSearch.thy ===== *)
theory StringSearch
  imports CharacterEncoding
begin

text \<open>
  The search for a string in a string of \<open>js/src/jsstr.cpp\<close>, which \<open>indexOf\<close>, \<open>includes\<close>, \<open>split\<close> and \<open>replace\<close> go
  through: \<open>StringMatch\<close> with its Boyer-Moore-Horspool and first-character searches, \<open>RopeMatch\<close> on the segments of a
  rope, and \<open>LastIndexOfImpl\<close>.

  \<^item> A pointer to a character is an index; a read outside the string is \<open>None\<close>, and so is a loop that never ends. Strings
    have fewer than \<open>2\<^sup>2\<^sup>8\<close> characters, so indices are natural numbers.
  \<^item> A Latin-1 character is the code unit it stands for, as in the comparisons of the source; the template arguments are
    \<open>char_type\<close>s.
  \<^item> \<open>target\<close> says what the compiler defines; the code for OS X and Windows is left out.
\<close>

record target =
  clang :: bool
  i386 :: bool

section \<open>Boyer-Moore-Horspool\<close>

definition sBMHCharSetSize :: nat where "sBMHCharSetSize = 256"
definition sBMHPatLenMax :: nat where "sBMHPatLenMax = 255"
definition sBMHBadPattern :: int where "sBMHBadPattern = -2"

text \<open>The loop that fills the table; \<open>Some None\<close> is \<open>sBMHBadPattern\<close>.\<close>

function bmh_table :: "u16 list \<Rightarrow> nat \<Rightarrow> nat \<Rightarrow> u8 list \<Rightarrow> u8 list option option" where
  "bmh_table pat patLast i skip =
     (if i < patLast then
        do { c \<leftarrow> rd pat i;
             if sBMHCharSetSize \<le> unat c then Some None
             else do { skip \<leftarrow> wr skip (unat c) (of_nat (patLast - i)); bmh_table pat patLast (i + 1) skip } }
      else Some (Some skip))"
  by pat_completeness auto
termination
  by (relation "measure (\<lambda>(pat, patLast, i, skip). patLast - i)") auto

declare bmh_table.simps [simp del]

text \<open>The comparison from the last character down; \<open>Some (Some i)\<close> is a match at \<open>i\<close>.\<close>

fun bmh_compare :: "u16 list \<Rightarrow> u16 list \<Rightarrow> nat \<Rightarrow> nat \<Rightarrow> nat option option" where
  "bmh_compare str pat i 0 =
     do { t \<leftarrow> rd str i; p \<leftarrow> rd pat 0; if t \<noteq> p then Some None else Some (Some i) }"
| "bmh_compare str pat i (Suc j) =
     do { t \<leftarrow> rd str i; p \<leftarrow> rd pat (Suc j); if t \<noteq> p then Some None else bmh_compare str pat (i - 1) j }"

partial_function (option) bmh_loop :: "u16 list \<Rightarrow> u16 list \<Rightarrow> u8 list \<Rightarrow> nat \<Rightarrow> int option" where
  "bmh_loop str pat skip k =
     (if k < length str then
        do { m \<leftarrow> bmh_compare str pat k (length pat - 1);
             case m of
               Some i \<Rightarrow> Some (int i)
             | None \<Rightarrow>
                 do { c \<leftarrow> rd str k;
                      s \<leftarrow> (if sBMHCharSetSize \<le> unat c then Some (length pat) else map_option unat (rd skip (unat c)));
                      bmh_loop str pat skip (k + s) } }
      else Some (- 1))"

declare bmh_loop.simps [code]

definition BoyerMooreHorspool :: "u16 list \<Rightarrow> u16 list \<Rightarrow> int option" where
  "BoyerMooreHorspool str pat =
     do { let patLen = length pat;
          let patLast = patLen - 1;
          t \<leftarrow> bmh_table pat patLast 0 (replicate sBMHCharSetSize (of_nat patLen));
          case t of None \<Rightarrow> Some sBMHBadPattern | Some skip \<Rightarrow> bmh_loop str pat skip patLast }"

section \<open>The first character\<close>

text \<open>\<open>m\<close> tests of the unrolled loops: the index of the first hit among the \<open>m\<close> characters from \<open>t\<close>.\<close>

fun scan_units :: "'c list \<Rightarrow> nat \<Rightarrow> nat \<Rightarrow> 'c \<Rightarrow> nat option option" where
  "scan_units str t 0 pat = Some None"
| "scan_units str t (Suc m) pat = do { c \<leftarrow> rd str t; if c = pat then Some (Some t) else scan_units str (t + 1) m pat }"

partial_function (option) unrolled_loop :: "'c list \<Rightarrow> nat \<Rightarrow> nat \<Rightarrow> 'c \<Rightarrow> nat option option" where
  "unrolled_loop str textend t pat =
     (if textend \<noteq> t then
        do { r \<leftarrow> scan_units str t 8 pat;
             case r of Some i \<Rightarrow> Some (Some i) | None \<Rightarrow> unrolled_loop str textend (t + 8) pat }
      else Some None)"

declare unrolled_loop.simps [code]

text \<open>The search of \<open>n\<close> characters from \<open>start\<close>; the \<open>switch\<close> makes eight tests when \<open>n\<close> is a multiple of eight.\<close>

definition FirstCharMatcherUnrolled :: "'c list \<Rightarrow> nat \<Rightarrow> nat \<Rightarrow> 'c \<Rightarrow> nat option option" where
  "FirstCharMatcherUnrolled str start n pat =
     (let first = (if n mod 8 = 0 then 8 else n mod 8)
      in do { r \<leftarrow> scan_units str start first pat;
              case r of Some i \<Rightarrow> Some (Some i) | None \<Rightarrow> unrolled_loop str (start + n) (start + first) pat })"

text \<open>\<open>memchr\<close>, from the C library.\<close>

definition memchr :: "'c list \<Rightarrow> nat \<Rightarrow> nat \<Rightarrow> 'c \<Rightarrow> nat option option" where
  "memchr str start n c = (if length str < start + n then None else Some (find (\<lambda>i. str ! i = c) [start..<start + n]))"

definition FirstCharMatcher8bit :: "target \<Rightarrow> 'c list \<Rightarrow> nat \<Rightarrow> nat \<Rightarrow> 'c \<Rightarrow> nat option option" where
  "FirstCharMatcher8bit tg str start n pat =
     (if clang tg then FirstCharMatcherUnrolled str start n pat else memchr str start n pat)"

text \<open>The bytes of 16-bit characters, low byte first, and the search through them.\<close>

definition bytes_of :: "u16 \<Rightarrow> u8 list" where
  "bytes_of c = [ucast c, ucast (drop_bit 8 c)]"

partial_function (option) first16_loop :: "target \<Rightarrow> u8 list \<Rightarrow> nat \<Rightarrow> nat \<Rightarrow> u16 \<Rightarrow> nat option option" where
  "first16_loop tg text8 n i pat =
     (if i < n then
        do { pos8 \<leftarrow> FirstCharMatcher8bit tg text8 i (n - i) (bytes_of pat ! 0);
             case pos8 of
               None \<Rightarrow> Some None
             | Some i \<Rightarrow>
                 (if i mod 2 \<noteq> 0 then first16_loop tg text8 n (i + 1) pat
                  else
                    do { b \<leftarrow> rd text8 (i + 1);
                         if bytes_of pat ! 1 = b then Some (Some (i div 2)) else first16_loop tg text8 n (i + 2) pat }) }
      else Some None)"

declare first16_loop.simps [code]

definition FirstCharMatcher16bit :: "target \<Rightarrow> u16 list \<Rightarrow> nat \<Rightarrow> nat \<Rightarrow> u16 \<Rightarrow> nat option option" where
  "FirstCharMatcher16bit tg str start n pat =
     map_option (map_option (\<lambda>i. start + i)) (first16_loop tg (concat (map bytes_of (drop start str))) (n * 2) 0 pat)"

section \<open>StringMatch\<close>

text \<open>\<open>ManualCmp::match\<close> from \<open>p\<close> and \<open>t\<close> to the end of the pattern.\<close>

function manual_match :: "u16 list \<Rightarrow> u16 list \<Rightarrow> nat \<Rightarrow> nat \<Rightarrow> bool option" where
  "manual_match pat str p t =
     (if p < length pat then
        do { c \<leftarrow> rd pat p; d \<leftarrow> rd str t; if c \<noteq> d then Some False else manual_match pat str (p + 1) (t + 1) }
      else Some True)"
  by pat_completeness auto
termination
  by (relation "measure (\<lambda>(pat, str, p, t). length pat - p)") auto

declare manual_match.simps [simp del]

definition first_char :: "target \<Rightarrow> char_type \<Rightarrow> char_type \<Rightarrow> u16 list \<Rightarrow> nat \<Rightarrow> nat \<Rightarrow> u16 \<Rightarrow> nat option option" where
  "first_char tg TextChar PatChar str start n pat =
     (if TextChar = Char16 \<and> PatChar = Char16 then FirstCharMatcher16bit tg str start n pat
      else if TextChar = Latin1Char \<and> PatChar = Latin1Char then FirstCharMatcher8bit tg str start n pat
      else FirstCharMatcherUnrolled str start n pat)"

partial_function (option) matcher_loop ::
  "target \<Rightarrow> char_type \<Rightarrow> char_type \<Rightarrow> u16 list \<Rightarrow> u16 list \<Rightarrow> nat \<Rightarrow> nat \<Rightarrow> int option" where
  "matcher_loop tg TextChar PatChar str pat n i =
     (if i < n then
        do { p0 \<leftarrow> rd pat 0;
             pos \<leftarrow> first_char tg TextChar PatChar str i (n - i) p0;
             case pos of
               None \<Rightarrow> Some (- 1)
             | Some i \<Rightarrow>
                 do { found \<leftarrow> manual_match pat str 1 (i + 1);
                      if found then Some (int i) else matcher_loop tg TextChar PatChar str pat n (i + 1) } }
      else Some (- 1))"

declare matcher_loop.simps [code]

definition Matcher :: "target \<Rightarrow> char_type \<Rightarrow> char_type \<Rightarrow> u16 list \<Rightarrow> u16 list \<Rightarrow> int option" where
  "Matcher tg TextChar PatChar str pat = matcher_loop tg TextChar PatChar str pat (length str - length pat + 1) 0"

definition StringMatch :: "target \<Rightarrow> char_type \<Rightarrow> char_type \<Rightarrow> u16 list \<Rightarrow> u16 list \<Rightarrow> int option" where
  "StringMatch tg TextChar PatChar str pat =
     (let textLen = length str; patLen = length pat
      in if patLen = 0 then Some 0
         else if textLen < patLen then Some (- 1)
         else if i386 tg \<and> patLen = 1 then
           do { p0 \<leftarrow> rd pat 0;
                r \<leftarrow> scan_units str 0 textLen p0;
                Some (case r of Some i \<Rightarrow> int i | None \<Rightarrow> - 1) }
         else
           do { index \<leftarrow> (if 512 \<le> textLen \<and> 11 \<le> patLen \<and> patLen \<le> sBMHPatLenMax then BoyerMooreHorspool str pat
                          else Some sBMHBadPattern);
                if index \<noteq> sBMHBadPattern then Some index else Matcher tg TextChar PatChar str pat })"

text \<open>A linear string is its characters with their type; the overload with a start position.\<close>

type_synonym linear_string = "char_type \<times> u16 list"

definition StringMatch_from :: "target \<Rightarrow> linear_string \<Rightarrow> linear_string \<Rightarrow> nat \<Rightarrow> int option" where
  "StringMatch_from tg str pat start =
     do { m \<leftarrow> StringMatch tg (fst str) (fst pat) (drop start (snd str)) (snd pat);
          Some (if m = - 1 then - 1 else int start + m) }"

definition StringHasPattern :: "target \<Rightarrow> linear_string \<Rightarrow> u16 list \<Rightarrow> bool option" where
  "StringHasPattern tg str pat = do { m \<leftarrow> StringMatch tg (fst str) Char16 (snd str) pat; Some (m \<noteq> - 1) }"

section \<open>Ropes\<close>

datatype js_string = Linear linear_string | Rope js_string js_string

fun flatten :: "js_string \<Rightarrow> u16 list" where
  "flatten (Linear s) = snd s"
| "flatten (Rope left right) = flatten left @ flatten right"

fun hasLatin1Chars :: "js_string \<Rightarrow> bool" where
  "hasLatin1Chars (Linear s) \<longleftrightarrow> fst s = Latin1Char"
| "hasLatin1Chars (Rope left right) \<longleftrightarrow> hasLatin1Chars left \<and> hasLatin1Chars right"

text \<open>\<open>StringSegmentRange\<close>: the current segment, if any, and the stack of what comes later.\<close>

record segment_range =
  stack :: "js_string list"
  cur_segment :: "linear_string option"

fun settle :: "js_string \<Rightarrow> js_string list \<Rightarrow> segment_range" where
  "settle (Rope left right) st = settle left (right # st)"
| "settle (Linear s) st = \<lparr>stack = st, cur_segment = Some s\<rparr>"

definition range_popFront :: "segment_range \<Rightarrow> segment_range" where
  "range_popFront r = (case stack r of [] \<Rightarrow> r\<lparr>cur_segment := None\<rparr> | s # st \<Rightarrow> settle s st)"

text \<open>The comparison that runs into the following segments.\<close>

datatype segment_result = Matched | Mismatch | Exhausted

fun rope_compare :: "u16 list \<Rightarrow> u16 list \<Rightarrow> linear_string list \<Rightarrow> segment_result" where
  "rope_compare [] tt inner = Matched"
| "rope_compare (p # pp) (c # tt) inner = (if p \<noteq> c then Mismatch else rope_compare pp tt inner)"
| "rope_compare (p # pp) [] [] = Exhausted"
| "rope_compare (p # pp) [] (s # inner) = rope_compare (p # pp) (snd s) inner"

text \<open>The loop over the starts in a segment: the index of a match, or whether to go on with the next segment.\<close>

fun rope_starts :: "u16 list \<Rightarrow> u16 list \<Rightarrow> nat \<Rightarrow> linear_string list \<Rightarrow> nat option \<times> segment_result" where
  "rope_starts pat [] t inner = (None, Mismatch)"
| "rope_starts pat (c # chars) t inner =
     (if c \<noteq> hd pat then rope_starts pat chars (t + 1) inner
      else case rope_compare (tl pat) chars inner of
             Matched \<Rightarrow> (Some t, Matched)
           | Exhausted \<Rightarrow> (None, Exhausted)
           | Mismatch \<Rightarrow> rope_starts pat chars (t + 1) inner)"

fun RopeMatchImpl :: "target \<Rightarrow> char_type \<Rightarrow> char_type \<Rightarrow> linear_string list \<Rightarrow> u16 list \<Rightarrow> nat \<Rightarrow> int option" where
  "RopeMatchImpl tg TextChar PatChar [] pat pos = Some (- 1)"
| "RopeMatchImpl tg TextChar PatChar (outer # strings) pat pos =
     do { let chars = snd outer;
          matchResult \<leftarrow> StringMatch tg TextChar PatChar chars pat;
          if matchResult \<noteq> - 1 then Some (int pos + matchResult)
          else
            let from = (if length chars < length pat then 0 else length chars - length pat + 1)
            in case rope_starts pat (drop from chars) from strings of
                 (Some t, _) \<Rightarrow> Some (int pos + int t)
               | (None, Exhausted) \<Rightarrow> Some (- 1)
               | (None, _) \<Rightarrow> RopeMatchImpl tg TextChar PatChar strings pat (pos + length chars) }"

definition sRopeMatchThresholdRatioLog2 :: nat where "sRopeMatchThresholdRatioLog2 = 5"

text \<open>
  The loop that collects the segments, \<open>None\<close> when it gives up for the linear search: at most \<open>threshold\<close> segments, all
  with the characters of the rope. \<open>append_ok\<close> says whether the vector can grow.
\<close>

fun collect_segments :: "(nat \<Rightarrow> bool) \<Rightarrow> bool \<Rightarrow> nat \<Rightarrow> segment_range \<Rightarrow> linear_string list \<Rightarrow> linear_string list option" where
  "collect_segments append_ok textIsLatin1 0 r strings = (if cur_segment r = None then Some strings else None)"
| "collect_segments append_ok textIsLatin1 (Suc threshold) r strings =
     (case cur_segment r of
        None \<Rightarrow> Some strings
      | Some s \<Rightarrow>
          if (fst s = Latin1Char) \<noteq> textIsLatin1 \<or> \<not> append_ok (length strings + 1) then None
          else collect_segments append_ok textIsLatin1 threshold (range_popFront r) (strings @ [s]))"

definition char_type_of :: "bool \<Rightarrow> char_type" where
  "char_type_of latin1 = (if latin1 then Latin1Char else Char16)"

text \<open>
  \<open>ensureLinear\<close> flattens the rope or runs out of memory, which \<open>linear_ok\<close> says; \<open>Some None\<close> is that exception. The
  stack of the range grows without failing.
\<close>

definition RopeMatch :: "target \<Rightarrow> (nat \<Rightarrow> bool) \<Rightarrow> bool \<Rightarrow> js_string \<Rightarrow> linear_string \<Rightarrow> int option option" where
  "RopeMatch tg append_ok linear_ok str pat =
     (let patLen = length (snd pat); textLen = length (flatten str); latin1 = hasLatin1Chars str
      in if patLen = 0 then Some (Some 0)
         else if textLen < patLen then Some (Some (- 1))
         else
           case collect_segments append_ok latin1 (textLen div 2 ^ sRopeMatchThresholdRatioLog2) (settle str []) [] of
             None \<Rightarrow>
               if \<not> linear_ok then Some None
               else map_option Some (StringMatch_from tg (char_type_of latin1, flatten str) pat 0)
           | Some strings \<Rightarrow> map_option Some (RopeMatchImpl tg (char_type_of latin1) (fst pat) strings (snd pat) 0))"

section \<open>The last occurrence\<close>

text \<open>\<open>LastIndexOfImpl\<close>: the loop down from \<open>t\<close>.\<close>

fun LastIndexOfImpl :: "u16 list \<Rightarrow> u16 list \<Rightarrow> nat \<Rightarrow> int option" where
  "LastIndexOfImpl str pat t =
     do { c \<leftarrow> rd str t;
          p0 \<leftarrow> rd pat 0;
          found \<leftarrow> (if c = p0 then manual_match pat str 1 (t + 1) else Some False);
          if found then Some (int t)
          else case t of 0 \<Rightarrow> Some (- 1) | Suc t \<Rightarrow> LastIndexOfImpl str pat t }"

declare LastIndexOfImpl.simps [simp del]

end
