(* ===== verification/StringSearchCorrect.thy ===== *)
theory StringSearchCorrect
  imports StringSearch "HOL-Library.Sublist"
begin

text \<open>
  All the searches are one: \<open>StringMatch\<close> and \<open>RopeMatch\<close> give the first occurrence of the pattern, \<open>LastIndexOfImpl\<close>
  the last one up to a position. They end and read inside the strings only.
\<close>

section \<open>Occurrences\<close>

definition occurs_at :: "'c list \<Rightarrow> 'c list \<Rightarrow> nat \<Rightarrow> bool" where
  "occurs_at str pat i \<longleftrightarrow> prefix pat (drop i str) \<and> i \<le> length str"

text \<open>The first occurrence, or \<open>-1\<close>.\<close>

definition index_of :: "'c list \<Rightarrow> 'c list \<Rightarrow> int" where
  "index_of str pat = (case find (occurs_at str pat) [0..<length str + 1] of Some i \<Rightarrow> int i | None \<Rightarrow> - 1)"

lemma occurs_at_iff:
  "occurs_at str pat i \<longleftrightarrow> i + length pat \<le> length str \<and> (\<forall>j < length pat. str ! (i + j) = pat ! j)"
proof -
  have "prefix pat (drop i str) \<longleftrightarrow> length pat \<le> length (drop i str) \<and> (\<forall>j < length pat. pat ! j = drop i str ! j)"
    by (metis append_eq_conv_conj list_eq_iff_nth_eq nth_take prefix_def prefix_length_le take_is_prefix length_take min.absorb2)
  then show ?thesis by (auto simp: occurs_at_def)
qed

lemma find_in_append: "find P (xs @ ys) = (case find P xs of None \<Rightarrow> find P ys | Some x \<Rightarrow> Some x)"
  by (induction xs) simp_all

lemma find_upt:
  assumes "\<And>i. m \<le> i \<Longrightarrow> i < n \<Longrightarrow> \<not> P i"
  shows "find P [m..<n] = None"
  using assms by (simp add: find_None_iff)

lemma find_upt_first:
  assumes "m \<le> k" and "k < n" and "P k" and "\<And>i. m \<le> i \<Longrightarrow> i < k \<Longrightarrow> \<not> P i"
  shows "find P [m..<n] = Some k"
proof -
  have split: "[m..<n] = [m..<k] @ k # [k + 1..<n]" using upt_add_eq_append [of m k "n - k"] assms(1,2) by (simp add: upt_conv_Cons)
  have "find P [m..<k] = None" using assms(4) by (rule find_upt)
  then have "find P ([m..<k] @ k # ys) = Some k" for ys using assms(3) by (simp add: find_in_append)
  then show ?thesis unfolding split .
qed

lemma index_of_none: "(\<And>i. \<not> occurs_at str pat i) \<Longrightarrow> index_of str pat = - 1"
  unfolding index_of_def by (subst find_upt) simp_all

lemma index_of_first:
  assumes "occurs_at str pat k" and "\<And>i. i < k \<Longrightarrow> \<not> occurs_at str pat i"
  shows "index_of str pat = int k"
proof -
  have "find (occurs_at str pat) [0..<length str + 1] = Some k"
    by (rule find_upt_first) (use assms in \<open>auto simp: occurs_at_def\<close>)
  then show ?thesis by (simp add: index_of_def)
qed

lemma index_of_cases:
  obtains (none) "index_of str pat = - 1" and "\<And>i. \<not> occurs_at str pat i"
  | (first) k where "index_of str pat = int k" and "occurs_at str pat k" and "\<And>i. i < k \<Longrightarrow> \<not> occurs_at str pat i"
proof (cases "\<exists>i. occurs_at str pat i")
  case True
  then obtain i where i: "occurs_at str pat i" by blast
  let ?k = "LEAST i. occurs_at str pat i"
  have "occurs_at str pat ?k" using i by (rule LeastI)
  moreover have "\<And>i. i < ?k \<Longrightarrow> \<not> occurs_at str pat i" by (rule not_less_Least)
  ultimately show thesis using first index_of_first by blast
qed (use none index_of_none in blast)

section \<open>Boyer-Moore-Horspool\<close>

definition table_for :: "u16 list \<Rightarrow> nat \<Rightarrow> u8 list \<Rightarrow> bool" where
  "table_for pat m skip \<longleftrightarrow>
     length skip = 256 \<and>
     (\<forall>c < 256. 0 < unat (skip ! c) \<and> unat (skip ! c) \<le> length pat \<and>
        (\<forall>j < m. unat (pat ! j) = c \<longrightarrow> unat (skip ! c) \<le> length pat - 1 - j))"

lemma small_u8: "n < 256 \<Longrightarrow> unat (of_nat n :: u8) = n"
  by (simp add: unsigned_of_nat take_bit_nat_eq_self)

lemma bmh_table_ok:
  assumes "0 < length pat" and "length pat \<le> 255" and "i \<le> length pat - 1" and "table_for pat i skip"
    and "\<forall>j < i. unat (pat ! j) < 256"
  shows "bmh_table pat (length pat - 1) i skip = Some None \<or>
    (\<exists>skip'. bmh_table pat (length pat - 1) i skip = Some (Some skip') \<and> table_for pat (length pat - 1) skip' \<and>
      (\<forall>j < length pat - 1. unat (pat ! j) < 256))"
  using assms(3-)
proof (induction "length pat - 1 - i" arbitrary: i skip)
  case 0
  then have i: "\<not> i < length pat - 1" "i = length pat - 1" by arith+
  then have "bmh_table pat (length pat - 1) i skip = Some (Some skip)" by (subst bmh_table.simps) (rule if_not_P)
  then show ?case using 0 i(2) by blast
next
  case (Suc n)
  then have i: "i < length pat - 1" by simp
  let ?c = "unat (pat ! i)" and ?v = "of_nat (length pat - 1 - i) :: u8"
  have step: "bmh_table pat (length pat - 1) i skip =
      (if 256 \<le> ?c then Some None else bmh_table pat (length pat - 1) (i + 1) (skip[?c := ?v]))"
    using i Suc.prems(2) by (subst bmh_table.simps) (auto simp: rd_def wr_def sBMHCharSetSize_def table_for_def)
  show ?case
  proof (cases "256 \<le> ?c")
    case False
    have v: "unat ?v = length pat - 1 - i" using assms(2) by (intro small_u8) simp
    have upd: "skip[?c := ?v] ! c = (if c = ?c then ?v else skip ! c)" if "c < 256" for c
      using that False Suc.prems(2) by (simp add: table_for_def nth_list_update)
    have "table_for pat (i + 1) (skip[?c := ?v])"
      unfolding table_for_def
    proof (intro conjI allI impI)
      fix c :: nat assume c: "c < 256"
      have old: "0 < unat (skip ! c)" "unat (skip ! c) \<le> length pat"
        "\<And>j. j < i \<Longrightarrow> unat (pat ! j) = c \<Longrightarrow> unat (skip ! c) \<le> length pat - 1 - j"
        using Suc.prems(2) c by (auto simp: table_for_def)
      show "0 < unat (skip[?c := ?v] ! c)" "unat (skip[?c := ?v] ! c) \<le> length pat"
        unfolding upd [OF c] if_distrib [of unat] v using old i by auto
      fix j assume "j < i + 1" "unat (pat ! j) = c"
      then show "unat (skip[?c := ?v] ! c) \<le> length pat - 1 - j"
        unfolding upd [OF c] if_distrib [of unat] v using old i by (cases "j = i") auto
    qed (use Suc.prems(2) in \<open>simp add: table_for_def\<close>)
    moreover have "\<forall>j < i + 1. unat (pat ! j) < 256" using Suc.prems(3) False by (auto simp: less_Suc_eq)
    ultimately show ?thesis using Suc.hyps(1) [of "i + 1" "skip[?c := ?v]"] Suc.hyps(2) i step False by simp
  next
    case True
    then show ?thesis using step by (simp only: if_True) blast
  qed
qed

lemma bmh_compare_ok:
  assumes "b + j < length str" and "j < length pat"
  shows "bmh_compare str pat (b + j) j = Some (if \<forall>l \<le> j. str ! (b + l) = pat ! l then Some b else None)"
  using assms
proof (induction j)
  case (Suc j)
  have "(\<forall>l \<le> Suc j. str ! (b + l) = pat ! l) \<longleftrightarrow> str ! (b + Suc j) = pat ! Suc j \<and> (\<forall>l \<le> j. str ! (b + l) = pat ! l)"
    by (auto simp: le_Suc_eq)
  then show ?case using Suc by (simp add: rd_def)
qed (simp add: rd_def)

lemma bmh_loop_ok:
  assumes "0 < length pat" and "table_for pat (length pat - 1) skip" and "\<forall>j < length pat - 1. unat (pat ! j) < 256"
    and "length pat - 1 \<le> k" and "\<And>i. i < k - (length pat - 1) \<Longrightarrow> \<not> occurs_at str pat i"
  shows "bmh_loop str pat skip k = Some (index_of str pat)"
  using assms(4,5)
proof (induction "length str - k" arbitrary: k rule: less_induct)
  case less
  let ?last = "length pat - 1"
  let ?i = "k - ?last"
  show ?case
  proof (cases "k < length str")
    case False
    have "\<not> occurs_at str pat i" for i
      using less.prems(2) [of i] False less.prems(1) assms(1) by (cases "i < ?i") (auto simp: occurs_at_iff)
    then show ?thesis using False by (subst bmh_loop.simps) (simp add: index_of_none)
  next
    case True
    obtain b where b: "k = b + ?last" using less.prems(1) le_Suc_ex by (metis add.commute)
    have here: "occurs_at str pat b \<longleftrightarrow> (\<forall>l \<le> ?last. str ! (b + l) = pat ! l)"
      using True b assms(1) by (auto simp: occurs_at_iff less_Suc_eq_le [symmetric])
    have "bmh_compare str pat k ?last = Some (if occurs_at str pat b then Some b else None)"
      unfolding here unfolding b using True b assms(1) by (intro bmh_compare_ok) arith+
    then have cmp: "bmh_compare str pat k ?last = Some (if occurs_at str pat ?i then Some ?i else None)" using b by simp
    show ?thesis
    proof (cases "occurs_at str pat ?i")
      case occurs: True
      then show ?thesis
        using True cmp index_of_first [OF occurs less.prems(2)] by (subst bmh_loop.simps) simp
    next
      case False
      define s where "s = (if 256 \<le> unat (str ! k) then length pat else unat (skip ! unat (str ! k)))"
      have s: "0 < s" "s \<le> length pat" using assms(1,2) by (auto simp: s_def table_for_def)
      have no: "\<not> occurs_at str pat i" if "i < k + s - ?last" for i
      proof (cases "i \<le> ?i")
        case True
        then show ?thesis using less.prems(2) False by (cases "i = ?i") auto
      next
        case later: False
        let ?j = "k - i"
        have j: "?j < ?last" "i + ?j = k" using later that s less.prems(1) assms(1) by linarith+
        show ?thesis
        proof
          assume "occurs_at str pat i"
          then have "str ! (i + ?j) = pat ! ?j" using j(1) unfolding occurs_at_iff by auto
          then have eq: "pat ! ?j = str ! k" using j(2) by simp
          then have "unat (str ! k) < 256" using assms(3) j(1) by metis
          then have "s \<le> ?last - ?j" using assms(2) j(1) eq by (auto simp: s_def table_for_def)
          then show False using that later j less.prems(1) by linarith
        qed
      qed
      have "bmh_loop str pat skip k = bmh_loop str pat skip (k + s)"
        using True cmp False assms(2) by (subst bmh_loop.simps) (auto simp: rd_def s_def sBMHCharSetSize_def table_for_def)
      also have "\<dots> = Some (index_of str pat)"
        using less.hyps [of "k + s"] True s(1) less.prems(1) no by simp
      finally show ?thesis .
    qed
  qed
qed

lemma BoyerMooreHorspool_ok:
  assumes "0 < length pat" and "length pat \<le> 255"
  shows "BoyerMooreHorspool str pat = Some sBMHBadPattern \<or> BoyerMooreHorspool str pat = Some (index_of str pat)"
proof -
  have "table_for pat 0 (replicate 256 (of_nat (length pat)))" using assms by (simp add: table_for_def small_u8)
  from bmh_table_ok [OF assms _ this] consider
      "bmh_table pat (length pat - 1) 0 (replicate 256 (of_nat (length pat))) = Some None"
    | skip where "bmh_table pat (length pat - 1) 0 (replicate 256 (of_nat (length pat))) = Some (Some skip)"
        "table_for pat (length pat - 1) skip" "\<forall>j < length pat - 1. unat (pat ! j) < 256"
    by auto
  then show ?thesis
  proof cases
    case 2
    then show ?thesis
      using bmh_loop_ok [OF assms(1) 2(2,3), of "length pat - 1" str] by (simp add: BoyerMooreHorspool_def sBMHCharSetSize_def)
  qed (simp add: BoyerMooreHorspool_def sBMHCharSetSize_def)
qed

section \<open>The first character\<close>

text \<open>What a search for a character in \<open>n\<close> characters from \<open>start\<close> finds.\<close>

definition finds_first :: "'c list \<Rightarrow> nat \<Rightarrow> nat \<Rightarrow> 'c \<Rightarrow> nat option" where
  "finds_first str start n c = find (\<lambda>i. str ! i = c) [start..<start + n]"

lemma finds_first_split:
  "finds_first str start (m + n) c =
    (case finds_first str start m c of None \<Rightarrow> finds_first str (start + m) n c | Some i \<Rightarrow> Some i)"
  unfolding finds_first_def add.assoc [symmetric] upt_add_eq_append [of start "start + m" n, OF le_add1] find_in_append ..

lemma finds_first_cases:
  "finds_first str start n c = Some k \<longleftrightarrow> start \<le> k \<and> k < start + n \<and> str ! k = c \<and> (\<forall>i. start \<le> i \<and> i < k \<longrightarrow> str ! i \<noteq> c)"
  "finds_first str start n c = None \<longleftrightarrow> (\<forall>i. start \<le> i \<and> i < start + n \<longrightarrow> str ! i \<noteq> c)"
proof -
  show none: "finds_first str start n c = None \<longleftrightarrow> (\<forall>i. start \<le> i \<and> i < start + n \<longrightarrow> str ! i \<noteq> c)"
    by (auto simp: finds_first_def find_None_iff)
  have first: "finds_first str start n c = Some k"
    if "start \<le> k" "k < start + n" "str ! k = c" "\<forall>i. start \<le> i \<and> i < k \<longrightarrow> str ! i \<noteq> c" for k
    unfolding finds_first_def by (rule find_upt_first) (use that in auto)
  show "finds_first str start n c = Some k \<longleftrightarrow> start \<le> k \<and> k < start + n \<and> str ! k = c \<and> (\<forall>i. start \<le> i \<and> i < k \<longrightarrow> str ! i \<noteq> c)"
  proof
    assume found: "finds_first str start n c = Some k"
    then obtain i where "start \<le> i \<and> i < start + n \<and> str ! i = c" using none by force
    define j where "j = (LEAST i. start \<le> i \<and> i < start + n \<and> str ! i = c)"
    have j: "start \<le> j \<and> j < start + n \<and> str ! j = c" unfolding j_def by (rule LeastI) fact
    moreover have "\<forall>i. start \<le> i \<and> i < j \<longrightarrow> str ! i \<noteq> c"
    proof (intro allI impI)
      fix i assume i: "start \<le> i \<and> i < j"
      then have "\<not> (start \<le> i \<and> i < start + n \<and> str ! i = c)" unfolding j_def by (intro not_less_Least) blast
      then show "str ! i \<noteq> c" using i j by auto
    qed
    ultimately show "start \<le> k \<and> k < start + n \<and> str ! k = c \<and> (\<forall>i. start \<le> i \<and> i < k \<longrightarrow> str ! i \<noteq> c)"
      using first [of j] found by simp
  qed (use first in blast)
qed

lemma scan_units_ok: "t + m \<le> length str \<Longrightarrow> scan_units str t m c = Some (finds_first str t m c)"
proof (induction m arbitrary: t)
  case (Suc m)
  have "[t..<t + Suc m] = t # [t + 1..<t + 1 + m]" by (simp add: upt_conv_Cons)
  then show ?case using Suc by (simp add: rd_def finds_first_def)
qed (simp add: finds_first_def)

lemma unrolled_loop_ok:
  "t + 8 * m \<le> length str \<Longrightarrow> unrolled_loop str (t + 8 * m) t c = Some (finds_first str t (8 * m) c)"
proof (induction m arbitrary: t)
  case 0
  then show ?case by (subst unrolled_loop.simps) (simp add: finds_first_def)
next
  case (Suc m)
  have "unrolled_loop str (t + 8 + 8 * m) (t + 8) c = Some (finds_first str (t + 8) (8 * m) c)"
    using Suc by simp
  then show ?case
    using Suc.prems finds_first_split [of str t 8 "8 * m" c]
    by (subst unrolled_loop.simps) (auto simp: scan_units_ok add.assoc split: option.split)
qed

lemma FirstCharMatcherUnrolled_ok:
  assumes "0 < n" and "start + n \<le> length str"
  shows "FirstCharMatcherUnrolled str start n c = Some (finds_first str start n c)"
proof -
  define first where "first = (if n mod 8 = 0 then 8 else n mod 8)"
  obtain m where m: "n = first + 8 * m"
  proof (cases "n mod 8 = 0")
    case True
    then have "n = 8 + 8 * (n div 8 - 1)" using assms(1) mult_div_mod_eq [of 8 n] by (cases "n div 8") simp_all
    then show thesis using that True by (simp add: first_def)
  next
    case False
    then show thesis using that [of "n div 8"] by (simp add: first_def)
  qed
  have "unrolled_loop str (start + first + 8 * m) (start + first) c = Some (finds_first str (start + first) (8 * m) c)"
    by (rule unrolled_loop_ok) (use assms m in simp)
  moreover have "scan_units str start first c = Some (finds_first str start first c)"
    by (rule scan_units_ok) (use assms m in simp)
  ultimately show ?thesis
    using finds_first_split [of str start first "8 * m" c] unfolding m
    by (auto simp: FirstCharMatcherUnrolled_def m [symmetric] first_def [symmetric] Let_def add.assoc split: option.split)
qed

lemma FirstCharMatcher8bit_ok:
  "0 < n \<Longrightarrow> start + n \<le> length str \<Longrightarrow> FirstCharMatcher8bit tg str start n c = Some (finds_first str start n c)"
  by (simp add: FirstCharMatcher8bit_def FirstCharMatcherUnrolled_ok memchr_def finds_first_def)

text \<open>The bytes of the characters.\<close>

lemma bytes_nth:
  assumes "i < length cs"
  shows "concat (map bytes_of cs) ! (2 * i) = bytes_of (cs ! i) ! 0" "concat (map bytes_of cs) ! (2 * i + 1) = bytes_of (cs ! i) ! 1"
  using assms
proof (induction cs arbitrary: i)
  case (Cons c cs)
  case 1
  then show ?case using Cons.IH(1) [of "i - 1"] by (cases i) (simp_all add: bytes_of_def)
  case 2
  then show ?case using Cons.IH(2) [of "i - 1"] by (cases i) (simp_all add: bytes_of_def)
qed simp_all

lemma length_bytes: "length (concat (map bytes_of cs)) = 2 * length cs"
  by (induction cs) (simp_all add: bytes_of_def)

lemma bytes_eq: "bytes_of c ! 0 = bytes_of d ! 0 \<and> bytes_of c ! 1 = bytes_of d ! 1 \<longleftrightarrow> c = d"
proof
  assume eq: "bytes_of c ! 0 = bytes_of d ! 0 \<and> bytes_of c ! 1 = bytes_of d ! 1"
  have low: "unat (ucast (x :: u16) :: u8) = unat x mod 256" for x by (simp add: unsigned_ucast_eq take_bit_eq_mod)
  have lo: "unat c mod 256 = unat d mod 256" using eq low [of c] low [of d] by (simp add: bytes_of_def)
  have less: "unat x < 65536" for x :: u16 using unsigned_less [of x] by simp
  have high: "unat (ucast (drop_bit 8 x) :: u8) = unat x div 256" for x :: u16 unfolding low unat_drop by (simp add: less [of x] div_less_iff_less_mult)
  have "unat c div 256 = unat d div 256" using eq high [of c] high [of d] by (simp add: bytes_of_def)
  then have "unat c = unat d" using lo by (metis div_mult_mod_eq)
  then show "c = d" by (rule word_unat_eq_iff [THEN iffD2])
qed simp

lemma first16_loop_ok:
  assumes "n \<le> length cs" and "i \<le> 2 * n" and "\<And>j. 2 * j < i \<Longrightarrow> j < n \<Longrightarrow> cs ! j \<noteq> c"
  shows "first16_loop tg (concat (map bytes_of cs)) (2 * n) i c = Some (finds_first cs 0 n c)"
  using assms(2,3)
proof (induction "2 * n - i" arbitrary: i rule: less_induct)
  case less
  let ?bs = "concat (map bytes_of cs)"
  show ?case
  proof (cases "i < 2 * n")
    case False
    then have "finds_first cs 0 n c = None" using less.prems by (auto simp: finds_first_cases)
    then show ?thesis using False by (subst first16_loop.simps) simp
  next
    case True
    have search: "FirstCharMatcher8bit tg ?bs i (2 * n - i) (bytes_of c ! 0) = Some (finds_first ?bs i (2 * n - i) (bytes_of c ! 0))"
      using True assms(1) by (intro FirstCharMatcher8bit_ok) (simp_all add: length_bytes)
    show ?thesis
    proof (cases "finds_first ?bs i (2 * n - i) (bytes_of c ! 0)")
      case None
      have "cs ! j \<noteq> c" if "j < n" for j
        using None less.prems(2) [of j] that bytes_nth(1) [of j cs] assms(1) True by (cases "2 * j < i") (force simp: finds_first_cases)+
      then have "finds_first cs 0 n c = None" by (simp add: finds_first_cases)
      then show ?thesis using True search None by (subst first16_loop.simps) simp
    next
      case (Some k)
      then have k: "i \<le> k" "k < 2 * n" "?bs ! k = bytes_of c ! 0" "\<And>l. i \<le> l \<Longrightarrow> l < k \<Longrightarrow> ?bs ! l \<noteq> bytes_of c ! 0"
        using True by (auto simp: finds_first_cases)
      have before_k: "cs ! j \<noteq> c" if "2 * j < k" "j < n" for j
        using less.prems(2) [of j] k(4) [of "2 * j"] that bytes_nth(1) [of j cs] assms(1) by (cases "2 * j < i") auto
      show ?thesis
      proof (cases "k mod 2 = 0")
        case False
        have "first16_loop tg ?bs (2 * n) i c = first16_loop tg ?bs (2 * n) (k + 1) c"
          using True search Some False by (subst first16_loop.simps) simp
        also have "\<dots> = Some (finds_first cs 0 n c)"
        proof (rule less.hyps)
          fix j assume "2 * j < k + 1" "j < n"
          moreover from this False have "2 * j < k" by presburger
          ultimately show "cs ! j \<noteq> c" using before_k by blast
        qed (use k True in simp_all)
        finally show ?thesis .
      next
        case even: True
        then obtain j where j: "k = 2 * j" by (auto simp: mod_eq_0_iff_dvd dvd_def)
        have jn: "j < n" "j < length cs" using j k(2) assms(1) by simp_all
        show ?thesis
        proof (cases "bytes_of c ! 1 = ?bs ! (k + 1)")
          case hit: True
          then have "cs ! j = c" using k(3) bytes_nth [OF jn(2)] bytes_eq [of "cs ! j" c] j by simp
          then have "finds_first cs 0 n c = Some j" using jn before_k j by (simp add: finds_first_cases)
          then show ?thesis using True search Some even hit j jn by (subst first16_loop.simps) (simp add: rd_def length_bytes)
        next
          case miss: False
          then have "cs ! j \<noteq> c" using bytes_nth [OF jn(2)] j by auto
          have "first16_loop tg ?bs (2 * n) i c = first16_loop tg ?bs (2 * n) (k + 2) c"
            using True search Some even miss jn j by (subst first16_loop.simps) (simp add: rd_def length_bytes)
          also have "\<dots> = Some (finds_first cs 0 n c)"
          proof (rule less.hyps)
            fix l assume "2 * l < k + 2" "l < n"
            then show "cs ! l \<noteq> c" using before_k [of l] j \<open>cs ! j \<noteq> c\<close> by (cases "l = j") auto
          qed (use k True j jn in simp_all)
          finally show ?thesis .
        qed
      qed
    qed
  qed
qed

lemma FirstCharMatcher16bit_ok:
  assumes "start + n \<le> length str"
  shows "FirstCharMatcher16bit tg str start n c = Some (finds_first str start n c)"
proof -
  have loop: "first16_loop tg (concat (map bytes_of (drop start str))) (2 * n) 0 c = Some (finds_first (drop start str) 0 n c)"
    using assms by (intro first16_loop_ok) simp_all
  have "map_option (\<lambda>i. start + i) (finds_first (drop start str) 0 n c) = finds_first str start n c"
  proof (cases "finds_first str start n c")
    case None
    then have "finds_first (drop start str) 0 n c = None" using assms by (auto simp: finds_first_cases)
    then show ?thesis using None by simp
  next
    case (Some k)
    then obtain j where j: "k = start + j" by (auto simp: finds_first_cases le_iff_add)
    have "finds_first (drop start str) 0 n c = Some j" using Some assms j by (auto simp: finds_first_cases)
    then show ?thesis using Some j by simp
  qed
  then show ?thesis using loop by (simp add: FirstCharMatcher16bit_def mult.commute)
qed

section \<open>StringMatch\<close>

lemma first_char_ok:
  "0 < n \<Longrightarrow> start + n \<le> length str \<Longrightarrow> first_char tg tc pc str start n c = Some (finds_first str start n c)"
  by (simp add: first_char_def FirstCharMatcher16bit_ok FirstCharMatcher8bit_ok FirstCharMatcherUnrolled_ok)

lemma manual_match_steps:
  "t + m \<le> length str \<Longrightarrow> length pat = p + m \<Longrightarrow> manual_match pat str p t = Some (\<forall>j < m. str ! (t + j) = pat ! (p + j))"
proof (induction m arbitrary: p t)
  case 0
  then show ?case by (subst manual_match.simps) simp
next
  case (Suc m)
  then show ?case
    using Suc.IH [of "t + 1" "p + 1"] unfolding All_less_Suc2 by (subst manual_match.simps) (auto simp: rd_def)
qed

lemma manual_match_ok:
  assumes "0 < length pat" and "i + length pat \<le> length str" and "str ! i = pat ! 0"
  shows "manual_match pat str 1 (i + 1) = Some (occurs_at str pat i)"
proof -
  obtain m where m: "length pat = Suc m" using assms(1) by (cases "length pat") simp_all
  have "manual_match pat str 1 (i + 1) = Some (\<forall>j < m. str ! (i + 1 + j) = pat ! (1 + j))"
    using assms(2) m by (intro manual_match_steps) simp_all
  then show ?thesis using assms(2,3) by (simp add: occurs_at_iff m All_less_Suc2)
qed

lemma matcher_loop_ok:
  assumes "0 < length pat" and "length pat \<le> length str" and "\<And>j. j < i \<Longrightarrow> \<not> occurs_at str pat j"
    and "i \<le> length str - length pat + 1"
  shows "matcher_loop tg tc pc str pat (length str - length pat + 1) i = Some (index_of str pat)"
  using assms(3,4)
proof (induction "length str - i" arbitrary: i rule: less_induct)
  case less
  let ?n = "length str - length pat + 1"
  show ?case
  proof (cases "i < ?n")
    case False
    have "\<not> occurs_at str pat j" for j using less.prems(1) [of j] False assms(2) by (cases "j < i") (auto simp: occurs_at_iff)
    then show ?thesis using False by (subst matcher_loop.simps) (simp add: index_of_none)
  next
    case True
    have search: "first_char tg tc pc str i (?n - i) (pat ! 0) = Some (finds_first str i (?n - i) (pat ! 0))"
      using True assms(1,2) by (intro first_char_ok) linarith+
    have p0: "rd pat 0 = Some (pat ! 0)" using assms(1) by (simp add: rd_def)
    show ?thesis
    proof (cases "finds_first str i (?n - i) (pat ! 0)")
      case None
      have "\<not> occurs_at str pat j" for j
      proof (cases "j < i")
        case False
        then show ?thesis using None assms(1,2) True by (auto simp: finds_first_cases occurs_at_iff dest: spec [of _ "0 :: nat"])
      qed (use less.prems(1) in blast)
      then show ?thesis using True search None p0 by (subst matcher_loop.simps) (simp add: index_of_none)
    next
      case (Some k)
      then have k: "i \<le> k" "k < ?n" "str ! k = pat ! 0" "\<And>j. i \<le> j \<Longrightarrow> j < k \<Longrightarrow> str ! j \<noteq> pat ! 0"
        using True by (auto simp: finds_first_cases)
      have no: "\<not> occurs_at str pat j" if "j < k" for j
        using less.prems(1) [of j] k(4) [of j] that assms(1) by (cases "j < i") (auto simp: occurs_at_iff dest: spec [of _ "0 :: nat"])
      have fits: "k + length pat \<le> length str" using k(2) assms(2) by linarith
      have total: "manual_match pat str 1 (k + 1) = Some (occurs_at str pat k)"
        by (rule manual_match_ok [OF assms(1) fits k(3)])
      show ?thesis
      proof (cases "occurs_at str pat k")
        case occurs: True
        then show ?thesis
          using True search Some p0 total index_of_first [OF occurs no] by (subst matcher_loop.simps) simp
      next
        case False
        have "matcher_loop tg tc pc str pat ?n i = matcher_loop tg tc pc str pat ?n (k + 1)"
          using True search Some p0 total False by (subst matcher_loop.simps) simp
        also have "\<dots> = Some (index_of str pat)"
        proof (rule less.hyps)
          fix j assume "j < k + 1"
          then show "\<not> occurs_at str pat j" using no False by (cases "j = k") auto
        qed (use k True assms(1,2) in arith)+
        finally show ?thesis .
      qed
    qed
  qed
qed

lemma StringMatch_ok: "StringMatch tg tc pc str pat = Some (index_of str pat)"
proof -
  consider (empty) "pat = []" | (short) "pat \<noteq> []" "length str < length pat" | (long) "0 < length pat" "length pat \<le> length str"
    by (cases "pat = []"; cases "length str < length pat") auto
  then show ?thesis
  proof cases
    case empty
    have "index_of str [] = int 0" by (rule index_of_first) (simp_all add: occurs_at_def)
    then show ?thesis using empty by (simp add: StringMatch_def)
  next
    case short
    then show ?thesis by (simp add: StringMatch_def index_of_none occurs_at_iff)
  next
    case long
    have one: "index_of str pat = (case finds_first str 0 (length str) (pat ! 0) of Some i \<Rightarrow> int i | None \<Rightarrow> - 1)" if "length pat = 1"
    proof (cases "finds_first str 0 (length str) (pat ! 0)")
      case None
      then have "\<not> occurs_at str pat i" for i using that by (auto simp: occurs_at_iff finds_first_cases)
      then show ?thesis using None by (simp add: index_of_none)
    next
      case (Some k)
      then have "occurs_at str pat k" "\<And>i. i < k \<Longrightarrow> \<not> occurs_at str pat i" using that by (auto simp: occurs_at_iff finds_first_cases)
      from index_of_first [OF this] show ?thesis using Some by simp
    qed
    have "Matcher tg tc pc str pat = Some (index_of str pat)"
      unfolding Matcher_def by (rule matcher_loop_ok) (use long in simp_all)
    moreover have "BoyerMooreHorspool str pat = Some sBMHBadPattern \<or> BoyerMooreHorspool str pat = Some (index_of str pat)"
      if "length pat \<le> sBMHPatLenMax" using BoyerMooreHorspool_ok [OF long(1)] that by (simp add: sBMHPatLenMax_def)
    moreover have "scan_units str 0 (length str) (pat ! 0) = Some (finds_first str 0 (length str) (pat ! 0))" by (rule scan_units_ok) simp
    ultimately show ?thesis
      using long one unfolding StringMatch_def Let_def by (auto simp: rd_def)
  qed
qed

section \<open>Ropes\<close>

fun segments :: "js_string \<Rightarrow> linear_string list" where
  "segments (Linear s) = [s]"
| "segments (Rope left right) = segments left @ segments right"

definition range_segments :: "segment_range \<Rightarrow> linear_string list" where
  "range_segments r = (case cur_segment r of None \<Rightarrow> [] | Some s \<Rightarrow> s # concat (map segments (stack r)))"

abbreviation joined :: "linear_string list \<Rightarrow> u16 list" where
  "joined ss \<equiv> concat (map snd ss)"

lemma flatten_segments: "flatten s = joined (segments s)"
  by (induction s) simp_all

lemma range_settle: "range_segments (settle s st) = segments s @ concat (map segments st)"
  by (induction s st rule: settle.induct) (simp_all add: range_segments_def)

lemma range_pop: "cur_segment r = Some s \<Longrightarrow> range_segments r = s # range_segments (range_popFront r)"
  by (cases "stack r") (simp_all add: range_popFront_def range_settle, simp_all add: range_segments_def)

lemma collect_segments_ok:
  "collect_segments append_ok latin1 threshold r strings = Some ss \<Longrightarrow> ss = strings @ range_segments r"
proof (induction threshold arbitrary: r strings)
  case 0
  then show ?case by (auto simp: range_segments_def split: if_splits)
next
  case (Suc threshold)
  show ?case
  proof (cases "cur_segment r")
    case None
    then show ?thesis using Suc.prems by (simp add: range_segments_def)
  next
    case (Some s)
    then have "collect_segments append_ok latin1 threshold (range_popFront r) (strings @ [s]) = Some ss"
      using Suc.prems by (auto split: if_splits)
    from Suc.IH [OF this] show ?thesis using range_pop [OF Some] by simp
  qed
qed

lemma rope_compare_ok:
  "case rope_compare pp tt inner of
     Matched \<Rightarrow> prefix pp (tt @ joined inner)
   | Exhausted \<Rightarrow> length (tt @ joined inner) < length pp
   | Mismatch \<Rightarrow> \<not> prefix pp (tt @ joined inner)"
  by (induction pp tt inner rule: rope_compare.induct) (auto split: segment_result.splits)

definition starts_result :: "u16 list \<Rightarrow> u16 list \<Rightarrow> nat \<Rightarrow> nat \<Rightarrow> nat option \<times> segment_result \<Rightarrow> bool" where
  "starts_result str pat t n r =
     (case r of
        (Some k, _) \<Rightarrow> t \<le> k \<and> occurs_at str pat k \<and> (\<forall>i. t \<le> i \<and> i < k \<longrightarrow> \<not> occurs_at str pat i)
      | (None, e) \<Rightarrow> (\<forall>i. t \<le> i \<and> (e = Exhausted \<or> i < t + n) \<longrightarrow> \<not> occurs_at str pat i))"

lemma starts_later:
  assumes "\<not> occurs_at str pat t" and "starts_result str pat (t + 1) n r"
  shows "starts_result str pat t (Suc n) r"
proof -
  have split: "t \<le> i \<longleftrightarrow> i = t \<or> t + 1 \<le> i" for i by auto
  show ?thesis using assms by (auto simp: starts_result_def split split: prod.splits option.splits)
qed

lemma rope_starts_ok:
  assumes "pat \<noteq> []" and "drop t str = chars @ joined inner" and "t \<le> length str"
  shows "starts_result str pat t (length chars) (rope_starts pat chars t inner)"
  using assms(2,3)
proof (induction chars arbitrary: t)
  case Nil
  then show ?case by (auto simp: starts_result_def)
next
  case (Cons c chars)
  have t: "t < length str" using Cons.prems(1) by (cases "t < length str") simp_all
  have tail: "drop (t + 1) str = chars @ joined inner" using Cons.prems(1) by (metis append_Cons drop_Suc drop_tl list.sel(3) Suc_eq_plus1)
  have here: "occurs_at str pat t \<longleftrightarrow> c = hd pat \<and> prefix (tl pat) (chars @ joined inner)"
    using assms(1) Cons.prems by (cases pat) (auto simp: occurs_at_def)
  note later = Cons.IH [OF tail]
  note cmp = rope_compare_ok [of "tl pat" chars inner]
  show ?case
  proof (cases "c = hd pat")
    case False
    then show ?thesis using starts_later [OF _ later] here t by simp
  next
    case True
    show ?thesis
    proof (cases "rope_compare (tl pat) chars inner")
      case Matched
      then show ?thesis using True cmp here by (auto simp: starts_result_def)
    next
      case Mismatch
      then show ?thesis using True cmp starts_later [OF _ later] here t by simp
    next
      case Exhausted
      have "length str - t < length pat" using cmp Exhausted assms(1) tail t by (cases pat) (simp_all flip: tail)
      then have "\<not> occurs_at str pat i" if "t \<le> i" for i using that by (auto simp: occurs_at_iff)
      then show ?thesis using True Exhausted by (simp add: starts_result_def)
    qed
  qed
qed

text \<open>The first occurrence behind a position from which the text is searched.\<close>

lemma index_of_append:
  assumes "\<And>i. i < length xs \<Longrightarrow> \<not> occurs_at (xs @ ys) pat i"
  shows "index_of (xs @ ys) pat = (if index_of ys pat = - 1 then - 1 else int (length xs) + index_of ys pat)"
proof -
  have shift: "occurs_at (xs @ ys) pat (length xs + i) \<longleftrightarrow> occurs_at ys pat i" for i by (simp add: occurs_at_def)
  show ?thesis
  proof (rule index_of_cases [of ys pat])
    assume none: "index_of ys pat = - 1" "\<And>i. \<not> occurs_at ys pat i"
    have "\<not> occurs_at (xs @ ys) pat i" for i
      using assms [of i] none(2) shift [of "i - length xs"] by (cases "i < length xs") simp_all
    then show ?thesis using none(1) by (simp add: index_of_none)
  next
    fix k assume first: "index_of ys pat = int k" "occurs_at ys pat k" "\<And>i. i < k \<Longrightarrow> \<not> occurs_at ys pat i"
    have "index_of (xs @ ys) pat = int (length xs + k)"
    proof (rule index_of_first)
      fix i assume "i < length xs + k"
      then show "\<not> occurs_at (xs @ ys) pat i"
        using assms [of i] first(3) [of "i - length xs"] shift [of "i - length xs"] by (cases "i < length xs") simp_all
    qed (simp add: shift first(2))
    then show ?thesis using first(1) by simp
  qed
qed

lemma occurs_in_prefix: "i + length pat \<le> length xs \<Longrightarrow> occurs_at (xs @ ys) pat i \<longleftrightarrow> occurs_at xs pat i"
  by (auto simp: occurs_at_iff nth_append)

lemma index_of_prefix: "index_of xs pat \<noteq> - 1 \<Longrightarrow> index_of (xs @ ys) pat = index_of xs pat"
proof (rule index_of_cases [of xs pat])
  fix k assume first: "index_of xs pat = int k" "occurs_at xs pat k" "\<And>i. i < k \<Longrightarrow> \<not> occurs_at xs pat i"
  have "k + length pat \<le> length xs" using first(2) by (simp add: occurs_at_iff)
  then have "index_of (xs @ ys) pat = int k" using first(2,3) by (intro index_of_first) (simp_all add: occurs_in_prefix)
  then show ?thesis using first(1) by simp
qed simp

lemma RopeMatchImpl_ok:
  assumes "pat \<noteq> []"
  shows "RopeMatchImpl tg tc pc strings pat pos =
    Some (if index_of (joined strings) pat = - 1 then - 1 else int pos + index_of (joined strings) pat)"
proof (induction strings arbitrary: pos)
  case Nil
  then show ?case using assms by (simp add: index_of_none occurs_at_iff)
next
  case (Cons outer strings)
  let ?xs = "snd outer" and ?ys = "joined strings"
  let ?from = "if length ?xs < length pat then 0 else length ?xs - length pat + 1"
  let ?r = "rope_starts pat (drop ?from ?xs) ?from strings"
  show ?case
  proof (cases "index_of ?xs pat = - 1")
    case False
    then show ?thesis by (simp add: StringMatch_ok index_of_prefix)
  next
    case True
    then have none: "\<not> occurs_at ?xs pat i" for i by (cases rule: index_of_cases [of ?xs pat]) simp_all
    have before: "\<not> occurs_at (?xs @ ?ys) pat i" if "i < ?from" for i
      using none [of i] occurs_in_prefix [of i pat ?xs ?ys] that by (auto split: if_splits)
    have from_le: "?from \<le> length ?xs" using assms by (cases pat) auto
    have starts: "starts_result (?xs @ ?ys) pat ?from (length (drop ?from ?xs)) ?r"
      by (rule rope_starts_ok [OF assms]) (use from_le in simp_all)
    have step: "RopeMatchImpl tg tc pc (outer # strings) pat pos =
        (case ?r of (Some t, _) \<Rightarrow> Some (int pos + int t) | (None, Exhausted) \<Rightarrow> Some (- 1)
         | (None, _) \<Rightarrow> RopeMatchImpl tg tc pc strings pat (pos + length ?xs))"
      using True by (simp add: StringMatch_ok Let_def)
    obtain found e where r: "?r = (found, e)" by (cases ?r)
    show ?thesis
    proof (cases found)
      case (Some k)
      have "index_of (?xs @ ?ys) pat = int k"
      proof (rule index_of_first)
        fix i assume "i < k"
        then show "\<not> occurs_at (?xs @ ?ys) pat i" using before [of i] starts r Some by (cases "i < ?from") (auto simp: starts_result_def)
      qed (use starts r Some in \<open>simp add: starts_result_def\<close>)
      then show ?thesis unfolding step r Some by simp
    next
      case None
      show ?thesis
      proof (cases "e = Exhausted")
        case True
        have "\<not> occurs_at (?xs @ ?ys) pat i" for i
          using before [of i] starts r None True by (cases "i < ?from") (auto simp: starts_result_def)
        then show ?thesis unfolding step r None True by (simp add: index_of_none)
      next
        case False
        have "\<not> occurs_at (?xs @ ?ys) pat i" if "i < length ?xs" for i
          using before [of i] starts r None that from_le by (cases "i < ?from") (auto simp: starts_result_def)
        then have "index_of (?xs @ ?ys) pat = (if index_of ?ys pat = - 1 then - 1 else int (length ?xs) + index_of ?ys pat)"
          by (rule index_of_append)
        moreover have "index_of ?ys pat = - 1 \<or> 0 \<le> index_of ?ys pat" by (rule index_of_cases [of ?ys pat]) simp_all
        ultimately show ?thesis
          unfolding step r None using False Cons.IH [of "pos + length ?xs"] by (cases e) auto
      qed
    qed
  qed
qed

lemma RopeMatch_ok:
  "RopeMatch tg append_ok linear_ok str pat = Some (Some (index_of (flatten str) (snd pat))) \<or>
   \<not> linear_ok \<and> RopeMatch tg append_ok linear_ok str pat = Some None"
proof -
  have empty: "index_of s [] = 0" for s :: "u16 list" using index_of_first [of s "[]" 0] by (simp add: occurs_at_def)
  have short: "index_of s p = - 1" if "length s < length p" for s p :: "u16 list"
    using that by (intro index_of_none) (simp add: occurs_at_iff)
  show ?thesis
    using RopeMatchImpl_ok [of "snd pat"]
    by (auto simp: RopeMatch_def Let_def empty short StringMatch_from_def StringMatch_ok flatten_segments range_settle
        dest!: collect_segments_ok split: option.split)
qed

section \<open>The last occurrence\<close>

lemma LastIndexOfImpl_ok:
  assumes "pat \<noteq> []" and "t + length pat \<le> length str"
  shows "LastIndexOfImpl str pat t =
    Some (case find (occurs_at str pat) (rev [0..<t + 1]) of None \<Rightarrow> - 1 | Some i \<Rightarrow> int i)"
  using assms(2)
proof (induction t)
  case 0
  then show ?case
    using assms(1) manual_match_ok [of pat 0 str] occurs_at_iff [of str pat 0]
    by (subst LastIndexOfImpl.simps) (auto simp: rd_def)
next
  case (Suc t)
  then have "Suc t < length str" using assms(1) by (cases pat) simp_all
  then show ?case
    using Suc assms(1) manual_match_ok [of pat "Suc t" str] occurs_at_iff [of str pat "Suc t"]
    by (subst LastIndexOfImpl.simps) (auto simp: rd_def)
qed

lemma find_rev_upt:
  "find P (rev [0..<n]) = None \<and> (\<forall>i < n. \<not> P i) \<or> (\<exists>k < n. find P (rev [0..<n]) = Some k \<and> P k \<and> (\<forall>i. k < i \<and> i < n \<longrightarrow> \<not> P i))"
proof (induction n)
  case (Suc n)
  show ?case
  proof (cases "P n")
    case False
    have "find P (rev [0..<Suc n]) = find P (rev [0..<n])" using False by simp
    then show ?thesis using Suc False by (auto simp: less_Suc_eq)
  qed auto
qed simp

section \<open>Properties\<close>

text \<open>
  C37. \<open>StringMatch\<close> gives the first occurrence of the pattern from the start position on, or \<open>-1\<close>, for all four
  combinations of character types, whichever of the searches the lengths and the compiler select: all of them end and read
  only inside the strings.
\<close>

theorem string_match_first:
  assumes "start \<le> length str"
  shows "\<exists>m. StringMatch_from tg (tc, str) (pc, pat) start = Some m \<and>
    (m = - 1 \<and> (\<forall>i \<ge> start. \<not> occurs_at str pat i) \<or>
     (\<exists>k \<ge> start. m = int k \<and> occurs_at str pat k \<and> (\<forall>i. start \<le> i \<and> i < k \<longrightarrow> \<not> occurs_at str pat i)))"
proof -
  have shift: "occurs_at str pat i \<longleftrightarrow> occurs_at (drop start str) pat (i - start)" if "start \<le> i" for i
    using that assms by (auto simp: occurs_at_def)
  show ?thesis
  proof (rule index_of_cases [of "drop start str" pat])
    assume "index_of (drop start str) pat = - 1" "\<And>i. \<not> occurs_at (drop start str) pat i"
    then show ?thesis using shift by (simp add: StringMatch_from_def StringMatch_ok)
  next
    fix k assume k: "index_of (drop start str) pat = int k" "occurs_at (drop start str) pat k"
        "\<And>i. i < k \<Longrightarrow> \<not> occurs_at (drop start str) pat i"
    have "\<not> occurs_at str pat i" if "start \<le> i" "i < start + k" for i using k(3) [of "i - start"] shift [of i] that by simp
    then show ?thesis
      using k(1,2) shift [of "start + k"] by (simp add: StringMatch_from_def StringMatch_ok) (metis le_add1 of_nat_add)
  qed
qed

lemma string_match_first_witness:
  "\<exists>m. StringMatch_from \<lparr>clang = True, i386 = False\<rparr> (Latin1Char, u16s ''ababc'') (Char16, u16s ''abc'') 1 = Some m \<and>
    (m = - 1 \<and> (\<forall>i \<ge> 1. \<not> occurs_at (u16s ''ababc'') (u16s ''abc'') i) \<or>
     (\<exists>k \<ge> 1. m = int k \<and> occurs_at (u16s ''ababc'') (u16s ''abc'') k \<and>
       (\<forall>i. 1 \<le> i \<and> i < k \<longrightarrow> \<not> occurs_at (u16s ''ababc'') (u16s ''abc'') i)))"
  by (rule string_match_first) simp

text \<open>
  C38. \<open>RopeMatch\<close>, which searches a rope segment by segment without flattening it, finds the first occurrence in the
  flattened string, also across segments; only flattening may fail, for want of memory.
\<close>

theorem rope_match_flattened:
  "RopeMatch tg append_ok linear_ok str pat = Some (Some (index_of (flatten str) (snd pat))) \<or>
   \<not> linear_ok \<and> RopeMatch tg append_ok linear_ok str pat = Some None"
  by (rule RopeMatch_ok)

text \<open>
  C39. \<open>LastIndexOfImpl\<close> gives the last occurrence at or before its start position, or \<open>-1\<close>.
\<close>

theorem last_index_of:
  assumes "pat \<noteq> []" and "t + length pat \<le> length str"
  shows "\<exists>m. LastIndexOfImpl str pat t = Some m \<and>
    (m = - 1 \<and> (\<forall>i \<le> t. \<not> occurs_at str pat i) \<or>
     (\<exists>k \<le> t. m = int k \<and> occurs_at str pat k \<and> (\<forall>i. k < i \<and> i \<le> t \<longrightarrow> \<not> occurs_at str pat i)))"
proof -
  have le: "i \<le> t \<longleftrightarrow> i < t + 1" for i by auto
  show ?thesis
    unfolding LastIndexOfImpl_ok [OF assms] le using find_rev_upt [of "occurs_at str pat" "t + 1"] by (elim disjE exE conjE) auto
qed

lemma last_index_of_witness:
  "\<exists>m. LastIndexOfImpl (u16s ''ababa'') (u16s ''ab'') 3 = Some m \<and>
    (m = - 1 \<and> (\<forall>i \<le> 3. \<not> occurs_at (u16s ''ababa'') (u16s ''ab'') i) \<or>
     (\<exists>k \<le> 3. m = int k \<and> occurs_at (u16s ''ababa'') (u16s ''ab'') k \<and>
       (\<forall>i. k < i \<and> i \<le> 3 \<longrightarrow> \<not> occurs_at (u16s ''ababa'') (u16s ''ab'') i)))"
  by (rule last_index_of) simp_all

end
