(* ===== verification/DoubleArith.thy ===== *)
theory DoubleArith
  imports Complex_Main "HOL-Library.Log_Nat" Prelude
begin

text \<open>
  The arithmetic of C++ doubles (IEEE 754 binary64, rounding to nearest, ties to even), for the code that computes with
  them.

  \<^item> A double is NaN, an infinity (the argument says whether it is negative), negative zero, or a finite value, a
    rational number. \<open>Fin 0\<close> is positive zero. The payload of a NaN is not modelled.
  \<^item> \<open>rnd\<close> rounds to 53 bits, with the exponents of subnormal numbers.
\<close>

datatype double = NaN | Infinity bool | NegZero | Fin rat

section \<open>Rounding\<close>

text \<open>The largest \<open>e\<close> with \<open>2\<^sup>e \<le> \<bar>q\<bar>\<close>, for \<open>q \<noteq> 0\<close>.\<close>

definition exponent :: "rat \<Rightarrow> int" where
  "exponent q =
     (let a = fst (quotient_of \<bar>q\<bar>); b = snd (quotient_of \<bar>q\<bar>); e = bitlen a - bitlen b
      in if \<bar>q\<bar> < 2 powi e then e - 1 else e)"

definition round_even :: "rat \<Rightarrow> int" where
  "round_even x =
     (let f = \<lfloor>x\<rfloor>; d = x - of_int f
      in if d < 1 / 2 then f else if 1 / 2 < d then f + 1 else if even f then f else f + 1)"

definition rnd_exponent :: "rat \<Rightarrow> int" where
  "rnd_exponent q = max (exponent q - 52) (- 1074)"

definition rnd :: "rat \<Rightarrow> rat" where
  "rnd q = (if q = 0 then 0 else of_int (round_even (q / 2 powi rnd_exponent q)) * 2 powi rnd_exponent q)"

text \<open>The double next to a number; \<open>neg\<close> is the sign of a zero. From \<open>2\<^sup>1\<^sup>0\<^sup>2\<^sup>4\<close> on it is infinite.\<close>

definition mk_double :: "bool \<Rightarrow> rat \<Rightarrow> double" where
  "mk_double neg q =
     (let r = rnd q
      in if r = 0 then (if (if q = 0 then neg else q < 0) then NegZero else Fin 0)
         else if 1024 \<le> exponent r then Infinity (r < 0) else Fin r)"

text \<open>A decimal literal.\<close>

definition literal :: "rat \<Rightarrow> double" where
  "literal q = mk_double False q"

section \<open>Operations\<close>

fun d_IsFinite :: "double \<Rightarrow> bool" where
  "d_IsFinite (Fin q) = True"
| "d_IsFinite NegZero = True"
| "d_IsFinite _ = False"

definition d_IsNaN :: "double \<Rightarrow> bool" where
  "d_IsNaN x \<longleftrightarrow> x = NaN"

text \<open>The value of a finite double.\<close>

fun val :: "double \<Rightarrow> rat" where
  "val (Fin q) = q"
| "val _ = 0"

fun sign_of :: "double \<Rightarrow> bool" where
  "sign_of (Fin q) = (q < 0)"
| "sign_of NegZero = True"
| "sign_of (Infinity s) = s"
| "sign_of NaN = False"

fun d_neg :: "double \<Rightarrow> double" where
  "d_neg NaN = NaN"
| "d_neg (Infinity s) = Infinity (\<not> s)"
| "d_neg NegZero = Fin 0"
| "d_neg (Fin q) = (if q = 0 then NegZero else Fin (- q))"

fun d_add :: "double \<Rightarrow> double \<Rightarrow> double" where
  "d_add NaN y = NaN"
| "d_add x NaN = NaN"
| "d_add (Infinity s) (Infinity t) = (if s = t then Infinity s else NaN)"
| "d_add (Infinity s) y = Infinity s"
| "d_add x (Infinity t) = Infinity t"
| "d_add x y = mk_double (x = NegZero \<and> y = NegZero) (val x + val y)"

definition d_sub :: "double \<Rightarrow> double \<Rightarrow> double" where
  "d_sub x y = d_add x (d_neg y)"

definition is_zero :: "double \<Rightarrow> bool" where
  "is_zero x \<longleftrightarrow> x = NegZero \<or> x = Fin 0"

fun d_mul :: "double \<Rightarrow> double \<Rightarrow> double" where
  "d_mul NaN y = NaN"
| "d_mul x NaN = NaN"
| "d_mul (Infinity s) y = (if is_zero y then NaN else Infinity (s \<noteq> sign_of y))"
| "d_mul x (Infinity t) = (if is_zero x then NaN else Infinity (sign_of x \<noteq> t))"
| "d_mul x y = mk_double (sign_of x \<noteq> sign_of y) (val x * val y)"

fun d_div :: "double \<Rightarrow> double \<Rightarrow> double" where
  "d_div NaN y = NaN"
| "d_div x NaN = NaN"
| "d_div (Infinity s) (Infinity t) = NaN"
| "d_div (Infinity s) y = Infinity (s \<noteq> sign_of y)"
| "d_div x (Infinity t) = (if sign_of x \<noteq> t then NegZero else Fin 0)"
| "d_div x y =
     (if is_zero y then if is_zero x then NaN else Infinity (sign_of x \<noteq> sign_of y)
      else mk_double (sign_of x \<noteq> sign_of y) (val x / val y))"

text \<open>\<open>fmod\<close>: the remainder of the division rounded to zero, exact, with the sign of the dividend.\<close>

definition trunc_rat :: "rat \<Rightarrow> int" where
  "trunc_rat q = (if q < 0 then - \<lfloor>- q\<rfloor> else \<lfloor>q\<rfloor>)"

fun d_fmod :: "double \<Rightarrow> double \<Rightarrow> double" where
  "d_fmod NaN y = NaN"
| "d_fmod x NaN = NaN"
| "d_fmod (Infinity s) y = NaN"
| "d_fmod x (Infinity t) = x"
| "d_fmod x y =
     (if is_zero y then NaN
      else let r = val x - of_int (trunc_rat (val x / val y)) * val y
           in if r = 0 then (if sign_of x then NegZero else Fin 0) else Fin r)"

fun d_floor :: "double \<Rightarrow> double" where
  "d_floor (Fin q) = Fin (of_int \<lfloor>q\<rfloor>)"
| "d_floor x = x"

fun d_abs :: "double \<Rightarrow> double" where
  "d_abs NaN = NaN"
| "d_abs (Infinity s) = Infinity False"
| "d_abs NegZero = Fin 0"
| "d_abs (Fin q) = Fin \<bar>q\<bar>"

fun d_lt :: "double \<Rightarrow> double \<Rightarrow> bool" where
  "d_lt NaN y = False"
| "d_lt x NaN = False"
| "d_lt (Infinity s) (Infinity t) = (s \<and> \<not> t)"
| "d_lt (Infinity s) y = s"
| "d_lt x (Infinity t) = (\<not> t)"
| "d_lt x y = (val x < val y)"

text \<open>The operator \<open>==\<close>: the zeros are equal, NaN is not equal to itself.\<close>

definition d_eq :: "double \<Rightarrow> double \<Rightarrow> bool" where
  "d_eq x y \<longleftrightarrow> x \<noteq> NaN \<and> (x = y \<or> is_zero x \<and> is_zero y)"

definition d_le :: "double \<Rightarrow> double \<Rightarrow> bool" where
  "d_le x y \<longleftrightarrow> d_lt x y \<or> d_eq x y"

text \<open>An integer converted to a double.\<close>

definition of_integer :: "int \<Rightarrow> double" where
  "of_integer n = mk_double False (of_int n)"

text \<open>
  The conversion of a double to an integer type whose values are at least \<open>lo\<close> and less than \<open>hi\<close>: the fraction is cut
  off. Its behaviour is undefined, \<open>None\<close>, when the result does not fit.
\<close>

definition to_integer :: "int \<Rightarrow> int \<Rightarrow> double \<Rightarrow> int option" where
  "to_integer lo hi x =
     (if d_IsFinite x then let n = trunc_rat (val x) in if lo \<le> n \<and> n < hi then Some n else None else None)"

abbreviation to_int :: "double \<Rightarrow> int option" where
  "to_int \<equiv> to_integer (- (2 ^ 31)) (2 ^ 31)"

abbreviation to_int64 :: "double \<Rightarrow> int option" where
  "to_int64 \<equiv> to_integer (- (2 ^ 63)) (2 ^ 63)"

text \<open>\<open>ToInteger\<close> of \<open>js/public/Conversions.h\<close>.\<close>

definition ToInteger :: "double \<Rightarrow> double" where
  "ToInteger d =
     (if d_IsNaN d then Fin 0
      else if \<not> d_IsFinite d \<or> is_zero d then d
      else let f = d_floor (d_abs d) in if d_lt d (Fin 0) then d_neg f else f)"

text \<open>The double of an integral value.\<close>

definition dint :: "int \<Rightarrow> double" where
  "dint n = Fin (of_int n)"

section \<open>Rounding is exact on integers, and close elsewhere\<close>

lemma exponent_bounds:
  assumes "q \<noteq> 0"
  shows "2 powi exponent q \<le> \<bar>q\<bar>" and "\<bar>q\<bar> < 2 powi (exponent q + 1)"
proof -
  obtain a b where ab: "quotient_of \<bar>q\<bar> = (a, b)" by (cases "quotient_of \<bar>q\<bar>")
  have b: "0 < b" and q: "\<bar>q\<bar> = of_int a / of_int b"
    using quotient_of_denom_pos [OF ab] quotient_of_div [OF ab] by simp_all
  have "0 < (of_int a :: rat) / of_int b" using assms q by simp
  then have a: "0 < a" using b by (simp add: zero_less_divide_iff)
  have bounds: "(2::rat) powi (bitlen c - 1) \<le> of_int c \<and> of_int c < (2::rat) powi bitlen c" if "0 < c" for c
  proof -
    have "2 ^ nat (bitlen c - 1) \<le> c" "c < 2 ^ nat (bitlen c)" and l: "0 < bitlen c"
      using bitlen_bounds [OF that] bitlen_eq_zero_iff [of c] bitlen_nonneg [of c] that by simp_all
    then have "(of_int (2 ^ nat (bitlen c - 1)) :: rat) \<le> of_int c" "(of_int c :: rat) < of_int (2 ^ nat (bitlen c))"
      by (simp_all only: of_int_le_iff of_int_less_iff)
    with l show ?thesis by (simp add: power_int_def)
  qed
  let ?e = "bitlen a - bitlen b"
  have "\<bar>q\<bar> < 2 powi bitlen a / 2 powi (bitlen b - 1)"
    unfolding q using bounds [OF a] bounds [OF b] b a by (intro frac_less) auto
  also have "\<dots> = 2 powi (?e + 1)" by (simp add: power_int_diff power_int_add)
  finally have hi: "\<bar>q\<bar> < 2 powi (?e + 1)" .
  have "2 powi (bitlen a - 1) / 2 powi bitlen b \<le> \<bar>q\<bar>"
    unfolding q using bounds [OF a] bounds [OF b] b a by (intro frac_le) auto
  moreover have "2 powi (bitlen a - 1) / 2 powi bitlen b = (2::rat) powi (?e - 1)" by (simp add: power_int_diff)
  ultimately have lo: "2 powi (?e - 1) \<le> \<bar>q\<bar>" by simp
  have e: "exponent q = (if \<bar>q\<bar> < 2 powi ?e then ?e - 1 else ?e)" by (simp add: exponent_def ab)
  show "2 powi exponent q \<le> \<bar>q\<bar>" "\<bar>q\<bar> < 2 powi (exponent q + 1)" using lo hi by (auto simp: e)
qed

lemma powi_le_iff: "(2::rat) powi a < 2 powi b \<Longrightarrow> a < b"
  using power_int_increasing [of b a "2::rat"] by (cases "a < b") auto

lemma exponent_less:
  assumes "q \<noteq> 0" and "\<bar>q\<bar> < 2 powi j"
  shows "exponent q < j"
  using exponent_bounds(1) [OF assms(1)] assms(2) by (intro powi_le_iff) simp

lemma round_even_error: "\<bar>of_int (round_even x) - x\<bar> \<le> 1 / 2"
proof -
  have "x < of_int \<lfloor>x\<rfloor> + 1" using floor_correct [of x] by simp
  then show ?thesis by (simp add: round_even_def Let_def abs_if) (use of_int_floor_le [of x] in linarith)
qed

lemma round_even_int [simp]: "round_even (of_int n) = n"
  by (simp add: round_even_def)

text \<open>The error is at most half a unit in the last place.\<close>

lemma rnd_error:
  assumes "\<bar>q\<bar> < 2 powi j" and "- 1021 \<le> j"
  shows "\<bar>rnd q - q\<bar> \<le> 2 powi (j - 54)"
proof (cases "q = 0")
  case False
  let ?e = "rnd_exponent q" and ?r = "of_int (round_even (q / 2 powi rnd_exponent q)) :: rat"
  have "?e \<le> j - 53" using exponent_less [OF False assms(1)] assms(2) by (simp add: rnd_exponent_def)
  then have p: "(2::rat) powi ?e \<le> 2 powi (j - 53)" by (intro power_int_increasing) auto
  have "rnd q - q = (?r - q / 2 powi ?e) * 2 powi ?e" using False by (simp add: rnd_def algebra_simps)
  then have "\<bar>rnd q - q\<bar> = \<bar>?r - q / 2 powi ?e\<bar> * 2 powi ?e" by (simp add: abs_mult)
  also have "\<dots> \<le> 1 / 2 * 2 powi (j - 53)" using p by (intro mult_mono round_even_error) auto
  also have "\<dots> = 2 powi (j - 54)" using power_int_add_1 [of "2::rat" "j - 54"] by simp
  finally show ?thesis .
qed (simp add: rnd_def)

text \<open>A number with at most 53 significant bits is not rounded.\<close>

lemma rnd_exact:
  assumes "q = of_int m * 2 powi e" and "\<bar>m\<bar> \<le> 2 ^ 53" and "- 1074 \<le> e"
  shows "rnd q = q"
proof (cases "q = 0")
  case False
  have exact: "rnd q = q" if "q = of_int n * 2 powi d" "rnd_exponent q \<le> d" for n d
  proof -
    have "q / 2 powi rnd_exponent q = of_int n * 2 powi (d - rnd_exponent q)" using that(1) by (simp add: power_int_diff)
    also have "\<dots> = of_int (n * 2 ^ nat (d - rnd_exponent q))" using that(2) by (simp add: power_int_def)
    finally have m: "q / 2 powi rnd_exponent q = of_int (n * 2 ^ nat (d - rnd_exponent q))" .
    have "of_int (round_even (q / 2 powi rnd_exponent q)) = q / 2 powi rnd_exponent q" by (simp only: m round_even_int)
    then show ?thesis using False by (simp add: rnd_def)
  qed
  show ?thesis
  proof (cases "\<bar>m\<bar> = 2 ^ 53")
    case True
    then have "\<bar>q\<bar> < 2 powi (e + 54)" using assms(1) by (simp add: abs_mult power_int_add flip: of_int_abs)
    then have "rnd_exponent q \<le> e + 1" using exponent_less [OF False] assms(3) by (fastforce simp: rnd_exponent_def)
    moreover have "q = of_int (m div 2) * 2 powi (e + 1)"
    proof -
      have "even m" using True by (metis dvd_abs_iff even_numeral even_power zero_less_numeral)
      then have "of_int m = of_int (m div 2) * (2::rat)" by (metis dvd_div_mult_self of_int_mult of_int_numeral)
      then show ?thesis by (simp add: assms(1) power_int_add_1')
    qed
    ultimately show ?thesis using exact by blast
  next
    case False
    then have "\<bar>m\<bar> < 2 ^ 53" using assms(2) by simp
    then have "(of_int \<bar>m\<bar> :: rat) < of_int (2 ^ 53)" by (simp only: of_int_less_iff)
    then have "\<bar>of_int m :: rat\<bar> < 2 powi 53" by simp
    then have "\<bar>of_int m :: rat\<bar> * 2 powi e < 2 powi 53 * 2 powi e" by (intro mult_strict_right_mono) auto
    then have "\<bar>q\<bar> < 2 powi (e + 53)" by (simp add: assms(1) abs_mult power_int_add mult.commute)
    then have "rnd_exponent q \<le> e" using exponent_less [OF \<open>q \<noteq> 0\<close>, of "e + 53"] assms(3) by (simp add: rnd_exponent_def)
    then show ?thesis using exact [OF assms(1)] by blast
  qed
qed (simp add: rnd_def)

lemma rnd_int: "\<bar>n\<bar> \<le> 2 ^ 53 \<Longrightarrow> rnd (of_int n) = of_int n"
  by (rule rnd_exact [where e = 0]) auto

text \<open>The quotient of two integers is rounded by less than the distance to the next integer.\<close>

lemma rnd_quotient:
  assumes "0 < b" and "b \<le> 2 ^ 53" and "a \<noteq> 0" and "\<bar>a\<bar> < 2 ^ 53"
  shows "\<bar>rnd (of_int a / of_int b) - of_int a / of_int b\<bar> < 1 / of_int b"
proof -
  let ?x = "of_int a / of_int b :: rat"
  have x: "?x \<noteq> 0" and b: "0 < (of_int b :: rat)" using assms by simp_all
  let ?j = "exponent ?x + 1"
  have "(of_int \<bar>a\<bar> :: rat) < of_int (2 ^ 53)" "(of_int b :: rat) \<le> of_int (2 ^ 53)"
    using assms(2,4) by (simp_all only: of_int_less_iff of_int_le_iff)
  then have a: "\<bar>of_int a :: rat\<bar> < 2 powi 53" and b53: "(of_int b :: rat) \<le> 2 powi 53" by simp_all
  have abs: "\<bar>?x\<bar> = \<bar>of_int a\<bar> / of_int b" using b by (simp add: abs_divide)
  have "(1 :: rat) \<le> \<bar>of_int a\<bar>" using assms(3) by (simp flip: of_int_abs)
  then have "1 / 2 powi 53 \<le> \<bar>?x\<bar>" unfolding abs using b b53 by (intro frac_le) auto
  moreover have "(2::rat) powi (- 53) = 1 / 2 powi 53" by (simp add: power_int_minus_divide del: power_int_numeral_neg_numeral)
  ultimately have "2 powi (- 53) \<le> \<bar>?x\<bar>" by simp
  then have "(2::rat) powi (- 53) < 2 powi ?j" using exponent_bounds(2) [OF x] by (rule order_le_less_trans)
  then have j: "- 53 < ?j" by (rule powi_le_iff)
  have "2 powi exponent ?x * of_int b \<le> (\<bar>of_int a\<bar> :: rat)"
    using exponent_bounds(1) [OF x] b unfolding abs by (simp add: pos_le_divide_eq)
  then have "2 powi exponent ?x * of_int b < (2 powi 53 :: rat)" using a by (rule order_le_less_trans)
  then have "2 powi exponent ?x / 2 powi 53 < (1 / of_int b :: rat)" using b by (simp add: field_simps)
  moreover have "2 powi exponent ?x / 2 powi 53 = (2::rat) powi (?j - 54)" by (simp add: power_int_diff)
  ultimately show ?thesis using rnd_error [OF exponent_bounds(2) [OF x]] j by simp
qed

lemma floor_rnd_quotient:
  assumes "0 < b" and "b \<le> 2 ^ 53" and "\<bar>a\<bar> < 2 ^ 53"
  shows "\<lfloor>rnd (of_int a / of_int b)\<rfloor> = a div b" and "rnd (of_int a / of_int b) = 0 \<longleftrightarrow> a = 0"
proof -
  let ?x = "of_int a / of_int b :: rat"
  have b: "0 < (of_int b :: rat)" using assms by simp
  have a: "(of_int a :: rat) = of_int b * of_int (a div b) + of_int (a mod b)"
    by (metis mult_div_mod_eq of_int_add of_int_mult)
  have x: "?x = of_int (a div b) + of_int (a mod b) / of_int b" using b by (subst a) (simp add: field_simps)
  show "rnd ?x = 0 \<longleftrightarrow> a = 0"
  proof (cases "a = 0")
    case False
    have "(1 :: rat) \<le> \<bar>of_int a\<bar>" using False by (simp flip: of_int_abs)
    then have "1 / of_int b \<le> \<bar>?x\<bar>" using b by (simp add: abs_divide divide_right_mono)
    then show ?thesis using rnd_quotient [OF assms(1,2) False assms(3)] False by auto
  qed (simp add: rnd_def)
  show "\<lfloor>rnd ?x\<rfloor> = a div b"
  proof (cases "a mod b = 0")
    case True
    have "1 * \<bar>a div b\<bar> \<le> \<bar>b\<bar> * \<bar>a div b\<bar>" using assms(1) by (intro mult_right_mono) auto
    then have "\<bar>a div b\<bar> \<le> \<bar>b * (a div b)\<bar>" by (simp only: abs_mult mult_1)
    also have "b * (a div b) = a" using True by (metis add.right_neutral mult_div_mod_eq)
    finally have "\<bar>a div b\<bar> \<le> \<bar>a\<bar>" .
    then show ?thesis using x True assms(3) by (simp add: rnd_int)
  next
    case False
    then have "a \<noteq> 0" by auto
    have m: "1 \<le> a mod b" "a mod b \<le> b - 1"
      using False pos_mod_sign [OF assms(1), of a] pos_mod_bound [OF assms(1), of a] by simp_all
    then have "(1 :: rat) \<le> of_int (a mod b)" "of_int (a mod b) \<le> (of_int (b - 1) :: rat)" by simp_all
    then have "1 / of_int b \<le> ?x - of_int (a div b)" "?x - of_int (a div b) \<le> 1 - 1 / of_int b"
      unfolding x using b by (simp_all add: field_simps)
    then have "of_int (a div b) < rnd ?x" "rnd ?x < of_int (a div b) + 1"
      using rnd_quotient [OF assms(1,2) \<open>a \<noteq> 0\<close> assms(3)] by (simp_all add: abs_less_iff)
    then show ?thesis by (intro floor_unique) auto
  qed
qed

section \<open>Computing with integral doubles\<close>

lemma dint_simps [simp]:
  "d_IsFinite (dint n)" "\<not> d_IsNaN (dint n)" "dint n \<noteq> NaN" "val (dint n) = of_int n" "sign_of (dint n) \<longleftrightarrow> n < 0"
  "is_zero (dint n) \<longleftrightarrow> n = 0" "dint n \<noteq> Infinity s" "dint n \<noteq> NegZero" "dint m = dint n \<longleftrightarrow> m = n"
  "NaN \<noteq> dint n" "Infinity s \<noteq> dint n" "NegZero \<noteq> dint n"
  by (simp_all add: dint_def d_IsNaN_def is_zero_def)

lemma d_floor_dint [simp]: "d_floor (dint n) = dint n"
  by (simp add: dint_def)

lemma d_lt_dint [simp]: "d_lt (dint m) (dint n) \<longleftrightarrow> m < n"
  by (simp add: dint_def)

lemma d_eq_dint [simp]: "d_eq (dint m) (dint n) \<longleftrightarrow> m = n"
  by (auto simp: d_eq_def)

lemma d_le_dint [simp]: "d_le (dint m) (dint n) \<longleftrightarrow> m \<le> n"
  by (auto simp: d_le_def)

lemma d_neg_dint: "d_neg (dint n) = (if n = 0 then NegZero else dint (- n))"
  by (simp add: dint_def)

lemma d_abs_dint [simp]: "d_abs (dint n) = dint \<bar>n\<bar>"
  by (simp add: dint_def)

lemma mk_double_int: "\<bar>n\<bar> \<le> 2 ^ 53 \<Longrightarrow> mk_double s (of_int n) = (if n = 0 \<and> s then NegZero else dint n)"
proof -
  assume n: "\<bar>n\<bar> \<le> 2 ^ 53"
  then have "(of_int \<bar>n\<bar> :: rat) < of_int (2 ^ 54)" by (simp only: of_int_less_iff) simp
  then have "n = 0 \<or> exponent (of_int n) < 54" using exponent_less [of "of_int n" 54] by auto
  then show ?thesis using n by (auto simp: mk_double_def rnd_int dint_def Let_def)
qed

lemma of_integer_dint [simp]: "\<bar>n\<bar> \<le> 2 ^ 53 \<Longrightarrow> of_integer n = dint n"
  by (simp add: of_integer_def mk_double_int)

lemma literal_dint: "\<bar>n\<bar> \<le> 2 ^ 53 \<Longrightarrow> literal (of_int n) = dint n"
  by (simp add: literal_def mk_double_int)

lemma d_add_dint [simp]: "\<bar>m + n\<bar> \<le> 2 ^ 53 \<Longrightarrow> d_add (dint m) (dint n) = dint (m + n)"
  using mk_double_int [of "m + n"] by (simp add: dint_def)

lemma d_sub_dint [simp]:
  assumes "\<bar>m - n\<bar> \<le> 2 ^ 53"
  shows "d_sub (dint m) (dint n) = dint (m - n)"
  using mk_double_int [of "m - n" False] assms by (cases "n = 0") (simp_all add: d_sub_def d_neg_dint, simp_all add: dint_def)

lemma d_mul_dint [simp]:
  assumes "\<bar>m * n\<bar> \<le> 2 ^ 53"
  shows "0 < n \<Longrightarrow> d_mul (dint m) (dint n) = dint (m * n)" "0 < m \<Longrightarrow> d_mul (dint m) (dint n) = dint (m * n)"
  using mk_double_int [of "m * n"] assms by (auto simp: dint_def)

lemma floor_div_dint [simp]:
  assumes "0 < b" and "b \<le> 2 ^ 53" and "\<bar>a\<bar> < 2 ^ 53"
  shows "d_floor (d_div (dint a) (dint b)) = dint (a div b)"
proof -
  let ?r = "rnd (of_int a / of_int b)"
  have "a div b \<le> \<bar>a\<bar>" "- \<bar>a\<bar> - 1 \<le> a div b"
    using assms(1) by (smt (verit) div_by_1 zdiv_mono2 zdiv_mono1 zdiv_mono2_neg div_minus_minus pos_imp_zdiv_neg_iff)+
  then have "\<bar>\<lfloor>?r\<rfloor>\<bar> \<le> 2 ^ 53" using floor_rnd_quotient(1) [OF assms] assms(3) by linarith
  then have "\<bar>?r\<bar> \<le> of_int (2 ^ 53 + 1)" by linarith
  then have "\<bar>?r\<bar> < 2 powi 54" by (rule order_le_less_trans) simp
  then have "?r = 0 \<or> exponent ?r < 54" using exponent_less [of ?r 54] by blast
  moreover have "d_div (dint a) (dint b) = mk_double (a < 0) (of_int a / of_int b)" using assms(1) by (simp add: dint_def is_zero_def)
  ultimately show ?thesis
    using floor_rnd_quotient [OF assms] assms(1) by (auto simp: mk_double_def Let_def) (simp_all add: dint_def)
qed

lemma d_fmod_dint:
  assumes "0 < b"
  shows "d_fmod (dint a) (dint b) =
    (if a < 0 then if (- a) mod b = 0 then NegZero else dint (- ((- a) mod b)) else dint (a mod b))"
proof -
  have fl: "\<lfloor>(of_int c :: rat) / of_int b\<rfloor> = c div b" for c by (rule floor_divide_of_int_eq)
  have md: "(of_int c :: rat) - of_int (c div b) * of_int b = of_int (c mod b)" for c
    by (simp add: minus_div_mult_eq_mod flip: of_int_mult of_int_diff)
  show ?thesis
  proof (cases "a < 0")
    case True
    then have "(of_int a :: rat) / of_int b < 0" using assms by (simp add: divide_neg_pos)
    then have "trunc_rat (of_int a / of_int b) = - ((- a) div b)" using fl [of "- a"] by (simp add: trunc_rat_def)
    moreover have "(of_int a :: rat) - of_int (- ((- a) div b)) * of_int b = of_int (- ((- a) mod b))" using md [of "- a"] by simp
    ultimately show ?thesis using True assms by (simp add: dint_def is_zero_def Let_def)
  next
    case False
    then have "\<not> (of_int a :: rat) / of_int b < 0" using assms by (simp add: divide_less_0_iff)
    then have "trunc_rat (of_int a / of_int b) = a div b" using fl [of a] by (simp add: trunc_rat_def)
    then show ?thesis using False assms md [of a] by (simp add: dint_def is_zero_def Let_def)
  qed
qed

lemma trunc_rat_int [simp]: "trunc_rat (of_int n) = n"
  by (simp add: trunc_rat_def)

lemma to_integer_dint: "lo \<le> n \<Longrightarrow> n < hi \<Longrightarrow> to_integer lo hi (dint n) = Some n"
  by (simp add: to_integer_def)

lemma ToInteger_dint [simp]: "ToInteger (dint n) = dint n"
  by (cases "n < 0") (auto simp: ToInteger_def d_neg_dint Let_def dint_def [of 0, symmetric, simplified])

end
