(* ===== verification/DateTime.thy ===== *)
theory DateTime
  imports DoubleArith "HOL-Library.Signed_Division"
begin

text \<open>
  \<open>DateTimeInfo\<close> of \<open>js/src/vm/DateTime.h\<close> and \<open>DateTime.cpp\<close>: the offset of the local time zone, and the cache of the
  offset of daylight saving time, two ranges of seconds on which it is constant.

  \<^item> The functions of the C library, \<open>time\<close>, \<open>localtime\<close>, \<open>gmtime\<close> and \<open>mktime\<close>, are the record \<open>os_clock\<close>; \<open>None\<close> is
    their failure. The fields of \<open>tm\<close> that the code does not read are left out.
  \<^item> Times are 64-bit integers far from overflow, and are integers. The lock and the tables of ICU are left out.
\<close>

section \<open>Constants\<close>

definition HoursPerDay :: double where "HoursPerDay = dint 24"
definition MinutesPerHour :: double where "MinutesPerHour = dint 60"
definition SecondsPerMinute :: double where "SecondsPerMinute = dint 60"
definition msPerSecond :: double where "msPerSecond = dint 1000"
definition msPerMinute :: double where "msPerMinute = d_mul msPerSecond SecondsPerMinute"
definition msPerHour :: double where "msPerHour = d_mul msPerMinute MinutesPerHour"
definition msPerDay :: double where "msPerDay = d_mul msPerHour HoursPerDay"
definition SecondsPerHour :: int where "SecondsPerHour = 60 * 60"
definition SecondsPerDay :: int where "SecondsPerDay = SecondsPerHour * 24"
definition MaxUnixTimeT :: int where "MaxUnixTimeT = 2145859200"
definition RangeExpansionAmount :: int where "RangeExpansionAmount = 30 * SecondsPerDay"
definition INT64_MIN :: int where "INT64_MIN = - (2 ^ 63)"

section \<open>The time zone\<close>

record tm =
  tm_sec :: int
  tm_min :: int
  tm_hour :: int
  tm_mday :: int
  tm_isdst :: int

record os_clock =
  os_time :: "int option"
  os_localtime :: "int \<Rightarrow> tm option"
  os_gmtime :: "int \<Rightarrow> tm option"
  os_mktime :: "tm \<Rightarrow> int option"

definition UTCToLocalStandardOffsetSeconds :: "os_clock \<Rightarrow> int" where
  "UTCToLocalStandardOffsetSeconds os =
     (case os_time os of
        None \<Rightarrow> 0
      | Some currentMaybeWithDST \<Rightarrow>
          (case os_localtime os currentMaybeWithDST of
             None \<Rightarrow> 0
           | Some local \<Rightarrow>
               (case (if tm_isdst local = 0 then Some currentMaybeWithDST else os_mktime os (local\<lparr>tm_isdst := 0\<rparr>)) of
                  None \<Rightarrow> 0
                | Some currentNoDST \<Rightarrow>
                    (case os_gmtime os currentNoDST of
                       None \<Rightarrow> 0
                     | Some utc \<Rightarrow>
                         let utc_secs = tm_hour utc * SecondsPerHour + tm_min utc * 60;
                             local_secs = tm_hour local * SecondsPerHour + tm_min local * 60
                         in if tm_mday utc = tm_mday local then local_secs - utc_secs
                            else if local_secs < utc_secs then (SecondsPerDay + local_secs) - utc_secs
                            else local_secs - (utc_secs + SecondsPerDay)))))"

record DateTimeInfo =
  localTZA :: double
  offsetMilliseconds :: int
  rangeStartSeconds :: int
  rangeEndSeconds :: int
  oldOffsetMilliseconds :: int
  oldRangeStartSeconds :: int
  oldRangeEndSeconds :: int
  utcToLocalStandardOffsetSeconds :: int

definition internalUpdateTimeZoneAdjustment :: "os_clock \<Rightarrow> DateTimeInfo \<Rightarrow> DateTimeInfo" where
  "internalUpdateTimeZoneAdjustment os dt =
     (let seconds = UTCToLocalStandardOffsetSeconds os;
          newTZA = d_mul (of_integer seconds) msPerSecond;
          dt = dt\<lparr>utcToLocalStandardOffsetSeconds := seconds\<rparr>
      in if d_eq newTZA (localTZA dt) then dt
         else dt\<lparr>localTZA := newTZA, offsetMilliseconds := 0, rangeStartSeconds := INT64_MIN, rangeEndSeconds := INT64_MIN,
                oldOffsetMilliseconds := 0, oldRangeStartSeconds := INT64_MIN, oldRangeEndSeconds := INT64_MIN\<rparr>)"

text \<open>A static instance is zero at first.\<close>

definition DateTimeInfo_static :: DateTimeInfo where
  "DateTimeInfo_static =
     \<lparr>localTZA = Fin 0, offsetMilliseconds = 0, rangeStartSeconds = 0, rangeEndSeconds = 0, oldOffsetMilliseconds = 0,
      oldRangeStartSeconds = 0, oldRangeEndSeconds = 0, utcToLocalStandardOffsetSeconds = 0\<rparr>"

definition DateTimeInfo_init :: "os_clock \<Rightarrow> DateTimeInfo" where
  "DateTimeInfo_init os = internalUpdateTimeZoneAdjustment os (DateTimeInfo_static\<lparr>localTZA := NaN\<rparr>)"

section \<open>Daylight saving time\<close>

text \<open>The products and quotients are of doubles, converted back to integers.\<close>

definition computeDSTOffsetMilliseconds :: "os_clock \<Rightarrow> DateTimeInfo \<Rightarrow> int \<Rightarrow> int" where
  "computeDSTOffsetMilliseconds os dt utcSeconds =
     (case os_localtime os utcSeconds of
        None \<Rightarrow> 0
      | Some tm \<Rightarrow>
          let dayoff = (utcSeconds + utcToLocalStandardOffsetSeconds dt) smod SecondsPerDay;
              tmoff = tm_sec tm + tm_min tm * 60 + tm_hour tm * SecondsPerHour;
              diff = tmoff - dayoff;
              diff = (if diff < 0 then diff + SecondsPerDay else diff)
          in trunc_rat (val (d_mul (of_integer diff) msPerSecond)))"

text \<open>The part of \<open>internalGetDSTOffsetMilliseconds\<close> behind the clamping of its argument.\<close>

definition cached_offset :: "os_clock \<Rightarrow> int \<Rightarrow> DateTimeInfo \<Rightarrow> int \<times> DateTimeInfo" where
  "cached_offset os utcSeconds dt =
     (let offset_at = computeDSTOffsetMilliseconds os dt
      in if rangeStartSeconds dt \<le> utcSeconds \<and> utcSeconds \<le> rangeEndSeconds dt then (offsetMilliseconds dt, dt)
         else if oldRangeStartSeconds dt \<le> utcSeconds \<and> utcSeconds \<le> oldRangeEndSeconds dt
         then (oldOffsetMilliseconds dt, dt)
         else
           let dt = dt\<lparr>oldOffsetMilliseconds := offsetMilliseconds dt, oldRangeStartSeconds := rangeStartSeconds dt,
                       oldRangeEndSeconds := rangeEndSeconds dt\<rparr>
           in if rangeStartSeconds dt \<le> utcSeconds then
                let newEndSeconds = min (rangeEndSeconds dt + RangeExpansionAmount) MaxUnixTimeT
                in if utcSeconds \<le> newEndSeconds then
                     let endOffsetMilliseconds = offset_at newEndSeconds
                     in if endOffsetMilliseconds = offsetMilliseconds dt
                        then (offsetMilliseconds dt, dt\<lparr>rangeEndSeconds := newEndSeconds\<rparr>)
                        else
                          let offset = offset_at utcSeconds; dt = dt\<lparr>offsetMilliseconds := offset\<rparr>
                          in if offset = endOffsetMilliseconds
                             then (offset, dt\<lparr>rangeStartSeconds := utcSeconds, rangeEndSeconds := newEndSeconds\<rparr>)
                             else (offset, dt\<lparr>rangeEndSeconds := utcSeconds\<rparr>)
                   else
                     let offset = offset_at utcSeconds
                     in (offset, dt\<lparr>offsetMilliseconds := offset, rangeStartSeconds := utcSeconds,
                                   rangeEndSeconds := utcSeconds\<rparr>)
              else
                let newStartSeconds = max (rangeStartSeconds dt - RangeExpansionAmount) 0
                in if newStartSeconds \<le> utcSeconds then
                     let startOffsetMilliseconds = offset_at newStartSeconds
                     in if startOffsetMilliseconds = offsetMilliseconds dt
                        then (offsetMilliseconds dt, dt\<lparr>rangeStartSeconds := newStartSeconds\<rparr>)
                        else
                          let offset = offset_at utcSeconds; dt = dt\<lparr>offsetMilliseconds := offset\<rparr>
                          in if offset = startOffsetMilliseconds
                             then (offset, dt\<lparr>rangeStartSeconds := newStartSeconds, rangeEndSeconds := utcSeconds\<rparr>)
                             else (offset, dt\<lparr>rangeStartSeconds := utcSeconds\<rparr>)
                   else
                     let offset = offset_at utcSeconds
                     in (offset, dt\<lparr>rangeStartSeconds := utcSeconds, rangeEndSeconds := utcSeconds,
                                   offsetMilliseconds := offset\<rparr>))"

definition clamp_seconds :: "int \<Rightarrow> int" where
  "clamp_seconds utcSeconds =
     (if MaxUnixTimeT < utcSeconds then MaxUnixTimeT else if utcSeconds < 0 then SecondsPerDay else utcSeconds)"

definition utc_seconds :: "int \<Rightarrow> int" where
  "utc_seconds utcMilliseconds = trunc_rat (val (d_div (of_integer utcMilliseconds) msPerSecond))"

definition internalGetDSTOffsetMilliseconds :: "os_clock \<Rightarrow> int \<Rightarrow> DateTimeInfo \<Rightarrow> int \<times> DateTimeInfo" where
  "internalGetDSTOffsetMilliseconds os utcMilliseconds dt = cached_offset os (clamp_seconds (utc_seconds utcMilliseconds)) dt"

definition getDSTOffsetMilliseconds :: "os_clock \<Rightarrow> int \<Rightarrow> DateTimeInfo \<Rightarrow> int \<times> DateTimeInfo" where
  "getDSTOffsetMilliseconds os utcMilliseconds dt = internalGetDSTOffsetMilliseconds os utcMilliseconds dt"

section \<open>The cache is transparent\<close>

lemma constants [simp]:
  "msPerSecond = dint 1000" "msPerMinute = dint 60000" "msPerHour = dint 3600000" "msPerDay = dint 86400000"
  "HoursPerDay = dint 24" "MinutesPerHour = dint 60" "SecondsPerMinute = dint 60"
  by (simp_all add: msPerSecond_def msPerMinute_def msPerHour_def msPerDay_def HoursPerDay_def MinutesPerHour_def
      SecondsPerMinute_def)

text \<open>
  What the code relies on: the offset changes at most once in thirty days, so that of three times in such a span the
  second has the offset of the first or of the third.
\<close>

definition one_change_in_30_days :: "(int \<Rightarrow> int) \<Rightarrow> bool" where
  "one_change_in_30_days off \<longleftrightarrow>
     (\<forall>a b c. 0 \<le> a \<longrightarrow> a \<le> b \<longrightarrow> b \<le> c \<longrightarrow> c \<le> MaxUnixTimeT \<longrightarrow> c \<le> a + RangeExpansionAmount \<longrightarrow>
        off a = off b \<or> off b = off c)"

definition range_ok :: "(int \<Rightarrow> int) \<Rightarrow> int \<Rightarrow> int \<Rightarrow> int \<Rightarrow> bool" where
  "range_ok off start stop offset \<longleftrightarrow>
     start = INT64_MIN \<and> stop = INT64_MIN \<or>
     0 \<le> start \<and> start \<le> stop \<and> stop \<le> MaxUnixTimeT \<and> (\<forall>s. start \<le> s \<and> s \<le> stop \<longrightarrow> off s = offset)"

definition cache_inv :: "os_clock \<Rightarrow> DateTimeInfo \<Rightarrow> bool" where
  "cache_inv os dt \<longleftrightarrow>
     range_ok (computeDSTOffsetMilliseconds os dt) (rangeStartSeconds dt) (rangeEndSeconds dt) (offsetMilliseconds dt) \<and>
     range_ok (computeDSTOffsetMilliseconds os dt) (oldRangeStartSeconds dt) (oldRangeEndSeconds dt) (oldOffsetMilliseconds dt)"

lemma range_okI:
  "0 \<le> a \<Longrightarrow> a \<le> b \<Longrightarrow> b \<le> MaxUnixTimeT \<Longrightarrow> (\<And>u. a \<le> u \<Longrightarrow> u \<le> b \<Longrightarrow> off u = v) \<Longrightarrow> range_ok off a b v"
  by (simp add: range_ok_def)

text \<open>Extending a range to the later side, and to the earlier one.\<close>

lemma extend_end:
  assumes one: "one_change_in_30_days off" and r: "range_ok off a b v" and "a \<le> s" "b < s" "s \<le> e" "0 \<le> s"
    and e: "e = min (b + RangeExpansionAmount) MaxUnixTimeT"
  shows "off e = v \<Longrightarrow> range_ok off a e v \<and> off s = v"
    and "off e \<noteq> v \<Longrightarrow> off s = off e \<Longrightarrow> range_ok off s e (off s)"
    and "off e \<noteq> v \<Longrightarrow> off s \<noteq> off e \<Longrightarrow> range_ok off a s (off s)"
proof -
  have "a \<noteq> INT64_MIN \<or> b \<noteq> INT64_MIN"
    using assms(5,6) e by (auto simp: INT64_MIN_def RangeExpansionAmount_def SecondsPerDay_def SecondsPerHour_def)
  then have b: "0 \<le> a" "a \<le> b" "e \<le> MaxUnixTimeT" "e \<le> b + RangeExpansionAmount" and v: "\<And>u. a \<le> u \<Longrightarrow> u \<le> b \<Longrightarrow> off u = v"
    using r e by (auto simp: range_ok_def)
  have three: "off b = off u \<or> off u = off w" if "b \<le> u" "u \<le> w" "w \<le> e" for u w
    using one that b unfolding one_change_in_30_days_def by (meson order_trans)
  have vb: "off b = v" using v b by simp
  show "off e = v \<Longrightarrow> range_ok off a e v \<and> off s = v"
    using three [of _ e] vb v b assms(3-5) unfolding range_ok_def by (metis linorder_linear order.trans order.strict_implies_order)
  show "off e \<noteq> v \<Longrightarrow> off s = off e \<Longrightarrow> range_ok off s e (off s)"
    using three [of s] vb b assms(3-6) unfolding range_ok_def by (metis less_le order.trans)
  show "range_ok off a s (off s)" if "off e \<noteq> v" "off s \<noteq> off e"
  proof -
    have sv: "off s = v" using three [of s e] that vb assms(4,5) by (metis less_imp_le order_refl)
    have k: "off u = v" if "a \<le> u" "u \<le> s" for u
      using that three [of u s] v [of u] vb sv assms(5) by (metis linorder_le_cases)
    show ?thesis unfolding sv by (rule range_okI [OF _ _ _ k]) (use b assms(3-6) in linarith)+
  qed
qed

lemma extend_start:
  assumes one: "one_change_in_30_days off" and r: "range_ok off a b v" and "s < a" "e \<le> s" "0 \<le> s"
    and e: "e = max (a - RangeExpansionAmount) 0"
  shows "off e = v \<Longrightarrow> range_ok off e b v \<and> off s = v"
    and "off e \<noteq> v \<Longrightarrow> off s = off e \<Longrightarrow> range_ok off e s (off s)"
    and "off e \<noteq> v \<Longrightarrow> off s \<noteq> off e \<Longrightarrow> range_ok off s b (off s)"
proof -
  have "a \<noteq> INT64_MIN" using assms(3,5) by (auto simp: INT64_MIN_def)
  then have b: "0 \<le> a" "a \<le> b" "b \<le> MaxUnixTimeT" "a \<le> e + RangeExpansionAmount" "0 \<le> e"
    and v: "\<And>u. a \<le> u \<Longrightarrow> u \<le> b \<Longrightarrow> off u = v"
    using r e by (auto simp: range_ok_def)
  have three: "off w = off u \<or> off u = off a" if "e \<le> w" "w \<le> u" "u \<le> a" for u w
    using one that b unfolding one_change_in_30_days_def by (smt (verit))
  have va: "off a = v" using v b by simp
  show "range_ok off e b v \<and> off s = v" if "off e = v"
  proof -
    have k: "off u = v" if "e \<le> u" "u \<le> b" for u
      using that three [of e u] v [of u] va \<open>off e = v\<close> by (metis linorder_le_cases)
    show ?thesis using k [of s] by (intro conjI range_okI [OF _ _ _ k]) (use b assms(3-5) in auto)
  qed
  show "range_ok off e s (off s)" if "off e \<noteq> v" "off s = off e"
  proof -
    have k: "off u = off s" if "e \<le> u" "u \<le> s" for u
      using that three [of u s] va \<open>off e \<noteq> v\<close> \<open>off s = off e\<close> assms(3) by (metis less_imp_le)
    show ?thesis by (rule range_okI [OF _ _ _ k]) (use b assms(3-5) in linarith)+
  qed
  show "range_ok off s b (off s)" if "off e \<noteq> v" "off s \<noteq> off e"
  proof -
    have sv: "off s = v" using three [of e s] that va assms(3,4) by (metis less_imp_le order_refl)
    have k: "off u = v" if "s \<le> u" "u \<le> b" for u
      using that three [of s u] v [of u] va sv assms(4) by (metis linorder_le_cases)
    show ?thesis unfolding sv by (rule range_okI [OF _ _ _ k]) (use b assms(3-5) in linarith)+
  qed
qed

lemma compute_cong:
  "utcToLocalStandardOffsetSeconds dt' = utcToLocalStandardOffsetSeconds dt \<Longrightarrow>
   computeDSTOffsetMilliseconds os dt' = computeDSTOffsetMilliseconds os dt"
  by (rule ext) (simp add: computeDSTOffsetMilliseconds_def split: option.split)

lemma cached_offset_correct:
  assumes inv: "cache_inv os dt" and s: "0 \<le> s" "s \<le> MaxUnixTimeT"
    and one: "one_change_in_30_days (computeDSTOffsetMilliseconds os dt)"
    and run: "cached_offset os s dt = (v, dt')"
  shows "v = computeDSTOffsetMilliseconds os dt s" and "cache_inv os dt'"
    and "utcToLocalStandardOffsetSeconds dt' = utcToLocalStandardOffsetSeconds dt" and "localTZA dt' = localTZA dt"
proof -
  let ?off = "computeDSTOffsetMilliseconds os dt"
  have r: "range_ok ?off (rangeStartSeconds dt) (rangeEndSeconds dt) (offsetMilliseconds dt)"
    "range_ok ?off (oldRangeStartSeconds dt) (oldRangeEndSeconds dt) (oldOffsetMilliseconds dt)"
    using inv by (simp_all add: cache_inv_def)
  have point: "range_ok ?off s s (?off s)" using s by (auto simp: range_ok_def)
  have hit: "?off s = w" if "range_ok ?off a b w" "a \<le> s" "s \<le> b" for a b w
    using that s by (auto simp: range_ok_def INT64_MIN_def)
  show "utcToLocalStandardOffsetSeconds dt' = utcToLocalStandardOffsetSeconds dt" and "localTZA dt' = localTZA dt"
    using run by (auto simp: cached_offset_def Let_def split: if_splits)
  then have same: "computeDSTOffsetMilliseconds os dt' = ?off" by (rule_tac compute_cong)
  show "v = ?off s" "cache_inv os dt'"
    using run extend_end [OF one r(1) _ _ _ s(1) refl] extend_start [OF one r(1) _ _ s(1) refl]
      hit [OF r(1)] hit [OF r(2)] point r
    unfolding cache_inv_def same
    by (auto simp: cached_offset_def Let_def not_le split: if_splits)
qed

end
