(* ===== verification/DateMath.thy ===== *)
theory DateMath
  imports DateTime
begin

text \<open>
  The calendar of \<open>js/src/jsdate.cpp\<close> on doubles: the day, year, month, date, weekday and time of a time value, the
  making of a time value from them, and the local time. \<open>None\<close> is the undefined behaviour of a conversion to an
  integer type that cannot hold the value. The state is the cache of \<open>DateTimeInfo\<close>.
\<close>

section \<open>Days and years\<close>

definition Day :: "double \<Rightarrow> double" where
  "Day t = d_floor (d_div t msPerDay)"

definition TimeWithinDay :: "double \<Rightarrow> double" where
  "TimeWithinDay t = (let result = d_fmod t msPerDay in if d_lt result (dint 0) then d_add result msPerDay else result)"

definition IsLeapYear :: "double \<Rightarrow> bool" where
  "IsLeapYear year \<longleftrightarrow>
     d_eq (d_fmod year (dint 4)) (dint 0) \<and>
     (\<not> d_eq (d_fmod year (dint 100)) (dint 0) \<or> d_eq (d_fmod year (dint 400)) (dint 0))"

definition DaysInYear :: "double \<Rightarrow> double" where
  "DaysInYear year = (if \<not> d_IsFinite year then NaN else if IsLeapYear year then dint 366 else dint 365)"

definition DayFromYear :: "double \<Rightarrow> double" where
  "DayFromYear y =
     d_add (d_sub (d_add (d_mul (dint 365) (d_sub y (dint 1970)))
                         (d_floor (d_div (d_sub y (dint 1969)) (dint 4))))
                  (d_floor (d_div (d_sub y (dint 1901)) (dint 100))))
           (d_floor (d_div (d_sub y (dint 1601)) (dint 400)))"

definition TimeFromYear :: "double \<Rightarrow> double" where
  "TimeFromYear y = d_mul (DayFromYear y) msPerDay"

definition YearFromTime :: "double \<Rightarrow> double" where
  "YearFromTime t =
     (if \<not> d_IsFinite t then NaN
      else
        let y = d_add (d_floor (d_div t (d_mul msPerDay (literal (3652425 / 10000))))) (dint 1970);
            t2 = TimeFromYear y
        in if d_lt t t2 then d_sub y (dint 1)
           else if d_le (d_add t2 (d_mul msPerDay (DaysInYear y))) t then d_add y (dint 1)
           else y)"

definition DaysInFebruary :: "double \<Rightarrow> int" where
  "DaysInFebruary year = (if IsLeapYear year then 29 else 28)"

definition DayWithinYear :: "double \<Rightarrow> double \<Rightarrow> double" where
  "DayWithinYear t year = d_sub (Day t) (DayFromYear year)"

definition MonthFromTime :: "double \<Rightarrow> double" where
  "MonthFromTime t =
     (if \<not> d_IsFinite t then NaN
      else
        let year = YearFromTime t; d = DayWithinYear t year; step = 31
        in if d_lt d (dint step) then dint 0
           else let step = step + DaysInFebruary year in if d_lt d (dint step) then dint 1
           else let step = step + 31 in if d_lt d (dint step) then dint 2
           else let step = step + 30 in if d_lt d (dint step) then dint 3
           else let step = step + 31 in if d_lt d (dint step) then dint 4
           else let step = step + 30 in if d_lt d (dint step) then dint 5
           else let step = step + 31 in if d_lt d (dint step) then dint 6
           else let step = step + 31 in if d_lt d (dint step) then dint 7
           else let step = step + 30 in if d_lt d (dint step) then dint 8
           else let step = step + 31 in if d_lt d (dint step) then dint 9
           else let step = step + 30 in if d_lt d (dint step) then dint 10
           else dint 11)"

definition DateFromTime :: "double \<Rightarrow> double" where
  "DateFromTime t =
     (if \<not> d_IsFinite t then NaN
      else
        let year = YearFromTime t; d = DayWithinYear t year; next = 30
        in if d_le d (dint next) then d_add d (dint 1)
           else let step = next; next = next + DaysInFebruary year in if d_le d (dint next) then d_sub d (dint step)
           else let step = next; next = next + 31 in if d_le d (dint next) then d_sub d (dint step)
           else let step = next; next = next + 30 in if d_le d (dint next) then d_sub d (dint step)
           else let step = next; next = next + 31 in if d_le d (dint next) then d_sub d (dint step)
           else let step = next; next = next + 30 in if d_le d (dint next) then d_sub d (dint step)
           else let step = next; next = next + 31 in if d_le d (dint next) then d_sub d (dint step)
           else let step = next; next = next + 31 in if d_le d (dint next) then d_sub d (dint step)
           else let step = next; next = next + 30 in if d_le d (dint next) then d_sub d (dint step)
           else let step = next; next = next + 31 in if d_le d (dint next) then d_sub d (dint step)
           else let step = next; next = next + 30 in if d_le d (dint next) then d_sub d (dint step)
           else let step = next in d_sub d (dint step))"

text \<open>The bound of the conversion leaves room for the addition of 4.\<close>

definition WeekDay :: "double \<Rightarrow> int option" where
  "WeekDay t =
     do { day \<leftarrow> to_integer (- (2 ^ 31)) (2 ^ 31 - 4) (Day t);
          let result = (day + 4) smod 7 in Some (if result < 0 then result + 7 else result) }"

definition firstDayOfMonth :: "int list list" where
  "firstDayOfMonth =
     [[0, 31, 59, 90, 120, 151, 181, 212, 243, 273, 304, 334, 365],
      [0, 31, 60, 91, 121, 152, 182, 213, 244, 274, 305, 335, 366]]"

definition DayFromMonth :: "nat \<Rightarrow> bool \<Rightarrow> int" where
  "DayFromMonth month isLeapYear = firstDayOfMonth ! (if isLeapYear then 1 else 0) ! month"

text \<open>The conversion of the month to \<open>int\<close> is of a remainder of 12.\<close>

definition MakeDay :: "double \<Rightarrow> double \<Rightarrow> double \<Rightarrow> double" where
  "MakeDay year month date =
     (if \<not> d_IsFinite year \<or> \<not> d_IsFinite month \<or> \<not> d_IsFinite date then NaN
      else
        let y = ToInteger year; m = ToInteger month; dt = ToInteger date;
            ym = d_add y (d_floor (d_div m (dint 12)));
            mn = trunc_rat (val (d_fmod m (dint 12)));
            mn = (if mn < 0 then mn + 12 else mn);
            leap = IsLeapYear ym;
            yearday = d_floor (d_div (TimeFromYear ym) msPerDay);
            monthday = dint (DayFromMonth (nat mn) leap)
        in d_sub (d_add (d_add yearday monthday) dt) (dint 1))"

definition MakeDate :: "double \<Rightarrow> double \<Rightarrow> double" where
  "MakeDate day time = (if \<not> d_IsFinite day \<or> \<not> d_IsFinite time then NaN else d_add (d_mul day msPerDay) time)"

section \<open>The time of day\<close>

definition HourFromTime :: "double \<Rightarrow> double" where
  "HourFromTime t =
     (let result = d_fmod (d_floor (d_div t msPerHour)) HoursPerDay
      in if d_lt result (dint 0) then d_add result HoursPerDay else result)"

definition MinFromTime :: "double \<Rightarrow> double" where
  "MinFromTime t =
     (let result = d_fmod (d_floor (d_div t msPerMinute)) MinutesPerHour
      in if d_lt result (dint 0) then d_add result MinutesPerHour else result)"

definition SecFromTime :: "double \<Rightarrow> double" where
  "SecFromTime t =
     (let result = d_fmod (d_floor (d_div t msPerSecond)) SecondsPerMinute
      in if d_lt result (dint 0) then d_add result SecondsPerMinute else result)"

definition msFromTime :: "double \<Rightarrow> double" where
  "msFromTime t =
     (let result = d_fmod t msPerSecond
      in if d_lt result (dint 0) then d_add result msPerSecond else result)"

definition MakeTime :: "double \<Rightarrow> double \<Rightarrow> double \<Rightarrow> double \<Rightarrow> double" where
  "MakeTime hour minute sec ms =
     (if \<not> d_IsFinite hour \<or> \<not> d_IsFinite minute \<or> \<not> d_IsFinite sec \<or> \<not> d_IsFinite ms then NaN
      else
        let h = ToInteger hour; m = ToInteger minute; s = ToInteger sec; milli = ToInteger ms
        in d_add (d_add (d_add (d_mul h msPerHour) (d_mul m msPerMinute)) (d_mul s msPerSecond)) milli)"

text \<open>\<open>TimeClip\<close> of \<open>js/public/Date.h\<close>; a \<open>ClippedTime\<close> is its double.\<close>

definition MaxTimeMagnitude :: double where
  "MaxTimeMagnitude = dint 8640000000000000"

definition TimeClip :: "double \<Rightarrow> double" where
  "TimeClip time =
     (if \<not> d_IsFinite time \<or> d_lt MaxTimeMagnitude (d_abs time) then NaN else d_add (ToInteger time) (dint 0))"

section \<open>Local time\<close>

definition yearStartingWith :: "int list list" where
  "yearStartingWith =
     [[1978, 1973, 1974, 1975, 1981, 1971, 1977],
      [1984, 1996, 1980, 1992, 1976, 1988, 1972]]"

definition EquivalentYearForDST :: "int \<Rightarrow> int option" where
  "EquivalentYearForDST year =
     do { n \<leftarrow> to_int (d_add (DayFromYear (of_integer year)) (dint 4));
          let day = n smod 7; day = (if day < 0 then day + 7 else day)
          in Some (yearStartingWith ! (if IsLeapYear (of_integer year) then 1 else 0) ! nat day) }"

definition DaylightSavingTA :: "os_clock \<Rightarrow> double \<Rightarrow> DateTimeInfo \<Rightarrow> (double \<times> DateTimeInfo) option" where
  "DaylightSavingTA os t dt =
     (if \<not> d_IsFinite t then Some (NaN, dt)
      else
        do { t \<leftarrow> (if d_lt t (dint 0) \<or> d_lt (dint 2145916800000) t
                  then do { y \<leftarrow> to_int (YearFromTime t);
                            year \<leftarrow> EquivalentYearForDST y;
                            let day = MakeDay (of_integer year) (MonthFromTime t) (DateFromTime t)
                            in Some (MakeDate day (TimeWithinDay t)) }
                  else Some t);
             utcMilliseconds \<leftarrow> to_int64 t;
             let (offsetMilliseconds, dt) = getDSTOffsetMilliseconds os utcMilliseconds dt
             in Some (of_integer offsetMilliseconds, dt) })"

definition AdjustTime :: "os_clock \<Rightarrow> double \<Rightarrow> DateTimeInfo \<Rightarrow> (double \<times> DateTimeInfo) option" where
  "AdjustTime os date dt =
     do { (d, dt') \<leftarrow> DaylightSavingTA os date dt;
          let t = d_add d (localTZA dt)
          in Some (if d_le (dint 0) (localTZA dt) then d_fmod t msPerDay
                   else d_neg (d_fmod (d_sub msPerDay t) msPerDay), dt') }"

definition LocalTime :: "os_clock \<Rightarrow> double \<Rightarrow> DateTimeInfo \<Rightarrow> (double \<times> DateTimeInfo) option" where
  "LocalTime os t dt = do { (adjust, dt') \<leftarrow> AdjustTime os t dt; Some (d_add t adjust, dt') }"

definition UTC :: "os_clock \<Rightarrow> double \<Rightarrow> DateTimeInfo \<Rightarrow> (double \<times> DateTimeInfo) option" where
  "UTC os t dt = do { (adjust, dt') \<leftarrow> AdjustTime os (d_sub t (localTZA dt)) dt; Some (d_sub t adjust, dt') }"

end
