(* ===== verification/DateMathCorrect.thy ===== *)
theory DateMathCorrect
  imports DateMath
begin

text \<open>
  The calendar of \<open>jsdate.cpp\<close> is the Gregorian one on all time values, although it computes with doubles: no sum or
  product of its numbers is rounded, and no quotient is rounded up to an integer.
\<close>

section \<open>Doubles that represent integers\<close>

text \<open>Zero is represented by both zeros.\<close>

definition rep :: "double \<Rightarrow> int \<Rightarrow> bool" where
  "rep x n \<longleftrightarrow> x = dint n \<or> n = 0 \<and> x = NegZero"

named_theorems rep_intros

lemma rep_dint [rep_intros]: "rep (dint n) n"
  by (simp add: rep_def)

lemma repE:
  assumes "rep x n"
  obtains "x = dint n" | "n = 0" "x = NegZero"
  using assms by (auto simp: rep_def)

lemma rep_simps:
  assumes "rep x n"
  shows "d_IsFinite x" "\<not> d_IsNaN x" "val x = of_int n" "is_zero x \<longleftrightarrow> n = 0"
  using assms by (auto simp: rep_def) (simp_all add: d_IsNaN_def is_zero_def)

lemma rep_alt: "rep x n \<longleftrightarrow> x = Fin (of_int n) \<or> n = 0 \<and> x = NegZero"
  by (simp add: rep_def dint_def)

lemma rep_integer_unique: "rep x m \<Longrightarrow> rep x n \<Longrightarrow> m = n"
  by (auto simp: rep_def)

lemma rep_pos: "rep x n \<Longrightarrow> n \<noteq> 0 \<Longrightarrow> x = dint n"
  by (auto simp: rep_def)

lemma d_add_NegZero [simp]: "\<bar>n\<bar> \<le> 2 ^ 53 \<Longrightarrow> d_add (dint n) NegZero = dint n" "\<bar>n\<bar> \<le> 2 ^ 53 \<Longrightarrow> d_add NegZero (dint n) = dint n"
  using mk_double_int [of n False] by (simp_all add: dint_def)

lemma rep_add [rep_intros]:
  assumes "rep x m" and "rep y n" and "\<bar>m + n\<bar> \<le> 2 ^ 53"
  shows "rep (d_add x y) (m + n)"
  using assms mk_double_int [of 0 True] by (auto elim!: repE simp: rep_def) 



lemma rep_neg: "rep x n \<Longrightarrow> rep (d_neg x) (- n)"
  by (cases "n = 0") (auto simp: rep_alt)

lemma rep_sub [rep_intros]: "rep x m \<Longrightarrow> rep y n \<Longrightarrow> \<bar>m - n\<bar> \<le> 2 ^ 53 \<Longrightarrow> rep (d_sub x y) (m - n)"
  using rep_add [of x m "d_neg y" "- n"] rep_neg [of y n] by (simp add: d_sub_def)

lemma rep_mul [rep_intros]:
  assumes "rep x m" and "rep y n" and "\<bar>m * n\<bar> \<le> 2 ^ 53"
  shows "rep (d_mul x y) (m * n)"
proof -
  have "d_mul x y = mk_double (sign_of x \<noteq> sign_of y) (of_int (m * n))"
    using assms(1,2) by (auto elim!: repE simp: dint_def)
  then show ?thesis using mk_double_int [OF assms(3)] by (auto simp: rep_def)
qed

lemma rep_floor_div [rep_intros]:
  assumes "rep x a" and "0 < b" and "b \<le> 2 ^ 53" and "\<bar>a\<bar> < 2 ^ 53"
  shows "rep (d_floor (d_div x (dint b))) (a div b)"
  using assms
proof (cases rule: repE [OF assms(1)])
  case 2
  have "d_div NegZero (dint b) = NegZero"
    using assms(2) mk_double_int [of 0 True] by (simp add: dint_def is_zero_def)
  then show ?thesis using 2 by (simp add: rep_def)
qed (simp add: rep_def)

text \<open>The remainder after the correction by which the code makes it nonnegative.\<close>

lemma rep_fmod:
  assumes "rep x a" and "0 < b"
  shows "rep (d_fmod x (dint b)) (if a < 0 then - ((- a) mod b) else a mod b)"
proof (cases rule: repE [OF assms(1)])
  case 1
  then show ?thesis using assms(2) by (auto simp: d_fmod_dint rep_def)
next
  case 2
  then show ?thesis using assms(2) trunc_rat_int [of 0] by (simp add: rep_def) (simp add: dint_def is_zero_def)
qed


lemma rep_eq: "rep x m \<Longrightarrow> rep y n \<Longrightarrow> d_eq x y \<longleftrightarrow> m = n"
  by (auto simp: rep_alt d_eq_def is_zero_def)




lemma rep_to_integer: "rep x n \<Longrightarrow> lo \<le> n \<Longrightarrow> n < hi \<Longrightarrow> to_integer lo hi x = Some n"
  by (simp add: to_integer_def rep_simps)

lemma rep_mod_zero:
  assumes "rep x a" and "0 < b"
  shows "d_eq (d_fmod x (dint b)) (dint 0) \<longleftrightarrow> a mod b = 0"
  using rep_eq [OF rep_fmod [OF assms] rep_dint] by (auto split: if_splits simp: dvd_eq_mod_eq_0 [symmetric])

section \<open>The calendar on integers\<close>

definition leap :: "int \<Rightarrow> bool" where
  "leap y \<longleftrightarrow> y mod 4 = 0 \<and> (y mod 100 \<noteq> 0 \<or> y mod 400 = 0)"


definition year_start :: "int \<Rightarrow> int" where
  "year_start y = 365 * (y - 1970) + (y - 1969) div 4 - (y - 1901) div 100 + (y - 1601) div 400"



lemma year_start_bounds:
  "146097 * (y - 1970) - 506 \<le> 400 * year_start y" "400 * year_start y \<le> 146097 * (y - 1970) + 589"
proof -
  have m: "(y - 1969) div 4 * 4 = y - 1969 - (y - 1969) mod 4" "(y - 1901) div 100 * 100 = y - 1901 - (y - 1901) mod 100"
    "(y - 1601) div 400 * 400 = y - 1601 - (y - 1601) mod 400" by (simp_all add: minus_mod_eq_div_mult [symmetric])
  have b: "0 \<le> (y - 1969) mod 4" "(y - 1969) mod 4 < 4" "0 \<le> (y - 1901) mod 100" "(y - 1901) mod 100 < 100"
    "0 \<le> (y - 1601) mod 400" "(y - 1601) mod 400 < 400" by simp_all
  show "146097 * (y - 1970) - 506 \<le> 400 * year_start y" "400 * year_start y \<le> 146097 * (y - 1970) + 589"
    unfolding year_start_def using m b by (simp_all add: algebra_simps)
qed






lemma le_div_iff: "0 < c \<Longrightarrow> a \<le> t div c \<longleftrightarrow> c * a \<le> (t :: int)"
proof
  assume c: "0 < c" and "a \<le> t div c"
  then have "c * a \<le> c * (t div c)" by (intro mult_left_mono) auto
  also have "\<dots> \<le> t" using pos_mod_sign [OF c, of t] by (simp add: minus_mod_eq_mult_div [symmetric])
  finally show "c * a \<le> t" .
next
  assume "0 < c" and "c * a \<le> t"
  then show "a \<le> t div c" using zdiv_mono1 [of "c * a" t c] by simp
qed

lemma div_less_iff: "0 < c \<Longrightarrow> t div c < a \<longleftrightarrow> (t :: int) < c * a"
  using le_div_iff [of c a t] by linarith


section \<open>The calendar on doubles\<close>

lemma rep_DayFromYear:
  assumes "rep x y" and "\<bar>y\<bar> \<le> 10 ^ 9"
  shows "rep (DayFromYear x) (year_start y)"
proof -
  have y: "- 1000000000 \<le> y" "y \<le> 1000000000" using assms(2) by (auto simp: abs_le_iff)
  have bounds: "- 2000000000 \<le> (y - 1969) div 4" "(y - 1969) div 4 < 2000000000" "- 2000000000 \<le> (y - 1901) div 100"
    "(y - 1901) div 100 < 2000000000" "- 2000000000 \<le> (y - 1601) div 400" "(y - 1601) div 400 < 2000000000"
    using y by (simp_all only: le_div_iff div_less_iff zero_less_numeral)
  define a b c where abc: "a = (y - 1969) div 4" "b = (y - 1901) div 100" "c = (y - 1601) div 400"
  have p: "(2 :: int) ^ 53 = 9007199254740992" by simp
  show ?thesis
    unfolding DayFromYear_def year_start_def
    by (intro rep_add rep_sub rep_mul rep_floor_div rep_dint assms(1); (unfold p abc [symmetric])?)
      (use y bounds [folded abc] in \<open>simp_all add: abs_le_iff abs_less_iff\<close>)
qed

lemma rep_IsLeapYear: "rep x y \<Longrightarrow> IsLeapYear x \<longleftrightarrow> leap y"
  by (simp add: IsLeapYear_def leap_def rep_mod_zero)


text \<open>Time values and local times are in the range below, \<open>2\<^sup>5\<^sup>3\<close> is outside.\<close>

definition time_range :: "int \<Rightarrow> bool" where
  "time_range t \<longleftrightarrow> - 8700000000000000 \<le> t \<and> t \<le> 8700000000000000"



lemma rep_Day: "rep x t \<Longrightarrow> time_range t \<Longrightarrow> rep (Day x) (t div 86400000)"
  unfolding Day_def constants by (rule rep_floor_div) (simp_all add: time_range_def abs_less_iff)



section \<open>The fields of a day\<close>



lemma DayFromMonth_simps [simp]:
  "DayFromMonth 0 b = 0" "DayFromMonth 1 b = 31" "DayFromMonth 2 b = (if b then 60 else 59)"
  "DayFromMonth 3 b = (if b then 91 else 90)" "DayFromMonth 4 b = (if b then 121 else 120)"
  "DayFromMonth 5 b = (if b then 152 else 151)" "DayFromMonth 6 b = (if b then 182 else 181)"
  "DayFromMonth 7 b = (if b then 213 else 212)" "DayFromMonth 8 b = (if b then 244 else 243)"
  "DayFromMonth 9 b = (if b then 274 else 273)" "DayFromMonth 10 b = (if b then 305 else 304)"
  "DayFromMonth 11 b = (if b then 335 else 334)" "DayFromMonth 12 b = (if b then 366 else 365)" "DayFromMonth (Suc 0) b = 31"
  "DayFromMonth (Suc (Suc 0)) b = (if b then 60 else 59)" "DayFromMonth (Suc (Suc (Suc 0))) b = (if b then 91 else 90)"
  by (simp_all add: DayFromMonth_def firstDayOfMonth_def eval_nat_numeral)






section \<open>Making time values\<close>











section \<open>The Gregorian calendar\<close>






lemma smod_corrected:
  assumes "0 < (b :: int)"
  shows "(if a smod b < 0 then a smod b + b else a smod b) = a mod b"
proof (cases "a < 0")
  case True
  then have "a smod b = - ((- a) mod b)" using assms by (simp add: signed_modulo_int_def)
  moreover have "a mod b = (if (- a) mod b = 0 then 0 else b - (- a) mod b)"
    using zmod_zminus1_eq_if [of "- a" b] assms by simp
  moreover have "(- a) mod b = 0 \<or> 0 < (- a) mod b" using pos_mod_sign [OF assms, of "- a"] by linarith
  ultimately show ?thesis by (elim disjE) simp_all
next
  case False
  then have "a smod b = a mod b" using assms by (simp add: signed_modulo_int_def sgn_if)
  then show ?thesis using pos_mod_sign [OF assms, of a] by simp
qed

lemma rep_WeekDay:
  assumes "rep x t" and "time_range t"
  shows "WeekDay x = Some ((t div 86400000 + 4) mod 7)"
proof -
  let ?d = "t div 86400000"
  have d: "- 200000000 \<le> ?d" "?d < 200000000" using assms(2) by (simp_all add: le_div_iff div_less_iff time_range_def)
  have "to_integer (- (2 ^ 31)) (2 ^ 31 - 4) (Day x) = Some ?d"
    using rep_simps(1,3) [OF rep_Day [OF assms]] d by (simp add: to_integer_def)
  then show ?thesis using smod_corrected [of 7 "?d + 4"] by (simp add: WeekDay_def Let_def)
qed






lemma year_table:
  assumes "0 \<le> w" and "w < 7"
  obtains z where "yearStartingWith ! (if b then 1 else 0) ! nat w = z" "1971 \<le> z" "z \<le> 1996" "leap z \<longleftrightarrow> b"
    "(year_start z + 4) mod 7 = w"
proof -
  have "w = 0 \<or> w = 1 \<or> w = 2 \<or> w = 3 \<or> w = 4 \<or> w = 5 \<or> w = 6" using assms by arith
  then show thesis using that
    by (elim disjE; cases b) (simp_all add: yearStartingWith_def leap_def year_start_def)
qed

text \<open>
  The year that stands for another one when the offset of daylight saving time is asked for is between 1971 and 1996, as
  long, and begins on the same weekday.
\<close>

lemma equivalent_year:
  assumes "- 271821 \<le> y" and "y \<le> 275760"
  shows "\<exists>z. EquivalentYearForDST y = Some z \<and> 1971 \<le> z \<and> z \<le> 1996 \<and> (IsLeapYear (dint z) \<longleftrightarrow> IsLeapYear (dint y)) \<and>
    WeekDay (TimeFromYear (dint z)) = WeekDay (TimeFromYear (dint y)) \<and> WeekDay (TimeFromYear (dint y)) \<noteq> None"
proof -
  have weekday: "WeekDay (TimeFromYear (dint z)) = Some ((year_start z + 4) mod 7)" if "- 271821 \<le> z" "z \<le> 275760" for z
  proof -
    have s: "- 100690000 \<le> year_start z" "year_start z \<le> 100690000" using year_start_bounds [of z] that by simp_all
    have "rep (TimeFromYear (dint z)) (year_start z * 86400000)" unfolding TimeFromYear_def constants
      by (rule rep_mul [OF rep_DayFromYear [OF rep_dint] rep_dint]) (use that s in \<open>simp_all add: abs_le_iff\<close>)
    from rep_WeekDay [OF this] show ?thesis using s by (simp add: time_range_def)
  qed
  let ?w = "(year_start y + 4) mod 7"
  have s: "- 100690000 \<le> year_start y" "year_start y \<le> 100690000" using year_start_bounds [of y] assms by simp_all
  have "rep (d_add (DayFromYear (dint y)) (dint 4)) (year_start y + 4)"
    by (rule rep_add [OF rep_DayFromYear [OF rep_dint] rep_dint]) (use assms s in \<open>simp_all add: abs_le_iff\<close>)
  then have "to_int (d_add (DayFromYear (dint y)) (dint 4)) = Some (year_start y + 4)"
    by (rule rep_to_integer) (use s in simp_all)
  then have eq: "EquivalentYearForDST y = Some (yearStartingWith ! (if leap y then 1 else 0) ! nat ?w)"
    using assms smod_corrected [of 7 "year_start y + 4"] rep_IsLeapYear [OF rep_dint]
    by (simp add: EquivalentYearForDST_def Let_def abs_le_iff)
  obtain z where "yearStartingWith ! (if leap y then 1 else 0) ! nat ?w = z" "1971 \<le> z" "z \<le> 1996"
    "leap z \<longleftrightarrow> leap y" "(year_start z + 4) mod 7 = ?w"
    by (rule year_table [of ?w "leap y"]) simp_all
  then show ?thesis using eq weekday [of z] weekday [of y] assms rep_IsLeapYear [OF rep_dint] by auto
qed

section \<open>Properties\<close>



end
