(* ===== verification/LocalTimeCorrect.thy ===== *)
theory LocalTimeCorrect
  imports DateMathCorrect
begin

text \<open>
  The cache of \<open>DateTimeInfo\<close> gives the offsets that would be computed without it; and on the clock of a time zone its
  standard offset is found, at any time of the year.
\<close>

section \<open>Sequences of requests\<close>

primrec dst_requests :: "os_clock \<Rightarrow> int list \<Rightarrow> DateTimeInfo \<Rightarrow> int list \<times> DateTimeInfo" where
  "dst_requests os [] dt = ([], dt)"
| "dst_requests os (m # ms) dt =
     (let (v, dt) = getDSTOffsetMilliseconds os m dt; (vs, dt) = dst_requests os ms dt in (v # vs, dt))"

lemma clamp_seconds_bounds: "0 \<le> clamp_seconds s" "clamp_seconds s \<le> MaxUnixTimeT"
  by (simp_all add: clamp_seconds_def MaxUnixTimeT_def SecondsPerDay_def SecondsPerHour_def)

lemma get_offset_correct:
  assumes "cache_inv os dt" and "one_change_in_30_days (computeDSTOffsetMilliseconds os dt)"
    and "getDSTOffsetMilliseconds os m dt = (v, dt')"
  shows "v = computeDSTOffsetMilliseconds os dt (clamp_seconds (utc_seconds m))" and "cache_inv os dt'"
    and "utcToLocalStandardOffsetSeconds dt' = utcToLocalStandardOffsetSeconds dt" and "localTZA dt' = localTZA dt"
  using cached_offset_correct [OF assms(1) clamp_seconds_bounds assms(2)] assms(3)
  by (simp_all add: getDSTOffsetMilliseconds_def internalGetDSTOffsetMilliseconds_def)

lemma dst_requests_correct:
  assumes "cache_inv os dt" and "one_change_in_30_days (computeDSTOffsetMilliseconds os dt)"
    and "dst_requests os ms dt = (vs, dt')"
  shows "vs = map (\<lambda>m. computeDSTOffsetMilliseconds os dt (clamp_seconds (utc_seconds m))) ms \<and> cache_inv os dt' \<and>
    utcToLocalStandardOffsetSeconds dt' = utcToLocalStandardOffsetSeconds dt \<and> localTZA dt' = localTZA dt"
  using assms
proof (induction ms arbitrary: dt vs)
  case (Cons m ms)
  obtain v e where g: "getDSTOffsetMilliseconds os m dt = (v, e)" by force
  obtain ws where r: "dst_requests os ms e = (ws, dt')" and vs: "vs = v # ws"
    using Cons.prems(3) g by (auto split: prod.splits)
  note e = get_offset_correct [OF Cons.prems(1,2) g]
  have same: "computeDSTOffsetMilliseconds os e = computeDSTOffsetMilliseconds os dt" by (rule compute_cong [OF e(3)])
  then have "one_change_in_30_days (computeDSTOffsetMilliseconds os e)" using Cons.prems(2) by simp
  from Cons.IH [OF e(2) this r] show ?case using vs e same by simp
qed simp

lemma init_fields:
  "utcToLocalStandardOffsetSeconds (DateTimeInfo_init os) = UTCToLocalStandardOffsetSeconds os"
  "localTZA (DateTimeInfo_init os) = d_mul (of_integer (UTCToLocalStandardOffsetSeconds os)) msPerSecond"
  "cache_inv os (DateTimeInfo_init os)"
  by (simp_all add: DateTimeInfo_init_def internalUpdateTimeZoneAdjustment_def Let_def DateTimeInfo_static_def d_eq_def is_zero_def
      cache_inv_def range_ok_def)

text \<open>
  After the initialisation every request for the offset of daylight saving time is answered as without the cache, whatever
  was asked for before, if the offset changes at most once in thirty days.
\<close>

theorem dst_cache_transparent:
  assumes "one_change_in_30_days (computeDSTOffsetMilliseconds os (DateTimeInfo_init os))"
  shows "fst (dst_requests os ms (DateTimeInfo_init os)) =
    map (\<lambda>m. computeDSTOffsetMilliseconds os (DateTimeInfo_init os) (clamp_seconds (utc_seconds m))) ms"
proof -
  obtain vs dt where "dst_requests os ms (DateTimeInfo_init os) = (vs, dt)" by force
  then show ?thesis using dst_requests_correct [OF init_fields(3) assms] by simp
qed

lemma seconds_of_day: "s mod 60 + s div 60 mod 60 * 60 + s div 3600 mod 24 * 3600 = s mod (86400 :: int)"
proof -
  have "s mod (60 * 60) = 60 * (s div 60 mod 60) + s mod 60" "s mod (3600 * 24) = 3600 * (s div 3600 mod 24) + s mod 3600"
    by (rule zmod_zmult2_eq; simp)+
  then show ?thesis by simp
qed

section \<open>The clock of a time zone\<close>

text \<open>
  What the C library documents, for a zone whose standard time is \<open>off\<close> seconds after UTC, with \<open>dst s\<close> more at second
  \<open>s\<close>: broken-down times are those of the shifted second, and \<open>mktime\<close> finds the second of a standard time. Two
  consecutive days have different days of the month.
\<close>

definition tm_at :: "(int \<Rightarrow> int) \<Rightarrow> int \<Rightarrow> int \<Rightarrow> tm" where
  "tm_at mday s isdst =
     \<lparr>tm_sec = s mod 60, tm_min = s div 60 mod 60, tm_hour = s div 3600 mod 24, tm_mday = mday (s div 86400), tm_isdst = isdst\<rparr>"

definition zone_clock :: "os_clock \<Rightarrow> int \<Rightarrow> (int \<Rightarrow> int) \<Rightarrow> bool" where
  "zone_clock os off dst \<longleftrightarrow>
     \<bar>off\<bar> < 86400 \<and> off mod 60 = 0 \<and>
     (\<forall>s. if 0 \<le> off then 0 \<le> off + dst s \<and> off + dst s < 86400 else - 86400 < off + dst s \<and> off + dst s \<le> 0) \<and>
     (\<forall>s. 0 \<le> dst s \<and> dst s < 86400) \<and> os_time os \<noteq> None \<and>
     (\<exists>mday. (\<forall>d. mday d \<noteq> mday (d + 1)) \<and>
        (\<forall>s. os_gmtime os s = Some (tm_at mday s 0) \<and>
             os_localtime os s = Some (tm_at mday (s + off + dst s) (if dst s = 0 then 0 else 1)) \<and>
             os_mktime os (tm_at mday (s + off + dst s) 0) = Some (s + dst s)))"

lemma day_shift:
  assumes "\<bar>off\<bar> < 86400"
  shows "(n + off) div 86400 = n div 86400 \<and> (n + off) mod 86400 = n mod 86400 + off \<or>
    (n + off) div 86400 = n div 86400 + 1 \<and> (n + off) mod 86400 = n mod 86400 + off - 86400 \<and> 0 < off \<or>
    (n + off) div 86400 = n div 86400 - 1 \<and> (n + off) mod 86400 = n mod 86400 + off + 86400 \<and> off < (0 :: int)"
proof -
  define q r where qr: "q = n div 86400" "r = n mod 86400"
  have n: "n = 86400 * q + r" "0 \<le> r" "r < 86400" by (simp_all add: qr)
  have at: "(n + off) div 86400 = d \<and> (n + off) mod 86400 = m" if "n + off = 86400 * d + m" "0 \<le> m" "m < 86400" for d m
    using int_div_pos_eq [OF that] int_mod_pos_eq [OF that] by simp
  consider "0 \<le> r + off" "r + off < 86400" | "86400 \<le> r + off" | "r + off < 0" by linarith
  then show ?thesis
    using n assms at [of q "r + off"] at [of "q + 1" "r + off - 86400"] at [of "q - 1" "r + off + 86400"]
    unfolding qr [symmetric] by cases simp_all
qed

lemma minutes_of_day: "s div 3600 mod 24 * 3600 + s div 60 mod 60 * 60 = s mod 86400 - s mod (60 :: int)"
  using seconds_of_day [of s] by simp

text \<open>The standard offset is found at any time, also while daylight saving time is in force.\<close>

lemma standard_offset:
  assumes "zone_clock os off dst"
  shows "UTCToLocalStandardOffsetSeconds os = off"
proof -
  obtain now where now: "os_time os = Some now" using assms by (auto simp: zone_clock_def)
  have off: "\<bar>off\<bar> < 86400" "off mod 60 = 0" using assms by (simp_all add: zone_clock_def)
  obtain mday where mday: "\<forall>d. mday d \<noteq> mday (d + 1)" and all: "\<forall>s. os_gmtime os s = Some (tm_at mday s 0) \<and>
             os_localtime os s = Some (tm_at mday (s + off + dst s) (if dst s = 0 then 0 else 1)) \<and>
             os_mktime os (tm_at mday (s + off + dst s) 0) = Some (s + dst s)"
    using assms unfolding zone_clock_def by blast
  then have clock: "\<And>s. os_gmtime os s = Some (tm_at mday s 0)"
      "\<And>s. os_localtime os s = Some (tm_at mday (s + off + dst s) (if dst s = 0 then 0 else 1))"
      "\<And>s. os_mktime os (tm_at mday (s + off + dst s) 0) = Some (s + dst s)" by simp_all
  let ?n = "now + dst now"
  have e: "now + off + dst now = ?n + off" by simp
  have same: "(tm_at mday (?n + off) i)\<lparr>tm_isdst := 0\<rparr> = tm_at mday (?n + off) 0" for i by (simp add: tm_at_def)
  have no_dst: "(if tm_isdst (tm_at mday (?n + off) (if dst now = 0 then 0 else 1)) = 0 then Some now
    else os_mktime os ((tm_at mday (?n + off) (if dst now = 0 then 0 else 1))\<lparr>tm_isdst := 0\<rparr>)) = Some ?n"
    using clock(3) [of now] by (simp add: same e tm_at_def [of _ _ 0] tm_at_def [of _ _ 1])
  have min: "(?n + off) mod 60 = ?n mod 60" using off(2) by (metis add.right_neutral mod_add_right_eq)
  have secs: "tm_hour (tm_at mday s i) * 3600 + tm_min (tm_at mday s i) * 60 = s mod 86400 - s mod 60" for s i
    using minutes_of_day [of s] by (simp add: tm_at_def)
  have md: "tm_mday (tm_at mday s i) = mday (s div 86400)" for s i by (simp add: tm_at_def)
  define d e u l where "d = ?n div 86400" and "e = (?n + off) div 86400" and "u = ?n mod 86400" and "l = (?n + off) mod 86400"
  have shift: "e = d \<and> l = u + off \<or> e = d + 1 \<and> l = u + off - 86400 \<and> 0 < off \<or> e = d - 1 \<and> l = u + off + 86400 \<and> off < 0"
    unfolding d_def e_def u_def l_def by (rule day_shift [OF off(1)])
  have "mday (d - 1) \<noteq> mday d" using mday [rule_format, of "d - 1"] by simp
  then have day: "mday d = mday e \<longleftrightarrow> d = e" using shift mday by metis
  have "mday d = mday e \<Longrightarrow> l - u = off" "mday d \<noteq> mday e \<Longrightarrow> l < u \<Longrightarrow> 86400 + (l - u) = off"
    "mday d \<noteq> mday e \<Longrightarrow> \<not> l < u \<Longrightarrow> l + (- u - 86400) = off"
    using shift off(1) unfolding day by auto
  then show ?thesis
    unfolding UTCToLocalStandardOffsetSeconds_def now option.case clock(2) e no_dst clock(1) Let_def SecondsPerDay_def SecondsPerHour_def
      d_def e_def u_def l_def
    by (simp add: secs md min)
qed

end
