(* ===== verification/Spec2Isabelle.thy ===== *)
theory Spec2Isabelle
  imports CharacterEncodingCorrect JsonPrint BridgeCorrect JobQueueCorrect LocalRefs MapObjectCorrect ArraySortCorrect HashMapCorrect UriCodingCorrect StringSearchCorrect LocalTimeCorrect
begin

text \<open>
  A verification development of the native side of Weex for Android: the bridge between Java and JavaScript, and the
  parts of the embedded JavaScript engine (SpiderMonkey) that the bridge and the scripts of a Weex page lean on.

  \<^bold>\<open>The program.\<close> \<open>src/weexion.cpp\<close> is a library that Java loads through JNI. Java calls \<open>native_initFramework\<close> once, which
  starts the engine and evaluates the JavaScript framework, then \<open>native_execJSService\<close> for further scripts and
  \<open>native_execJS\<close> for the functions of the framework. Scripts call back through nine natives of the global object
  (\<open>callNative\<close>, \<open>callNativeModule\<close>, \<open>callAddElement\<close>, \<open>setTimeoutNative\<close>, \<open>nativeLog\<close> and so on), each of which turns its
  arguments into Java objects, calls one method of \<open>WXBridge\<close> through a cached method ID and hands the answer back.
  Arguments travel as JSON, so a call passes through \<open>JSON.stringify\<close> or the JSON parser of the engine, and through its
  UTF-8 transcoding. After every call from Java the queue of promise jobs is drained; now and then the engine is asked to
  collect garbage. Every function from Java writes a systrace event (\<open>src/Trace.cpp\<close>) when it starts and when it ends.

  \<^bold>\<open>Theories and sources.\<close> For each component a theory with the model comes before the theories with its lemmas.

  \<^item> \<open>Prelude\<close>: machine words, ASCII literals, decimal numerals, list lemmas, the collections \<open>run_simps\<close> and \<open>frame_simps\<close>.
  \<^item> \<open>CharacterEncoding\<close>, \<open>CharacterEncodingCorrect\<close>: \<open>js/src/vm/CharacterEncoding.cpp\<close> and \<open>OneUcs4ToUtf8Char\<close> of \<open>jsstr.cpp\<close>.
  \<^item> \<open>JsValue\<close>, \<open>Doubles\<close>: values, plain objects on a heap, property lookup, enumeration, the string forms of numbers
    (\<open>NativeObject.cpp\<close>, \<open>jsiter.cpp\<close>, \<open>jsnum.cpp\<close>).
  \<^item> \<open>JsonStringify\<close>: \<open>js/src/json.cpp\<close>. \<open>JsonParser\<close>: \<open>js/src/vm/JSONParser.{h,cpp}\<close>, the machine with its explicit stack.
    \<open>JsonText\<close>, \<open>JsonRoundTrip\<close>, \<open>JsonPrint\<close>: the trees they both work on, and the lemmas.
  \<^item> \<open>JniEnv\<close>: what of JNI the bridge uses, with the table of local references and the log of the calls of Java methods.
    \<open>Atrace\<close>: \<open>Trace.cpp\<close> and \<open>Trace.h\<close>.
  \<^item> \<open>IdleNotification\<close>: the counters of \<open>weexion.cpp\<close> that say when to collect garbage. \<open>World\<close>: the state of the bridge
    and its helper classes. \<open>Bindings\<close>: the natives. \<open>JobQueue\<close>: the shell context and \<open>DrainJobQueue\<close>. \<open>Framework\<close>: what
    Java calls, from \<open>JNI_OnLoad\<close> to \<open>JNI_OnUnload\<close>.
  \<^item> \<open>NativeContract\<close>, \<open>BridgeContract\<close>, \<open>Demo\<close>, \<open>BridgeCorrect\<close>, \<open>JobQueueCorrect\<close>, \<open>LocalRefs\<close>: the interfaces of the
    bridge, their interpretations, a concrete platform for the examples, and the lemmas.
  \<^item> \<open>HashFunctions\<close>: \<open>mfbt/HashFunctions.h\<close>. \<open>OrderedHashTable\<close>, \<open>OrderedHashTableCorrect\<close>: \<open>js/src/ds/OrderedHashTable.h\<close>.
    \<open>MapObject\<close>, \<open>MapObjectCorrect\<close>: JavaScript's \<open>Map\<close> and \<open>Set\<close> on it (\<open>builtin/MapObject.cpp\<close>).
  \<^item> \<open>HashTable\<close>, \<open>HashMap\<close>, and \<open>HashTableProbe\<close>, \<open>HashTableSearch\<close>, \<open>HashTableCorrect\<close>, \<open>HashTableOps\<close>, \<open>HashMapCorrect\<close>:
    \<open>js/public/HashTable.h\<close>, the open-addressed table all of the engine uses.
  \<^item> \<open>Sort\<close>, \<open>SortCorrect\<close>: \<open>js/src/ds/Sort.h\<close>. \<open>ArraySort\<close>, \<open>Reorder\<close>, \<open>ArraySortCorrect\<close>: \<open>Array.prototype.sort\<close> of \<open>jsarray.cpp\<close>.
  \<^item> \<open>UriCoding\<close>, \<open>UriCodingCorrect\<close>, \<open>StringSearch\<close>, \<open>StringSearchCorrect\<close>: \<open>js/src/jsstr.cpp\<close>.
  \<^item> \<open>DoubleArith\<close>, \<open>DateTime\<close>, \<open>DateMath\<close>, \<open>DateMathCorrect\<close>, \<open>LocalTimeCorrect\<close>: the arithmetic of doubles,
    \<open>js/src/vm/DateTime.{h,cpp}\<close>, and the calendar of \<open>js/src/jsdate.cpp\<close>.

  Definitions have the names of the C++ functions they translate. Where one function is several definitions, the others
  are named after its parts (\<open>deflate_loop\<close>, \<open>merge_pass\<close>, \<open>drain_turn\<close>).
\<close>

text \<open>
  \<^bold>\<open>State and results.\<close> The state of the bridge is the record \<open>world\<close>: the JNI tables, the trace, the idle counters, the
  file-level statics of \<open>weexion.cpp\<close>, the heap and the pending exception of the engine, and the \<open>ShellContext\<close> with its job
  queue. What does not change is the record \<open>platform\<close>. An operation takes a world to an optional world; \<open>None\<close> is a crash,
  a call of undefined behaviour or an end of the process. Errors of the engine are values: the JSON functions give a sum
  type whose left side is the error with its place, the natives leave a pending exception and answer false. The data
  structures of the engine are records of their C++ fields, with vectors as lists whose every read and write is checked:
  an access out of bounds is \<open>None\<close>, and the theorems with a result \<open>Some\<close> exclude it.

  \<^bold>\<open>Numbers.\<close> Integers are words where their width matters: code units, hash codes, the idle counters, the comparison of
  integers as decimal strings. Sizes and indices of vectors are natural numbers where the code checks or cannot reach
  the bound. There are two models of doubles. In \<open>JsValue\<close>, \<open>dbl\<close> is an integral value below two to the 53rd or else the 64
  bits, which is what JSON, \<open>Map\<close> and sorting look at. In \<open>DoubleArith\<close>, \<open>double\<close> is a rational number, a zero, an infinity or
  NaN, with every operation rounded to nearest, ties to even, which is what the calendar computes with.

  \<^bold>\<open>Loops.\<close> Loops that end by their counters are functions with a measure, or structural recursions. Where that the loop
  ends is a matter of an invariant, it is a \<open>partial_function (option)\<close>, and the correctness theorems say that the result is
  \<open>Some\<close>: the probe sequences, the chains, the rehash in place, the cycles of the reordering and the string searches.
  \<open>drain_loop\<close> may truly run forever. \<open>DrainJobQueue_for\<close> is the same function stopped before turn \<open>n\<close>: there \<open>None\<close> is only a
  crash, and \<open>DrainJobQueue_returns\<close> says that \<open>DrainJobQueue\<close> has a result exactly if a stopped drain has come to its end
  with that result. Two bounds are explicit. \<open>recursion_budget\<close> stands for the C++ stack that \<open>JS_CHECK_RECURSION\<close> measures;
  the theorems ask for more than the nesting of the value. The walk along prototypes has the length of the heap as its
  fuel, which is enough since the engine keeps the chains free of cycles.

  \<^bold>\<open>Parameters.\<close> What is not in the repository, or not part of the model, is an argument. \<open>host\<close> is Java: which classes and
  methods exist and what calls return. \<open>os\<close> is the file system of the trace marker, \<open>os_clock\<close> the C library's \<open>time\<close>,
  \<open>localtime\<close>, \<open>gmtime\<close> and \<open>mktime\<close>. \<open>js_engine\<close> is the interpreter: which \<open>js_prog\<close>, a tree of effects on the world, a source
  text, a function call or a job gives; and in \<open>engine_fns\<close> the third-party code that prints and reads decimal fractions.
  \<open>decimal_libraries\<close> is the one assumption on the latter: an exact integer reads as itself, and the text of a fraction
  is a JSON number that reads back as the fraction. How the parser of the engine splits a text into tokens, signs
  included, is proved. The allocators of the hash tables and of the appends are arguments: theorems hold for every
  pattern of failures, or say which allocations succeed.
\<close>

text \<open>
  \<^bold>\<open>Interfaces.\<close>

  \<^item> \<open>world_relation\<close>, \<open>program_relation\<close>, \<open>session_relation\<close> (\<open>NativeContract\<close>): a reflexive, transitive relation on worlds that
    the elementary changes of a native respect, those of a running program, and those of the shell context. The lemmas
    carry it through all natives, programs, the draining and the functions Java calls. \<open>BridgeContract\<close> interprets them: \<open>tr\<close> (balanced
    trace), \<open>fr\<close> (what nothing touches), \<open>jw\<close> (well-formed JNI tables), \<open>ca\<close> (cached method IDs), \<open>qu\<close> (the queue only grows),
    \<open>pe\<close> (a pending exception stays pending); \<open>JobQueueCorrect\<close> adds \<open>sc\<close> (natives leave the shell context alone).
  \<^item> \<open>hash_policy\<close> (\<open>OrderedHashTableCorrect\<close>): what the ordered table needs of its keys. \<open>MapObjectCorrect\<close> interprets it for
    the policies of \<open>Map\<close> and \<open>Set\<close>, for every state of the scrambler.
  \<^item> \<open>hash_table\<close> (\<open>HashTableOps\<close>): what the open-addressed table needs of its policy. \<open>equality_hasher\<close> (\<open>HashMapCorrect\<close>) gives it
    twice, for the policies of \<open>HashMap\<close> and \<open>HashSet\<close>, and is interpreted for the hashers of the source: integers, pointers
    of 32 and 64 bits, doubles.

  \<^bold>\<open>What is shown.\<close>

  \<^item> Transcoding: a text comes back from UTF-8, lone surrogates replaced; the length pass and the writing pass agree to the
    byte (\<open>utf8_round_trip\<close>, \<open>utf8_block_exact\<close>).
  \<^item> JSON: \<open>Stringify\<close> writes the text of the tree a value represents; the parser reads that text back as a value that
    represents the tree, up to the sign of zero; stringifying it again gives the same text (\<open>stringify_refines_printer\<close>,
    \<open>parser_reads_printed\<close>, \<open>stringify_parse_round_trip\<close>).
  \<^item> The bridge: balanced trace events on every path of \<open>execJS\<close>; a second initialisation changes nothing, and one that failed
    half-way is reported as a success; exceptions are reported once, and one left pending makes the next call fail; a
    native makes one Java call with the arguments it was given, deletes its local references, and crashes on no argument
    of the right type; \<open>callNativeModule\<close> keeps the reference of its result (\<open>BridgeCorrect\<close>, \<open>LocalRefs\<close>). The exact schedule of
    the garbage collections (\<open>IdleNotification\<close>).
  \<^item> The job queue: the loop over indices is an abstract queue; it ends if jobs have ranks; and it makes turn after turn,
    never ending, with a job that enqueues itself (\<open>JobQueueCorrect\<close>).
  \<^item> \<open>Map\<close> and \<open>Set\<close>: scripts with live iterators behave as on a list in insertion order, whatever the table does underneath;
    keys are equal by SameValueZero (\<open>MapObjectCorrect\<close>).
  \<^item> \<open>HashMap\<close>: scripts behave as on a finite map; enumeration with removal, rehash in place, load (\<open>HashMapCorrect\<close>).
  \<^item> Sorting: the merge sort is the stable sort of the library and stays in bounds for any comparator;
    \<open>Array.prototype.sort\<close> orders by string, or by number where the comparator is recognised, then undefined elements, then
    holes (\<open>SortCorrect\<close>, \<open>ArraySortCorrect\<close>).
  \<^item> Strings: the URI functions and \<open>escape\<close> are undone by their inverses, and encoding fails exactly on lone surrogates; all
    searches find the first, or the last, occurrence (\<open>UriCodingCorrect\<close>, \<open>StringSearchCorrect\<close>).
  \<^item> Dates: the calendar in doubles is the Gregorian one on all time values (\<open>DateMathCorrect\<close>); the cache of the offset of
    daylight saving time is transparent, and the standard offset is found (\<open>LocalTimeCorrect\<close>).
\<close>

text \<open>
  \<^bold>\<open>What is not modelled.\<close>

  \<^item> The engine around these parts: parsing and compiling scripts, the interpreter and the JITs, the object model beyond own
    data properties and prototypes, garbage collection, regular expressions, promises beyond their jobs, typed arrays,
    \<open>Intl\<close>, the debugger. A script is the tree of what it does to the world of the bridge.
  \<^item> Running out of memory and interrupts where they are not an argument: in the JSON code, in the comparators and the
    reading of ropes, and in the two-byte path of \<open>unescape\<close>. \<open>createTable\<close> has one success flag for its allocations.
    \<open>ensureHash\<close> cannot fail, so the test for an invalid \<open>AddPtr\<close> is absent.
  \<^item> \<open>Array.prototype.sort\<close>: conversions of elements do not change the array, a failed merge sort is a failed sort, and the
    general sort with a comparator is self-hosted JavaScript.
  \<^item> \<open>Date\<close>: parsing, printing and the methods of \<open>Date.prototype\<close>; the spin lock and the resynchronisation of ICU.
  \<^item> Log lines, the tracing of roots, the offsets kept for the JIT, and other threads: tasks that finish on them are
    counted in the shell context.
\<close>

end
